(* ===== verification/Prelude.thy ===== *)
theory Prelude
  imports Main "HOL-Library.Word" "HOL-Library.Monad_Syntax"
begin

unbundle bit_operations_syntax

text \<open>
  Shared vocabulary of the development: the C integer types of
  \<^verbatim>\<open>src/include/common.h\<close> at their i386 widths, the error codes, the page
  macros, and the byte-addressed memory that the kernel's pointer code reads and writes.
  The generic lemmas here are on words seen as page numbers, on single bits of bytes and
  on little-endian loads and stores; the component theories get them through the simpset
  and the collections \<open>page_simps\<close> and \<open>mem_simps\<close>.
\<close>

named_theorems page_simps \<open>page arithmetic on 32-bit addresses\<close>
named_theorems mem_simps \<open>loads and stores on byte-addressed memory\<close>

section \<open>Types\<close>

type_synonym byte = "8 word"
type_synonym u16 = "16 word"
type_synonym u32 = "32 word"
type_synonym u64 = "64 word"
type_synonym mem = "u32 \<Rightarrow> byte"

datatype error_code_t =
  SUCCESS | FAILURE | NO_SUCH_FILE | NO_SUCH_DIRECTORY | INVALID_ARGUMENT | NOT_ENOUGH_RAM

text \<open>The value the C enumeration gives each code; used where the code returns an
  error code through an integer or the other way round.\<close>

primrec error_code_value :: "error_code_t \<Rightarrow> u32" where
  "error_code_value SUCCESS = 0"
| "error_code_value FAILURE = 1"
| "error_code_value NO_SUCH_FILE = 2"
| "error_code_value NO_SUCH_DIRECTORY = 3"
| "error_code_value INVALID_ARGUMENT = 4"
| "error_code_value NOT_ENOUGH_RAM = 5"

definition PAGE_SIZE :: u32 where
  "PAGE_SIZE = 4096"

definition PAGE_BOUNDARY :: "u32 \<Rightarrow> u32" where
  "PAGE_BOUNDARY val = val AND NOT (PAGE_SIZE - 1)"

definition NEXT_PAGE_BOUNDARY :: "u32 \<Rightarrow> u32" where
  "NEXT_PAGE_BOUNDARY val = (val AND NOT (PAGE_SIZE - 1)) + PAGE_SIZE"

definition KERNEL_VIRTUAL_OFFSET :: u32 where
  "KERNEL_VIRTUAL_OFFSET = 0xC0000000"

text \<open>Addresses that the linker script \<^verbatim>\<open>src/kernel/link.ld\<close> and the linker fix:
  arguments of the definitions that use them.\<close>

record linker_symbols =
  kernel_start :: u32
  kernel_end :: u32
  kernel_page_tables :: u32
  kheap_page_tables :: u32
  init_page_directory :: u32
  blocks_info :: u32

text \<open>Symbols as a build of the kernel has them, for concrete instances.\<close>

definition example_linker :: linker_symbols where
  "example_linker = \<lparr>kernel_start = 0x100000, kernel_end = 0x140000, kernel_page_tables = 0x102000,
     kheap_page_tables = 0x104000, init_page_directory = 0x101000,
     blocks_info = 0xC0120000\<rparr>"

section \<open>Memory\<close>

definition load32 :: "mem \<Rightarrow> u32 \<Rightarrow> u32" where
  "load32 m a =
     ucast (m a) OR push_bit 8 (ucast (m (a + 1)))
     OR push_bit 16 (ucast (m (a + 2))) OR push_bit 24 (ucast (m (a + 3)))"

definition store32 :: "mem \<Rightarrow> u32 \<Rightarrow> u32 \<Rightarrow> mem" where
  "store32 m a v =
     m(a := ucast v, a + 1 := ucast (drop_bit 8 v),
       a + 2 := ucast (drop_bit 16 v), a + 3 := ucast (drop_bit 24 v))"

text \<open>The \<open>n\<close> bytes from \<open>a\<close> on; the address wraps at the end of the 32-bit space.\<close>

definition span :: "u32 \<Rightarrow> nat \<Rightarrow> u32 set" where
  "span a n = {x. unat (x - a) < n}"

lemma span_iff [simp]: "x \<in> span a n \<longleftrightarrow> unat (x - a) < n"
  by (simp add: span_def)

lemma span_Suc_subset: "span (a + 1) n \<subseteq> span a (Suc n)"
proof
  fix y assume "y \<in> span (a + 1) n"
  then have "unat (y - a - 1) < n" by (simp add: diff_diff_eq)
  moreover have "unat (y - a) \<le> Suc (unat (y - a - 1))"
    by (cases "y - a = 0") (simp_all add: unat_minus_one)
  ultimately show "y \<in> span a (Suc n)" by simp
qed

lemma not_in_span_next: "n < 2 ^ 32 \<Longrightarrow> a \<notin> span (a + 1) n"
proof -
  assume "n < 2 ^ 32"
  moreover have "unat (a - (a + 1)) = 2 ^ 32 - 1" by (simp add: unsigned_minus_1_eq_mask mask_eq_exp_minus_1)
  ultimately show ?thesis unfolding span_iff by linarith
qed

lemma of_nat_in_span: "i < n \<Longrightarrow> n \<le> 2 ^ 32 \<Longrightarrow> a + of_nat i \<in> span a n"
  by (simp add: unat_of_nat)

lemma span_nowrap:
  assumes "unat a + n \<le> 2 ^ 32"
  shows "x \<in> span a n \<longleftrightarrow> unat a \<le> unat x \<and> unat x < unat a + n"
  using assms unsigned_less[of x, where ?'a = nat] by (auto simp: unat_sub_if' split: if_splits)

lemma span_disjoint:
  assumes "unat a + n \<le> unat b" "unat b + k \<le> 2 ^ 32"
  shows "span a n \<inter> span b k = {}"
proof -
  have "unat a + n \<le> 2 ^ 32" using assms by simp
  then show ?thesis using assms unfolding disjoint_iff by (simp only: span_nowrap) linarith
qed

lemma load32_store32_same [simp, mem_simps]: "load32 (store32 m a v) a = v"
  unfolding load32_def store32_def
  apply (simp)
  apply (rule bit_word_eqI)
  subgoal for n
    apply (cases "n < 8"; cases "n < 16"; cases "n < 24")
    by (auto simp: bit_simps)
  done

lemma load32_cong:
  assumes "\<And>x. x \<in> span a 4 \<Longrightarrow> m x = m' x"
  shows "load32 m a = load32 m' a"
proof -
  have "unat (1::u32) < 4" "unat (2::u32) < 4" "unat (3::u32) < 4" by simp_all
  then show ?thesis using assms[of a] assms[of "a + 1"] assms[of "a + 2"] assms[of "a + 3"]
    by (simp add: load32_def)
qed

lemma store32_other: "x \<notin> span a 4 \<Longrightarrow> store32 m a v x = m x"
proof -
  have "unat (1::u32) < 4" "unat (2::u32) < 4" "unat (3::u32) < 4" by simp_all
  assume "x \<notin> span a 4"
  then have "x \<noteq> a" "x \<noteq> a + 1" "x \<noteq> a + 2" "x \<noteq> a + 3" by auto
  then show ?thesis by (simp add: store32_def)
qed

lemma load32_store32_disjoint [mem_simps]:
  "span a 4 \<inter> span b 4 = {} \<Longrightarrow> load32 (store32 m b v) a = load32 m a"
  by (rule load32_cong, rule store32_other) blast

section \<open>Pages\<close>

lemma page_mask: "PAGE_SIZE - 1 = mask 12"
  by (simp add: PAGE_SIZE_def mask_eq_exp_minus_1)

lemma PAGE_BOUNDARY_alt: "PAGE_BOUNDARY v = push_bit 12 (drop_bit 12 v)"
  unfolding PAGE_BOUNDARY_def page_mask
  by (rule bit_word_eqI) (auto simp: bit_simps)

lemma unat_PAGE_BOUNDARY [page_simps]: "unat (PAGE_BOUNDARY v) = unat v div 4096 * 4096"
proof -
  have "unat v div 4096 * 4096 \<le> unat v" by simp
  also have "unat v < 2 ^ 32" using unsigned_less[of v, where ?'a = nat] by simp
  finally have "unat v div 4096 * 4096 mod 2 ^ 32 = unat v div 4096 * 4096" by simp
  then show ?thesis
    by (simp add: PAGE_BOUNDARY_alt push_bit_eq_mult drop_bit_eq_div unat_word_ariths unat_div)
qed

lemma PAGE_BOUNDARY_eq_iff [page_simps]: "PAGE_BOUNDARY v = v \<longleftrightarrow> 4096 dvd unat v"
  by (metis dvd_div_mult_self dvd_triv_right unat_PAGE_BOUNDARY word_unat_eq_iff)

section \<open>Lists\<close>

lemma list_run_split:
  assumes "m + n < length t" "\<forall>i<m. t ! i \<noteq> c" "\<forall>i<n. t ! (m + i) = c"
  obtains xs y ys where "t = xs @ replicate n c @ y # ys" "length xs = m" "\<forall>x\<in>set xs. x \<noteq> c"
proof -
  have "t = take m t @ take n (drop m t) @ drop (m + n) t" by (metis append_take_drop_id drop_drop add.commute)
  moreover have "take n (drop m t) = replicate n c" using assms by (intro nth_equalityI) simp_all
  moreover obtain y ys where "drop (m + n) t = y # ys" using assms(1) by (metis Cons_nth_drop_Suc)
  moreover have "\<forall>x\<in>set (take m t). x \<noteq> c" "length (take m t) = m" using assms by (fastforce simp: in_set_conv_nth)+
  ultimately show thesis using that[of "take m t" y ys] by simp
qed

section \<open>Counting loops\<close>

text \<open>The loop \<open>for(int i = start; i < limit; i++) body\<close> where \<open>limit\<close> is unsigned, so
  that the comparison is one of 32-bit words. A body that does not come back ends the loop.\<close>

function for_range :: "(u32 \<Rightarrow> 's \<Rightarrow> 's option) \<Rightarrow> u32 \<Rightarrow> u32 \<Rightarrow> 's \<Rightarrow> 's option" where
  "for_range body i limit s =
     (if i < limit then do { s' \<leftarrow> body i s; for_range body (i + 1) limit s' } else Some s)"
  by pat_completeness auto
termination
proof (relation "measure (\<lambda>(body, i, limit, s). unat limit - unat i)")
  fix body :: "u32 \<Rightarrow> 's \<Rightarrow> 's option" and i limit :: u32 and s s' :: 's
  assume "i < limit"
  then have "unat i < unat limit" "unat limit < 2 ^ 32"
    using unsigned_less[of limit, where ?'a = nat] by (simp_all add: word_less_nat_alt)
  then have "unat (i + 1) = unat i + 1" by (simp add: unat_word_ariths)
  with \<open>unat i < unat limit\<close>
  show "((body, i + 1, limit, s'), body, i, limit, s) \<in> measure (\<lambda>(body, i, limit, s). unat limit - unat i)"
    by simp
qed simp

declare for_range.simps [simp del]

lemma for_range_done [simp]: "\<not> i < limit \<Longrightarrow> for_range body i limit s = Some s"
  by (simp add: for_range.simps)

lemma for_range_one: "i < i + 1 \<Longrightarrow> for_range body i (i + 1) s = body i s"
  by (subst for_range.simps) (simp split: Option.bind_split)

text \<open>A loop from index \<open>a\<close> over \<open>n\<close> steps that stays below \<open>2 ^ 32\<close>, by an invariant that
  counts the steps done.\<close>

lemma for_range_rule:
  assumes "unat a + n < 2 ^ 32" "I 0 s"
    and "\<And>k s. k < n \<Longrightarrow> I k s \<Longrightarrow> \<exists>s'. body (a + of_nat k) s = Some s' \<and> I (Suc k) s'"
  shows "\<exists>s'. for_range body a (a + of_nat n) s = Some s' \<and> I n s'"
proof -
  have "\<exists>s'. for_range body (a + of_nat k) (a + of_nat n) s = Some s' \<and> I n s'" if "k \<le> n" "I k s" for k s
    using that
  proof (induction "n - k" arbitrary: k s)
    case 0
    then show ?case by simp
  next
    case (Suc m)
    then have k: "k < n" by simp
    then have "a + of_nat k < a + of_nat n"
      using assms(1) by (simp add: word_less_nat_alt unat_word_ariths unat_of_nat)
    moreover obtain s1 where s1: "body (a + of_nat k) s = Some s1" "I (Suc k) s1"
      using assms(3)[OF k Suc.prems(2)] by blast
    moreover have "\<exists>s'. for_range body (a + of_nat (Suc k)) (a + of_nat n) s1 = Some s' \<and> I n s'"
      using Suc.hyps(1)[of "Suc k" s1] Suc.hyps(2) k s1(2) by simp
    moreover have "a + of_nat (Suc k) = a + of_nat k + 1" by simp
    ultimately show ?case by (subst for_range.simps) (simp del: of_nat_Suc)
  qed
  from this[of 0 s] assms(2) show ?thesis by simp
qed

end
