(* ===== verification/LibcMemory.thy ===== *)
theory LibcMemory
  imports Prelude
begin

text \<open>
  The helpers of \<^verbatim>\<open>src/libc/memory.c\<close>. A buffer is a function from its index to its
  bytes: \<open>mem\<close> for a pointer into memory, \<open>nat \<Rightarrow> byte\<close> for a static array. The
  \<open>for\<close> loops become a \<open>fold\<close> over the indices they visit, so a forward copy is the
  byte-by-byte copy of the source, also when the two buffers overlap. Bit 0 is the most
  significant bit of a byte, as the comments of the file say.
\<close>

section \<open>Definitions\<close>

definition memcpy :: "mem \<Rightarrow> u32 \<Rightarrow> u32 \<Rightarrow> u32 \<Rightarrow> mem" where
  "memcpy m dst src num =
     fold (\<lambda>i m. m(dst + of_nat i := m (src + of_nat i))) [0..<unat num] m"

definition memset :: "byte \<Rightarrow> 'i::semiring_1 \<Rightarrow> u32 \<Rightarrow> ('i \<Rightarrow> byte) \<Rightarrow> ('i \<Rightarrow> byte)" where
  "memset val addr len m = fold (\<lambda>i m. m(addr + of_nat i := val)) [0..<unat len] m"

text \<open>A \<open>char\<close> is sign-extended before the shift.\<close>

definition extract_bit :: "byte \<Rightarrow> nat \<Rightarrow> byte" where
  "extract_bit val bit_index =
     ucast (signed_drop_bit (8 - bit_index - 1) (scast val :: u32) AND 1)"

function get_msb_index_loop :: "nat \<Rightarrow> byte \<Rightarrow> nat" where
  "get_msb_index_loop index val =
     (if val \<noteq> 0 then get_msb_index_loop (Suc index) (drop_bit 1 val) else index)"
  by pat_completeness auto
termination
proof (relation "measure (\<lambda>(index, val). unat val)")
  fix index :: nat and val :: byte
  assume "val \<noteq> 0"
  then have "0 < unat val" by (simp add: unat_gt_0)
  then show "((Suc index, drop_bit 1 val), index, val) \<in> measure (\<lambda>(index, val). unat val)"
    by (simp add: drop_bit_eq_div unat_div)
qed simp

declare get_msb_index_loop.simps [simp del]

definition get_msb_index :: "byte \<Rightarrow> nat" where
  "get_msb_index val = 8 - get_msb_index_loop 0 val"

definition turn_bit_on :: "byte \<Rightarrow> nat \<Rightarrow> byte" where
  "turn_bit_on val bit_index = val OR ucast (drop_bit bit_index (0x80 :: u32))"

definition turn_bit_off :: "byte \<Rightarrow> nat \<Rightarrow> byte" where
  "turn_bit_off val bit_index = val AND ucast (NOT (drop_bit bit_index (0x80 :: u32)))"

text \<open>\<open>base\<close> is the element the argument \<open>buffer\<close> points to, so a call with
  \<open>&bitmap[i]\<close> is a call with \<open>base = i\<close>.\<close>

definition turn_bits_off :: "(nat \<Rightarrow> byte) \<Rightarrow> nat \<Rightarrow> nat \<Rightarrow> nat \<Rightarrow> (nat \<Rightarrow> byte)" where
  "turn_bits_off buffer base bit_index num_bits =
     fold (\<lambda>i b. b(base + i div 8 := turn_bit_off (b (base + i div 8)) (i mod 8)))
       [bit_index..<bit_index + num_bits] buffer"

definition turn_bits_on :: "(nat \<Rightarrow> byte) \<Rightarrow> nat \<Rightarrow> nat \<Rightarrow> nat \<Rightarrow> (nat \<Rightarrow> byte)" where
  "turn_bits_on buffer base bit_index num_bits =
     fold (\<lambda>i b. b(base + i div 8 := turn_bit_on (b (base + i div 8)) (i mod 8)))
       [bit_index..<bit_index + num_bits] buffer"

text \<open>Page \<open>k\<close> of a bitmap: bit \<open>k mod 8\<close>, counted from the most significant one, of
  byte \<open>k div 8\<close>.\<close>

definition bitmap_test :: "(nat \<Rightarrow> byte) \<Rightarrow> nat \<Rightarrow> bool" where
  "bitmap_test b k \<longleftrightarrow> bit (b (k div 8)) (7 - k mod 8)"

section \<open>Single bits\<close>

lemma bit_0x80: "bit (drop_bit i (0x80 :: u32)) k \<longleftrightarrow> i + k = 7"
proof -
  have "(0x80 :: u32) = push_bit 7 1" by simp
  then have "bit (0x80 :: u32) n \<longleftrightarrow> n = 7" for n
    by (simp only: bit_push_bit_iff bit_1_iff possible_bit_word) auto
  then show ?thesis by (simp add: bit_drop_bit_eq)
qed

lemma bit_turn_bit_on: "bit (turn_bit_on v i) k \<longleftrightarrow> bit v k \<or> i + k = 7"
  using bit_0x80[of i k] by (auto simp: turn_bit_on_def bit_simps)

lemma bit_turn_bit_off: "bit (turn_bit_off v i) k \<longleftrightarrow> bit v k \<and> i + k \<noteq> 7"
  using bit_0x80[of i k] by (auto simp: turn_bit_off_def bit_simps dest: bit_imp_le_length)

lemma extract_bit_eq: "i < 8 \<Longrightarrow> extract_bit v i = (if bit v (7 - i) then 1 else 0)"
  by (rule bit_word_eqI) (auto simp: extract_bit_def bit_simps intro: ccontr)

lemma bitmap_test_eq_extract_bit: "bitmap_test b k \<longleftrightarrow> extract_bit (b (k div 8)) (k mod 8) = 1"
  by (simp add: bitmap_test_def extract_bit_eq)

lemma div_mod_8_eq:
  fixes k i :: nat
  assumes "k div 8 = i div 8"
  shows "i mod 8 + (7 - k mod 8) = 7 \<longleftrightarrow> k = i"
proof -
  have "k mod 8 < 8" "i mod 8 < 8" by simp_all
  then have "i mod 8 + (7 - k mod 8) = 7 \<longleftrightarrow> k mod 8 = i mod 8" by linarith
  also have "\<dots> \<longleftrightarrow> k = i" using assms by (metis div_mult_mod_eq)
  finally show ?thesis .
qed

lemma bitmap_test_turn_on [simp]:
  "bitmap_test (b(i div 8 := turn_bit_on (b (i div 8)) (i mod 8))) k \<longleftrightarrow> k = i \<or> bitmap_test b k"
  using div_mod_8_eq[of k i] by (auto simp: bitmap_test_def bit_turn_bit_on)

lemma bitmap_test_turn_off [simp]:
  "bitmap_test (b(i div 8 := turn_bit_off (b (i div 8)) (i mod 8))) k \<longleftrightarrow> k \<noteq> i \<and> bitmap_test b k"
  using div_mod_8_eq[of k i] by (auto simp: bitmap_test_def bit_turn_bit_off)

lemma bitmap_test_turn_bits_on:
  "bitmap_test (turn_bits_on b base i n) k \<longleftrightarrow>
     (8 * base + i \<le> k \<and> k < 8 * base + i + n) \<or> bitmap_test b k"
proof (induction n)
  case (Suc n)
  define j where "j = 8 * base + i + n"
  have j: "base + (i + n) div 8 = j div 8" "(i + n) mod 8 = j mod 8"
    by (simp_all add: j_def add.assoc)
  have "turn_bits_on b base i (Suc n) = (turn_bits_on b base i n)
      (j div 8 := turn_bit_on (turn_bits_on b base i n (j div 8)) (j mod 8))"
    by (simp add: turn_bits_on_def j)
  then have "bitmap_test (turn_bits_on b base i (Suc n)) k \<longleftrightarrow> k = j \<or> bitmap_test (turn_bits_on b base i n) k"
    by (simp only: bitmap_test_turn_on)
  with Suc show ?case by (auto simp: j_def)
qed (auto simp: turn_bits_on_def)

lemma bitmap_test_turn_bits_off:
  "bitmap_test (turn_bits_off b base i n) k \<longleftrightarrow>
     \<not> (8 * base + i \<le> k \<and> k < 8 * base + i + n) \<and> bitmap_test b k"
proof (induction n)
  case (Suc n)
  define j where "j = 8 * base + i + n"
  have j: "base + (i + n) div 8 = j div 8" "(i + n) mod 8 = j mod 8"
    by (simp_all add: j_def add.assoc)
  have "turn_bits_off b base i (Suc n) = (turn_bits_off b base i n)
      (j div 8 := turn_bit_off (turn_bits_off b base i n (j div 8)) (j mod 8))"
    by (simp add: turn_bits_off_def j)
  then have "bitmap_test (turn_bits_off b base i (Suc n)) k \<longleftrightarrow> k \<noteq> j \<and> bitmap_test (turn_bits_off b base i n) k"
    by (simp only: bitmap_test_turn_off)
  with Suc show ?case by (auto simp: j_def)
qed (auto simp: turn_bits_off_def)

lemma byte_zero_iff: "(v::byte) = 0 \<longleftrightarrow> (\<forall>k<8. \<not> bit v k)"
  by (auto simp: bit_eq_iff dest: bit_imp_le_length)

lemma get_msb_index_loop_spec:
  "\<exists>l. get_msb_index_loop index v = index + l
      \<and> (if v = 0 then l = 0 else 0 < l \<and> bit v (l - 1)) \<and> (\<forall>k\<ge>l. \<not> bit v k)"
proof (induction index v rule: get_msb_index_loop.induct)
  case (1 index v)
  show ?case
  proof (cases "v = 0")
    case True
    then show ?thesis by (simp add: get_msb_index_loop.simps)
  next
    case False
    with "1.IH" obtain l where l: "get_msb_index_loop (Suc index) (drop_bit 1 v) = Suc index + l"
      "if drop_bit 1 v = 0 then l = 0 else 0 < l \<and> bit (drop_bit 1 v) (l - 1)"
      "\<forall>k\<ge>l. \<not> bit (drop_bit 1 v) k"
      by blast
    have hi: "\<not> bit v k" if "Suc l \<le> k" for k
      using l(3)[rule_format, of "k - 1"] that by (simp add: bit_drop_bit_eq)
    have "bit v l"
    proof (cases "drop_bit 1 v = 0")
      case True
      with l(2) have "l = 0" by simp
      with hi have "\<not> bit v k" if "k \<noteq> 0" for k using that by (cases k) auto
      with False have "bit v 0" by (metis bit_eqI bit_0_eq bot_apply bot_bool_def)
      with \<open>l = 0\<close> show ?thesis by simp
    next
      case nz: False
      with l(2) have "0 < l" "bit (drop_bit 1 v) (l - 1)" by auto
      then show ?thesis by (cases l) (auto simp: bit_drop_bit_eq)
    qed
    with False l hi show ?thesis
      by (auto simp: get_msb_index_loop.simps[of index v] intro!: exI[of _ "Suc l"])
  qed
qed

lemma get_msb_index_spec:
  assumes "v \<noteq> 0"
  shows "get_msb_index v < 8" "bit v (7 - get_msb_index v)" "\<forall>j<get_msb_index v. \<not> bit v (7 - j)"
proof -
  obtain l where l: "get_msb_index_loop 0 v = l" "0 < l" "bit v (l - 1)" "\<forall>k\<ge>l. \<not> bit v k"
    using get_msb_index_loop_spec[of 0 v] assms by auto
  from bit_imp_le_length[OF l(3)] l(2) have "l \<le> 8" by simp
  with l show "get_msb_index v < 8" "bit v (7 - get_msb_index v)"
    "\<forall>j<get_msb_index v. \<not> bit v (7 - j)"
    by (auto simp: get_msb_index_def)
qed

section \<open>Copying and filling\<close>

lemma memset_nat [simp]:
  "memset v 0 len b i = (if i < unat len then v else b i)" for b :: "nat \<Rightarrow> byte"
proof -
  have "fold (\<lambda>i m. m(i := v)) [0..<n] b i = (if i < n then v else b i)" for n
    by (induction n) auto
  then show ?thesis by (simp add: memset_def)
qed

lemma eq_add_of_nat_iff: "n < 2 ^ 32 \<Longrightarrow> x = a + of_nat n \<longleftrightarrow> unat (x - a) = n" for x a :: u32
  by (auto simp: unat_of_nat)

lemma memset_mem:
  "memset v a len m x = (if x \<in> span a (unat len) then v else m x)" for m :: mem
proof -
  have "fold (\<lambda>i m. m(a + of_nat i := v)) [0..<n] m x = (if x \<in> span a n then v else m x)"
    if "n \<le> 2 ^ 32" for n
    using that
  proof (induction n)
    case (Suc n)
    then have "x = a + of_nat n \<longleftrightarrow> unat (x - a) = n" by (intro eq_add_of_nat_iff) simp
    with Suc show ?case by (auto simp: less_Suc_eq)
  qed simp
  moreover have "unat len \<le> 2 ^ 32" using unsigned_less[of len, where ?'a = nat] by simp
  ultimately show ?thesis by (simp add: memset_def)
qed

lemma memcpy_bytes:
  assumes "\<And>i. i < unat num \<Longrightarrow> src + of_nat i \<notin> span dst i"
  shows "memcpy m dst src num x = (if x \<in> span dst (unat num) then m (src + (x - dst)) else m x)"
proof -
  have "fold (\<lambda>i m. m(dst + of_nat i := m (src + of_nat i))) [0..<n] m x
      = (if x \<in> span dst n then m (src + (x - dst)) else m x)" if "n \<le> unat num" for n x
    using that
  proof (induction n arbitrary: x)
    case (Suc n)
    have n: "n < 2 ^ 32" using Suc.prems unsigned_less[of num, where ?'a = nat] by simp
    then have x: "x = dst + of_nat n \<longleftrightarrow> unat (x - dst) = n" by (rule eq_add_of_nat_iff)
    have "src + of_nat n \<notin> span dst n" using assms[of n] Suc.prems by simp
    with Suc x show ?case by (auto simp: less_Suc_eq)
  qed simp
  then show ?thesis by (simp add: memcpy_def)
qed

end
