(* ===== verification/LibcString.thy ===== *)
theory LibcString
  imports LibcMemory
begin

text \<open>
  The string functions of \<^verbatim>\<open>src/libc/string.c\<close> on byte-addressed memory. A loop that
  runs until it meets a terminating zero byte is a \<open>partial_function\<close>: its value is
  \<open>None\<close> when it never returns. A \<open>char\<close> is signed, so it is compared and subtracted
  through \<open>sint\<close>; \<open>NULL\<close> is the address 0.
\<close>

section \<open>Definitions\<close>

partial_function (option) strcpy :: "mem \<Rightarrow> u32 \<Rightarrow> u32 \<Rightarrow> (u32 \<times> mem) option" where
  "strcpy m dest source =
     (let m' = m(dest := m source)
      in if m source \<noteq> 0 then strcpy m' (dest + 1) (source + 1) else Some (dest + 1, m'))"

text \<open>The byte is copied first, \<open>num\<close> is tested and decremented afterwards.\<close>

function strncpy :: "mem \<Rightarrow> u32 \<Rightarrow> u32 \<Rightarrow> int \<Rightarrow> u32 \<times> mem" where
  "strncpy m dest source num =
     (let m' = m(dest := m source)
      in if m source \<noteq> 0 \<and> num > 0 then strncpy m' (dest + 1) (source + 1) (num - 1)
         else (dest + 1, m'))"
  by pat_completeness auto
termination
  by (relation "measure (\<lambda>(m, dest, source, num). nat num)") auto

declare strncpy.simps [simp del]

partial_function (option) strcmp :: "mem \<Rightarrow> u32 \<Rightarrow> u32 \<Rightarrow> int option" where
  "strcmp m str1 str2 =
     (if m str1 \<noteq> 0 \<and> m str2 \<noteq> 0
      then if m str1 \<noteq> m str2 then Some (sint (m str1) - sint (m str2))
           else strcmp m (str1 + 1) (str2 + 1)
      else if m str2 \<noteq> 0 then Some (- 1)
      else if m str1 \<noteq> 0 then Some 1
      else Some 0)"

text \<open>Both arguments are cut at \<open>max_length - 1\<close>, in memory, before they are compared.\<close>

definition strncmp :: "mem \<Rightarrow> u32 \<Rightarrow> u32 \<Rightarrow> u32 \<Rightarrow> (int \<times> mem) option" where
  "strncmp m str1 str2 max_length =
     (let m1 = m(str1 + (max_length - 1) := 0);
          m2 = m1(str2 + (max_length - 1) := 0)
      in do { r \<leftarrow> strcmp m2 str1 str2; Some (r, m2) })"

partial_function (option) char_in_string :: "mem \<Rightarrow> byte \<Rightarrow> u32 \<Rightarrow> bool option" where
  "char_in_string m character str =
     (if m str \<noteq> 0
      then if m str = character then Some True else char_in_string m character (str + 1)
      else Some False)"

partial_function (option) strpbrk :: "mem \<Rightarrow> u32 \<Rightarrow> u32 \<Rightarrow> u32 option" where
  "strpbrk m str1 str2 =
     (if m str1 \<noteq> 0
      then do {
        found \<leftarrow> char_in_string m (m str1) str2;
        if found then Some str1 else strpbrk m (str1 + 1) str2
      }
      else Some 0)"

partial_function (option) strspn_loop :: "mem \<Rightarrow> u32 \<Rightarrow> u32 \<Rightarrow> u32 \<Rightarrow> u32 option" where
  "strspn_loop m str1 str2 number_of_chars =
     (if m str1 \<noteq> 0
      then do {
        found \<leftarrow> char_in_string m (m str1) str2;
        if \<not> found then Some number_of_chars
        else strspn_loop m (str1 + 1) str2 (number_of_chars + 1)
      }
      else Some number_of_chars)"

definition strspn :: "mem \<Rightarrow> u32 \<Rightarrow> u32 \<Rightarrow> u32 option" where
  "strspn m str1 str2 = strspn_loop m str1 str2 0"

partial_function (option) strchr :: "mem \<Rightarrow> u32 \<Rightarrow> int \<Rightarrow> u32 option" where
  "strchr m str character =
     (if m str \<noteq> 0
      then if sint (m str) = character then Some str else strchr m (str + 1) character
      else Some 0)"

text \<open>\<open>old_str\<close> is the static variable of \<open>strtok\<close>; the result is the token, its new
  value and the memory.\<close>

definition strtok :: "mem \<Rightarrow> u32 \<Rightarrow> u32 \<Rightarrow> u32 \<Rightarrow> (u32 \<times> u32 \<times> mem) option" where
  "strtok m old_str str delimiters = do {
     let str = (if str = 0 then old_str else str);
     n \<leftarrow> strspn m str delimiters;
     let str = str + n;
     if m str = 0 then Some (0, old_str, m)
     else do {
       token \<leftarrow> strpbrk m str delimiters;
       if token = 0
       then do { old_str' \<leftarrow> strchr m str 0; Some (str, old_str', m) }
       else Some (str, token + 1, m(token := 0))
     }
   }"

text \<open>The loop of \<open>count_chars\<close> does not advance \<open>str\<close>, that of \<open>strstr\<close> does not
  advance \<open>haystack\<close>.\<close>

partial_function (option) count_chars_loop :: "mem \<Rightarrow> u32 \<Rightarrow> int \<Rightarrow> u32 \<Rightarrow> u32 option" where
  "count_chars_loop m str character count =
     (if m str \<noteq> 0
      then if sint (m str) = character then count_chars_loop m str character (count + 1)
           else count_chars_loop m str character count
      else Some count)"

definition count_chars :: "mem \<Rightarrow> u32 \<Rightarrow> int \<Rightarrow> u32 option" where
  "count_chars m str character = count_chars_loop m str character 0"

partial_function (option) strstr_loop :: "mem \<Rightarrow> u32 \<Rightarrow> u32 \<Rightarrow> u32 \<Rightarrow> u32 \<Rightarrow> u32 option" where
  "strstr_loop m haystack needle needle_iter substr =
     (if m haystack \<noteq> 0 \<and> m needle \<noteq> 0
      then if m needle_iter = m haystack
           then strstr_loop m haystack needle (needle_iter + 1) (if substr = 0 then haystack else substr)
           else strstr_loop m haystack needle needle 0
      else Some substr)"

definition strstr :: "mem \<Rightarrow> u32 \<Rightarrow> u32 \<Rightarrow> u32 option" where
  "strstr m haystack needle =
     (if haystack = 0 \<or> needle = 0 then Some 0 else strstr_loop m haystack needle needle 0)"

partial_function (option) strlen_loop :: "mem \<Rightarrow> u32 \<Rightarrow> u32 \<Rightarrow> u32 option" where
  "strlen_loop m str counter =
     (if m str \<noteq> 0 then strlen_loop m (str + 1) (counter + 1) else Some counter)"

definition strlen :: "mem \<Rightarrow> u32 \<Rightarrow> u32 option" where
  "strlen m str = strlen_loop m str 0"

text \<open>The C string \<open>xs\<close> stands at \<open>s\<close>: its bytes, none of them 0, then a 0.\<close>

primrec cstr :: "mem \<Rightarrow> u32 \<Rightarrow> byte list \<Rightarrow> bool" where
  "cstr m s [] \<longleftrightarrow> m s = 0"
| "cstr m s (x # xs) \<longleftrightarrow> m s = x \<and> x \<noteq> 0 \<and> cstr m (s + 1) xs"

section \<open>C strings\<close>

lemma cstr_nonzero: "cstr m s xs \<Longrightarrow> 0 \<notin> set xs"
  by (induction xs arbitrary: s) auto

lemma cstr_unique: "cstr m s xs \<Longrightarrow> cstr m s ys \<Longrightarrow> xs = ys"
proof (induction xs arbitrary: s ys)
  case Nil
  then show ?case by (cases ys) auto
next
  case (Cons x xs)
  then show ?case by (cases ys) auto
qed

lemma cstr_append: "cstr m s (xs @ ys) \<Longrightarrow> cstr m (s + of_nat (length xs)) ys"
  by (induction xs arbitrary: s) (auto simp: add.assoc[symmetric])

lemma cstr_nth: "cstr m s xs \<Longrightarrow> i < length xs \<Longrightarrow> m (s + of_nat i) = xs ! i"
proof (induction xs arbitrary: s i)
  case (Cons x xs)
  then show ?case
    by (cases i) (auto simp: add.assoc[symmetric])
qed simp

lemma cstr_end: "cstr m s xs \<Longrightarrow> m (s + of_nat (length xs)) = 0"
  using cstr_append[of m s xs "[]"] by simp

lemma cstr_cong:
  assumes "\<And>i. i \<le> length xs \<Longrightarrow> m' (s + of_nat i) = m (s + of_nat i)"
  shows "cstr m' s xs = cstr m s xs"
  using assms
proof (induction xs arbitrary: s)
  case (Cons x xs)
  have "cstr m' (s + 1) xs = cstr m (s + 1) xs"
  proof (rule Cons.IH)
    fix i assume "i \<le> length xs"
    then show "m' (s + 1 + of_nat i) = m (s + 1 + of_nat i)"
      using Cons.prems[of "Suc i"] by (simp add: add.assoc)
  qed
  then show ?case using Cons.prems[of 0] by simp
qed (use assms[of 0] in simp)

section \<open>Scanning functions\<close>

lemma strlen_loop_cstr: "cstr m s xs \<Longrightarrow> strlen_loop m s c = Some (c + of_nat (length xs))"
proof (induction xs arbitrary: s c)
  case (Cons x xs)
  then show ?case by (subst strlen_loop.simps) (simp add: add.assoc)
qed (simp add: strlen_loop.simps)

lemma char_in_string_cstr: "cstr m s xs \<Longrightarrow> char_in_string m c s = Some (c \<in> set xs)"
proof (induction xs arbitrary: s)
  case (Cons x xs)
  then show ?case by (subst char_in_string.simps) auto
qed (simp add: char_in_string.simps)

lemma strspn_loop_cstr:
  assumes "cstr m d ds"
  shows "cstr m s xs \<Longrightarrow> strspn_loop m s d n = Some (n + of_nat (length (takeWhile (\<lambda>c. c \<in> set ds) xs)))"
proof (induction xs arbitrary: s n)
  case (Cons x xs)
  then show ?case
    by (subst strspn_loop.simps) (auto simp: char_in_string_cstr[OF assms] add.assoc)
qed (simp add: strspn_loop.simps)

lemma strspn_cstr:
  "cstr m d ds \<Longrightarrow> cstr m s xs \<Longrightarrow> strspn m s d = Some (of_nat (length (takeWhile (\<lambda>c. c \<in> set ds) xs)))"
  by (simp add: strspn_def strspn_loop_cstr)

lemma strpbrk_cstr:
  assumes "cstr m d ds"
  shows "cstr m s xs \<Longrightarrow> strpbrk m s d =
    Some (if \<exists>c\<in>set xs. c \<in> set ds then s + of_nat (length (takeWhile (\<lambda>c. c \<notin> set ds) xs)) else 0)"
proof (induction xs arbitrary: s)
  case (Cons x xs)
  then show ?case
    by (subst strpbrk.simps) (auto simp: char_in_string_cstr[OF assms] add.assoc)
qed (simp add: strpbrk.simps)

lemma strchr_cstr:
  "cstr m s xs \<Longrightarrow> strchr m s c =
    Some (if c \<in> sint ` set xs then s + of_nat (length (takeWhile (\<lambda>x. sint x \<noteq> c) xs)) else 0)"
proof (induction xs arbitrary: s)
  case (Cons x xs)
  then show ?case by (subst strchr.simps) (auto simp: add.assoc)
qed (simp add: strchr.simps)

section \<open>Comparison and copying\<close>

lemma sint_eq_iff_byte: "sint (x :: byte) = sint y \<longleftrightarrow> x = y"
  by (metis signed_word_eqI)

lemma strcmp_cstr:
  "cstr m a xs \<Longrightarrow> cstr m b ys \<Longrightarrow>
   \<exists>r. strcmp m a b = Some r \<and> (r = 0 \<longleftrightarrow> xs = ys)
     \<and> (r < 0 \<longleftrightarrow> (map sint xs, map sint ys) \<in> lexord {(x, y). x < y})"
proof (induction xs arbitrary: a b ys)
  case Nil
  then show ?case by (cases ys) (auto simp: strcmp.simps)
next
  case (Cons x xs)
  show ?case
  proof (cases ys)
    case Nil
    with Cons.prems show ?thesis by (auto simp: strcmp.simps)
  next
    case ys: (Cons y zs)
    show ?thesis
    proof (cases "x = y")
      case True
      then have "strcmp m a b = strcmp m (a + 1) (b + 1)"
        using Cons.prems ys by (subst strcmp.simps) simp
      then show ?thesis using Cons.IH[of "a + 1" "b + 1" zs] Cons.prems ys True by auto
    next
      case False
      then have "strcmp m a b = Some (sint x - sint y)"
        using Cons.prems ys by (subst strcmp.simps) auto
      then show ?thesis using False ys by (auto simp: sint_eq_iff_byte)
    qed
  qed
qed

lemma strcpy_cstr:
  assumes "cstr m src xs" "span dest (Suc (length xs)) \<inter> span src (Suc (length xs)) = {}"
    "Suc (length xs) < 2 ^ 32"
  shows "\<exists>m'. strcpy m dest src = Some (dest + of_nat (length xs) + 1, m') \<and> cstr m' dest xs
    \<and> (\<forall>x. x \<notin> span dest (Suc (length xs)) \<longrightarrow> m' x = m x)"
  using assms
proof (induction xs arbitrary: m dest src)
  case Nil
  then show ?case by (subst strcpy.simps) (auto simp: unat_gt_0)
next
  case (Cons x xs)
  let ?m = "m(dest := x)"
  let ?n = "Suc (length xs)"
  have n: "?n < 2 ^ 32" using Cons.prems(3) by simp
  have dest: "dest \<in> span dest (Suc ?n)" by simp
  then have notin: "dest \<notin> span src (Suc ?n)" using Cons.prems(2) unfolding disjoint_iff by fastforce
  have "dest \<noteq> src + 1 + of_nat i" if "i \<le> length xs" for i
    using notin of_nat_in_span[of "Suc i" "Suc ?n" src] that Cons.prems(3) by (auto simp: add.assoc)
  then have "cstr ?m (src + 1) xs = cstr m (src + 1) xs" by (intro cstr_cong) auto
  with Cons.prems(1) have "cstr ?m (src + 1) xs" by simp
  moreover have "span (dest + 1) ?n \<inter> span (src + 1) ?n = {}"
    using Cons.prems(2) span_Suc_subset[of dest ?n] span_Suc_subset[of src ?n] by fastforce
  ultimately obtain m' where m': "strcpy ?m (dest + 1) (src + 1) = Some (dest + 1 + of_nat (length xs) + 1, m')"
    "cstr m' (dest + 1) xs" "\<forall>y. y \<notin> span (dest + 1) ?n \<longrightarrow> m' y = ?m y"
    using Cons.IH[of ?m "src + 1" "dest + 1"] n by blast
  have "strcpy m dest src = strcpy ?m (dest + 1) (src + 1)"
    using Cons.prems(1) by (subst strcpy.simps) (simp add: Let_def)
  moreover have "m' dest = x" using m'(3) not_in_span_next[OF n] by simp
  moreover have "m' y = m y" if "y \<notin> span dest (Suc ?n)" for y
  proof -
    have "y \<notin> span (dest + 1) ?n" using that span_Suc_subset[of dest ?n] by blast
    moreover have "y \<noteq> dest" using that dest by blast
    ultimately show ?thesis using m'(3) by simp
  qed
  ultimately show ?case using m'(1,2) Cons.prems(1) by (auto simp: algebra_simps)
qed

section \<open>Endless loops\<close>

lemma count_chars_loop_returns: "count_chars_loop m s c n = Some r \<Longrightarrow> m s = 0"
proof (rule count_chars_loop.raw_induct[where P = "\<lambda>m s c n r. m s = 0"])
  fix f and m :: mem and s c n r
  assume IH: "\<And>m s c n r. f m s c n = Some r \<Longrightarrow> m s = 0"
    and eq: "(if m s \<noteq> 0 then if sint (m s) = c then f m s c (n + 1) else f m s c n else Some n) = Some r"
  then show "m s = 0" by (metis)
qed

lemma strstr_loop_returns: "strstr_loop m h n i s = Some r \<Longrightarrow> m h = 0 \<or> m n = 0"
proof (rule strstr_loop.raw_induct[where P = "\<lambda>m h n i s r. m h = 0 \<or> m n = 0"])
  fix f and m :: mem and h n i s r
  assume IH: "\<And>m h n i s r. f m h n i s = Some r \<Longrightarrow> m h = 0 \<or> m n = 0"
    and eq: "(if m h \<noteq> 0 \<and> m n \<noteq> 0
      then if m i = m h then f m h n (i + 1) (if s = 0 then h else s) else f m h n n 0
      else Some s) = Some r"
  then show "m h = 0 \<or> m n = 0" by metis
qed

section \<open>Tokens\<close>

lemma cstr_length: "cstr m s xs \<Longrightarrow> length xs < 2 ^ 32"
proof (rule ccontr)
  assume c: "cstr m s xs" and "\<not> length xs < 2 ^ 32"
  then obtain i where i: "length xs = 2 ^ 32 + i" by (metis le_add_diff_inverse not_less)
  have "(of_nat (length xs) :: u32) = of_nat i" unfolding i by simp
  then have "m (s + of_nat i) = 0" using cstr_end[OF c] by simp
  moreover have "m (s + of_nat i) = xs ! i" "xs ! i \<in> set xs" using cstr_nth[OF c, of i] i by simp_all
  ultimately show False using cstr_nonzero[OF c] by metis
qed

text \<open>Writing a zero over a byte of a C string cuts it in two.\<close>

lemma cstr_cut:
  assumes c: "cstr m s (xs @ y # ys)"
  defines "m' \<equiv> m(s + of_nat (length xs) := 0)"
  shows "cstr m' s xs" and "cstr m' (s + of_nat (length xs) + 1) ys"
proof -
  have n: "length xs + Suc (length ys) < 2 ^ 32" using cstr_length[OF c] by simp
  have "cstr m (s + of_nat (length xs)) (y # ys)" using cstr_append[OF c] .
  then have ys: "cstr m (s + of_nat (length xs) + 1) ys" by simp
  have "s + of_nat (length xs) + 1 + of_nat i \<noteq> s + of_nat (length xs)" if "i \<le> length ys" for i
  proof
    assume "s + of_nat (length xs) + 1 + of_nat i = s + of_nat (length xs)"
    then have "(of_nat (Suc i) :: u32) = 0" by (simp add: add.assoc)
    then have "unat (of_nat (Suc i) :: u32) = 0" by simp
    with that n show False by (simp only: unat_of_nat) simp
  qed
  then have "cstr m' (s + of_nat (length xs) + 1) ys = cstr m (s + of_nat (length xs) + 1) ys"
    unfolding m'_def by (intro cstr_cong) auto
  with ys show "cstr m' (s + of_nat (length xs) + 1) ys" by simp
  have "length xs < 2 ^ 32" using n by simp
  then show "cstr m' s xs"
    using c unfolding m'_def
  proof (induction xs arbitrary: s)
    case (Cons x xs)
    have "s \<noteq> s + 1 + of_nat (length xs)"
    proof
      assume "s = s + 1 + of_nat (length xs)"
      then have "(of_nat (Suc (length xs)) :: u32) = 0" by (simp add: add.assoc)
      then have "unat (of_nat (Suc (length xs)) :: u32) = 0" by simp
      with Cons.prems(1) show False by (simp only: unat_of_nat) simp
    qed
    then show ?case using Cons.IH[of "s + 1"] Cons.prems by (auto simp: add.assoc)
  qed simp
qed

lemma strtok_scan:
  assumes "cstr m s xs" "cstr m d ds" "s \<noteq> 0"
  defines "p \<equiv> s + of_nat (length (takeWhile (\<lambda>c. c \<in> set ds) xs))"
    and "ys \<equiv> dropWhile (\<lambda>c. c \<in> set ds) xs"
  shows "strtok m old s d =
    (if ys = [] then Some (0, old, m)
     else do {
       token \<leftarrow> strpbrk m p d;
       if token = 0 then do { old' \<leftarrow> strchr m p 0; Some (p, old', m) } else Some (p, token + 1, m(token := 0))
     })" and "cstr m p ys"
proof -
  have "cstr m s (takeWhile (\<lambda>c. c \<in> set ds) xs @ ys)" using assms(1) by (simp add: ys_def)
  from cstr_append[OF this] show p: "cstr m p ys" by (simp add: p_def)
  then have "m p = 0 \<longleftrightarrow> ys = []" by (cases ys) auto
  then show "strtok m old s d =
    (if ys = [] then Some (0, old, m)
     else do {
       token \<leftarrow> strpbrk m p d;
       if token = 0 then do { old' \<leftarrow> strchr m p 0; Some (p, old', m) } else Some (p, token + 1, m(token := 0))
     })"
    using assms(3) by (simp add: strtok_def strspn_cstr[OF assms(2,1)] p_def[symmetric] Let_def cong: if_cong)
qed

section \<open>Properties\<close>

text \<open>\<open>strlen\<close> returns the number of bytes before the terminating zero.\<close>

theorem strlen_correct:
  assumes "cstr m s xs"
  shows "strlen m s = Some (of_nat (length xs)) \<and> length xs < 2 ^ 32"
  using strlen_loop_cstr[OF assms, of 0] cstr_length[OF assms] by (simp add: strlen_def)

definition example_strings :: mem where
  "example_strings = (\<lambda>_. 0)(0x100 := 0x2f, 0x101 := 0x61, 0x102 := 0x62, 0x103 := 0x2f, 0x104 := 0x63, 0x200 := 0x2f)"

theorem strlen_correct_witness: "strlen example_strings 0x100 = Some 5"
  using strlen_correct[of example_strings "0x100" "[0x2f, 0x61, 0x62, 0x2f, 0x63]"]
  by (simp add: example_strings_def)

text \<open>On two C strings \<open>strcmp\<close> returns 0 exactly when they are equal, and a negative
  number exactly when the first comes before the second in the lexicographic order of signed
  bytes.\<close>

theorem strcmp_correct:
  assumes "cstr m a xs" and "cstr m b ys"
  shows "\<exists>r. strcmp m a b = Some r \<and> (r = 0 \<longleftrightarrow> xs = ys)
     \<and> (r < 0 \<longleftrightarrow> (map sint xs, map sint ys) \<in> lexord {(x, y). x < y})"
  using assms by (rule strcmp_cstr)

theorem strcmp_correct_witness:
  "\<exists>r. strcmp example_strings 0x101 0x104 = Some r \<and> r < 0"
  using strcmp_correct[of example_strings "0x101" "[0x61, 0x62, 0x2f, 0x63]" "0x104" "[0x63]"]
  by (auto simp: example_strings_def)

text \<open>\<open>strcpy\<close> into memory that does not overlap the source copies the string with its
  terminator, changes nothing else, and returns the address after the copied terminator.\<close>

theorem strcpy_correct:
  assumes "cstr m src xs" and "span dest (Suc (length xs)) \<inter> span src (Suc (length xs)) = {}"
  shows "\<exists>m'. strcpy m dest src = Some (dest + of_nat (length xs) + 1, m') \<and> cstr m' dest xs
    \<and> (\<forall>x. x \<notin> span dest (Suc (length xs)) \<longrightarrow> m' x = m x)"
proof (rule strcpy_cstr[OF assms])
  have "Suc (length xs) \<noteq> 2 ^ 32"
  proof
    assume "Suc (length xs) = 2 ^ 32"
    then have "src \<in> span dest (Suc (length xs))"
      using unsigned_less[of "src - dest", where ?'a = nat] by simp
    with assms(2) show False by (auto simp: disjoint_iff)
  qed
  with cstr_length[OF assms(1)] show "Suc (length xs) < 2 ^ 32" by simp
qed

theorem strcpy_correct_witness:
  "\<exists>m'. strcpy example_strings 0x300 0x100 = Some (0x306, m') \<and> cstr m' 0x300 [0x2f, 0x61, 0x62, 0x2f, 0x63]"
proof -
  have c: "cstr example_strings 0x100 [0x2f, 0x61, 0x62, 0x2f, 0x63]" by (simp add: example_strings_def)
  have "span 0x100 6 \<inter> span 0x300 6 = {}" by (rule span_disjoint) simp_all
  then have "span 0x300 6 \<inter> span 0x100 6 = {}" by (simp only: Int_commute)
  with strcpy_correct[OF c, of "0x300"] show ?thesis by (auto simp: eval_nat_numeral)
qed

text \<open>C35: a first call of \<open>strtok\<close> skips leading delimiters and returns the maximal run of
  other bytes after them. When a delimiter follows, it is overwritten by a terminator and the
  next call resumes after it. When the token ends the string, the saved position becomes
  \<open>NULL\<close> (\<open>strchr\<close> never finds the terminator), so the next call starts at address 0.\<close>

theorem strtok_correct:
  assumes "cstr m s xs" and "cstr m d ds" and "0 \<notin> span s (Suc (length xs))"
  defines "p \<equiv> s + of_nat (length (takeWhile (\<lambda>c. c \<in> set ds) xs))"
    and "ys \<equiv> dropWhile (\<lambda>c. c \<in> set ds) xs"
  defines "tok \<equiv> takeWhile (\<lambda>c. c \<notin> set ds) ys" and "rest \<equiv> dropWhile (\<lambda>c. c \<notin> set ds) ys"
  shows "if ys = [] then strtok m old s d = Some (0, old, m)
    else if rest = [] then strtok m old s d = Some (p, 0, m) \<and> cstr m p tok
    else \<exists>m'. strtok m old s d = Some (p, p + of_nat (length tok) + 1, m')
      \<and> cstr m' p tok \<and> cstr m' (p + of_nat (length tok) + 1) (tl rest)"
proof -
  have "s \<noteq> 0" using assms(3) by (auto simp: unat_gt_0)
  note scan = strtok_scan(1)[OF assms(1,2) this, of old, folded p_def ys_def]
    strtok_scan(2)[OF assms(1,2) this, folded p_def ys_def]
  have yz: "ys = tok @ rest" by (simp add: tok_def rest_def)
  consider (none) "ys = []" | (last) "ys \<noteq> []" "rest = []" | (more) y zs where "ys \<noteq> []" "rest = y # zs"
    by (cases rest) auto
  then show ?thesis
  proof cases
    case none
    then show ?thesis using scan(1) by simp
  next
    case last
    then have "\<not> (\<exists>c\<in>set ys. c \<in> set ds)" by (auto simp: rest_def dropWhile_eq_Nil_conv)
    moreover have "(0::int) \<notin> sint ` set ys"
      using cstr_nonzero[OF scan(2)] sint_eq_iff_byte[of _ 0] by auto
    ultimately have "strpbrk m p d = Some 0" "strchr m p 0 = Some 0"
      using strpbrk_cstr[OF assms(2) scan(2)] strchr_cstr[OF scan(2), of 0] by auto
    then show ?thesis using scan last yz by simp
  next
    case more
    then have "y \<in> set ds" using hd_dropWhile[of "\<lambda>c. c \<notin> set ds" ys] by (simp add: rest_def)
    then have ex: "\<exists>c\<in>set ys. c \<in> set ds" using yz more by auto
    let ?q = "p + of_nat (length tok)"
    have pb: "strpbrk m p d = Some ?q" using strpbrk_cstr[OF assms(2) scan(2)] ex by (simp add: tok_def)
    have "?q \<noteq> 0"
    proof -
      let ?k = "length (takeWhile (\<lambda>c. c \<in> set ds) xs) + length tok"
      have "xs = takeWhile (\<lambda>c. c \<in> set ds) xs @ tok @ rest"
        by (simp add: yz[symmetric] ys_def)
      then have "?k < Suc (length xs)" by (metis append_assoc length_append le_add1 less_Suc_eq_le)
      from of_nat_in_span[OF this, of s] cstr_length[OF assms(1)] have "s + of_nat ?k \<in> span s (Suc (length xs))"
        by simp
      moreover have "?q = s + of_nat ?k" by (simp add: p_def add.assoc)
      ultimately show ?thesis using assms(3) by metis
    qed
    with pb scan(1) more have "strtok m old s d = Some (p, ?q + 1, m(?q := 0))" by simp
    with cstr_cut[of m p tok y zs] scan(2) yz more show ?thesis by auto
  qed
qed

theorem strtok_correct_witness:
  "\<exists>m'. strtok example_strings 0 0x100 0x200 = Some (0x101, 0x104, m') \<and> cstr m' 0x101 [0x61, 0x62] \<and> cstr m' 0x104 [0x63]"
  using strtok_correct[of example_strings "0x100" "[0x2f, 0x61, 0x62, 0x2f, 0x63]" "0x200" "[0x2f]" 0]
  by (simp add: example_strings_def)

text \<open>C40: \<open>count_chars\<close> never returns on a non-empty string and \<open>strstr\<close> never returns on
  a non-empty haystack and needle: neither loop advances.\<close>

theorem string_scans_diverge:
  assumes "m str \<noteq> 0" and "m needle \<noteq> 0" and "str \<noteq> 0" and "needle \<noteq> 0"
  shows "count_chars m str c = None \<and> strstr m str needle = None"
  using assms count_chars_loop_returns[of m str c 0] strstr_loop_returns[of m str needle needle 0]
  by (cases "count_chars_loop m str c 0"; cases "strstr_loop m str needle needle 0")
     (auto simp: count_chars_def strstr_def)

theorem string_scans_diverge_witness:
  "count_chars example_strings 0x100 47 = None \<and> strstr example_strings 0x100 0x200 = None"
  by (rule string_scans_diverge) (simp_all add: example_strings_def)

end
