(* ===== verification/PhysicalMM.thy ===== *)
theory PhysicalMM
  imports LibcMemory
begin

text \<open>
  The bitmap helpers of \<^verbatim>\<open>src/kernel/mm/bitmap_manipulation.c\<close> and the physical memory
  manager of \<^verbatim>\<open>src/kernel/mm/physical_mm_manager.c\<close>: one bit per 4 KB frame of the
  4 GB space, 1 for an available frame. The static \<open>physical_memory\<close> is a record that the
  operations pass along. A result of type \<open>option\<close> is \<open>None\<close> where control does not
  come back: the kernel panicked, or a loop never ends.
\<close>

section \<open>Definitions\<close>

subsection \<open>Bitmap helpers\<close>

definition bit_index_to_byte_index :: "u32 \<Rightarrow> u32" where
  "bit_index_to_byte_index bit_index = bit_index div (1 * 8)"

definition PAGE_ALIGN :: "u32 \<Rightarrow> u32" where
  "PAGE_ALIGN val = val AND NOT (PAGE_SIZE - 1)"

definition address_to_bit_index :: "u32 \<Rightarrow> u32 \<Rightarrow> u32" where
  "address_to_bit_index addr start_address =
     (let aligned_addr = PAGE_ALIGN addr + (start_address - PAGE_ALIGN start_address)
      in (aligned_addr - start_address) div PAGE_SIZE)"

text \<open>The scan for the first non-zero byte that both searches of a bitmap share.\<close>

function find_free_byte :: "(nat \<Rightarrow> byte) \<Rightarrow> nat \<Rightarrow> nat \<Rightarrow> nat option" where
  "find_free_byte b i n =
     (if i < n then (if b i \<noteq> 0 then Some i else find_free_byte b (Suc i) n)
      else None)"
  by pat_completeness auto
termination
  by (relation "measure (\<lambda>(b, i, n). n - i)") auto

declare find_free_byte.simps [simp del]

definition NO_AVAILABLE_PAGE :: u32 where
  "NO_AVAILABLE_PAGE = - 1"

definition set_next_free_page_index :: "(nat \<Rightarrow> byte) \<Rightarrow> u32 \<Rightarrow> u32" where
  "set_next_free_page_index bitmap bitmap_size =
     (case find_free_byte bitmap 0 (unat bitmap_size) of
        Some i \<Rightarrow> of_nat (i * 8 + get_msb_index (bitmap i))
      | None \<Rightarrow> NO_AVAILABLE_PAGE)"

subsection \<open>The manager\<close>

datatype page_state_t = PAGE_UNAVAILABLE | PAGE_AVAILABLE

definition BITMAP_SIZE :: nat where
  "BITMAP_SIZE = 0x100000000 div 4096 div 8"

record physical_mem_t =
  bitmap :: "nat \<Rightarrow> byte"
  no_page_available :: bool

definition physical_memory_init :: physical_mem_t where
  "physical_memory_init = \<lparr>bitmap = (\<lambda>_. 0), no_page_available = False\<rparr>"

definition change_page_state ::
  "physical_mem_t \<Rightarrow> u32 \<Rightarrow> page_state_t \<Rightarrow> error_code_t \<times> physical_mem_t" where
  "change_page_state pm page_address state =
     (if PAGE_BOUNDARY page_address \<noteq> page_address then (INVALID_ARGUMENT, pm)
      else
        let bit_index = unat (address_to_bit_index page_address 0);
            byte_index = bit_index div 8
        in case state of
             PAGE_UNAVAILABLE \<Rightarrow> (SUCCESS, pm\<lparr>bitmap := (bitmap pm)
               (byte_index := turn_bit_off (bitmap pm byte_index) (bit_index mod 8))\<rparr>)
           | PAGE_AVAILABLE \<Rightarrow> (SUCCESS, pm\<lparr>bitmap := (bitmap pm)
               (byte_index := turn_bit_on (bitmap pm byte_index) (bit_index mod 8))\<rparr>))"

partial_function (option) change_pages_loop ::
  "physical_mem_t \<Rightarrow> u32 \<Rightarrow> u32 \<Rightarrow> page_state_t \<Rightarrow> (error_code_t \<times> physical_mem_t) option" where
  "change_pages_loop pm address stop state =
     (if address < stop
      then let r = change_page_state pm address state
           in if fst r \<noteq> SUCCESS then Some (FAILURE, snd r)
              else change_pages_loop (snd r) (address + PAGE_SIZE) stop state
      else Some (SUCCESS, pm))"

definition change_pages_state ::
  "physical_mem_t \<Rightarrow> u32 \<Rightarrow> u32 \<Rightarrow> page_state_t \<Rightarrow> (error_code_t \<times> physical_mem_t) option" where
  "change_pages_state pm start stop state =
     (if PAGE_BOUNDARY start \<noteq> start \<or> PAGE_BOUNDARY stop \<noteq> stop
      then Some (INVALID_ARGUMENT, pm)
      else if stop < start then Some (INVALID_ARGUMENT, pm)
      else change_pages_loop pm start stop state)"

text \<open>One entry of the memory map that GRUB left in memory (a packed
  \<open>multiboot_memory_map_t\<close>: size, 64-bit address, 64-bit length, type).\<close>

definition load64 :: "mem \<Rightarrow> u32 \<Rightarrow> u64" where
  "load64 m a = ucast (load32 m a) OR push_bit 32 (ucast (load32 m (a + 4)))"

record multiboot_memory_map_t =
  mmap_size :: u32
  mmap_entry_addr :: u64
  mmap_len :: u64
  mmap_type :: u32

definition read_mmap_entry :: "mem \<Rightarrow> u32 \<Rightarrow> multiboot_memory_map_t" where
  "read_mmap_entry m p =
     \<lparr>mmap_size = load32 m p, mmap_entry_addr = load64 m (p + 4), mmap_len = load64 m (p + 12),
      mmap_type = load32 m (p + 20)\<rparr>"

definition MULTIBOOT_MEMORY_AVAILABLE :: u32 where
  "MULTIBOOT_MEMORY_AVAILABLE = 1"

text \<open>The body of the loop of \<open>map_memory\<close> for one entry. \<open>continue\<close> is the
  unchanged state; \<open>kernel_panic\<close> is \<open>None\<close>.\<close>

definition map_memory_entry ::
  "physical_mem_t \<Rightarrow> multiboot_memory_map_t \<Rightarrow> physical_mem_t option" where
  "map_memory_entry pm e =
     (if mmap_type e \<noteq> MULTIBOOT_MEMORY_AVAILABLE then Some pm
      else
        let address = (ucast (mmap_entry_addr e) :: u32);
            len = (ucast (mmap_len e) :: u32);
            unaligned = (PAGE_BOUNDARY address \<noteq> address);
            address' = (if unaligned then NEXT_PAGE_BOUNDARY address else address)
        in if unaligned \<and> len \<le> PAGE_SIZE then Some pm
           else
             let len1 = (if unaligned
                         then ucast ((ucast len :: u64) - ((ucast address' :: u64) - mmap_entry_addr e))
                         else len);
                 len2 = (if PAGE_BOUNDARY len1 \<noteq> len1
                         then if PAGE_BOUNDARY len1 < len1 then PAGE_BOUNDARY len1
                              else PAGE_BOUNDARY len1 - PAGE_SIZE
                         else len1)
             in do {
               (ec, pm') \<leftarrow> change_pages_state pm address' (address' + len2) PAGE_AVAILABLE;
               if ec \<noteq> SUCCESS then None else Some pm'
             })"

partial_function (option) map_memory_loop ::
  "mem \<Rightarrow> physical_mem_t \<Rightarrow> u32 \<Rightarrow> u32 \<Rightarrow> physical_mem_t option" where
  "map_memory_loop m pm map_iterator limit =
     (if map_iterator < limit
      then do {
        pm' \<leftarrow> map_memory_entry pm (read_mmap_entry m map_iterator);
        map_memory_loop m pm' (map_iterator + load32 m map_iterator + 4) limit
      }
      else Some pm)"

text \<open>\<open>map_addr + map_length\<close> is pointer arithmetic on 24-byte entries.\<close>

definition map_memory :: "mem \<Rightarrow> physical_mem_t \<Rightarrow> u32 \<Rightarrow> u32 \<Rightarrow> physical_mem_t option" where
  "map_memory m pm map_addr map_length = map_memory_loop m pm map_addr (map_addr + map_length * 24)"

definition phy_memory_manager_init ::
  "linker_symbols \<Rightarrow> mem \<Rightarrow> physical_mem_t \<Rightarrow> u32 \<Rightarrow> u32 \<Rightarrow> physical_mem_t option" where
  "phy_memory_manager_init ls m pm map_addr map_length = do {
     pm1 \<leftarrow> map_memory m pm map_addr map_length;
     (_, pm2) \<leftarrow> change_pages_state pm1 0 0xff000 PAGE_UNAVAILABLE;
     (_, pm3) \<leftarrow> change_pages_state pm2 (kernel_start ls) (kernel_end ls) PAGE_UNAVAILABLE;
     Some pm3
   }"

definition allocate_physical_page :: "linker_symbols \<Rightarrow> physical_mem_t \<Rightarrow> u32 \<times> physical_mem_t" where
  "allocate_physical_page ls pm =
     (if no_page_available pm then (0, pm)
      else case find_free_byte (bitmap pm) (unat (kernel_end ls div PAGE_SIZE div 8)) BITMAP_SIZE of
        Some i \<Rightarrow>
          let bit_index_in_bitmap = (of_nat (i * 8 + get_msb_index (bitmap pm i)) :: u32);
              address = bit_index_in_bitmap * PAGE_SIZE
          in (address, snd (change_page_state pm address PAGE_UNAVAILABLE))
      | None \<Rightarrow> (0, pm\<lparr>no_page_available := True\<rparr>))"

text \<open>\<open>error_code = change_page_state(...) == SUCCESS\<close> assigns the result of the
  comparison: 1, which is \<open>FAILURE\<close>, when the page was freed and 0, \<open>SUCCESS\<close>, when not.\<close>

definition free_physical_page :: "physical_mem_t \<Rightarrow> u32 \<Rightarrow> error_code_t \<times> physical_mem_t" where
  "free_physical_page pm page_address =
     (let r = change_page_state pm page_address PAGE_AVAILABLE;
          error_code = (if fst r = SUCCESS then FAILURE else SUCCESS);
          pm' = snd r
      in if fst r = SUCCESS
         then (error_code, if no_page_available pm' then pm'\<lparr>no_page_available := False\<rparr> else pm')
         else (error_code, pm'))"

definition register_physical_pages ::
  "physical_mem_t \<Rightarrow> u32 \<Rightarrow> u32 \<Rightarrow> (error_code_t \<times> physical_mem_t) option" where
  "register_physical_pages pm start_address end_address =
     change_pages_state pm start_address end_address PAGE_UNAVAILABLE"

definition unregister_physical_pages ::
  "physical_mem_t \<Rightarrow> u32 \<Rightarrow> u32 \<Rightarrow> (error_code_t \<times> physical_mem_t) option" where
  "unregister_physical_pages pm start_address end_address =
     change_pages_state pm start_address end_address PAGE_AVAILABLE"

subsection \<open>Abstract view\<close>

text \<open>The set of available frames, by number; every 32-bit address has a frame number
  below \<open>2 ^ 20\<close>.\<close>

definition avail :: "physical_mem_t \<Rightarrow> nat set" where
  "avail pm = {k. k < 2 ^ 20 \<and> bitmap_test (bitmap pm) k}"

definition page_of :: "u32 \<Rightarrow> nat" where
  "page_of a = unat a div 4096"

section \<open>Frame arithmetic\<close>

lemma page_of_less [simp]: "page_of a < 2 ^ 20"
  using unsigned_less[of a, where ?'a = nat] by (simp add: page_of_def)

lemma page_of_0 [simp]: "page_of 0 = 0"
  by (simp add: page_of_def)

lemma PAGE_ALIGN_eq: "PAGE_ALIGN = PAGE_BOUNDARY"
  by (simp add: fun_eq_iff PAGE_ALIGN_def PAGE_BOUNDARY_def)

lemma page_of_index [simp]: "unat (address_to_bit_index a 0) = page_of a"
proof -
  have "PAGE_BOUNDARY 0 = 0" by (simp add: page_simps)
  then show ?thesis
    by (simp add: address_to_bit_index_def PAGE_ALIGN_eq PAGE_SIZE_def unat_div unat_PAGE_BOUNDARY page_of_def)
qed

lemma unat_frame_address: "k < 2 ^ 20 \<Longrightarrow> unat (of_nat k * PAGE_SIZE) = k * 4096"
  by (simp add: PAGE_SIZE_def unat_word_ariths unat_of_nat)

lemma frame_address_aligned: "k < 2 ^ 20 \<Longrightarrow> PAGE_BOUNDARY (of_nat k * PAGE_SIZE) = of_nat k * PAGE_SIZE"
  by (simp add: page_simps unat_frame_address)

lemma page_of_frame_address [simp]: "k < 2 ^ 20 \<Longrightarrow> page_of (of_nat k * PAGE_SIZE) = k"
  by (simp add: page_of_def unat_frame_address)

section \<open>One frame, a range of frames\<close>

lemma change_page_state_unaligned:
  "PAGE_BOUNDARY a \<noteq> a \<Longrightarrow> change_page_state pm a st = (INVALID_ARGUMENT, pm)"
  by (simp add: change_page_state_def)

lemma change_page_state_aligned:
  assumes "PAGE_BOUNDARY a = a"
  shows "fst (change_page_state pm a st) = SUCCESS"
    and "avail (snd (change_page_state pm a st)) =
      (case st of PAGE_AVAILABLE \<Rightarrow> insert (page_of a) (avail pm) | PAGE_UNAVAILABLE \<Rightarrow> avail pm - {page_of a})"
    and "no_page_available (snd (change_page_state pm a st)) = no_page_available pm"
  using assms page_of_less[of a]
  by (auto simp: change_page_state_def Let_def avail_def split: page_state_t.splits)

text \<open>The frames whose address lies in a range.\<close>

definition frames_between :: "u32 \<Rightarrow> u32 \<Rightarrow> nat set" where
  "frames_between start stop = {k. unat start \<le> k * 4096 \<and> k * 4096 < unat stop}"

lemma frames_between_step:
  assumes "PAGE_BOUNDARY a = a" "PAGE_BOUNDARY stop = stop" "a < stop"
  shows "unat (a + PAGE_SIZE) = unat a + 4096"
    and "PAGE_BOUNDARY (a + PAGE_SIZE) = a + PAGE_SIZE"
    and "frames_between a stop = insert (page_of a) (frames_between (a + PAGE_SIZE) stop)"
proof -
  obtain k l where kl: "unat a = 4096 * k" "unat stop = 4096 * l" "k < l"
    using assms by (auto simp: page_simps dvd_def word_less_nat_alt)
  then have "unat a + 4096 < 2 ^ 32" using unsigned_less[of stop, where ?'a = nat] by simp
  then show u: "unat (a + PAGE_SIZE) = unat a + 4096"
    by (simp add: PAGE_SIZE_def unat_word_ariths)
  then show "PAGE_BOUNDARY (a + PAGE_SIZE) = a + PAGE_SIZE" by (simp add: page_simps kl)
  from u kl show "frames_between a stop = insert (page_of a) (frames_between (a + PAGE_SIZE) stop)"
    by (auto simp: frames_between_def page_of_def)
qed

lemma change_pages_loop_spec:
  assumes "PAGE_BOUNDARY a = a" "PAGE_BOUNDARY stop = stop"
  shows "\<exists>pm'. change_pages_loop pm a stop st = Some (SUCCESS, pm')
    \<and> avail pm' = (case st of PAGE_AVAILABLE \<Rightarrow> avail pm \<union> frames_between a stop
                            | PAGE_UNAVAILABLE \<Rightarrow> avail pm - frames_between a stop)
    \<and> no_page_available pm' = no_page_available pm"
  using assms
proof (induction "unat stop - unat a" arbitrary: a pm rule: less_induct)
  case less
  show ?case
  proof (cases "a < stop")
    case False
    then have "frames_between a stop = {}"
      by (auto simp: frames_between_def word_less_nat_alt)
    with False show ?thesis by (auto simp: change_pages_loop.simps split: page_state_t.splits)
  next
    case True
    note step = frames_between_step[OF less.prems True]
    let ?pm = "snd (change_page_state pm a st)"
    have "unat stop - unat (a + PAGE_SIZE) < unat stop - unat a"
      using True by (simp add: step(1) word_less_nat_alt)
    from less.hyps[OF this step(2) less.prems(2), of ?pm] True change_page_state_aligned[OF less.prems(1), of pm st]
    show ?thesis
      by (auto simp: change_pages_loop.simps[of pm a] Let_def step(3) split: page_state_t.splits)
  qed
qed

lemma find_free_byte_Some:
  "find_free_byte b i n = Some j \<Longrightarrow> i \<le> j \<and> j < n \<and> b j \<noteq> 0 \<and> (\<forall>k. i \<le> k \<longrightarrow> k < j \<longrightarrow> b k = 0)"
proof (induction b i n rule: find_free_byte.induct)
  case (1 b i n)
  then show ?case
    by (subst (asm) (2) find_free_byte.simps) (auto split: if_splits simp: Suc_le_eq intro: le_neq_implies_less)
qed

lemma find_free_byte_None: "find_free_byte b i n = None \<longleftrightarrow> (\<forall>k. i \<le> k \<longrightarrow> k < n \<longrightarrow> b k = 0)"
proof (induction b i n rule: find_free_byte.induct)
  case (1 b i n)
  then show ?case
    by (subst find_free_byte.simps) (auto simp: Suc_le_eq intro: le_neq_implies_less)
qed

section \<open>Allocation\<close>

text \<open>The frames the allocator looks at: the scan starts at the byte that holds the bit of
  the first frame after the kernel.\<close>

definition scan_start :: "linker_symbols \<Rightarrow> nat" where
  "scan_start ls = unat (kernel_end ls) div 4096 div 8 * 8"

definition usable :: "linker_symbols \<Rightarrow> physical_mem_t \<Rightarrow> nat set" where
  "usable ls pm = {k \<in> avail pm. scan_start ls \<le> k}"

lemma finite_avail [simp]: "finite (avail pm)"
  by (rule finite_subset[of _ "{..<2 ^ 20}"]) (auto simp: avail_def)

lemma finite_usable [simp]: "finite (usable ls pm)"
  by (simp add: usable_def)

lemma bitmap_byte_zero: "b i = 0 \<longleftrightarrow> (\<forall>k. k div 8 = i \<longrightarrow> \<not> bitmap_test b k)"
proof
  assume "\<forall>k. k div 8 = i \<longrightarrow> \<not> bitmap_test b k"
  then have "\<not> bitmap_test b (i * 8 + t)" if "t < 8" for t using that by simp
  then have *: "\<not> bit (b i) (7 - t)" if "t < 8" for t using that by (simp add: bitmap_test_def)
  have "\<not> bit (b i) j" if "j < 8" for j
    using *[of "7 - j"] that by simp
  then show "b i = 0" by (simp add: byte_zero_iff)
qed (simp add: bitmap_test_def)

lemma allocate_scan_None:
  assumes "find_free_byte (bitmap pm) (unat (kernel_end ls div PAGE_SIZE div 8)) BITMAP_SIZE = None"
  shows "usable ls pm = {}"
proof -
  have "\<not> bitmap_test (bitmap pm) k" if "k < 2 ^ 20" "scan_start ls \<le> k" for k
  proof -
    have "unat (kernel_end ls div PAGE_SIZE div 8) \<le> k div 8" "k div 8 < BITMAP_SIZE"
      using that by (simp_all add: scan_start_def PAGE_SIZE_def unat_div BITMAP_SIZE_def)
    with assms have "bitmap pm (k div 8) = 0" by (simp add: find_free_byte_None)
    then show ?thesis by (simp add: bitmap_byte_zero)
  qed
  then show ?thesis by (auto simp: usable_def avail_def)
qed

lemma allocate_scan_Some:
  assumes "find_free_byte (bitmap pm) (unat (kernel_end ls div PAGE_SIZE div 8)) BITMAP_SIZE = Some i"
  defines "k \<equiv> i * 8 + get_msb_index (bitmap pm i)"
  shows "k \<in> usable ls pm" and "k = Min (usable ls pm)" and "k < 2 ^ 20"
proof -
  note f = find_free_byte_Some[OF assms(1)]
  have start: "unat (kernel_end ls div PAGE_SIZE div 8) = scan_start ls div 8"
    by (simp add: scan_start_def PAGE_SIZE_def unat_div)
  note m = get_msb_index_spec[of "bitmap pm i"]
  have nz: "bitmap pm i \<noteq> 0" and i: "scan_start ls div 8 \<le> i" "i < BITMAP_SIZE"
    using f start by auto
  show k: "k < 2 ^ 20" using i(2) m(1)[OF nz] by (simp add: k_def BITMAP_SIZE_def)
  have "bitmap_test (bitmap pm) k"
    using m(1,2)[OF nz] by (simp add: bitmap_test_def k_def)
  moreover have "scan_start ls \<le> k" using i(1) by (simp add: scan_start_def k_def)
  ultimately show u: "k \<in> usable ls pm" using k by (simp add: usable_def avail_def)
  have "k \<le> j" if "j \<in> usable ls pm" for j
  proof (rule ccontr)
    assume "\<not> k \<le> j"
    then have j: "j < k" "scan_start ls \<le> j" "bitmap_test (bitmap pm) j"
      using that by (auto simp: usable_def avail_def)
    then have ij: "j div 8 \<le> i" using m(1)[OF nz] by (simp add: k_def)
    show False
    proof (cases "j div 8 = i")
      case True
      then have "j mod 8 < get_msb_index (bitmap pm i)" using j(1) by (simp add: k_def) presburger
      with True j(3) m(3)[OF nz] show False by (simp add: bitmap_test_def)
    next
      case False
      have "scan_start ls div 8 \<le> j div 8" using j(2) by (simp add: div_le_mono)
      with False ij f start have "bitmap pm (j div 8) = 0" by simp
      with j(3) show False by (simp add: bitmap_byte_zero)
    qed
  qed
  with u show "k = Min (usable ls pm)" by (intro Min_eqI[symmetric]) auto
qed

lemma allocate_physical_page_none:
  assumes "no_page_available pm \<or> usable ls pm = {}"
  shows "fst (allocate_physical_page ls pm) = 0"
    and "avail (snd (allocate_physical_page ls pm)) = avail pm"
    and "no_page_available (snd (allocate_physical_page ls pm))"
  using assms allocate_scan_Some(1)[of pm ls]
  by (auto simp: allocate_physical_page_def avail_def split: option.splits)

lemma allocate_physical_page_some:
  assumes "\<not> no_page_available pm" "usable ls pm \<noteq> {}"
  defines "k \<equiv> Min (usable ls pm)"
  shows "fst (allocate_physical_page ls pm) = of_nat k * PAGE_SIZE"
    and "avail (snd (allocate_physical_page ls pm)) = avail pm - {k}"
    and "\<not> no_page_available (snd (allocate_physical_page ls pm))"
    and "k < 2 ^ 20"
proof -
  obtain i where i: "find_free_byte (bitmap pm) (unat (kernel_end ls div PAGE_SIZE div 8)) BITMAP_SIZE = Some i"
    using allocate_scan_None[of pm ls] assms(2) by fastforce
  note s = allocate_scan_Some[OF i]
  have k: "i * 8 + get_msb_index (bitmap pm i) = k" "k < 2 ^ 20"
    using s(2,3) by (simp_all add: k_def)
  note c = change_page_state_aligned[OF frame_address_aligned[OF k(2)], of pm PAGE_UNAVAILABLE]
  show "fst (allocate_physical_page ls pm) = of_nat k * PAGE_SIZE"
    "avail (snd (allocate_physical_page ls pm)) = avail pm - {k}"
    "\<not> no_page_available (snd (allocate_physical_page ls pm))"
    using assms(1) i c k(2) by (simp_all add: allocate_physical_page_def Let_def k(1))
  show "k < 2 ^ 20" by (fact k(2))
qed


lemma change_pages_state_ok:
  assumes "PAGE_BOUNDARY a = a" "PAGE_BOUNDARY stop = stop" "a \<le> stop"
  shows "\<exists>pm'. change_pages_state pm a stop st = Some (SUCCESS, pm')
    \<and> avail pm' = (case st of PAGE_AVAILABLE \<Rightarrow> avail pm \<union> frames_between a stop
                            | PAGE_UNAVAILABLE \<Rightarrow> avail pm - frames_between a stop)
    \<and> no_page_available pm' = no_page_available pm"
  using change_pages_loop_spec[OF assms(1,2), of pm st] assms(3)
  by (simp add: change_pages_state_def assms(1,2))

lemma change_pages_state_bad:
  assumes "\<not> (PAGE_BOUNDARY a = a \<and> PAGE_BOUNDARY stop = stop \<and> a \<le> stop)"
  shows "change_pages_state pm a stop st = Some (INVALID_ARGUMENT, pm)"
  using assms by (auto simp: change_pages_state_def)

section \<open>The memory map\<close>

text \<open>The frames that lie completely inside an entry of the memory map.\<close>

definition full_frames :: "multiboot_memory_map_t \<Rightarrow> nat set" where
  "full_frames e =
     {k. unat (mmap_entry_addr e) \<le> k * 4096
       \<and> (k + 1) * 4096 \<le> unat (mmap_entry_addr e) + unat (mmap_len e)}"

lemma round_down_u32: "(if PAGE_BOUNDARY v \<noteq> v then if PAGE_BOUNDARY v < v then PAGE_BOUNDARY v
    else PAGE_BOUNDARY v - PAGE_SIZE else v) = PAGE_BOUNDARY v"
proof -
  have "PAGE_BOUNDARY v \<le> v" by (simp add: word_le_nat_alt unat_PAGE_BOUNDARY)
  then show ?thesis by auto
qed

lemma unat_ucast_small: "unat (x :: u64) < 2 ^ 32 \<Longrightarrow> unat (ucast x :: u32) = unat x"
  by (simp add: unsigned_ucast_eq take_bit_eq_mod)

lemma unat_ucast_u64: "unat (ucast (x :: u32) :: u64) = unat x"
  by (simp add: unsigned_ucast_eq take_bit_eq_mod order_less_trans[OF unsigned_less])

lemma frame_fits_iff:
  "x * 4096 < 4096 * k + n div 4096 * 4096 \<longleftrightarrow> (x + 1) * 4096 \<le> 4096 * k + n" for x k n :: nat
proof -
  obtain q r where n: "n = q * 4096 + r" "r < 4096" "n div 4096 = q"
    by (metis div_mult_mod_eq mod_less_divisor zero_less_numeral)
  have "x * 4096 < 4096 * k + q * 4096 \<longleftrightarrow> x + 1 \<le> k + q" by linarith
  also have "\<dots> \<longleftrightarrow> (x + 1) * 4096 \<le> 4096 * k + n" 
    using n(1,2) by (cases "x + 1 \<le> k + q") auto
  finally show ?thesis by (simp only: n(3))
qed

lemma round_up_iff:
  fixes a k :: nat
  assumes "\<not> 4096 dvd a"
  shows "a \<le> k * 4096 \<longleftrightarrow> a div 4096 * 4096 + 4096 \<le> k * 4096"
proof -
  obtain q r where a: "a = q * 4096 + r" "r < 4096" "a div 4096 = q"
    by (metis div_mult_mod_eq mod_less_divisor zero_less_numeral)
  with assms have "0 < r" by (intro gr0I) simp
  with a(1,2) have "a \<le> k * 4096 \<longleftrightarrow> q + 1 \<le> k" by linarith
  also have "\<dots> \<longleftrightarrow> q * 4096 + 4096 \<le> k * 4096" by linarith
  finally show ?thesis by (simp only: a(3))
qed

lemma unat_NEXT_PAGE_BOUNDARY:
  assumes "unat v div 4096 * 4096 + 4096 < 2 ^ 32"
  shows "unat (NEXT_PAGE_BOUNDARY v) = unat v div 4096 * 4096 + 4096"
proof -
  have "NEXT_PAGE_BOUNDARY v = PAGE_BOUNDARY v + PAGE_SIZE"
    by (simp add: NEXT_PAGE_BOUNDARY_def PAGE_BOUNDARY_def)
  with assms show ?thesis by (simp add: unat_word_ariths unat_PAGE_BOUNDARY PAGE_SIZE_def)
qed

text \<open>The call of \<open>change_pages_state\<close> for a frame-aligned base and a length cut down to
  whole frames.\<close>

lemma change_pages_state_cut:
  assumes b: "4096 dvd unat b" and bn: "unat b + unat n < 2 ^ 32"
  shows "\<exists>pm'. change_pages_state pm b (b + PAGE_BOUNDARY n) PAGE_AVAILABLE = Some (SUCCESS, pm')
      \<and> avail pm' = avail pm \<union> {k. unat b \<le> k * 4096 \<and> (k + 1) * 4096 \<le> unat b + unat n}
      \<and> no_page_available pm' = no_page_available pm"
proof -
  have "unat n div 4096 * 4096 \<le> unat n" by simp
  with bn have "unat b + unat n div 4096 * 4096 < 2 ^ 32" by linarith
  then have u: "unat (b + PAGE_BOUNDARY n) = unat b + unat n div 4096 * 4096"
    by (simp add: unat_word_ariths unat_PAGE_BOUNDARY)
  have "frames_between b (b + PAGE_BOUNDARY n) = {k. unat b \<le> k * 4096 \<and> (k + 1) * 4096 \<le> unat b + unat n}"
    using b by (auto simp: frames_between_def u dvd_def frame_fits_iff)
  moreover have "PAGE_BOUNDARY (b + PAGE_BOUNDARY n) = b + PAGE_BOUNDARY n" "b \<le> b + PAGE_BOUNDARY n"
    using b by (simp_all add: page_simps u word_le_nat_alt)
  ultimately show ?thesis
    using change_pages_state_ok[of b "b + PAGE_BOUNDARY n" pm PAGE_AVAILABLE] b
    by (simp add: page_simps)
qed

text \<open>The address and the length of an entry as \<open>map_memory\<close> sees them: their low 32 bits.\<close>

definition low_addr :: "multiboot_memory_map_t \<Rightarrow> nat" where
  "low_addr e = unat (ucast (mmap_entry_addr e) :: u32)"

definition low_len :: "multiboot_memory_map_t \<Rightarrow> nat" where
  "low_len e = unat (ucast (mmap_len e) :: u32)"

text \<open>The frames that a RAM entry makes available: those that lie completely inside it. \<open>None\<close> is
  the kernel panic for an entry that reaches 4 GB. An entry that starts behind the last frame
  boundary is rounded up to address 0.\<close>

definition ram_frames :: "multiboot_memory_map_t \<Rightarrow> nat set option" where
  "ram_frames e =
     (if low_addr e + low_len e < 2 ^ 32
      then Some {k. low_addr e \<le> k * 4096 \<and> (k + 1) * 4096 \<le> low_addr e + low_len e}
      else if low_addr e \<le> 0xFFFFF000 then None
      else if low_len e \<le> 4096 then Some {}
      else Some {k. (k + 1) * 4096 \<le> low_addr e + low_len e - 2 ^ 32})"

lemma low_entry:
  assumes "unat (mmap_entry_addr e) + unat (mmap_len e) < 2 ^ 32"
  shows "ram_frames e = Some (full_frames e)"
  using assms unat_ucast_small[of "mmap_entry_addr e"] unat_ucast_small[of "mmap_len e"]
  by (simp add: ram_frames_def full_frames_def low_addr_def low_len_def)

lemma ucast_minus_low: "ucast (x - y :: u64) = (ucast x - ucast y :: u32)"
proof -
  have "uint (ucast z :: u32) = uint z mod 2 ^ 32" for z :: u64 by (simp add: unsigned_ucast_eq take_bit_eq_mod)
  then have "uint (ucast (x - y) :: u32) = uint (ucast x - ucast y :: u32)"
    by (simp add: uint_word_ariths mod_mod_cancel mod_diff_eq)
  then show ?thesis by (simp only: word_uint_eq_iff)
qed

text \<open>The base \<open>b\<close> and the length \<open>n\<close> that are left after rounding up to a frame boundary.\<close>

lemma rounded_entry:
  fixes A L :: u32
  defines "r \<equiv> (if 4096 dvd unat A then unat A else unat A div 4096 * 4096 + 4096)"
  defines "b \<equiv> (if PAGE_BOUNDARY A \<noteq> A then NEXT_PAGE_BOUNDARY A else A)"
  assumes "4096 dvd unat A \<or> 4096 < unat L"
  shows "unat b = r mod 2 ^ 32" "r + unat (L - (b - A)) = unat A + unat L" "4096 dvd r" "r \<le> 2 ^ 32" "r = 2 ^ 32 \<longleftrightarrow> 0xFFFFF000 < unat A"
proof -
  have lt: "unat A < 2 ^ 32" using unsigned_less[of A, where ?'a = nat] by simp
  have d: "unat A div 4096 * 4096 + unat A mod 4096 = unat A" "unat A mod 4096 < 4096" "unat A div 4096 < 2 ^ 20"
    using lt by (simp_all add: less_mult_imp_div_less)
  show "4096 dvd r" by (simp add: r_def)
  have z: "4096 dvd unat A \<longleftrightarrow> unat A mod 4096 = 0" by (simp add: dvd_eq_mod_eq_0)
  show le: "r \<le> 2 ^ 32" using d lt by (simp add: r_def)
  show "r = 2 ^ 32 \<longleftrightarrow> 0xFFFFF000 < unat A"
  proof (cases "4096 dvd unat A")
    case True
    then obtain q where "unat A = 4096 * q" by blast
    then show ?thesis using True lt by (simp add: r_def)
  next
    case False
    then have "0 < unat A mod 4096" using z by simp
    moreover have "q * 4096 + 4096 = 0x100000000 \<longleftrightarrow> 0xFFFFF000 < x" if "q * 4096 + m = x" "m < 4096" "0 < m" "q < 2 ^ 20" for q m x :: nat
    proof
      assume "0xFFFFF000 < x"
      then have "0xFFFFE * 4096 < q * 4096" using that(1,2) by simp
      then have "0xFFFFE < q" by (simp only: mult_less_cancel2)
      then show "q * 4096 + 4096 = 0x100000000" using that(4) by simp
    qed (use that in simp)
    ultimately have "unat A div 4096 * 4096 + 4096 = 0x100000000 \<longleftrightarrow> 0xFFFFF000 < unat A" using d by blast
    then show ?thesis using False by (simp add: r_def)
  qed
  have "unat A \<le> unat A div 4096 * 4096 + 4096" using d(1,2) by linarith
  then have ra: "unat A \<le> r" "r \<le> unat A + 4096" by (simp_all add: r_def)
  have b: "b = of_nat r"
  proof (cases "4096 dvd unat A")
    case False
    have "NEXT_PAGE_BOUNDARY A = PAGE_BOUNDARY A + 4096" by (simp add: NEXT_PAGE_BOUNDARY_def PAGE_BOUNDARY_def PAGE_SIZE_def)
    moreover have "PAGE_BOUNDARY A = of_nat (unat A div 4096 * 4096)" by (simp only: unat_PAGE_BOUNDARY[symmetric]) simp
    moreover have "b = NEXT_PAGE_BOUNDARY A" using False by (simp add: b_def page_simps)
    ultimately show ?thesis using False by (simp add: r_def)
  qed (simp add: b_def r_def page_simps)
  then show "unat b = r mod 2 ^ 32" by (simp add: unat_of_nat)
  have "b - A = of_nat (r - unat A)" using b ra by (simp add: of_nat_diff)
  moreover have "r - unat A \<le> unat L" using ra assms(3) by (auto simp: r_def)
  moreover have "r - unat A < 2 ^ 32" using ra \<open>r - unat A \<le> unat L\<close> unsigned_less[of L, where ?'a = nat] by simp
  ultimately have "unat (L - (b - A)) = unat L - (r - unat A)" by (simp add: unat_sub_if' unat_of_nat)
  then show "r + unat (L - (b - A)) = unat A + unat L" using ra \<open>r - unat A \<le> unat L\<close> by simp
qed

lemma map_memory_entry_frames:
  assumes ty: "mmap_type e = MULTIBOOT_MEMORY_AVAILABLE"
  shows "case ram_frames e of None \<Rightarrow> map_memory_entry pm e = None
    | Some F \<Rightarrow> \<exists>pm'. map_memory_entry pm e = Some pm' \<and> avail pm' = avail pm \<union> F \<and> no_page_available pm' = no_page_available pm"
proof -
  let ?A = "ucast (mmap_entry_addr e) :: u32" and ?L = "ucast (mmap_len e) :: u32"
  define a l where "a = unat ?A" and "l = unat ?L"
  define b where "b = (if PAGE_BOUNDARY ?A \<noteq> ?A then NEXT_PAGE_BOUNDARY ?A else ?A)"
  define n where "n = ?L - (b - ?A)"
  define r where "r = (if 4096 dvd a then a else a div 4096 * 4096 + 4096)"
  have al: "PAGE_BOUNDARY ?A = ?A \<longleftrightarrow> 4096 dvd a" by (simp add: page_simps a_def)
  have low: "low_addr e = a" "low_len e = l" by (simp_all add: low_addr_def low_len_def a_def l_def)
  have lt: "a < 2 ^ 32" "l < 2 ^ 32"
    using unsigned_less[of ?A, where ?'a = nat] unsigned_less[of ?L, where ?'a = nat] by (simp_all add: a_def l_def)
  have uc: "ucast (ucast x :: u64) = x" for x :: u32 by (simp add: word_unat_eq_iff unat_ucast_u64 unat_ucast_small order_less_le_trans[OF unsigned_less])
  have run: "map_memory_entry pm e = (if \<not> 4096 dvd a \<and> l \<le> 4096 then Some pm else do {
      (ec, pm') \<leftarrow> change_pages_state pm b (b + PAGE_BOUNDARY n) PAGE_AVAILABLE; if ec \<noteq> SUCCESS then None else Some pm' })"
    using ty al by (cases "4096 dvd a")
      (simp_all add: map_memory_entry_def Let_def round_down_u32 b_def n_def l_def word_le_nat_alt PAGE_SIZE_def ucast_minus_low uc)
  show ?thesis
  proof (cases "\<not> 4096 dvd a \<and> l \<le> 4096")
    case True
    have "\<not> (k + 1) * 4096 \<le> a + l" if "a \<le> k * 4096" for k
    proof -
      have "a \<noteq> k * 4096" using True by auto
      with that True show ?thesis by simp
    qed
    then have none: "{k. a \<le> k * 4096 \<and> (k + 1) * 4096 \<le> a + l} = {}" by auto
    have "0xFFFFF000 < a" if "2 ^ 32 \<le> a + l"
    proof -
      have "a \<noteq> 0xFFFFF000" using True by auto
      then show ?thesis using that True by simp
    qed
    then show ?thesis using True run none by (cases "a + l < 2 ^ 32") (auto simp: ram_frames_def low)
  next
    case False
    then have "4096 dvd unat ?A \<or> 4096 < unat ?L" by (auto simp: a_def l_def)
    note R = rounded_entry[OF this, folded a_def l_def b_def, folded r_def n_def]
    have run': "map_memory_entry pm e = do { (ec, pm') \<leftarrow> change_pages_state pm b (b + PAGE_BOUNDARY n) PAGE_AVAILABLE; if ec \<noteq> SUCCESS then None else Some pm' }"
      using run False by simp
    have ra: "r \<le> k * 4096 \<longleftrightarrow> a \<le> k * 4096" for k using round_up_iff[of a k] by (auto simp: r_def)
    consider (low) "a + l < 2 ^ 32" | (top) "2 ^ 32 \<le> a + l" "r < 2 ^ 32" | (wrap) "2 ^ 32 \<le> a + l" "r = 2 ^ 32" using R(4) by linarith
    then show ?thesis
    proof cases
      case low
      then have ub: "unat b = r" using R(1,2) by simp
      have "4096 dvd unat b" "unat b + unat n < 2 ^ 32" using R(2,3) low ub by simp_all
      from change_pages_state_cut[OF this, of pm] show ?thesis using low R(2) ra unfolding run' ub by (auto simp: ram_frames_def low_addr_def low_len_def a_def l_def)
    next
      case top
      then have ub: "unat b = r" using R(1) by simp
      have nn: "unat n div 4096 * 4096 \<le> unat n" "unat n < 2 ^ 32" using unsigned_less[of n, where ?'a = nat] by simp_all
      have ge: "2 ^ 32 \<le> r + unat n div 4096 * 4096"
      proof -
        obtain q where q: "r = 4096 * q" using R(3) by blast
        have "2 ^ 20 \<le> (4096 * q + unat n) div 4096" using top(1) R(2) div_le_mono[of "2 ^ 32" "r + unat n" 4096] by (simp add: q)
        then have "2 ^ 20 \<le> q + unat n div 4096" by simp
        then show ?thesis by (simp add: q)
      qed
      have "unat (b + PAGE_BOUNDARY n) = (r + unat n div 4096 * 4096) mod 2 ^ 32" by (simp add: unat_word_ariths unat_PAGE_BOUNDARY ub)
      also have "\<dots> = r + unat n div 4096 * 4096 - 2 ^ 32" using ge top(2) nn by (simp add: mod_if)
      finally have "unat (b + PAGE_BOUNDARY n) < unat b" using ub ge top(2) nn by simp
      then have "\<not> b \<le> b + PAGE_BOUNDARY n" by (simp add: word_le_nat_alt)
      then have "map_memory_entry pm e = None" unfolding run' by (simp add: change_pages_state_bad)
      moreover have "a \<le> 0xFFFFF000" using R(5) top(2) by simp
      ultimately show ?thesis using top(1) by (simp add: ram_frames_def low)
    next
      case wrap
      then have ub: "unat b = 0" and un: "unat n = a + l - 2 ^ 32" using R(1,2) by simp_all
      have "4096 dvd unat b" "unat b + unat n < 2 ^ 32" using ub unsigned_less[of n, where ?'a = nat] by simp_all
      from change_pages_state_cut[OF this, of pm] have c: "\<exists>pm'. map_memory_entry pm e = Some pm' \<and> avail pm' = avail pm \<union> {k. (k + 1) * 4096 \<le> a + l - 2 ^ 32}
          \<and> no_page_available pm' = no_page_available pm" unfolding run' ub un by auto
      have "0xFFFFF000 < a" using R(5) wrap(2) by simp
      then have "\<not> 4096 dvd a" using lt(1) by (auto simp: dvd_def)
      then have "\<not> l \<le> 4096" using False by simp
      then show ?thesis using c wrap(1) \<open>0xFFFFF000 < a\<close> by (simp add: ram_frames_def low)
    qed
  qed
qed

text \<open>The entries a walk of the map from \<open>p\<close> visits before it passes \<open>limit\<close>.\<close>

primrec mmap_walk :: "mem \<Rightarrow> u32 \<Rightarrow> u32 \<Rightarrow> multiboot_memory_map_t list \<Rightarrow> bool" where
  "mmap_walk m p limit [] \<longleftrightarrow> \<not> p < limit"
| "mmap_walk m p limit (e # es) \<longleftrightarrow>
     p < limit \<and> read_mmap_entry m p = e \<and> mmap_walk m (p + mmap_size e + 4) limit es"

definition ram_entry :: "multiboot_memory_map_t \<Rightarrow> bool" where
  "ram_entry e \<longleftrightarrow> mmap_type e = MULTIBOOT_MEMORY_AVAILABLE"

lemma map_memory_loop_frames:
  assumes "mmap_walk m p limit es"
  shows "if \<exists>e\<in>set es. ram_entry e \<and> ram_frames e = None then map_memory_loop m pm p limit = None
    else \<exists>pm'. map_memory_loop m pm p limit = Some pm' \<and> avail pm' = avail pm \<union> (\<Union>e\<in>{e \<in> set es. ram_entry e}. the (ram_frames e))"
  using assms
proof (induction es arbitrary: p pm)
  case Nil
  then show ?case by (simp add: map_memory_loop.simps)
next
  case (Cons e es)
  have sz: "load32 m p = mmap_size e" using Cons.prems by (auto simp: read_mmap_entry_def)
  have run: "map_memory_loop m pm p limit = map_memory_entry pm e \<bind> (\<lambda>pm'. map_memory_loop m pm' (p + mmap_size e + 4) limit)"
    using Cons.prems sz by (subst map_memory_loop.simps) simp
  note IH = Cons.IH[of "p + mmap_size e + 4"]
  have w: "mmap_walk m (p + mmap_size e + 4) limit es" using Cons.prems by simp
  show ?case
  proof (cases "ram_entry e")
    case True
    then have ty: "mmap_type e = MULTIBOOT_MEMORY_AVAILABLE" by (simp add: ram_entry_def)
    show ?thesis
    proof (cases "ram_frames e")
      case None
      then show ?thesis using map_memory_entry_frames[OF ty, of pm] True run by simp
    next
      case (Some F)
      then obtain pm1 where "map_memory_entry pm e = Some pm1" "avail pm1 = avail pm \<union> F" "no_page_available pm1 = no_page_available pm"
        using map_memory_entry_frames[OF ty, of pm] by auto
      moreover have "{x \<in> set (e # es). ram_entry x} = insert e {x \<in> set es. ram_entry x}" using True by auto
      ultimately show ?thesis using IH[OF w, of pm1] Some run by (simp add: Un_assoc split: if_splits)
    qed
  next
    case False
    then have "map_memory_entry pm e = Some pm" by (simp add: map_memory_entry_def ram_entry_def)
    moreover have "{x \<in> set (e # es). ram_entry x} = {x \<in> set es. ram_entry x}" using False by auto
    ultimately show ?thesis using IH[OF w, of pm] False run by (simp split: if_splits)
  qed
qed

section \<open>The allocator interface\<close>

text \<open>What the memory managers above rely on: frames come out of a set of free frames and
  go back to it. \<open>held\<close> is the client's own record of the frames it was given and has not
  returned; it frees only those, so a \<open>Free\<close> of any other address is skipped.\<close>

datatype frame_op = Alloc | Free u32

fun frame_run ::
  "('s \<Rightarrow> u32 \<times> 's) \<Rightarrow> ('s \<Rightarrow> u32 \<Rightarrow> 's) \<Rightarrow> 's \<Rightarrow> u32 list \<Rightarrow> frame_op list \<Rightarrow> 's \<times> u32 list" where
  "frame_run alloc free s held [] = (s, held)"
| "frame_run alloc free s held (Alloc # ops) =
     (let r = alloc s in
      frame_run alloc free (snd r) (if fst r = 0 then held else fst r # held) ops)"
| "frame_run alloc free s held (Free a # ops) =
     (if a \<in> set held then frame_run alloc free (free s a) (removeAll a held) ops
      else frame_run alloc free s held ops)"

locale frame_allocator =
  fixes alloc :: "'s \<Rightarrow> u32 \<times> 's"
    and free :: "'s \<Rightarrow> u32 \<Rightarrow> 's"
    and free_frames :: "'s \<Rightarrow> nat set"
  assumes alloc_aligned: "4096 dvd unat (fst (alloc s))"
    and alloc_from_free: "fst (alloc s) \<noteq> 0 \<Longrightarrow> page_of (fst (alloc s)) \<in> free_frames s"
    and alloc_takes: "free_frames (snd (alloc s)) \<subseteq> free_frames s"
      "fst (alloc s) \<noteq> 0 \<Longrightarrow> page_of (fst (alloc s)) \<notin> free_frames (snd (alloc s))"
    and free_gives: "4096 dvd unat a \<Longrightarrow> free_frames (free s a) = insert (page_of a) (free_frames s)"
begin

definition held_ok :: "'s \<Rightarrow> nat set \<Rightarrow> u32 list \<Rightarrow> bool" where
  "held_ok s pool held \<longleftrightarrow> distinct (map page_of held) \<and> page_of ` set held \<inter> free_frames s = {}
     \<and> page_of ` set held \<union> free_frames s \<subseteq> pool \<and> (\<forall>a\<in>set held. 4096 dvd unat a)"

lemma held_ok_alloc:
  assumes "held_ok s pool held"
  shows "held_ok (snd (alloc s)) pool (if fst (alloc s) = 0 then held else fst (alloc s) # held)"
  using assms alloc_from_free[of s] alloc_takes[of s] alloc_aligned[of s]
  unfolding held_ok_def by auto

lemma held_ok_free:
  assumes "held_ok s pool held" "a \<in> set held"
  shows "held_ok (free s a) pool (removeAll a held)"
proof -
  have "4096 dvd unat a" "page_of a \<notin> page_of ` (set held - {a})"
    using assms by (auto simp: held_ok_def distinct_map inj_on_def)
  moreover have "distinct (map page_of (removeAll a held))"
    using assms(1) unfolding held_ok_def by (metis distinct_map distinct_removeAll inj_on_subset set_removeAll Diff_subset)
  ultimately show ?thesis using assms by (auto simp: held_ok_def free_gives)
qed

lemma held_ok_run:
  "held_ok s pool held \<Longrightarrow>
     held_ok (fst (frame_run alloc free s held ops)) pool (snd (frame_run alloc free s held ops))"
proof (induction ops arbitrary: s held)
  case (Cons op ops)
  then show ?case by (cases op) (simp_all add: Let_def held_ok_free held_ok_alloc)
qed simp

lemma run_from_empty:
  assumes "frame_run alloc free s [] ops = (s', held)"
  shows "distinct (map page_of held)" and "page_of ` set held \<subseteq> free_frames s"
    and "page_of ` set held \<inter> free_frames s' = {}"
  using held_ok_run[of s "free_frames s" "[]" ops] assms by (auto simp: held_ok_def)

end

text \<open>The physical memory manager provides the interface.\<close>

lemma free_physical_page_aligned:
  assumes "4096 dvd unat a"
  shows "avail (snd (free_physical_page pm a)) = insert (page_of a) (avail pm)"
    and "fst (free_physical_page pm a) = FAILURE"
    and "\<not> no_page_available (snd (free_physical_page pm a))"
  using change_page_state_aligned[of a pm PAGE_AVAILABLE] assms
  by (auto simp: free_physical_page_def Let_def page_simps avail_def)

lemma free_physical_page_unaligned:
  "\<not> 4096 dvd unat a \<Longrightarrow> free_physical_page pm a = (SUCCESS, pm)"
  by (simp add: free_physical_page_def change_page_state_def page_simps Let_def)

interpretation pmm: frame_allocator "allocate_physical_page ls" "\<lambda>pm a. snd (free_physical_page pm a)" avail
proof
  fix pm a
  note none = allocate_physical_page_none[of pm ls] and some = allocate_physical_page_some[of pm ls]
  show "4096 dvd unat (fst (allocate_physical_page ls pm))"
  proof (cases "no_page_available pm \<or> usable ls pm = {}")
    case False
    with some show ?thesis by (simp add: unat_frame_address)
  qed (use none in simp)
  show "avail (snd (allocate_physical_page ls pm)) \<subseteq> avail pm"
    using none some by (cases "no_page_available pm \<or> usable ls pm = {}") auto
  show "page_of (fst (allocate_physical_page ls pm)) \<in> avail pm" if "fst (allocate_physical_page ls pm) \<noteq> 0"
  proof -
    have ne: "\<not> no_page_available pm" "usable ls pm \<noteq> {}" using that none by auto
    then have "Min (usable ls pm) \<in> usable ls pm" by simp
    with some ne show ?thesis by (simp add: usable_def)
  qed
  show "page_of (fst (allocate_physical_page ls pm)) \<notin> avail (snd (allocate_physical_page ls pm))"
    if "fst (allocate_physical_page ls pm) \<noteq> 0"
    using that none some by (cases "no_page_available pm \<or> usable ls pm = {}") auto
qed (simp add: free_physical_page_aligned)


section \<open>Properties\<close>

text \<open>C4: \<open>allocate_physical_page\<close> returns the lowest available frame at or above the scan
  start and marks that frame, and no other, unavailable. When there is none it returns
  \<open>NULL\<close>, keeps the frames as they were and remembers that memory is exhausted; from then on
  it answers \<open>NULL\<close> without scanning.\<close>

theorem allocate_physical_page_correct:
  "case allocate_physical_page ls pm of (address, pm') \<Rightarrow>
     if no_page_available pm \<or> usable ls pm = {}
     then address = 0 \<and> avail pm' = avail pm \<and> no_page_available pm'
     else address = of_nat (Min (usable ls pm)) * PAGE_SIZE
       \<and> avail pm' = avail pm - {Min (usable ls pm)} \<and> \<not> no_page_available pm'"
  using allocate_physical_page_none[of pm ls] allocate_physical_page_some[of pm ls]
  by (simp add: case_prod_beta)

text \<open>\<open>change_pages_state\<close> always returns. With frame-aligned bounds in order it succeeds
  and changes exactly the frames from \<open>start\<close> up to, not including, \<open>stop\<close>; otherwise it
  answers \<open>INVALID_ARGUMENT\<close> and changes nothing. It never touches the exhausted flag.\<close>

theorem change_pages_state_correct:
  "\<exists>pm'. change_pages_state pm start stop st =
      Some (if 4096 dvd unat start \<and> 4096 dvd unat stop \<and> start \<le> stop then SUCCESS else INVALID_ARGUMENT, pm')
    \<and> no_page_available pm' = no_page_available pm
    \<and> avail pm' =
        (if 4096 dvd unat start \<and> 4096 dvd unat stop \<and> start \<le> stop
         then (case st of PAGE_AVAILABLE \<Rightarrow> avail pm \<union> frames_between start stop
                        | PAGE_UNAVAILABLE \<Rightarrow> avail pm - frames_between start stop)
         else avail pm)"
  using change_pages_state_ok[of start stop pm st] change_pages_state_bad[of start stop pm st]
  by (auto simp: page_simps)

text \<open>C20: what \<open>map_memory\<close> makes of any memory map, given by the entries that its walk visits
  from the address of the map on, over 24 times \<open>map_length\<close> bytes. It makes available exactly the
  frames of the RAM entries, or stops in a kernel panic when one of them reaches 4 GB. For an entry
  that ends below 4 GB these are the frames that lie completely inside it. Addresses and lengths are
  cut to 32 bits first, so an entry above 4 GB stands for the frames at its cut address.\<close>

theorem map_memory_correct:
  assumes "mmap_walk m map_addr (map_addr + map_length * 24) es"
  shows "(if \<exists>e\<in>set es. ram_entry e \<and> ram_frames e = None then map_memory m pm map_addr map_length = None
      else \<exists>pm'. map_memory m pm map_addr map_length = Some pm'
        \<and> avail pm' = avail pm \<union> (\<Union>e\<in>{e \<in> set es. ram_entry e}. the (ram_frames e)))
    \<and> (\<forall>e\<in>set es. unat (mmap_entry_addr e) + unat (mmap_len e) < 2 ^ 32 \<longrightarrow> ram_frames e = Some (full_frames e))"
  using map_memory_loop_frames[OF assms, of pm] low_entry unfolding map_memory_def by blast

definition example_mmap :: mem where
  "example_mmap = store32 (store32 (store32 (store32 (\<lambda>_. 0) 0x500 20) 0x504 0x100800) 0x50c 0x2900) 0x514 1"

theorem map_memory_correct_witness:
  "\<exists>pm'. map_memory example_mmap physical_memory_init 0x500 1 = Some pm' \<and> avail pm' = {0x101, 0x102}"
proof -
  let ?e = "\<lparr>mmap_size = 20, mmap_entry_addr = 0x100800, mmap_len = 0x2900, mmap_type = 1\<rparr>"
  have e: "read_mmap_entry example_mmap 0x500 = ?e"
    by (simp add: read_mmap_entry_def example_mmap_def load64_def load32_def store32_def)
  have w: "mmap_walk example_mmap 0x500 (0x500 + 1 * 24) [?e]" by (simp add: e)
  have f: "full_frames ?e = {0x101, 0x102}" by (auto simp: full_frames_def)
  have "avail physical_memory_init = {}" by (simp add: avail_def physical_memory_init_def bitmap_test_def)
  have "ram_frames ?e = Some (full_frames ?e)" by (rule low_entry) simp
  with map_memory_correct[OF w, of physical_memory_init] f \<open>avail physical_memory_init = {}\<close> show ?thesis
    by (simp add: ram_entry_def MULTIBOOT_MEMORY_AVAILABLE_def)
qed

text \<open>C5: after the boot-time initialisation, whatever sequence of allocations and frees of
  frames it holds a client makes, no frame is handed out twice, none is at once held and
  available, and none belongs to the kernel image or to the low memory below \<open>0xff000\<close>.\<close>

theorem boot_frames_safe:
  assumes boot: "phy_memory_manager_init ls m pm0 map_addr map_length = Some pm"
    and kernel: "4096 dvd unat (kernel_start ls)" "4096 dvd unat (kernel_end ls)" "kernel_start ls \<le> kernel_end ls"
    and run: "frame_run (allocate_physical_page ls) (\<lambda>pm a. snd (free_physical_page pm a)) pm [] ops = (pm', held)"
  shows "distinct (map page_of held) \<and> page_of ` set held \<inter> avail pm' = {}
    \<and> page_of ` set held \<inter> (frames_between 0 0xff000 \<union> frames_between (kernel_start ls) (kernel_end ls)) = {}"
proof -
  from boot obtain pm1 where pm1: "(do {
       (_, pm2) \<leftarrow> change_pages_state pm1 0 0xff000 PAGE_UNAVAILABLE;
       (_, pm3) \<leftarrow> change_pages_state pm2 (kernel_start ls) (kernel_end ls) PAGE_UNAVAILABLE;
       Some pm3 }) = Some pm"
    by (auto simp: phy_memory_manager_init_def split: Option.bind_splits)
  obtain pm2 where pm2: "change_pages_state pm1 0 0xff000 PAGE_UNAVAILABLE = Some (SUCCESS, pm2)"
    "avail pm2 = avail pm1 - frames_between 0 0xff000"
    using change_pages_state_ok[of 0 "0xff000" pm1 PAGE_UNAVAILABLE] by (auto simp: page_simps)
  obtain pm3 where "change_pages_state pm2 (kernel_start ls) (kernel_end ls) PAGE_UNAVAILABLE = Some (SUCCESS, pm3)"
    "avail pm3 = avail pm2 - frames_between (kernel_start ls) (kernel_end ls)"
    using change_pages_state_ok[of "kernel_start ls" "kernel_end ls" pm2 PAGE_UNAVAILABLE] kernel
    by (auto simp: page_simps)
  with pm1 pm2 have "avail pm = avail pm1 - frames_between 0 0xff000 - frames_between (kernel_start ls) (kernel_end ls)"
    by auto
  with pmm.run_from_empty[OF run] show ?thesis by auto
qed

definition all_ram :: physical_mem_t where
  "all_ram = \<lparr>bitmap = (\<lambda>_. 0xff), no_page_available = False\<rparr>"

theorem boot_frames_safe_witness:
  "\<exists>pm pm' held. phy_memory_manager_init example_linker (\<lambda>_. 0) all_ram 0 0 = Some pm
     \<and> frame_run (allocate_physical_page example_linker) (\<lambda>pm a. snd (free_physical_page pm a)) pm [] [Alloc, Alloc]
         = (pm', held)
     \<and> distinct (map page_of held) \<and> page_of ` set held \<inter> frames_between 0x100000 0x140000 = {}"
proof -
  obtain pm2 where pm2: "change_pages_state all_ram 0 0xff000 PAGE_UNAVAILABLE = Some (SUCCESS, pm2)"
    using change_pages_state_ok[of 0 "0xff000" all_ram PAGE_UNAVAILABLE] by (auto simp: page_simps)
  obtain pm3 where pm3: "change_pages_state pm2 0x100000 0x140000 PAGE_UNAVAILABLE = Some (SUCCESS, pm3)"
    using change_pages_state_ok[of "0x100000" "0x140000" pm2 PAGE_UNAVAILABLE] by (auto simp: page_simps)
  have boot: "phy_memory_manager_init example_linker (\<lambda>_. 0) all_ram 0 0 = Some pm3"
    by (simp add: phy_memory_manager_init_def map_memory_def map_memory_loop.simps pm2 pm3 example_linker_def)
  obtain pm' held where run: "frame_run (allocate_physical_page example_linker)
      (\<lambda>pm a. snd (free_physical_page pm a)) pm3 [] [Alloc, Alloc] = (pm', held)"
    by (rule prod.exhaust)
  from boot_frames_safe[OF boot _ _ _ run] boot run show ?thesis
    by (auto simp: example_linker_def)
qed

text \<open>Freeing an aligned address makes its frame available and clears the exhausted flag,
  yet the returned code is \<open>FAILURE\<close>; an address that is not frame-aligned, such as a page
  table entry with its attribute bits, is refused with no effect, and the code returned is
  \<open>SUCCESS\<close>. The codes are the reverse of their meaning.\<close>

theorem free_physical_page_result:
  "case free_physical_page pm a of (ec, pm') \<Rightarrow>
     if 4096 dvd unat a
     then ec = FAILURE \<and> avail pm' = insert (page_of a) (avail pm) \<and> \<not> no_page_available pm'
     else ec = SUCCESS \<and> pm' = pm"
  using free_physical_page_aligned[of a pm] free_physical_page_unaligned[of a pm]
  by (simp add: case_prod_beta)

text \<open>Once the allocator has run dry, giving frames back with \<open>unregister_physical_pages\<close>
  does not revive it: the next allocation still answers \<open>NULL\<close>.\<close>

theorem unregister_leaves_exhausted:
  assumes "no_page_available pm"
  shows "\<exists>ec pm'. unregister_physical_pages pm start stop = Some (ec, pm')
    \<and> fst (allocate_physical_page ls pm') = 0"
  using change_pages_state_ok[of start stop pm PAGE_AVAILABLE] change_pages_state_bad[of start stop pm PAGE_AVAILABLE]
    allocate_physical_page_none(1) assms
  by (fastforce simp: unregister_physical_pages_def)

theorem unregister_leaves_exhausted_witness:
  "\<exists>ec pm'. unregister_physical_pages (all_ram\<lparr>no_page_available := True\<rparr>) 0x200000 0x300000 = Some (ec, pm')
    \<and> fst (allocate_physical_page example_linker pm') = 0"
  by (rule unregister_leaves_exhausted) (simp add: all_ram_def)

text \<open>The 64-bit base of a map entry is cut to 32 bits, so a frame-aligned RAM entry at or
  above 4 GB makes the frames at its truncated address available; and a RAM entry that ends
  exactly at 4 GB stops the boot with a kernel panic.\<close>

theorem map_memory_entry_high:
  assumes ty: "mmap_type e = MULTIBOOT_MEMORY_AVAILABLE" and al: "4096 dvd unat (mmap_entry_addr e)"
  shows "map_memory_entry pm e = map_memory_entry pm (e\<lparr>mmap_entry_addr := ucast (ucast (mmap_entry_addr e) :: u32)\<rparr>)
    \<and> (0 < unat (mmap_entry_addr e) \<and> 0 < unat (mmap_len e) \<and> unat (mmap_entry_addr e) + unat (mmap_len e) = 2 ^ 32
        \<longrightarrow> map_memory_entry pm e = None)"
proof (intro conjI impI)
  let ?A = "ucast (mmap_entry_addr e) :: u32" and ?L = "ucast (mmap_len e) :: u32"
  have A: "PAGE_BOUNDARY ?A = ?A"
    using al by (simp add: page_simps unsigned_ucast_eq take_bit_eq_mod dvd_mod_iff)
  have "ucast (ucast ?A :: u64) = ?A" by (simp add: word_unat_eq_iff unat_ucast_u64 unat_ucast_small order_less_le_trans[OF unsigned_less])
  with A show "map_memory_entry pm e = map_memory_entry pm (e\<lparr>mmap_entry_addr := ucast ?A\<rparr>)"
    by (simp add: map_memory_entry_def Let_def)
  assume top: "0 < unat (mmap_entry_addr e) \<and> 0 < unat (mmap_len e) \<and> unat (mmap_entry_addr e) + unat (mmap_len e) = 2 ^ 32"
  then have u: "unat ?A = unat (mmap_entry_addr e)" "unat ?L = unat (mmap_len e)"
    by (auto intro!: unat_ucast_small)
  have "unat (?A + ?L) = 0" using top by (simp add: unat_word_ariths u)
  then have sum: "?A + ?L = 0" by (simp add: unat_eq_zero)
  have "4096 dvd unat ?L" using al top u by (simp add: dvd_add_right_iff[of _ "unat (mmap_entry_addr e)", symmetric])
  then have L: "PAGE_BOUNDARY ?L = ?L" by (simp add: page_simps)
  have "\<not> ?A \<le> 0" using top u by (auto simp: word_le_nat_alt)
  then show "map_memory_entry pm e = None"
    using ty A by (simp add: map_memory_entry_def Let_def L sum change_pages_state_bad)
qed

theorem map_memory_entry_high_witness:
  "map_memory_entry all_ram \<lparr>mmap_size = 20, mmap_entry_addr = 0xF0000000, mmap_len = 0x10000000, mmap_type = 1\<rparr> = None"
  using map_memory_entry_high
    [of "\<lparr>mmap_size = 20, mmap_entry_addr = 0xF0000000, mmap_len = 0x10000000, mmap_type = 1\<rparr>" all_ram]
  by (simp add: MULTIBOOT_MEMORY_AVAILABLE_def)

end
