(* ===== verification/Paging.thy ===== *)
theory Paging
  imports LibcMemory
begin

text \<open>
  The constants and macros of \<^verbatim>\<open>src/include/mm/paging.h\<close>, the page walk of the
  processor, and the boot-time page tables of \<^verbatim>\<open>src/kernel/mm/early_paging_manager.c\<close>.
  The kernel edits page tables through the recursive entry 1023 of the page directory, so
  the model keeps the physical memory (by aligned double words) with the control registers
  and sends every access of a virtual address through the two-level walk. A failed walk is
  \<open>None\<close>: the processor faults, and the kernel has no page-fault handler.
\<close>

section \<open>Definitions\<close>

subsection \<open>Constants and macros\<close>

definition PRESENT :: u32 where "PRESENT = 1"
definition READ_WRITE :: u32 where "READ_WRITE = 2"
definition USER :: u32 where "USER = 4"
definition PAGE_TABLE_SIZE :: nat where "PAGE_TABLE_SIZE = 1024"
definition PAGE_DIRECTORY_SIZE :: nat where "PAGE_DIRECTORY_SIZE = 1024"
definition RECURSIVE_PGD_ADDRESS :: u32 where "RECURSIVE_PGD_ADDRESS = 0xFFC00000"
definition RECURSIVE_PGT_ADDRESS :: u32 where "RECURSIVE_PGT_ADDRESS = 0xFFFFF000"
definition NUM_KERNEL_PAGE_TABLES :: nat where "NUM_KERNEL_PAGE_TABLES = 2"
definition KERNEL_PGD_ENTRY_INDEX :: nat where "KERNEL_PGD_ENTRY_INDEX = 768"

definition ADDRESS_TO_DIRECTORY_ENTRY :: "u32 \<Rightarrow> u32" where
  "ADDRESS_TO_DIRECTORY_ENTRY address = drop_bit 22 address"

definition ADDRESS_TO_PAGE_TABLE_ENTRY :: "u32 \<Rightarrow> u32" where
  "ADDRESS_TO_PAGE_TABLE_ENTRY address = drop_bit 12 address AND 0x03ff"

subsection \<open>The processor's page walk\<close>

type_synonym dwords = "u32 \<Rightarrow> u32"

record vm =
  pmem :: dwords
  cr3 :: u32
  paging :: bool

definition pde_at :: "vm \<Rightarrow> u32 \<Rightarrow> u32" where
  "pde_at s va = pmem s (PAGE_BOUNDARY (cr3 s) + 4 * ADDRESS_TO_DIRECTORY_ENTRY va)"

definition pte_at :: "vm \<Rightarrow> u32 \<Rightarrow> u32" where
  "pte_at s va = pmem s (PAGE_BOUNDARY (pde_at s va) + 4 * ADDRESS_TO_PAGE_TABLE_ENTRY va)"

definition translate :: "vm \<Rightarrow> u32 \<Rightarrow> u32 option" where
  "translate s va =
     (if \<not> paging s then Some va
      else if \<not> bit (pde_at s va) 0 \<or> \<not> bit (pte_at s va) 0 then None
      else Some (PAGE_BOUNDARY (pte_at s va) + (va AND 0xfff)))"

text \<open>Ring 3 may write the page: both levels carry the user and the write bit.\<close>

definition user_writable :: "vm \<Rightarrow> u32 \<Rightarrow> bool" where
  "user_writable s va \<longleftrightarrow> translate s va \<noteq> None
     \<and> bit (pde_at s va) 1 \<and> bit (pte_at s va) 1 \<and> bit (pde_at s va) 2 \<and> bit (pte_at s va) 2"

definition vread :: "vm \<Rightarrow> u32 \<Rightarrow> u32 option" where
  "vread s va = map_option (pmem s) (translate s va)"

definition vwrite :: "vm \<Rightarrow> u32 \<Rightarrow> u32 \<Rightarrow> vm option" where
  "vwrite s va v = map_option (\<lambda>pa. s\<lparr>pmem := (pmem s)(pa := v)\<rparr>) (translate s va)"

subsection \<open>Boot-time page tables\<close>

text \<open>These functions run before paging is on, so an address is a physical one.\<close>

definition early_edit_entry_attributes :: "dwords \<Rightarrow> u32 \<Rightarrow> u32 \<Rightarrow> dwords" where
  "early_edit_entry_attributes p entry attributes =
     (if entry \<noteq> 0 then p(entry := p entry OR attributes) else p)"

definition fill_kernel_page_table :: "u32 \<Rightarrow> dwords \<times> u32 \<Rightarrow> dwords \<times> u32" where
  "fill_kernel_page_table current_pgt =
     fold (\<lambda>j (p, current_page).
         let entry = current_pgt + 4 * of_nat j;
             p1 = p(entry := current_page);
             p2 = p1(entry := p1 entry OR 0x3)
         in (p2, current_page + PAGE_SIZE))
       [0..<PAGE_TABLE_SIZE]"

definition create_kernel_page_tables :: "linker_symbols \<Rightarrow> dwords \<Rightarrow> dwords" where
  "create_kernel_page_tables ls p =
     fst (fold (\<lambda>i. fill_kernel_page_table (kernel_page_tables ls + of_nat i * PAGE_SIZE))
          [0..<NUM_KERNEL_PAGE_TABLES] (p, 0))"

definition map_lower_mem :: "linker_symbols \<Rightarrow> dwords \<Rightarrow> dwords" where
  "map_lower_mem ls p =
     fold (\<lambda>i p. let entry = init_page_directory ls + 4 * of_nat i;
                     p1 = p(entry := kernel_page_tables ls + of_nat i * PAGE_SIZE)
                 in early_edit_entry_attributes p1 entry (READ_WRITE OR PRESENT))
       [0..<NUM_KERNEL_PAGE_TABLES] p"

definition map_kernel_memory :: "linker_symbols \<Rightarrow> dwords \<Rightarrow> dwords" where
  "map_kernel_memory ls p =
     fold (\<lambda>i p. let entry = init_page_directory ls + 4 * of_nat i;
                     p1 = p(entry := kernel_page_tables ls + of_nat (i - KERNEL_PGD_ENTRY_INDEX) * PAGE_SIZE)
                 in early_edit_entry_attributes p1 entry (READ_WRITE OR PRESENT))
       [KERNEL_PGD_ENTRY_INDEX..<KERNEL_PGD_ENTRY_INDEX + NUM_KERNEL_PAGE_TABLES] p"

definition enable_paging :: "linker_symbols \<Rightarrow> vm \<Rightarrow> vm" where
  "enable_paging ls s = s\<lparr>cr3 := init_page_directory ls, paging := True\<rparr>"

definition init_recursive_page_directory :: "linker_symbols \<Rightarrow> dwords \<Rightarrow> dwords" where
  "init_recursive_page_directory ls p =
     (let entry = init_page_directory ls + 4 * of_nat (PAGE_DIRECTORY_SIZE - 1);
          p1 = p(entry := init_page_directory ls)
      in early_edit_entry_attributes p1 entry (READ_WRITE OR PRESENT))"

definition paging_init :: "linker_symbols \<Rightarrow> vm \<Rightarrow> vm" where
  "paging_init ls s =
     (let p1 = create_kernel_page_tables ls (pmem s);
          p2 = map_lower_mem ls p1;
          p3 = map_kernel_memory ls p2;
          p4 = init_recursive_page_directory ls p3
      in enable_paging ls (s\<lparr>pmem := p4\<rparr>))"

section \<open>Indices and entries\<close>

lemma unat_dir_index: "unat (ADDRESS_TO_DIRECTORY_ENTRY va) = unat va div 2 ^ 22"
  by (simp add: ADDRESS_TO_DIRECTORY_ENTRY_def drop_bit_eq_div unat_div)

lemma unat_pgt_index: "unat (ADDRESS_TO_PAGE_TABLE_ENTRY va) = unat va div 4096 mod 1024"
proof -
  have "(0x03ff :: u32) = mask 10" by (simp add: mask_eq_exp_minus_1)
  then have "ADDRESS_TO_PAGE_TABLE_ENTRY va = take_bit 10 (drop_bit 12 va)"
    by (simp add: ADDRESS_TO_PAGE_TABLE_ENTRY_def take_bit_eq_mask)
  then show ?thesis by (simp add: drop_bit_eq_div take_bit_eq_mod unat_div unat_mod)
qed

lemma entry_attributes:
  assumes "PAGE_BOUNDARY x = x" "a AND NOT 0xfff = 0"
  shows "PAGE_BOUNDARY (x OR a) = x"
proof -
  have "PAGE_BOUNDARY (x OR a) = PAGE_BOUNDARY x OR (a AND NOT 0xfff)"
    by (simp add: PAGE_BOUNDARY_def PAGE_SIZE_def bit.conj_disj_distrib2)
  with assms show ?thesis by simp
qed

lemma aligned_low_bit: "PAGE_BOUNDARY x = x \<Longrightarrow> n < 12 \<Longrightarrow> \<not> bit x n"
  using bit_push_bit_iff[of 12 "drop_bit 12 x" n] by (auto simp: PAGE_BOUNDARY_alt)

lemma page_split: "(va AND NOT (mask 12)) + (va AND mask 12) = va" for va :: u32
proof -
  have "(va AND NOT (mask 12)) AND (va AND mask 12) = 0" by (rule bit_word_eqI) (auto simp: bit_simps)
  then have "(va AND NOT (mask 12)) + (va AND mask 12) = (va AND NOT (mask 12)) OR (va AND mask 12)"
    by (rule disjunctive_add_eq_or)
  also have "\<dots> = va" by (rule bit_word_eqI) (auto simp: bit_simps)
  finally show ?thesis .
qed

lemma page_offset: "PAGE_BOUNDARY va + (va AND 0xfff) = va"
proof -
  have "(0xfff :: u32) = mask 12" by (simp add: mask_eq_exp_minus_1)
  then have "PAGE_BOUNDARY va = va AND NOT (mask 12)" "va AND 0xfff = va AND mask 12"
    by (simp_all add: PAGE_BOUNDARY_def PAGE_SIZE_def)
  then show ?thesis by (simp add: page_split)
qed

section \<open>Tables in physical memory\<close>

text \<open>Entry \<open>k\<close> of the table at \<open>base\<close>.\<close>

definition slot :: "u32 \<Rightarrow> nat \<Rightarrow> u32" where
  "slot base k = base + 4 * of_nat k"

lemma unat_slot: "unat base + 4 * k < 2 ^ 32 \<Longrightarrow> unat (slot base k) = unat base + 4 * k"
  by (simp add: slot_def unat_word_ariths unat_of_nat)

lemma slot_inj: "k < 2 ^ 30 \<Longrightarrow> l < 2 ^ 30 \<Longrightarrow> slot base k = slot base l \<longleftrightarrow> k = l"
proof
  assume "k < 2 ^ 30" "l < 2 ^ 30" "slot base k = slot base l"
  moreover from this have "unat (4 * of_nat k :: u32) = unat (4 * of_nat l :: u32)" by (simp add: slot_def)
  ultimately show "k = l" by (simp add: unat_word_ariths unat_of_nat)
qed simp

lemma slot_disjoint:
  assumes "unat a + 4 * n \<le> unat b" "unat b + 4 * m \<le> 2 ^ 32" "k < n" "l < m"
  shows "slot a k \<noteq> slot b l" "slot b l \<noteq> slot a k"
proof -
  have "unat (slot a k) = unat a + 4 * k" "unat (slot b l) = unat b + 4 * l"
    using assms by (simp_all add: unat_slot)
  with assms have "unat (slot a k) \<noteq> unat (slot b l)" by simp
  then show "slot a k \<noteq> slot b l" "slot b l \<noteq> slot a k" by auto
qed

lemma slot_page:
  assumes "4096 dvd unat a" "k < 1024"
  shows "PAGE_BOUNDARY (slot a k) = a" "unat (slot a k) = unat a + 4 * k"
proof -
  have "unat a + 4096 \<le> 2 ^ 32" using assms(1) unsigned_less[of a, where ?'a = nat] by (auto simp: dvd_def)
  then show u: "unat (slot a k) = unat a + 4 * k" using assms(2) by (intro unat_slot) simp
  have "unat (PAGE_BOUNDARY (slot a k)) = unat a" using assms by (auto simp: page_simps u dvd_def)
  then show "PAGE_BOUNDARY (slot a k) = a" by (simp only: word_unat_eq_iff)
qed

lemma slot_eq_iff:
  "4096 dvd unat a \<Longrightarrow> 4096 dvd unat b \<Longrightarrow> k < 1024 \<Longrightarrow> l < 1024 \<Longrightarrow> slot a k = slot b l \<longleftrightarrow> a = b \<and> k = l"
  by (metis slot_page(1) slot_inj less_trans[of _ 1024 "2 ^ 30"] numeral_less_iff slot_page(2) add_left_cancel mult_cancel1 zero_neq_numeral)

lemma slot_next_table: "slot (base + of_nat i * PAGE_SIZE) j = slot base (1024 * i + j)"
  by (simp add: slot_def PAGE_SIZE_def)

definition fill_table :: "u32 \<Rightarrow> nat \<Rightarrow> u32 \<Rightarrow> dwords \<Rightarrow> dwords" where
  "fill_table base n c p = fold (\<lambda>j p. p(slot base j := (c + of_nat j * PAGE_SIZE) OR 3)) [0..<n] p"

lemma fill_table_slot:
  "j < 2 ^ 30 \<Longrightarrow> n \<le> 2 ^ 30 \<Longrightarrow>
     fill_table base n c p (slot base j) = (if j < n then (c + of_nat j * PAGE_SIZE) OR 3 else p (slot base j))"
  by (induction n) (auto simp: fill_table_def slot_inj less_Suc_eq)

lemma fill_table_other: "(\<And>j. j < n \<Longrightarrow> a \<noteq> slot base j) \<Longrightarrow> fill_table base n c p a = p a"
  by (induction n) (auto simp: fill_table_def)

lemma fill_kernel_page_table_eq:
  "fill_kernel_page_table base (p, c) = (fill_table base 1024 c p, c + 1024 * PAGE_SIZE)"
proof -
  have "fold (\<lambda>j (p, current_page).
         let entry = base + 4 * of_nat j; p1 = p(entry := current_page); p2 = p1(entry := p1 entry OR 0x3)
         in (p2, current_page + PAGE_SIZE)) [0..<n] (p, c)
      = (fill_table base n c p, c + of_nat n * PAGE_SIZE)" for n
    by (induction n) (simp_all add: fill_table_def slot_def Let_def algebra_simps fun_eq_iff)
  from this[of 1024] show ?thesis by (simp only: fill_kernel_page_table_def PAGE_TABLE_SIZE_def) simp
qed

lemma create_kernel_page_tables_slot:
  assumes "k < 2 ^ 30"
  shows "create_kernel_page_tables ls p (slot (kernel_page_tables ls) k) =
    (if k < 2048 then of_nat k * PAGE_SIZE OR 3 else p (slot (kernel_page_tables ls) k))"
proof -
  let ?b = "kernel_page_tables ls"
  have eq: "create_kernel_page_tables ls p =
      fill_table (?b + PAGE_SIZE) 1024 (1024 * PAGE_SIZE) (fill_table ?b 1024 0 p)"
    by (simp add: create_kernel_page_tables_def NUM_KERNEL_PAGE_TABLES_def upt_rec fill_kernel_page_table_eq)
  have next_table: "slot (?b + PAGE_SIZE) j = slot ?b (1024 + j)" for j
    using slot_next_table[of ?b 1 j] by simp
  show ?thesis
  proof (cases "k < 1024")
    case True
    then have "slot ?b k \<noteq> slot (?b + PAGE_SIZE) j" if "j < 1024" for j
      using that by (simp add: next_table slot_inj)
    then show ?thesis using True by (simp add: eq fill_table_other fill_table_slot)
  next
    case False
    then obtain j where k: "k = 1024 + j" by (metis le_add_diff_inverse not_less)
    have "fill_table (?b + PAGE_SIZE) 1024 c q (slot ?b k)
        = (if j < 1024 then (c + of_nat j * PAGE_SIZE) OR 3 else q (slot ?b k))" for c q
      using assms fill_table_slot[of j 1024 "?b + PAGE_SIZE" c q] by (simp add: next_table k)
    moreover have "of_nat k * PAGE_SIZE = 1024 * PAGE_SIZE + of_nat j * PAGE_SIZE"
      by (simp add: k distrib_right)
    ultimately show ?thesis using assms False k by (simp add: eq fill_table_slot)
  qed
qed

lemma create_kernel_page_tables_other:
  assumes "\<And>k. k < 2048 \<Longrightarrow> a \<noteq> slot (kernel_page_tables ls) k"
  shows "create_kernel_page_tables ls p a = p a"
proof -
  have "a \<noteq> slot (kernel_page_tables ls + PAGE_SIZE) j" if "j < 1024" for j
    using slot_next_table[of "kernel_page_tables ls" 1 j] assms[of "1024 + j"] that by simp
  moreover have "a \<noteq> slot (kernel_page_tables ls) j" if "j < 1024" for j using assms that by simp
  ultimately show ?thesis
    by (simp add: create_kernel_page_tables_def NUM_KERNEL_PAGE_TABLES_def upt_rec fill_kernel_page_table_eq
        fill_table_other)
qed

text \<open>The page tables lie in frames of their own, none of them at address 0 and none
  reaching past the end of memory, as the alignment attributes and the linker place them.\<close>

definition tables_ok :: "linker_symbols \<Rightarrow> bool" where
  "tables_ok ls \<longleftrightarrow>
     4096 dvd unat (kernel_page_tables ls) \<and> 4096 dvd unat (kheap_page_tables ls)
     \<and> 4096 dvd unat (init_page_directory ls) \<and> 0 < unat (init_page_directory ls)
     \<and> unat (kernel_page_tables ls) + 8192 \<le> 2 ^ 32
     \<and> kheap_page_tables ls \<notin> {init_page_directory ls, kernel_page_tables ls, kernel_page_tables ls + PAGE_SIZE}
     \<and> (unat (init_page_directory ls) + 4096 \<le> unat (kernel_page_tables ls)
        \<or> unat (kernel_page_tables ls) + 8192 \<le> unat (init_page_directory ls))"

lemma aligned_room: "4096 dvd unat (a :: u32) \<Longrightarrow> unat a + 4096 \<le> 2 ^ 32"
  using unsigned_less[of a, where ?'a = nat] by (auto simp: dvd_def)

lemma directory_kernel_slots:
  assumes "tables_ok ls" "k < 2048" "i < 1024"
  shows "slot (init_page_directory ls) i \<noteq> slot (kernel_page_tables ls) k"
proof -
  have "unat (init_page_directory ls) + 4096 \<le> 2 ^ 32"
    using assms(1) by (intro aligned_room) (simp add: tables_ok_def)
  then show ?thesis
    using assms slot_disjoint[of "init_page_directory ls" 1024 "kernel_page_tables ls" 2048 i k]
      slot_disjoint[of "kernel_page_tables ls" 2048 "init_page_directory ls" 1024 k i]
    by (auto simp: tables_ok_def)
qed

lemma directory_slot_nonzero:
  assumes "tables_ok ls" "i < 1024"
  shows "slot (init_page_directory ls) i \<noteq> 0"
proof -
  have "unat (init_page_directory ls) + 4096 \<le> 2 ^ 32"
    using assms(1) by (intro aligned_room) (simp add: tables_ok_def)
  then have "unat (slot (init_page_directory ls) i) = unat (init_page_directory ls) + 4 * i"
    using assms(2) by (intro unat_slot) simp
  with assms(1) show ?thesis by (auto simp: tables_ok_def)
qed

lemma early_entry_written:
  assumes "tables_ok ls" "i < 1024"
  shows "early_edit_entry_attributes (p(init_page_directory ls + 4 * of_nat i := v))
      (init_page_directory ls + 4 * of_nat i) (READ_WRITE OR PRESENT)
    = p(slot (init_page_directory ls) i := v OR 3)"
proof -
  have "READ_WRITE OR PRESENT = 3" by (simp add: READ_WRITE_def PRESENT_def)
  then show ?thesis
    using directory_slot_nonzero[OF assms] by (simp add: early_edit_entry_attributes_def slot_def)
qed

lemma map_lower_mem_eq:
  assumes "tables_ok ls"
  shows "map_lower_mem ls p = p(slot (init_page_directory ls) 0 := kernel_page_tables ls OR 3,
     slot (init_page_directory ls) 1 := (kernel_page_tables ls + PAGE_SIZE) OR 3)"
  using early_entry_written[OF assms, of 0] early_entry_written[OF assms, of 1]
  by (simp add: map_lower_mem_def NUM_KERNEL_PAGE_TABLES_def upt_rec Let_def)

lemma map_kernel_memory_eq:
  assumes "tables_ok ls"
  shows "map_kernel_memory ls p = p(slot (init_page_directory ls) 768 := kernel_page_tables ls OR 3,
     slot (init_page_directory ls) 769 := (kernel_page_tables ls + PAGE_SIZE) OR 3)"
  using early_entry_written[OF assms, of 768] early_entry_written[OF assms, of 769]
  by (simp add: map_kernel_memory_def NUM_KERNEL_PAGE_TABLES_def KERNEL_PGD_ENTRY_INDEX_def upt_rec Let_def)

lemma init_recursive_page_directory_eq:
  assumes "tables_ok ls"
  shows "init_recursive_page_directory ls p = p(slot (init_page_directory ls) 1023 := init_page_directory ls OR 3)"
  using early_entry_written[OF assms, of 1023]
  by (simp add: init_recursive_page_directory_def PAGE_DIRECTORY_SIZE_def Let_def)

lemma paging_init_directory:
  assumes "tables_ok ls" "i < 1024"
  shows "pmem (paging_init ls s) (slot (init_page_directory ls) i) =
    (if i = 0 \<or> i = 768 then kernel_page_tables ls OR 3
     else if i = 1 \<or> i = 769 then (kernel_page_tables ls + PAGE_SIZE) OR 3
     else if i = 1023 then init_page_directory ls OR 3
     else pmem s (slot (init_page_directory ls) i))"
proof -
  have "create_kernel_page_tables ls p (slot (init_page_directory ls) i) = p (slot (init_page_directory ls) i)" for p
    by (rule create_kernel_page_tables_other) (simp add: directory_kernel_slots assms)
  then show ?thesis using assms
    by (simp add: paging_init_def enable_paging_def Let_def map_lower_mem_eq map_kernel_memory_eq
        init_recursive_page_directory_eq slot_inj)
qed

lemma paging_init_table:
  assumes "tables_ok ls" "k < 2048"
  shows "pmem (paging_init ls s) (slot (kernel_page_tables ls) k) = of_nat k * PAGE_SIZE OR 3"
proof -
  have "slot (kernel_page_tables ls) k \<noteq> slot (init_page_directory ls) i" if "i < 1024" for i
    using directory_kernel_slots[OF assms that] by metis
  then show ?thesis using assms
    by (simp add: paging_init_def enable_paging_def Let_def map_lower_mem_eq map_kernel_memory_eq
        init_recursive_page_directory_eq create_kernel_page_tables_slot)
qed

section \<open>The walk, by indices\<close>

lemma bit_or_3: "bit (x OR 3) 0" "bit (x OR 3) (Suc 0)" for x :: u32
  by (simp_all add: bit_or_iff)

text \<open>A walk through a present directory entry and a present table entry.\<close>

lemma translate_walk:
  assumes "paging s" "4096 dvd unat (cr3 s)"
    and "pmem s (slot (cr3 s) (unat va div 2 ^ 22)) = t OR a" "4096 dvd unat t" "a AND NOT 0xfff = 0" "bit a 0"
    and "pmem s (slot t (unat va div 4096 mod 1024)) = e" 
  shows "translate s va = (if bit e 0 then Some (PAGE_BOUNDARY e + (va AND 0xfff)) else None)"
    and "pde_at s va = t OR a" and "pte_at s va = e"
proof -
  have "ADDRESS_TO_DIRECTORY_ENTRY va = of_nat (unat va div 2 ^ 22)"
    "ADDRESS_TO_PAGE_TABLE_ENTRY va = of_nat (unat va div 4096 mod 1024)"
    by (simp_all only: unat_dir_index[symmetric] unat_pgt_index[symmetric]) simp_all
  moreover have "PAGE_BOUNDARY (cr3 s) = cr3 s" using assms(2) by (simp add: page_simps)
  ultimately show d: "pde_at s va = t OR a"
    using assms(3) by (simp add: pde_at_def slot_def)
  have "PAGE_BOUNDARY (t OR a) = t" using assms(4,5) by (simp add: entry_attributes page_simps)
  then show p: "pte_at s va = e"
    using assms(7) d \<open>ADDRESS_TO_PAGE_TABLE_ENTRY va = _\<close> by (simp add: pte_at_def slot_def)
  show "translate s va = (if bit e 0 then Some (PAGE_BOUNDARY e + (va AND 0xfff)) else None)"
    using assms(1,6) by (simp add: translate_def d p bit_or_iff)
qed

lemma translate_absent:
  assumes "paging s" "4096 dvd unat (cr3 s)" "\<not> bit (pmem s (slot (cr3 s) (unat va div 2 ^ 22))) 0"
  shows "translate s va = None"
proof -
  have "ADDRESS_TO_DIRECTORY_ENTRY va = of_nat (unat va div 2 ^ 22)"
    by (simp only: unat_dir_index[symmetric]) simp
  moreover have "PAGE_BOUNDARY (cr3 s) = cr3 s" using assms(2) by (simp add: page_simps)
  ultimately show ?thesis using assms by (simp add: translate_def pde_at_def slot_def)
qed

lemma unat_page_offset: "unat (va AND 0xfff) = unat va mod 4096" for va :: u32
proof -
  have "(0xfff :: u32) = mask 12" by (simp add: mask_eq_exp_minus_1)
  then show ?thesis by (simp only: take_bit_eq_mask[symmetric] take_bit_eq_mod unat_mod) simp
qed

text \<open>An entry for frame \<open>k\<close> leads to that frame.\<close>

lemma frame_entry: "k < 2 ^ 20 \<Longrightarrow> PAGE_BOUNDARY (of_nat k * PAGE_SIZE OR 3) = of_nat k * PAGE_SIZE"
proof -
  assume "k < 2 ^ 20"
  then have "unat (of_nat k * PAGE_SIZE) = k * 4096"
    by (simp add: PAGE_SIZE_def unat_word_ariths unat_of_nat)
  then show ?thesis by (intro entry_attributes) (simp_all add: page_simps)
qed

lemma frame_address: "unat va div 4096 = k \<Longrightarrow> of_nat k * PAGE_SIZE + (va AND 0xfff) = va"
proof -
  assume k: "unat va div 4096 = k"
  then have "k * 4096 < 2 ^ 32" using unsigned_less[of va, where ?'a = nat] by (auto intro: le_less_trans)
  then have "unat (of_nat k * PAGE_SIZE :: u32) = unat (PAGE_BOUNDARY va)"
    by (simp add: PAGE_SIZE_def unat_word_ariths unat_of_nat page_simps k)
  then have "of_nat k * PAGE_SIZE = PAGE_BOUNDARY va" by (simp only: word_unat_eq_iff)
  then show ?thesis by (simp add: page_offset)
qed

text \<open>What the boot-time tables are to map: the first 8 MB to themselves and to the kernel's
  half, and the tables and the directory themselves through the recursive entry.\<close>

definition early_mapping :: "linker_symbols \<Rightarrow> u32 \<Rightarrow> u32 option" where
  "early_mapping ls va =
     (let dir = unat va div 2 ^ 22; table = unat va div 4096 mod 1024; offset = va AND 0xfff in
      if dir < 2 then Some va
      else if 768 \<le> dir \<and> dir < 770 then Some (va - KERNEL_VIRTUAL_OFFSET)
      else if dir < 1023 then None
      else if table = 0 \<or> table = 768 then Some (kernel_page_tables ls + offset)
      else if table = 1 \<or> table = 769 then Some (kernel_page_tables ls + PAGE_SIZE + offset)
      else if table = 1023 then Some (init_page_directory ls + offset)
      else None)"

lemma paging_init_regs [simp]: "paging (paging_init ls s)" "cr3 (paging_init ls s) = init_page_directory ls"
  by (simp_all add: paging_init_def enable_paging_def Let_def)

lemma tables_ok_aligned:
  assumes "tables_ok ls"
  shows "4096 dvd unat (init_page_directory ls)" "4096 dvd unat (kernel_page_tables ls)"
    "4096 dvd unat (kernel_page_tables ls + PAGE_SIZE)"
proof -
  show 1: "4096 dvd unat (init_page_directory ls)" "4096 dvd unat (kernel_page_tables ls)"
    using assms by (simp_all add: tables_ok_def)
  have "unat (kernel_page_tables ls + PAGE_SIZE) = unat (kernel_page_tables ls) + 4096"
    using assms by (subst unat_plus_simple[THEN iffD1]) (simp_all add: PAGE_SIZE_def tables_ok_def word_le_nat_alt unat_word_ariths)
  then show "4096 dvd unat (kernel_page_tables ls + PAGE_SIZE)" using 1(2) by simp
qed

text \<open>One walk through either kernel table.\<close>

lemma kernel_table_walk:
  assumes ok: "tables_ok ls" and i: "i < 2"
    and d: "pmem (paging_init ls s) (slot (init_page_directory ls) (unat va div 2 ^ 22))
            = (kernel_page_tables ls + of_nat i * PAGE_SIZE) OR 3"
  shows "translate (paging_init ls s) va =
    Some (of_nat (1024 * i + unat va div 4096 mod 1024) * PAGE_SIZE + (va AND 0xfff))"
proof -
  let ?k = "1024 * i + unat va div 4096 mod 1024"
  have k: "?k < 2048" using i by (cases i) (auto simp: less_Suc_eq)
  have al: "4096 dvd unat (kernel_page_tables ls + of_nat i * PAGE_SIZE)"
    using i tables_ok_aligned[OF ok] by (cases i) (auto simp: less_Suc_eq)
  have "pmem (paging_init ls s) (slot (kernel_page_tables ls + of_nat i * PAGE_SIZE) (unat va div 4096 mod 1024))
      = of_nat ?k * PAGE_SIZE OR 3"
    using paging_init_table[OF ok k] by (simp only: slot_next_table)
  with translate_walk(1)[OF _ _ _ al, of "paging_init ls s" va 3] d tables_ok_aligned(1)[OF ok]
  show ?thesis using k by (simp add: bit_or_3 frame_entry del: of_nat_add of_nat_mult)
qed

lemma page_pred: "unat (va :: u32) div 2 ^ 22 = d \<Longrightarrow> unat va div 4096 = 1024 * d + unat va div 4096 mod 1024"
proof -
  assume d: "unat va div 2 ^ 22 = d"
  have "unat va div 4096 div 1024 = unat va div 2 ^ 22" by (simp flip: div_mult2_eq)
  then show ?thesis using d mult_div_mod_eq[of 1024 "unat va div 4096"] by simp
qed

lemma low_walk:
  assumes ok: "tables_ok ls" and d: "unat va div 2 ^ 22 = i" "i < 2"
  shows "translate (paging_init ls s) va = Some va"
proof -
  have "pmem (paging_init ls s) (slot (init_page_directory ls) i) = (kernel_page_tables ls + of_nat i * PAGE_SIZE) OR 3"
    using d ok by (cases i) (auto simp: paging_init_directory less_Suc_eq)
  from kernel_table_walk[OF ok d(2), of s va] this d(1) frame_address[OF page_pred[OF d(1)]]
  show ?thesis by simp
qed

lemma high_walk:
  assumes ok: "tables_ok ls" and d: "unat va div 2 ^ 22 = 768 + i" "i < 2"
  shows "translate (paging_init ls s) va = Some (va - KERNEL_VIRTUAL_OFFSET)"
proof -
  let ?j = "unat va div 4096 mod 1024"
  have "pmem (paging_init ls s) (slot (init_page_directory ls) (768 + i)) = (kernel_page_tables ls + of_nat i * PAGE_SIZE) OR 3"
    using d ok by (cases i) (auto simp: paging_init_directory less_Suc_eq)
  with kernel_table_walk[OF ok d(2), of s va] d(1)
  have t: "translate (paging_init ls s) va = Some (of_nat (1024 * i + ?j) * PAGE_SIZE + (va AND 0xfff))" by simp
  have "va = of_nat (1024 * (768 + i) + ?j) * PAGE_SIZE + (va AND 0xfff)"
    using frame_address[OF page_pred[OF d(1)]] by simp
  also have "\<dots> = of_nat (1024 * i + ?j) * PAGE_SIZE + (va AND 0xfff) + KERNEL_VIRTUAL_OFFSET"
    by (simp add: PAGE_SIZE_def KERNEL_VIRTUAL_OFFSET_def algebra_simps)
  finally show ?thesis using t by (metis add_diff_cancel_right')
qed

lemma recursive_walk:
  assumes ok: "tables_ok ls" and d: "unat va div 2 ^ 22 = 1023"
    and e: "pmem (paging_init ls s) (slot (init_page_directory ls) (unat va div 4096 mod 1024)) = e"
  shows "translate (paging_init ls s) va = (if bit e 0 then Some (PAGE_BOUNDARY e + (va AND 0xfff)) else None)"
  by (rule translate_walk(1)[where t = "init_page_directory ls" and a = 3])
    (simp_all add: d[simplified] e ok tables_ok_aligned paging_init_directory bit_or_3 del: mod_mod_trivial)

lemma table_entry_boundary: "4096 dvd unat t \<Longrightarrow> PAGE_BOUNDARY (t OR 3) = t"
  by (rule entry_attributes) (simp_all add: page_simps)

section \<open>The recursive window\<close>

text \<open>The entry through which the kernel edits the tables is in place in the current directory.\<close>

definition recursive_ok :: "vm \<Rightarrow> bool" where
  "recursive_ok s \<longleftrightarrow> paging s \<and> 4096 dvd unat (cr3 s) \<and> pmem s (slot (cr3 s) 1023) = cr3 s OR 3"

text \<open>Directory entry \<open>i\<close> leads to the table at \<open>t\<close>.\<close>

definition table_at :: "vm \<Rightarrow> nat \<Rightarrow> u32 \<Rightarrow> bool" where
  "table_at s i t \<longleftrightarrow> i < 1024 \<and> 4096 dvd unat t
     \<and> (\<exists>a. pmem s (slot (cr3 s) i) = t OR a \<and> a AND NOT 0xfff = 0 \<and> bit a 0)"

lemma recursive_directory: "recursive_ok s \<Longrightarrow> table_at s 1023 (cr3 s)"
  by (auto simp: recursive_ok_def table_at_def intro!: exI[of _ 3] simp: bit_or_3[of 0, simplified])

lemma window_address:
  assumes "i < 1024" "j < 1024"
  defines "va \<equiv> RECURSIVE_PGD_ADDRESS + 4 * (of_nat i * 1024 + of_nat j)"
  shows "unat va div 2 ^ 22 = 1023" "unat va div 4096 mod 1024 = i" "va AND 0xfff = 4 * of_nat j"
proof -
  have u: "unat va = 0xFFC00000 + 4096 * i + 4 * j"
    using assms(1,2) by (simp add: va_def RECURSIVE_PGD_ADDRESS_def unat_word_ariths unat_of_nat)
  have "4096 * i + 4 * j < 2 ^ 22" "4 * j < 4096" using assms(1,2) by simp_all
  moreover have "unat va = 1023 * 2 ^ 22 + (4096 * i + 4 * j)" by (simp add: u)
  ultimately have "unat va div 2 ^ 22 = 1023" by simp
  moreover have v: "unat va = 4 * j + (0xFFC00 + i) * 4096" by (simp add: u)
  have "unat va div 4096 = 0xFFC00 + i" "unat va mod 4096 = 4 * j"
    unfolding v using \<open>4 * j < 4096\<close> by (simp_all only: div_mult_self3 mod_mult_self1) simp_all
  moreover have "(0xFFC00 + i) mod 1024 = i" using assms(1) mod_mult_self4[of 1024 1023 i] by simp
  moreover have "unat (va AND 0xfff) = unat (4 * of_nat j :: u32)"
    using assms(2) \<open>unat va mod 4096 = 4 * j\<close> by (simp add: unat_page_offset unat_word_ariths unat_of_nat)
  then have "va AND 0xfff = 4 * of_nat j" by (simp only: word_unat_eq_iff)
  ultimately show "unat va div 2 ^ 22 = 1023" "unat va div 4096 mod 1024 = i" "va AND 0xfff = 4 * of_nat j" by simp_all
qed

lemma recursive_entry:
  assumes "recursive_ok s" "table_at s i t" "j < 1024"
  shows "translate s (RECURSIVE_PGD_ADDRESS + 4 * (of_nat i * 1024 + of_nat j)) = Some (slot t j)"
proof -
  let ?va = "RECURSIVE_PGD_ADDRESS + 4 * (of_nat i * 1024 + of_nat j)"
  obtain a where a: "i < 1024" "4096 dvd unat t" "pmem s (slot (cr3 s) i) = t OR a" "a AND NOT 0xfff = 0" "bit a 0"
    using assms(2) by (auto simp: table_at_def)
  note w = window_address[OF a(1) assms(3)]
  have "translate s ?va = (if bit (t OR a) 0 then Some (PAGE_BOUNDARY (t OR a) + (?va AND 0xfff)) else None)"
    by (rule translate_walk(1)[where t = "cr3 s" and a = 3])
      (use assms(1) a w in \<open>simp_all add: recursive_ok_def bit_or_3[of 0, simplified]\<close>)
  with a w show ?thesis by (simp add: bit_or_iff entry_attributes page_simps slot_def)
qed

lemma recursive_directory_entry:
  assumes "recursive_ok s" "i < 1024"
  shows "translate s (RECURSIVE_PGT_ADDRESS + 4 * of_nat i) = Some (slot (cr3 s) i)"
proof -
  have "RECURSIVE_PGT_ADDRESS + 4 * of_nat i = RECURSIVE_PGD_ADDRESS + 4 * (of_nat 1023 * 1024 + of_nat i)"
    by (simp add: RECURSIVE_PGT_ADDRESS_def RECURSIVE_PGD_ADDRESS_def)
  then show ?thesis using recursive_entry[OF assms(1) recursive_directory[OF assms(1)] assms(2)] by metis
qed

text \<open>Writing an entry of a table that is not the directory keeps the directory as it is.\<close>

lemma table_write:
  fixes v :: u32
  assumes "recursive_ok s" "4096 dvd unat t" "t \<noteq> cr3 s" "j < 1024"
  defines "s' \<equiv> s\<lparr>pmem := (pmem s)(slot t j := v)\<rparr>"
  shows "recursive_ok s'" and "table_at s' i u \<longleftrightarrow> table_at s i u"
    and "k < 1024 \<Longrightarrow> pmem s' (slot (cr3 s) k) = pmem s (slot (cr3 s) k)"
proof -
  have "slot (cr3 s) k \<noteq> slot t j" if "k < 1024" for k
    using assms(1-4) that by (auto simp: recursive_ok_def slot_eq_iff)
  then show "recursive_ok s'" "table_at s' i u \<longleftrightarrow> table_at s i u" 
    "k < 1024 \<Longrightarrow> pmem s' (slot (cr3 s) k) = pmem s (slot (cr3 s) k)"
    using assms(1) by (auto simp: s'_def recursive_ok_def table_at_def)
qed

lemma table_at_translate:
  assumes "recursive_ok s" "table_at s (unat va div 2 ^ 22) t"
  defines "e \<equiv> pmem s (slot t (unat va div 4096 mod 1024))"
  shows "translate s va = (if bit e 0 then Some (PAGE_BOUNDARY e + (va AND 0xfff)) else None)"
    and "pte_at s va = e" and "pde_at s va = pmem s (slot (cr3 s) (unat va div 2 ^ 22))"
proof -
  obtain a where a: "4096 dvd unat t" "pmem s (slot (cr3 s) (unat va div 2 ^ 22)) = t OR a" "a AND NOT 0xfff = 0" "bit a 0"
    using assms(2) by (auto simp: table_at_def)
  note w = translate_walk[OF _ _ a(2,1,3,4) e_def[THEN meta_eq_to_obj_eq, symmetric]]
  then show "translate s va = (if bit e 0 then Some (PAGE_BOUNDARY e + (va AND 0xfff)) else None)"
    "pte_at s va = e" "pde_at s va = pmem s (slot (cr3 s) (unat va div 2 ^ 22))"
    using assms(1) by (simp_all add: recursive_ok_def a(2)[simplified])
qed

section \<open>The address space of the boot\<close>

text \<open>C6: over a zeroed page directory, with the tables in frames of their own, the address
  space that \<open>paging_init\<close> turns on is exactly \<open>early_mapping\<close>: the first 8 MB at their own
  address and at the kernel offset, the tables and the directory behind the recursive entry,
  and a fault everywhere else.\<close>

theorem paging_init_translates:
  assumes "tables_ok ls" "\<And>i. i < 1024 \<Longrightarrow> pmem s (slot (init_page_directory ls) i) = 0"
  shows "translate (paging_init ls s) va = early_mapping ls va"
proof -
  let ?d = "unat va div 2 ^ 22" and ?t = "unat va div 4096 mod 1024"
  have d: "?d < 1024" using unsigned_less[of va, where ?'a = nat] by (simp add: less_mult_imp_div_less)
  consider (low) "?d < 2" | (high) i where "?d = 768 + i" "i < 2" | (absent) "?d \<notin> {0, 1, 768, 769, 1023}"
    | (rec) "?d = 1023"
  proof -
    assume a: "?d < 2 \<Longrightarrow> thesis" "\<And>i. ?d = 768 + i \<Longrightarrow> i < 2 \<Longrightarrow> thesis" "?d \<notin> {0, 1, 768, 769, 1023} \<Longrightarrow> thesis"
      "?d = 1023 \<Longrightarrow> thesis"
    show thesis using a(2)[of 0] a(2)[of 1] a(1,3,4) by force
  qed
  then show ?thesis
  proof cases
    case low
    then show ?thesis using low_walk[OF assms(1)] by (simp add: early_mapping_def Let_def)
  next
    case high
    then show ?thesis using high_walk[OF assms(1)] by (simp add: early_mapping_def Let_def)
  next
    case absent
    then have "translate (paging_init ls s) va = None"
      using d assms by (intro translate_absent) (simp_all add: tables_ok_aligned paging_init_directory)
    then show ?thesis using absent d by (auto simp: early_mapping_def Let_def)
  next
    case rec
    have "?t < 1024" by simp
    then show ?thesis
      using rec recursive_walk[OF assms(1) rec refl] tables_ok_aligned[OF assms(1)] assms
      by (simp add: early_mapping_def Let_def paging_init_directory table_entry_boundary bit_or_3 del: mod_less_divisor)
  qed
qed

theorem paging_init_translates_witness:
  "translate (paging_init example_linker \<lparr>pmem = \<lambda>_. 0, cr3 = 0, paging = False\<rparr>) 0xC0102ABC = Some 0x102ABC"
  by (subst paging_init_translates)
    (simp_all add: tables_ok_def example_linker_def early_mapping_def KERNEL_VIRTUAL_OFFSET_def PAGE_SIZE_def)

end
