(* ===== verification/KHeap.thy ===== *)
theory KHeap
  imports PhysicalMM Paging
begin

text \<open>
  The kernel heap of \<^verbatim>\<open>src/kernel/mm/kheap.c\<close>: a bitmap of heap pages, and one page
  table that is edited through the recursive entry of the page directory. The state joins the
  frame bitmap, the heap bitmap and the machine's memory with its page tables. The static
  bitmaps are kept apart from the memory that is paged: they lie in the kernel image, whose
  frames are never handed out.

  \<open>find_continuous_blocks_index\<close> may run off its end without a \<open>return\<close>; the value
  its caller then finds is a parameter, \<open>junk\<close>. \<open>None\<close> is a page fault, or a write to
  the bitmap at a negative index. \<open>tlb_flush\<close> has no effect on the model, which
  always walks the tables.
\<close>

section \<open>Definitions\<close>

definition KHEAP_BITMAP_SIZE :: nat where "KHEAP_BITMAP_SIZE = 32768 * 4"
definition KHEAP_BEGIN_ADDRESS :: u32 where "KHEAP_BEGIN_ADDRESS = KERNEL_VIRTUAL_OFFSET + 2 * 1024 * 1024 * 4"
definition KHEAP_END_ADDRESS :: u32 where "KHEAP_END_ADDRESS = KHEAP_BEGIN_ADDRESS + 1024 * 1024 * 4"

definition KHEAP_RECURSIVE_ADDRESS :: u32 where
  "KHEAP_RECURSIVE_ADDRESS = RECURSIVE_PGD_ADDRESS + ADDRESS_TO_DIRECTORY_ENTRY KHEAP_BEGIN_ADDRESS * PAGE_SIZE"

record kernel_mm =
  frames :: physical_mem_t
  kheap_st :: "nat \<Rightarrow> byte"
  vmem :: vm

definition edit_entry_attributes :: "vm \<Rightarrow> u32 \<Rightarrow> u32 \<Rightarrow> vm option" where
  "edit_entry_attributes s entry attributes =
     (if entry \<noteq> 0 then do { e \<leftarrow> vread s entry; vwrite s entry (e OR attributes) } else Some s)"

definition kheap_get_physical_address :: "vm \<Rightarrow> u32 \<Rightarrow> u32 option" where
  "kheap_get_physical_address s virtual_address =
     (if \<not> (virtual_address \<ge> KHEAP_BEGIN_ADDRESS \<and> virtual_address < KHEAP_END_ADDRESS) then Some 0
      else if PAGE_BOUNDARY virtual_address \<noteq> virtual_address then Some (error_code_value INVALID_ARGUMENT)
      else do {
        address \<leftarrow> vread s (KHEAP_RECURSIVE_ADDRESS + 4 * ADDRESS_TO_PAGE_TABLE_ENTRY virtual_address);
        Some (push_bit 8 (drop_bit 8 address))
      })"

definition alloc_and_map_page :: "linker_symbols \<Rightarrow> u32 \<Rightarrow> kernel_mm \<Rightarrow> kernel_mm option" where
  "alloc_and_map_page ls i st = do {
     let (frame, frames') = allocate_physical_page ls (frames st);
     v1 \<leftarrow> vwrite (vmem st) (KHEAP_RECURSIVE_ADDRESS + 4 * i) frame;
     v2 \<leftarrow> edit_entry_attributes v1 (KHEAP_RECURSIVE_ADDRESS + 4 * i) (READ_WRITE OR PRESENT);
     Some (st\<lparr>frames := frames', vmem := v2\<rparr>)
   }"

definition alloc_and_map_physical_pages :: "linker_symbols \<Rightarrow> kernel_mm \<Rightarrow> u32 \<Rightarrow> u32 \<Rightarrow> kernel_mm option" where
  "alloc_and_map_physical_pages ls st address num_pages =
     for_range (alloc_and_map_page ls)
       (ADDRESS_TO_PAGE_TABLE_ENTRY address) (ADDRESS_TO_PAGE_TABLE_ENTRY address + num_pages) st"

text \<open>The table of single bits, from element \<open>base\<close> of the bitmap on.\<close>

definition parse_lookup_table :: "(nat \<Rightarrow> byte) \<Rightarrow> nat \<Rightarrow> u32 \<Rightarrow> byte list" where
  "parse_lookup_table bm base num_bytes =
     map (\<lambda>i. extract_bit (bm (base + i div 8)) (i mod 8)) [0..<unat (num_bytes * 8)]"

fun find_continuous_loop :: "int \<Rightarrow> byte list \<Rightarrow> int \<Rightarrow> int \<Rightarrow> u32 \<Rightarrow> int" where
  "find_continuous_loop junk [] i index num_blocks = junk"
| "find_continuous_loop junk (b # bs) i index num_blocks =
     (if num_blocks = 0 then index
      else if b = 1
      then find_continuous_loop junk bs (i + 1) (if index = - 1 then i else index) (num_blocks - 1)
      else find_continuous_loop junk bs (i + 1) (- 1) num_blocks)"

definition find_continuous_blocks_index :: "int \<Rightarrow> byte list \<Rightarrow> u32 \<Rightarrow> int" where
  "find_continuous_blocks_index junk buffer num_blocks = find_continuous_loop junk buffer 0 (- 1) num_blocks"

text \<open>The loop over the bytes of the bm; \<open>junk i\<close> is the value left behind by the
  search at byte \<open>i\<close>.\<close>

function get_free_loop ::
  "(nat \<Rightarrow> int) \<Rightarrow> (nat \<Rightarrow> byte) \<Rightarrow> u32 \<Rightarrow> u32 \<Rightarrow> nat \<Rightarrow> nat \<Rightarrow> (u32 \<times> (nat \<Rightarrow> byte)) option" where
  "get_free_loop junk bm num_bytes num_pages i limit =
     (if i < limit then
        if bm i \<noteq> 0 then
          let lookup_table = parse_lookup_table bm i num_bytes;
              index = find_continuous_blocks_index (junk i) lookup_table num_pages
          in if index = - 1 then get_free_loop junk bm num_bytes num_pages (Suc i) limit
             else if index < 0 then None
             else Some (KHEAP_BEGIN_ADDRESS + (of_nat (i * 8) + word_of_int index) * PAGE_SIZE,
                        turn_bits_off bm i (nat index) (nat (sint num_pages)))
        else get_free_loop junk bm num_bytes num_pages (Suc i) limit
      else Some (0, bm))"
  by pat_completeness auto
termination
  by (relation "measure (\<lambda>(junk, bm, num_bytes, num_pages, i, limit). limit - i)") auto

declare get_free_loop.simps [simp del]

definition get_free_continuous_blocks_address ::
  "(nat \<Rightarrow> int) \<Rightarrow> (nat \<Rightarrow> byte) \<Rightarrow> u32 \<Rightarrow> (u32 \<times> (nat \<Rightarrow> byte)) option" where
  "get_free_continuous_blocks_address junk bm num_pages =
     (let num_bytes = num_pages div 8;
          num_bytes = (if num_pages mod 8 \<noteq> 0 then num_bytes + 1 else num_bytes)
      in get_free_loop junk bm num_bytes num_pages 0 (unat (of_nat KHEAP_BITMAP_SIZE - num_bytes - 1)))"

definition alloc_kheap_pages :: "linker_symbols \<Rightarrow> (nat \<Rightarrow> int) \<Rightarrow> kernel_mm \<Rightarrow> u32 \<Rightarrow> (u32 \<times> kernel_mm) option" where
  "alloc_kheap_pages ls junk st num_pages = do {
     (address, bm) \<leftarrow> get_free_continuous_blocks_address junk (kheap_st st) num_pages;
     st' \<leftarrow> alloc_and_map_physical_pages ls (st\<lparr>kheap_st := bm\<rparr>) address num_pages;
     Some (address, st')
   }"

definition map_physical_page :: "u32 \<Rightarrow> vm \<times> u32 \<Rightarrow> (vm \<times> u32) option" where
  "map_physical_page i s = do {
     let (v, physical_address) = s;
     v1 \<leftarrow> vwrite v (KHEAP_RECURSIVE_ADDRESS + 4 * i) physical_address;
     v2 \<leftarrow> edit_entry_attributes v1 (KHEAP_RECURSIVE_ADDRESS + 4 * i) (READ_WRITE OR PRESENT);
     Some (v2, physical_address + PAGE_SIZE)
   }"

definition map_physical_address_to_kheap ::
  "(nat \<Rightarrow> int) \<Rightarrow> kernel_mm \<Rightarrow> u32 \<Rightarrow> u32 \<Rightarrow> (u32 \<times> kernel_mm) option" where
  "map_physical_address_to_kheap junk st physical_address num_pages = do {
     (free_virtual_address, bm) \<leftarrow> get_free_continuous_blocks_address junk (kheap_st st) num_pages;
     (_, frames') \<leftarrow> register_physical_pages (frames st) physical_address num_pages;
     (v, _) \<leftarrow> for_range map_physical_page
       (ADDRESS_TO_PAGE_TABLE_ENTRY free_virtual_address)
       (ADDRESS_TO_PAGE_TABLE_ENTRY free_virtual_address + num_pages) (vmem st, physical_address);
     Some (free_virtual_address, st\<lparr>frames := frames', kheap_st := bm, vmem := v\<rparr>)
   }"

definition free_kheap_page :: "u32 \<Rightarrow> kernel_mm \<Rightarrow> kernel_mm option" where
  "free_kheap_page i st = do {
     e \<leftarrow> vread (vmem st) (KHEAP_RECURSIVE_ADDRESS + 4 * i);
     v \<leftarrow> vwrite (vmem st) (KHEAP_RECURSIVE_ADDRESS + 4 * i) 0;
     Some (st\<lparr>frames := snd (free_physical_page (frames st) e), vmem := v\<rparr>)
   }"

definition free_kheap_pages :: "kernel_mm \<Rightarrow> u32 \<Rightarrow> u32 \<Rightarrow> (error_code_t \<times> kernel_mm) option" where
  "free_kheap_pages st address num_pages =
     (if \<not> (address \<ge> KHEAP_BEGIN_ADDRESS \<and> address < KHEAP_END_ADDRESS) then Some (INVALID_ARGUMENT, st)
      else if PAGE_BOUNDARY address \<noteq> address then Some (INVALID_ARGUMENT, st)
      else do {
        let bit_index = address_to_bit_index address KHEAP_BEGIN_ADDRESS;
        let bm = turn_bits_on (kheap_st st) 0 (unat bit_index) (nat (sint num_pages));
        st' \<leftarrow> for_range free_kheap_page
          (ADDRESS_TO_PAGE_TABLE_ENTRY address) (ADDRESS_TO_PAGE_TABLE_ENTRY address + num_pages)
          (st\<lparr>kheap_st := bm\<rparr>);
        Some (SUCCESS, st')
      })"

text \<open>No caller uses the result of \<open>map_kheap_to_pgd\<close>, which has none on its main path.\<close>

definition map_kheap_to_pgd :: "linker_symbols \<Rightarrow> vm \<Rightarrow> u32 \<Rightarrow> vm option" where
  "map_kheap_to_pgd ls s page_directory =
     (if page_directory = 0 then Some s
      else do {
        let entry = page_directory + 4 * ADDRESS_TO_DIRECTORY_ENTRY KHEAP_BEGIN_ADDRESS;
        s1 \<leftarrow> vwrite s entry (kheap_page_tables ls);
        edit_entry_attributes s1 entry (READ_WRITE OR PRESENT)
      })"

definition kheap_init :: "linker_symbols \<Rightarrow> kernel_mm \<Rightarrow> kernel_mm option" where
  "kheap_init ls st = do {
     v \<leftarrow> map_kheap_to_pgd ls (vmem st) RECURSIVE_PGT_ADDRESS;
     Some (st\<lparr>vmem := v, kheap_st := memset 0xFF 0 4096 (kheap_st st)\<rparr>)
   }"

section \<open>Entries of the heap table\<close>

lemmas kheap_constants = KHEAP_BEGIN_ADDRESS_def KHEAP_END_ADDRESS_def KHEAP_RECURSIVE_ADDRESS_def
  KERNEL_VIRTUAL_OFFSET_def RECURSIVE_PGD_ADDRESS_def RECURSIVE_PGT_ADDRESS_def

text \<open>The heap table is reachable through the recursive entry and is not the directory.\<close>

definition kheap_ready :: "linker_symbols \<Rightarrow> vm \<Rightarrow> bool" where
  "kheap_ready ls s \<longleftrightarrow> recursive_ok s \<and> table_at s 770 (kheap_page_tables ls) \<and> kheap_page_tables ls \<noteq> cr3 s"

abbreviation kheap_slot :: "linker_symbols \<Rightarrow> nat \<Rightarrow> u32" where
  "kheap_slot ls \<equiv> slot (kheap_page_tables ls)"

lemma kheap_directory_index: "ADDRESS_TO_DIRECTORY_ENTRY KHEAP_BEGIN_ADDRESS = 770"
  by (simp add: ADDRESS_TO_DIRECTORY_ENTRY_def kheap_constants drop_bit_eq_div)

lemma KHEAP_RECURSIVE_ADDRESS_eq: "KHEAP_RECURSIVE_ADDRESS = 0xFFF02000"
  unfolding KHEAP_RECURSIVE_ADDRESS_def kheap_directory_index by (simp add: RECURSIVE_PGD_ADDRESS_def PAGE_SIZE_def)

lemma kheap_entry_translate:
  assumes "kheap_ready ls s" "j < 1024"
  shows "translate s (KHEAP_RECURSIVE_ADDRESS + 4 * of_nat j) = Some (kheap_slot ls j)"
proof -
  have "KHEAP_RECURSIVE_ADDRESS + 4 * of_nat j = RECURSIVE_PGD_ADDRESS + 4 * (of_nat 770 * 1024 + of_nat j)"
    by (simp add: KHEAP_RECURSIVE_ADDRESS_eq RECURSIVE_PGD_ADDRESS_def)
  moreover have "recursive_ok s" "table_at s 770 (kheap_page_tables ls)" using assms(1) by (simp_all add: kheap_ready_def)
  ultimately show ?thesis using recursive_entry[of s 770 "kheap_page_tables ls" j] assms(2) by (simp only:)
qed

lemma kheap_entry_nonzero: "j < 1024 \<Longrightarrow> KHEAP_RECURSIVE_ADDRESS + 4 * of_nat j \<noteq> 0"
proof -
  assume "j < 1024"
  then have "unat (KHEAP_RECURSIVE_ADDRESS + 4 * of_nat j) = 0xFFF02000 + 4 * j"
    by (simp add: KHEAP_RECURSIVE_ADDRESS_eq unat_word_ariths unat_of_nat)
  then show ?thesis by auto
qed

lemma kheap_write_ready:
  assumes "kheap_ready ls s" "j < 1024"
  shows "kheap_ready ls (s\<lparr>pmem := (pmem s)(kheap_slot ls j := v)\<rparr>)"
  using assms table_write[where s = s and t = "kheap_page_tables ls" and j = j and v = v] by (auto simp: kheap_ready_def table_at_def)

lemma kheap_vread: "kheap_ready ls s \<Longrightarrow> j < 1024 \<Longrightarrow>
    vread s (KHEAP_RECURSIVE_ADDRESS + 4 * of_nat j) = Some (pmem s (kheap_slot ls j))"
  by (simp add: vread_def kheap_entry_translate)

lemma kheap_vwrite: "kheap_ready ls s \<Longrightarrow> j < 1024 \<Longrightarrow>
    vwrite s (KHEAP_RECURSIVE_ADDRESS + 4 * of_nat j) v = Some (s\<lparr>pmem := (pmem s)(kheap_slot ls j := v)\<rparr>)"
  by (simp add: vwrite_def kheap_entry_translate)

lemma kheap_set_entry:
  assumes "kheap_ready ls s" "j < 1024"
  shows "do { s1 \<leftarrow> vwrite s (KHEAP_RECURSIVE_ADDRESS + 4 * of_nat j) v;
              edit_entry_attributes s1 (KHEAP_RECURSIVE_ADDRESS + 4 * of_nat j) (READ_WRITE OR PRESENT) }
    = Some (s\<lparr>pmem := (pmem s)(kheap_slot ls j := v OR 3)\<rparr>)"
  using assms kheap_vread[OF kheap_write_ready[OF assms], of j v] kheap_vwrite[OF kheap_write_ready[OF assms], of j v "v OR 3"]
  by (simp add: kheap_vwrite edit_entry_attributes_def kheap_entry_nonzero READ_WRITE_def PRESENT_def)

lemma kheap_translate:
  assumes "kheap_ready ls s" "unat va div 2 ^ 22 = 770"
  shows "translate s va = (let e = pmem s (kheap_slot ls (unat va div 4096 mod 1024)) in
     if bit e 0 then Some (PAGE_BOUNDARY e + (va AND 0xfff)) else None)"
  using table_at_translate(1)[of s va "kheap_page_tables ls"] assms by (simp add: kheap_ready_def Let_def)

text \<open>Page \<open>k\<close> of the heap.\<close>

definition kheap_page :: "nat \<Rightarrow> u32" where
  "kheap_page k = KHEAP_BEGIN_ADDRESS + of_nat k * PAGE_SIZE"

lemma unat_kheap_page: "k < 2 ^ 16 \<Longrightarrow> unat (kheap_page k) = 0xC0800000 + 4096 * k"
  by (simp add: kheap_page_def kheap_constants PAGE_SIZE_def unat_word_ariths unat_of_nat)

lemma kheap_page_index:
  assumes "k < 2 ^ 16"
  shows "ADDRESS_TO_PAGE_TABLE_ENTRY (kheap_page k) = of_nat (k mod 1024)"
proof -
  have "unat (kheap_page k) = (0xC0800 + k) * 4096" by (simp add: unat_kheap_page[OF assms])
  then have "unat (kheap_page k) div 4096 = 0xC0800 + k" by (simp only: nonzero_mult_div_cancel_right)
  moreover have "(0xC0800 + k) mod 1024 = k mod 1024" using mod_mult_self4[of 1024 770 k] by simp
  ultimately have "unat (ADDRESS_TO_PAGE_TABLE_ENTRY (kheap_page k)) = unat (of_nat (k mod 1024) :: u32)"
    by (simp add: unat_pgt_index unat_of_nat)
  then show ?thesis by (simp only: word_unat_eq_iff)
qed

lemma kheap_page_facts:
  assumes "k < 1024"
  shows "ADDRESS_TO_PAGE_TABLE_ENTRY (kheap_page k) = of_nat k" "PAGE_BOUNDARY (kheap_page k) = kheap_page k"
    "KHEAP_BEGIN_ADDRESS \<le> kheap_page k" "kheap_page k < KHEAP_END_ADDRESS"
    "address_to_bit_index (kheap_page k) KHEAP_BEGIN_ADDRESS = of_nat k"
proof -
  have u: "unat (kheap_page k) = 0xC0800000 + 4096 * k" using assms by (simp add: unat_kheap_page)
  show "ADDRESS_TO_PAGE_TABLE_ENTRY (kheap_page k) = of_nat k" using assms kheap_page_index[of k] by simp
  show b: "PAGE_BOUNDARY (kheap_page k) = kheap_page k" by (simp add: page_simps u)
  have "unat ((kheap_page k - KHEAP_BEGIN_ADDRESS) div PAGE_SIZE) = unat (of_nat k :: u32)"
    using assms by (simp add: kheap_page_def PAGE_SIZE_def unat_div unat_word_ariths unat_of_nat)
  then have "(kheap_page k - KHEAP_BEGIN_ADDRESS) div PAGE_SIZE = of_nat k" by (simp only: word_unat_eq_iff)
  moreover have "PAGE_BOUNDARY KHEAP_BEGIN_ADDRESS = KHEAP_BEGIN_ADDRESS" by (simp add: page_simps kheap_constants)
  ultimately show "address_to_bit_index (kheap_page k) KHEAP_BEGIN_ADDRESS = of_nat k"
    by (simp add: address_to_bit_index_def PAGE_ALIGN_eq b Let_def)
  show "KHEAP_BEGIN_ADDRESS \<le> kheap_page k" "kheap_page k < KHEAP_END_ADDRESS"
    using assms by (simp_all add: word_le_nat_alt word_less_nat_alt u) (simp_all add: kheap_constants)
qed

section \<open>The search\<close>

lemma find_continuous_skip:
  "\<forall>x\<in>set xs. x \<noteq> 1 \<Longrightarrow> n \<noteq> 0 \<Longrightarrow>
     find_continuous_loop junk (xs @ ys) i (- 1) n = find_continuous_loop junk ys (i + int (length xs)) (- 1) n"
  by (induction xs arbitrary: i) (simp_all add: algebra_simps)

lemma find_continuous_run:
  "n < 2 ^ 32 \<Longrightarrow> 0 \<le> i \<Longrightarrow>
     find_continuous_loop junk (replicate n 1 @ y # ys) i index (of_nat n) =
       (if n = 0 then index else if index = - 1 then i else index)"
proof (induction n arbitrary: i index)
  case (Suc n)
  then have "(of_nat (Suc n) :: u32) \<noteq> 0" using of_nat_0_less_iff by (auto simp: word_unat_eq_iff unat_of_nat simp del: of_nat_Suc)
  then show ?case using Suc by simp
qed simp

text \<open>A run of free pages is found at its start when nothing is free before it and the table
  goes on after it.\<close>

lemma find_continuous_blocks_first:
  assumes "\<forall>x\<in>set xs. x \<noteq> 1" "0 < n" "n < 2 ^ 32"
  shows "find_continuous_blocks_index junk (xs @ replicate n 1 @ y # ys) (of_nat n) = int (length xs)"
proof -
  have "(of_nat n :: u32) \<noteq> 0" using assms by (auto simp: word_unat_eq_iff unat_of_nat)
  then show ?thesis using assms
    by (simp add: find_continuous_blocks_index_def find_continuous_skip find_continuous_run)
qed

text \<open>Without a page left over after the run the search ends with no result.\<close>

lemma find_continuous_few:
  assumes "length (filter (\<lambda>x. x = 1) bs) \<le> n" "n < 2 ^ 32" "bs = [] \<or> last bs = 1 \<or> length (filter (\<lambda>x. x = 1) bs) < n"
  shows "find_continuous_loop junk bs i index (of_nat n) = junk"
  using assms
proof (induction bs arbitrary: i index n)
  case (Cons b bs)
  have "n \<noteq> 0"
  proof
    assume "n = 0"
    with Cons.prems have "\<forall>x\<in>set (b # bs). x \<noteq> 1" "last (b # bs) = 1" by (auto simp: filter_empty_conv split: if_splits)
    then show False using last_in_set[of "b # bs"] by blast
  qed
  then obtain m where n: "n = Suc m" by (cases n) auto
  have nz: "(of_nat n :: u32) \<noteq> 0" using \<open>n \<noteq> 0\<close> Cons.prems(2) by (auto simp: word_unat_eq_iff unat_of_nat)
  show ?case
  proof (cases "b = 1")
    case True
    then have "find_continuous_loop junk bs (i + 1) j (of_nat m) = junk" for j
      using Cons.prems n by (intro Cons.IH) (auto split: if_splits)
    then show ?thesis using True nz n by simp
  next
    case False
    then have "find_continuous_loop junk bs (i + 1) (- 1) (of_nat n) = junk"
      using Cons.prems by (intro Cons.IH) (auto split: if_splits)
    then show ?thesis using False nz by simp
  qed
qed simp

lemma parse_lookup_table_nth:
  "i < unat (nb * 8) \<Longrightarrow> parse_lookup_table bm base nb ! i = (if bitmap_test bm (8 * base + i) then 1 else 0)"
  by (simp add: parse_lookup_table_def extract_bit_eq bitmap_test_def)

lemma length_parse_lookup_table [simp]: "length (parse_lookup_table bm base nb) = unat (nb * 8)"
  by (simp add: parse_lookup_table_def)

lemma get_free_loop_skip:
  "i \<le> m \<Longrightarrow> m \<le> limit \<Longrightarrow> (\<And>j. i \<le> j \<Longrightarrow> j < m \<Longrightarrow> bm j = 0) \<Longrightarrow>
     get_free_loop junk bm nb np i limit = get_free_loop junk bm nb np m limit"
proof (induction "m - i" arbitrary: i)
  case (Suc d)
  then have "i < limit" "bm i = 0" by simp_all
  then have "get_free_loop junk bm nb np i limit = get_free_loop junk bm nb np (Suc i) limit"
    by (subst get_free_loop.simps) simp
  also have "\<dots> = get_free_loop junk bm nb np m limit" using Suc by (intro Suc.hyps(1)) simp_all
  finally show ?case .
qed simp

lemma num_bytes_value:
  assumes "n < 2 ^ 31"
  defines "nb \<equiv> (if (of_nat n :: u32) mod 8 \<noteq> 0 then of_nat n div 8 + 1 else of_nat n div 8 :: u32)"
  shows "unat nb = (n + 7) div 8" "unat (nb * 8) = (n + 7) div 8 * 8"
proof -
  have u: "unat (of_nat n :: u32) = n" using assms(1) by (simp add: unat_of_nat)
  then have m: "(of_nat n :: u32) mod 8 = 0 \<longleftrightarrow> n mod 8 = 0" by (simp add: word_unat_eq_iff unat_mod)
  have d: "unat (of_nat n div 8 :: u32) = n div 8" using u by (simp add: unat_div)
  have "n div 8 < 2 ^ 28" using assms(1) by (simp add: less_mult_imp_div_less)
  then have p: "unat (of_nat n div 8 + 1 :: u32) = n div 8 + 1" by (simp add: d unat_word_ariths(1)[of _ "1::u32"] del: unat_div)
  have "(n + 7) div 8 = (if n mod 8 = 0 then n div 8 else n div 8 + 1)" by presburger
  then show nb: "unat nb = (n + 7) div 8" by (auto simp: nb_def m d p)
  have "(n + 7) div 8 * 8 \<le> n + 7" by simp
  then show "unat (nb * 8) = (n + 7) div 8 * 8" using nb assms(1) by (simp add: unat_word_ariths)
qed

lemma sint_of_nat_small: "n < 2 ^ 31 \<Longrightarrow> sint (of_nat n :: u32) = int n"
  by (simp add: signed_of_nat signed_take_bit_int_eq_self)

text \<open>The first run: nothing is free before page \<open>k\<close>, the \<open>n\<close> pages from \<open>k\<close> on are, and they
  do not fill the rest of the lookup table.\<close>

definition first_run :: "(nat \<Rightarrow> byte) \<Rightarrow> nat \<Rightarrow> nat \<Rightarrow> bool" where
  "first_run bm n k \<longleftrightarrow> 0 < n \<and> n < 2 ^ 16 \<and> k < 2 ^ 16 \<and> (\<forall>j<k. \<not> bitmap_test bm j) \<and> (\<forall>j<n. bitmap_test bm (k + j))
     \<and> k mod 8 + n < (n + 7) div 8 * 8"

lemma first_runD:
  assumes "first_run bm n k"
  shows "0 < n" "n < 2 ^ 16" "k < 2 ^ 16" "\<And>j. j < k \<Longrightarrow> \<not> bitmap_test bm j" "\<And>j. j < n \<Longrightarrow> bitmap_test bm (k + j)"
    "k mod 8 + n < (n + 7) div 8 * 8"
  using assms by (auto simp: first_run_def)

lemma first_run_lookup:
  assumes "first_run bm n k" and nb: "unat (nb * 8) = (n + 7) div 8 * 8"
  shows "find_continuous_blocks_index junk (parse_lookup_table bm (k div 8) nb) (of_nat n) = int (k mod 8)"
proof -
  note r = first_runD[OF assms(1)]
  let ?t = "parse_lookup_table bm (k div 8) nb" and ?m = "k mod 8"
  have k: "8 * (k div 8) + ?m = k" by simp
  have nth: "?t ! i = (if bitmap_test bm (8 * (k div 8) + i) then 1 else 0)" if "i < (n + 7) div 8 * 8" for i
    using that nb by (simp add: parse_lookup_table_nth)
  have before: "\<forall>i<?m. ?t ! i \<noteq> 1"
  proof (intro allI impI)
    fix i assume "i < ?m"
    then have "8 * (k div 8) + i < k" using k by linarith
    then show "?t ! i \<noteq> 1" using nth[of i] r(4,6) \<open>i < ?m\<close> by simp
  qed
  have run: "\<forall>i<n. ?t ! (?m + i) = 1"
  proof (intro allI impI)
    fix i assume "i < n"
    moreover have "8 * (k div 8) + (?m + i) = k + i" using k by linarith
    ultimately show "?t ! (?m + i) = 1" using nth[of "?m + i"] r(5)[of i] r(6) by (simp only:) simp
  qed
  have "?m + n < length ?t" using r(6) nb by simp
  from list_run_split[OF this before run] obtain xs y ys where
    split: "?t = xs @ replicate n 1 @ y # ys" "length xs = ?m" "\<forall>x\<in>set xs. x \<noteq> 1" by blast
  show ?thesis
    unfolding split(1) using find_continuous_blocks_first[OF split(3), of n] r(1,2) split(2) by simp
qed

lemma get_free_first_run:
  assumes "first_run bm n k"
  shows "get_free_continuous_blocks_address junk bm (of_nat n) = Some (kheap_page k, turn_bits_off bm (k div 8) (k mod 8) n)"
proof -
  define nb :: u32 where "nb = (if (of_nat n :: u32) mod 8 \<noteq> 0 then of_nat n div 8 + 1 else of_nat n div 8)"
  note r = first_runD[OF assms]
  have nb: "unat nb = (n + 7) div 8" "unat (nb * 8) = (n + 7) div 8 * 8"
    unfolding nb_def using r by (intro num_bytes_value; simp)+
  note idx = first_run_lookup[OF assms nb(2), of "junk (k div 8)"]
  have "(n + 7) div 8 \<le> 2 ^ 13" using div_le_mono[of "n + 7" "2 ^ 16 + 7" 8] r(2) by simp
  then have lim: "k div 8 < unat (of_nat KHEAP_BITMAP_SIZE - nb - 1)"
    using r(3) nb(1) by (simp add: KHEAP_BITMAP_SIZE_def unat_sub_if' unat_word_ariths(1) word_le_nat_alt)
  have "of_nat (k div 8 * 8) + word_of_int (int (k mod 8)) = (of_nat (k div 8 * 8 + k mod 8) :: u32)"
    by (simp only: of_nat_add of_int_of_nat_eq)
  then have "KHEAP_BEGIN_ADDRESS + (of_nat (k div 8 * 8) + word_of_int (int (k mod 8))) * PAGE_SIZE = kheap_page k"
    by (simp only: kheap_page_def div_mult_mod_eq)
  moreover have "bm (k div 8) \<noteq> 0" using r(1) r(5)[of 0] by (auto simp: bitmap_byte_zero)
  ultimately have "get_free_loop junk bm nb (of_nat n) (k div 8) (unat (of_nat KHEAP_BITMAP_SIZE - nb - 1)) =
      Some (kheap_page k, turn_bits_off bm (k div 8) (k mod 8) n)"
    using lim r(2) by (subst get_free_loop.simps) (simp add: idx Let_def sint_of_nat_small)
  moreover have "bm j = 0" if "j < k div 8" for j
    using r(4) that by (auto simp: bitmap_byte_zero)
  ultimately show ?thesis
    using get_free_loop_skip[of 0 "k div 8" "unat (of_nat KHEAP_BITMAP_SIZE - nb - 1)" bm junk nb "of_nat n"] lim
    by (simp add: get_free_continuous_blocks_address_def Let_def nb_def)
qed

section \<open>Mapping and unmapping runs\<close>

text \<open>The frames that \<open>n\<close> successive calls of \<open>allocate_physical_page\<close> return; 0 stands for
  every one that found no memory.\<close>

primrec allocate_frames :: "linker_symbols \<Rightarrow> physical_mem_t \<Rightarrow> nat \<Rightarrow> u32 list \<times> physical_mem_t" where
  "allocate_frames ls pm 0 = ([], pm)"
| "allocate_frames ls pm (Suc n) =
     (let (fs, pm1) = allocate_frames ls pm n; (f, pm2) = allocate_physical_page ls pm1 in (fs @ [f], pm2))"

lemma length_allocate_frames [simp]: "length (fst (allocate_frames ls pm n)) = n"
  by (induction n) (simp_all add: case_prod_beta Let_def)

text \<open>Consecutive entries of the table at \<open>t\<close>, from entry \<open>k\<close> on.\<close>

definition set_entries :: "u32 \<Rightarrow> nat \<Rightarrow> u32 list \<Rightarrow> dwords \<Rightarrow> dwords" where
  "set_entries t k vs p = fold (\<lambda>(i, v) p. p(slot t (k + i) := v)) (enumerate 0 vs) p"

lemma set_entries_snoc [simp]: "set_entries t k (vs @ [v]) p = (set_entries t k vs p)(slot t (k + length vs) := v)"
  by (simp add: set_entries_def enumerate_append_eq)

lemma set_entries_Nil [simp]: "set_entries t k [] p = p"
  by (simp add: set_entries_def)

lemma set_entries_other: "(\<And>i. i < length vs \<Longrightarrow> a \<noteq> slot t (k + i)) \<Longrightarrow> set_entries t k vs p a = p a"
  by (induction vs rule: rev_induct) auto

lemma set_entries_at:
  "k + length vs \<le> 1024 \<Longrightarrow> i < length vs \<Longrightarrow> set_entries t k vs p (slot t (k + i)) = vs ! i"
  by (induction vs rule: rev_induct) (auto simp: nth_append slot_inj)

lemma set_entries_ready:
  "kheap_ready ls s \<Longrightarrow> k + length vs \<le> 1024 \<Longrightarrow> kheap_ready ls (s\<lparr>pmem := set_entries (kheap_page_tables ls) k vs (pmem s)\<rparr>)"
proof (induction vs rule: rev_induct)
  case (snoc v vs)
  then show ?case
    using kheap_write_ready[of ls "s\<lparr>pmem := set_entries (kheap_page_tables ls) k vs (pmem s)\<rparr>" "k + length vs" v]
    by (simp add: fun_upd_def)
qed simp

lemma index_add_of_nat: "(of_nat k :: u32) + of_nat j = of_nat (k + j)"
  by simp

lemma unat_index: "k \<le> 1024 \<Longrightarrow> unat (of_nat k :: u32) = k"
  by (simp add: unat_of_nat)

lemma alloc_and_map_page_entry:
  assumes "kheap_ready ls (vmem st)" "j < 1024"
  shows "alloc_and_map_page ls (of_nat j) st =
    (let r = allocate_physical_page ls (frames st) in
     Some (st\<lparr>frames := snd r, vmem := (vmem st)\<lparr>pmem := (pmem (vmem st))(kheap_slot ls j := fst r OR 3)\<rparr>\<rparr>))"
  using kheap_set_entry[OF assms, of "fst (allocate_physical_page ls (frames st))"]
  by (auto simp: alloc_and_map_page_def case_prod_beta Let_def split: Option.bind_splits)

lemma alloc_and_map_correct:
  assumes "kheap_ready ls (vmem st)" "k + n \<le> 1024" "ADDRESS_TO_PAGE_TABLE_ENTRY a = of_nat k"
  defines "fs \<equiv> fst (allocate_frames ls (frames st) n)"
  shows "alloc_and_map_physical_pages ls st a (of_nat n) =
    Some (st\<lparr>frames := snd (allocate_frames ls (frames st) n),
             vmem := (vmem st)\<lparr>pmem := set_entries (kheap_page_tables ls) k (map (\<lambda>f. f OR 3) fs) (pmem (vmem st))\<rparr>\<rparr>)"
proof -
  define I where "I j s \<longleftrightarrow> s = st\<lparr>frames := snd (allocate_frames ls (frames st) j),
     vmem := (vmem st)\<lparr>pmem := set_entries (kheap_page_tables ls) k
       (map (\<lambda>f. f OR 3) (fst (allocate_frames ls (frames st) j))) (pmem (vmem st))\<rparr>\<rparr>" for j s
  have I0: "I 0 st" by (simp add: I_def)
  have step: "\<exists>s'. alloc_and_map_page ls (of_nat k + of_nat j) s = Some s' \<and> I (Suc j) s'" if "j < n" "I j s" for j s
  proof -
    note s = that(2)[unfolded I_def]
    have "kheap_ready ls (vmem s)" using that(1) assms(1,2) by (simp add: s set_entries_ready)
    from alloc_and_map_page_entry[OF this, of "k + j"] show ?thesis
      using that(1) assms(2) unfolding s I_def by (simp add: case_prod_beta Let_def fun_upd_def)
  qed
  from for_range_rule[where I = I and a = "of_nat k" and n = n, OF _ I0 step] show ?thesis
    using assms(2,3) by (simp add: alloc_and_map_physical_pages_def I_def fs_def unat_index)
qed

lemma free_kheap_page_entry:
  assumes "kheap_ready ls (vmem st)" "j < 1024" "bit (pmem (vmem st) (kheap_slot ls j)) 0"
  shows "free_kheap_page (of_nat j) st =
     Some (st\<lparr>vmem := (vmem st)\<lparr>pmem := (pmem (vmem st))(kheap_slot ls j := 0)\<rparr>\<rparr>)"
proof -
  have "\<not> 4096 dvd unat (pmem (vmem st) (kheap_slot ls j))"
    using assms(3) aligned_low_bit[of "pmem (vmem st) (kheap_slot ls j)" 0] by (auto simp: page_simps)
  then show ?thesis using assms(1,2)
    by (simp add: free_kheap_page_def kheap_vread kheap_vwrite free_physical_page_unaligned)
qed

lemma free_kheap_pages_mapped:
  assumes "kheap_ready ls (vmem st)" "k + n \<le> 1024" "k < 1024" 
    and mapped: "\<forall>j<n. bit (pmem (vmem st) (kheap_slot ls (k + j))) 0"
  shows "free_kheap_pages st (kheap_page k) (of_nat n) = Some (SUCCESS,
     st\<lparr>kheap_st := turn_bits_on (kheap_st st) 0 k n,
        vmem := (vmem st)\<lparr>pmem := set_entries (kheap_page_tables ls) k (replicate n 0) (pmem (vmem st))\<rparr>\<rparr>)"
proof -
  let ?st = "st\<lparr>kheap_st := turn_bits_on (kheap_st st) 0 k n\<rparr>"
  define I where "I j s \<longleftrightarrow> s = ?st\<lparr>vmem :=
     (vmem st)\<lparr>pmem := set_entries (kheap_page_tables ls) k (replicate j 0) (pmem (vmem st))\<rparr>\<rparr>" for j s
  have I0: "I 0 ?st" by (simp add: I_def)
  have step: "\<exists>s'. free_kheap_page (of_nat k + of_nat j) s = Some s' \<and> I (Suc j) s'" if "j < n" "I j s" for j s
  proof -
    note s = that(2)[unfolded I_def]
    have "kheap_ready ls (vmem s)" using that(1) assms(1,2) by (simp add: s set_entries_ready)
    moreover have "set_entries (kheap_page_tables ls) k (replicate j 0) (pmem (vmem st)) (kheap_slot ls (k + j))
        = pmem (vmem st) (kheap_slot ls (k + j))"
      using that(1) assms(2) by (intro set_entries_other) (simp add: slot_inj)
    then have "bit (pmem (vmem s) (kheap_slot ls (k + j))) 0" using that(1) mapped by (simp add: s)
    moreover have "replicate (Suc j) (0::u32) = replicate j 0 @ [0]" by (simp add: replicate_append_same)
    ultimately show ?thesis using free_kheap_page_entry[of ls s "k + j"] that(1) assms(2) unfolding s I_def
      by (simp add: fun_upd_def del: replicate_Suc)
  qed
  from for_range_rule[where I = I and a = "of_nat k" and n = n, OF _ I0 step] show ?thesis
    using assms(2,3) by (simp add: free_kheap_pages_def I_def unat_index kheap_page_facts Let_def sint_of_nat_small)
qed

section \<open>Properties\<close>

lemma kheap_page_offset:
  assumes "k < 1024" "off < 4096"
  defines "va \<equiv> kheap_page k + off"
  shows "unat va div 2 ^ 22 = 770" "unat va div 4096 mod 1024 = k" "va AND 0xfff = off"
proof -
  have o: "unat off < 4096" using assms(2) by (simp add: word_less_nat_alt)
  have "unat va = 0xC0800000 + 4096 * k + unat off"
    using assms(1) o by (simp add: va_def unat_word_ariths unat_kheap_page)
  then have v: "unat va = unat off + (0xC0800 + k) * 4096" "unat va = 770 * 2 ^ 22 + (4096 * k + unat off)" by simp_all
  have "4096 * k + unat off < 2 ^ 22" using assms(1) o by simp
  with v(2) show "unat va div 2 ^ 22 = 770" by simp
  have d: "unat va div 4096 = 0xC0800 + k" "unat va mod 4096 = unat off"
    unfolding v(1) using o by (simp_all only: div_mult_self3 mod_mult_self1) simp_all
  have "(0xC0800 + k) mod 1024 = k" using assms(1) mod_mult_self4[of 1024 770 k] by simp
  then show "unat va div 4096 mod 1024 = k" by (simp add: d)
  have "unat (va AND 0xfff) = unat off" by (simp add: unat_page_offset d)
  then show "va AND 0xfff = off" by (simp only: word_unat_eq_iff)
qed

lemma allocate_frames_aligned: "f \<in> set (fst (allocate_frames ls pm n)) \<Longrightarrow> PAGE_BOUNDARY f = f"
proof (induction n)
  case (Suc n)
  then show ?case using pmm.alloc_aligned[of ls "snd (allocate_frames ls pm n)"]
    by (auto simp: case_prod_beta Let_def page_simps)
qed simp

lemma alloc_kheap_pages_first_run:
  assumes "kheap_ready ls (vmem st)" "first_run (kheap_st st) n k" "k + n \<le> 1024"
  shows "alloc_kheap_pages ls junk st (of_nat n) = Some (kheap_page k,
    st\<lparr>frames := snd (allocate_frames ls (frames st) n),
       kheap_st := turn_bits_off (kheap_st st) (k div 8) (k mod 8) n,
       vmem := (vmem st)\<lparr>pmem := set_entries (kheap_page_tables ls) k
         (map (\<lambda>f. f OR 3) (fst (allocate_frames ls (frames st) n))) (pmem (vmem st))\<rparr>\<rparr>)"
  using get_free_first_run[OF assms(2), of junk]
    alloc_and_map_correct[of ls "st\<lparr>kheap_st := turn_bits_off (kheap_st st) (k div 8) (k mod 8) n\<rparr>" k n "kheap_page k"] assms
  by (simp add: alloc_kheap_pages_def kheap_page_facts first_run_def)

text \<open>C12: a request for \<open>n\<close> heap pages when the lowest \<open>n\<close> free pages are consecutive, lie in
  the 4 MB of the heap, and end before the end of the bitmap bytes that the search looks at from
  the first byte with a free page on (\<open>first_run\<close>): the request takes these pages off the bitmap
  and maps page \<open>k + j\<close> to the \<open>j\<close>-th frame of \<open>n\<close> calls of the frame allocator; nothing else in
  memory changes. When the frames run out the pages are mapped to frame 0 (the allocator's
  \<open>NULL\<close>). What the search does in the other cases (a gap between the lowest free pages, pages
  past the heap, no room left in the bytes) is in the three theorems after this one.\<close>

theorem alloc_kheap_pages_correct:
  assumes "kheap_ready ls (vmem st)" "first_run (kheap_st st) n k" "k + n \<le> 1024"
  defines "fs \<equiv> fst (allocate_frames ls (frames st) n)"
  shows "\<exists>st'. alloc_kheap_pages ls junk st (of_nat n) = Some (kheap_page k, st')
    \<and> frames st' = snd (allocate_frames ls (frames st) n)
    \<and> (\<forall>p. bitmap_test (kheap_st st') p \<longleftrightarrow> bitmap_test (kheap_st st) p \<and> \<not> (k \<le> p \<and> p < k + n))
    \<and> (\<forall>j<n. \<forall>off<4096. translate (vmem st') (kheap_page (k + j) + off) = Some (fs ! j + off))
    \<and> (\<forall>a. a \<notin> slot (kheap_page_tables ls) ` {k..<k + n} \<longrightarrow> pmem (vmem st') a = pmem (vmem st) a)
    \<and> kheap_ready ls (vmem st')"
proof -
  let ?p = "set_entries (kheap_page_tables ls) k (map (\<lambda>f. f OR 3) fs) (pmem (vmem st))"
  let ?st = "st\<lparr>frames := snd (allocate_frames ls (frames st) n),
    kheap_st := turn_bits_off (kheap_st st) (k div 8) (k mod 8) n, vmem := (vmem st)\<lparr>pmem := ?p\<rparr>\<rparr>"
  have k: "k < 1024" using assms(2,3) by (simp add: first_run_def)
  have len: "length fs = n" by (simp add: fs_def)
  have ready: "kheap_ready ls (vmem ?st)" using assms(1,3) len by (simp add: set_entries_ready)
  have "alloc_kheap_pages ls junk st (of_nat n) = Some (kheap_page k, ?st)"
    using alloc_kheap_pages_first_run[OF assms(1-3)] by (simp add: fs_def)
  moreover have "translate (vmem ?st) (kheap_page (k + j) + off) = Some (fs ! j + off)" if "j < n" "off < 4096" for j off
  proof -
    have kj: "k + j < 1024" using that assms(3) by simp
    have "?p (kheap_slot ls (k + j)) = fs ! j OR 3" using that assms(3) len by (simp add: set_entries_at)
    moreover have "PAGE_BOUNDARY (fs ! j) = fs ! j"
      using allocate_frames_aligned[of "fs ! j" ls "frames st" n] that len nth_mem[of j fs] by (simp add: fs_def)
    ultimately show ?thesis
      using kheap_translate[OF ready, of "kheap_page (k + j) + off"] kheap_page_offset[OF kj that(2)]
      by (simp add: bit_or_3 entry_attributes Let_def)
  qed
  moreover have "pmem (vmem ?st) a = pmem (vmem st) a" if "a \<notin> slot (kheap_page_tables ls) ` {k..<k + n}" for a
    using that len by (auto intro!: set_entries_other)
  ultimately show ?thesis using ready
    by (intro exI[of _ ?st]) (auto simp: bitmap_test_turn_bits_off mult.commute[of 8])
qed


text \<open>Freeing pages that are mapped puts them back on the bitmap, unmaps them and returns
  \<open>SUCCESS\<close>, but no frame becomes available: the entry handed to \<open>free_physical_page\<close>
  still has its attribute bits, so the frame allocator refuses it. An allocation followed by
  its release loses the frames.\<close>

theorem free_kheap_pages_leaks:
  assumes "kheap_ready ls (vmem st)" "first_run (kheap_st st) n k" "k + n \<le> 1024"
    and "alloc_kheap_pages ls junk st (of_nat n) = Some (address, st1)"
  shows "\<exists>st2. free_kheap_pages st1 address (of_nat n) = Some (SUCCESS, st2)
    \<and> frames st2 = frames st1
    \<and> (\<forall>p. bitmap_test (kheap_st st2) p \<longleftrightarrow> bitmap_test (kheap_st st) p)
    \<and> (\<forall>j<n. \<forall>off<4096. translate (vmem st2) (kheap_page (k + j) + off) = None)"
proof -
  let ?t = "kheap_page_tables ls"
  have k: "k < 1024" "\<And>j. j < n \<Longrightarrow> bitmap_test (kheap_st st) (k + j)" using assms(2,3) by (simp_all add: first_run_def)
  define fs where "fs = fst (allocate_frames ls (frames st) n)"
  have len: "length fs = n" by (simp add: fs_def)
  have st1: "address = kheap_page k" "st1 = st\<lparr>frames := snd (allocate_frames ls (frames st) n),
    kheap_st := turn_bits_off (kheap_st st) (k div 8) (k mod 8) n,
    vmem := (vmem st)\<lparr>pmem := set_entries ?t k (map (\<lambda>f. f OR 3) fs) (pmem (vmem st))\<rparr>\<rparr>"
    using alloc_kheap_pages_first_run[OF assms(1-3), of junk] assms(4) by (simp_all add: fs_def)
  have ready1: "kheap_ready ls (vmem st1)" using assms(1,3) len by (simp add: st1 set_entries_ready)
  have "bit (pmem (vmem st1) (kheap_slot ls (k + j))) 0" if "j < n" for j
    using that assms(3) len by (simp add: st1 set_entries_at bit_or_3)
  then have free: "free_kheap_pages st1 address (of_nat n) = Some (SUCCESS,
     st1\<lparr>kheap_st := turn_bits_on (kheap_st st1) 0 k n,
         vmem := (vmem st1)\<lparr>pmem := set_entries ?t k (replicate n 0) (pmem (vmem st1))\<rparr>\<rparr>)" (is "_ = Some (_, ?st2)")
    using free_kheap_pages_mapped[OF ready1 assms(3) k(1)] by (simp add: st1)
  have ready2: "kheap_ready ls (vmem ?st2)" using ready1 assms(3) by (simp add: set_entries_ready)
  have "translate (vmem ?st2) (kheap_page (k + j) + off) = None" if "j < n" "off < 4096" for j off
  proof -
    have "k + j < 1024" using that assms(3) by simp
    from kheap_translate[OF ready2, of "kheap_page (k + j) + off"] kheap_page_offset[OF this that(2)] show ?thesis
      using that assms(3) by (simp add: set_entries_at Let_def)
  qed
  moreover have "bitmap_test (kheap_st ?st2) p \<longleftrightarrow> bitmap_test (kheap_st st) p" for p
    using k(2)[of "p - k"] by (auto simp: st1 bitmap_test_turn_bits_on bitmap_test_turn_bits_off mult.commute[of 8])
  ultimately show ?thesis using free by auto
qed

lemma recursive_boot: "tables_ok ls \<Longrightarrow> recursive_ok (paging_init ls s)"
  by (simp add: recursive_ok_def tables_ok_aligned paging_init_directory)

lemma map_kheap_current:
  assumes "recursive_ok s"
  shows "map_kheap_to_pgd ls s RECURSIVE_PGT_ADDRESS =
    Some (s\<lparr>pmem := (pmem s)(slot (cr3 s) 770 := kheap_page_tables ls OR 3)\<rparr>)"
proof -
  let ?e = "RECURSIVE_PGT_ADDRESS + 4 * of_nat 770" and ?s = "s\<lparr>pmem := (pmem s)(slot (cr3 s) 770 := kheap_page_tables ls)\<rparr>"
  have "slot (cr3 s) 1023 \<noteq> slot (cr3 s) 770" by (simp add: slot_inj)
  then have "recursive_ok ?s" using assms by (simp add: recursive_ok_def)
  then have "translate ?s ?e = Some (slot (cr3 s) 770)" using recursive_directory_entry[of ?s 770] by simp
  moreover have "translate s ?e = Some (slot (cr3 s) 770)" using recursive_directory_entry[OF assms, of 770] by simp
  moreover have "RECURSIVE_PGT_ADDRESS \<noteq> 0" "?e \<noteq> 0" by (simp_all add: RECURSIVE_PGT_ADDRESS_def)
  ultimately show ?thesis
    by (simp add: map_kheap_to_pgd_def kheap_directory_index Let_def vwrite_def vread_def edit_entry_attributes_def
        READ_WRITE_def PRESENT_def)
qed

lemma all_free_first_run:
  assumes "\<forall>p<32768. bitmap_test bm p" "0 < n" "n < 32768" "\<not> 8 dvd n"
  shows "first_run bm n 0"
proof -
  have "n < (n + 7) div 8 * 8" using assms(4) by presburger
  then show ?thesis using assms by (simp add: first_run_def)
qed

text \<open>C36: after \<open>paging_init\<close>, \<open>kheap_init\<close> succeeds: the heap table is installed behind
  directory entry 770, every heap page is marked free, all other directory entries stay, and
  the first request of \<open>n\<close> pages is served from the start of the heap, unless \<open>n\<close> is a
  multiple of 8. The bitmap then has 32768 free pages although the table maps 1024.\<close>

theorem kheap_init_correct:
  assumes "tables_ok ls" "vmem st = paging_init ls s"
  shows "\<exists>st'. kheap_init ls st = Some st' \<and> frames st' = frames st \<and> kheap_ready ls (vmem st')
    \<and> {p. p < 8 * KHEAP_BITMAP_SIZE \<and> bitmap_test (kheap_st st') p} \<supseteq> {..<32768}
    \<and> (\<forall>n. 0 < n \<and> n < 32768 \<and> \<not> 8 dvd n \<longrightarrow> first_run (kheap_st st') n 0)
    \<and> (\<forall>i<1024. i \<noteq> 770 \<longrightarrow> pmem (vmem st') (slot (init_page_directory ls) i) = pmem (vmem st) (slot (init_page_directory ls) i))"
proof -
  let ?d = "init_page_directory ls" and ?bm = "memset 0xFF 0 4096 (kheap_st st)"
  let ?v = "(vmem st)\<lparr>pmem := (pmem (vmem st))(slot ?d 770 := kheap_page_tables ls OR 3)\<rparr>"
  have r: "recursive_ok (vmem st)" using assms by (simp add: recursive_boot)
  have "kheap_init ls st = Some (st\<lparr>vmem := ?v, kheap_st := ?bm\<rparr>)"
    using map_kheap_current[OF r, of ls] assms by (simp add: kheap_init_def)
  moreover have "kheap_ready ls ?v"
    using assms r by (auto simp: kheap_ready_def recursive_ok_def table_at_def slot_inj tables_ok_def
        intro!: exI[of _ 3] simp: bit_or_3[of 0, simplified])
  moreover have free: "bitmap_test ?bm p" if "p < 32768" for p
  proof -
    have "(0xFF :: byte) = mask 8" by (simp add: mask_eq_exp_minus_1)
    then have "bit (0xFF :: byte) m \<longleftrightarrow> m < 8" for m by (simp only: bit_mask_iff possible_bit_word) auto
    moreover have "p div 8 < unat (4096 :: u32)" using that by (simp add: less_mult_imp_div_less)
    ultimately show ?thesis by (simp add: bitmap_test_def)
  qed
  ultimately show ?thesis
    using assms(2) all_free_first_run[of ?bm] by (intro exI[of _ "st\<lparr>vmem := ?v, kheap_st := ?bm\<rparr>"])
      (auto simp: slot_inj KHEAP_BITMAP_SIZE_def)
qed

text \<open>The bitmap marks 32768 pages but the table has 1024 entries. A request that reaches
  page \<open>k \<ge> 1024\<close> returns an address past the end of the heap and overwrites entry
  \<open>k mod 1024\<close>: the page of an earlier allocation now leads to the new frame.\<close>

theorem kheap_overrun:
  assumes "kheap_ready ls (vmem st)" "first_run (kheap_st st) 1 k" "1024 \<le> k" "k < 32768"
  defines "f \<equiv> fst (allocate_physical_page ls (frames st))"
  shows "\<exists>st'. alloc_kheap_pages ls junk st 1 = Some (kheap_page k, st') \<and> KHEAP_END_ADDRESS \<le> kheap_page k
    \<and> (\<forall>off<4096. translate (vmem st') (kheap_page (k mod 1024) + off) = Some (f + off))"
proof -
  let ?j = "k mod 1024" and ?st = "st\<lparr>kheap_st := turn_bits_off (kheap_st st) (k div 8) (k mod 8) 1\<rparr>"
  let ?st' = "?st\<lparr>frames := snd (allocate_physical_page ls (frames st)),
    vmem := (vmem st)\<lparr>pmem := (pmem (vmem st))(kheap_slot ls ?j := f OR 3)\<rparr>\<rparr>"
  have "(of_nat ?j :: u32) < of_nat ?j + 1" by (simp add: word_less_nat_alt unat_word_ariths unat_of_nat)
  then have "alloc_and_map_physical_pages ls ?st (kheap_page k) 1 = Some ?st'"
    using alloc_and_map_page_entry[of ls ?st ?j] assms(1,4)
    by (simp add: alloc_and_map_physical_pages_def kheap_page_index for_range_one f_def Let_def)
  then have "alloc_kheap_pages ls junk st 1 = Some (kheap_page k, ?st')"
    using get_free_first_run[OF assms(2), of junk] by (simp add: alloc_kheap_pages_def)
  moreover have "KHEAP_END_ADDRESS \<le> kheap_page k"
    using assms(3,4) by (simp add: word_le_nat_alt unat_kheap_page) (simp add: kheap_constants)
  moreover have "translate (vmem ?st') (kheap_page ?j + off) = Some (f + off)" if "off < 4096" for off
  proof -
    have "?j < 1024" by simp
    note o = kheap_page_offset[OF this that]
    have "kheap_ready ls (vmem ?st')" using kheap_write_ready[OF assms(1)] by simp
    moreover have "PAGE_BOUNDARY f = f" using pmm.alloc_aligned[of ls "frames st"] by (simp add: f_def page_simps)
    ultimately show ?thesis
      using kheap_translate[of ls "vmem ?st'" "kheap_page ?j + off"] o by (simp add: bit_or_3 entry_attributes Let_def)
  qed
  ultimately show ?thesis by blast
qed

text \<open>The search does not start counting again at a used page. With page 0 free, page 1
  used, pages 2 to \<open>n\<close> free and page \<open>n + 1\<close> used, a request for \<open>n\<close> pages is answered with
  the run from page 2 to page \<open>n + 1\<close>, although its last page is in use.\<close>

theorem kheap_search_ignores_gap:
  assumes "2 \<le> n" "n < 2 ^ 16" "n + 1 < (n + 7) div 8 * 8"
    and "bitmap_test bm 0" "\<not> bitmap_test bm 1" "\<forall>j. 2 \<le> j \<and> j \<le> n \<longrightarrow> bitmap_test bm j" "\<not> bitmap_test bm (n + 1)"
  shows "\<exists>bm'. get_free_continuous_blocks_address junk bm (of_nat n) = Some (kheap_page 2, bm')
    \<and> n + 1 \<in> {2..<2 + n} \<and> \<not> bitmap_test bm (n + 1)"
proof -
  define nb :: u32 where "nb = (if (of_nat n :: u32) mod 8 \<noteq> 0 then of_nat n div 8 + 1 else of_nat n div 8)"
  have nb: "unat nb = (n + 7) div 8" "unat (nb * 8) = (n + 7) div 8 * 8"
    unfolding nb_def using assms by (intro num_bytes_value; simp)+
  obtain m where m: "n = Suc m" "0 < m" using assms(1) by (cases n) auto
  let ?t = "parse_lookup_table bm 0 nb"
  have nth: "?t ! i = (if bitmap_test bm i then 1 else 0)" if "i < (n + 7) div 8 * 8" for i
    using that nb(2) by (simp add: parse_lookup_table_nth)
  have len: "Suc n < length ?t" using assms(3) nb(2) by simp
  obtain r where t: "?t = 1 # 0 # r"
    using len assms(3-5) nth[of 0] nth[of 1] m by (cases ?t; cases "tl ?t") auto
  have "\<forall>i<m. r ! (0 + i) = 1" using nth[of "i + 2" for i] assms(3,6) m t by (auto simp: numeral_2_eq_2)
  moreover have "0 + m < length r" using arg_cong[OF t, of length] nb(2) assms(3) m by simp
  ultimately obtain y ys where r: "r = replicate m 1 @ y # ys" by (elim list_run_split) auto
  have "(of_nat n :: u32) \<noteq> 0" "(of_nat m :: u32) \<noteq> 0"
    using assms(2) m by (auto simp: word_unat_eq_iff unat_of_nat simp del: of_nat_Suc)
  then have idx: "find_continuous_blocks_index (junk 0) ?t (of_nat n) = 2"
    using find_continuous_run[of m 2 "junk 0" y ys "- 1"] assms(2) m
    by (simp add: t r find_continuous_blocks_index_def)
  have "(n + 7) div 8 \<le> 2 ^ 13" using div_le_mono[of "n + 7" "2 ^ 16 + 7" 8] assms(2) by simp
  then have "0 < unat (of_nat KHEAP_BITMAP_SIZE - nb - 1)"
    using nb(1) by (simp add: KHEAP_BITMAP_SIZE_def unat_sub_if' unat_word_ariths(1) word_le_nat_alt)
  moreover have "bm 0 \<noteq> 0" using assms(4) by (auto simp: bitmap_test_def)
  ultimately show ?thesis using assms(1,7) idx
    by (simp add: get_free_continuous_blocks_address_def Let_def nb_def[symmetric] get_free_loop.simps[of _ _ _ _ 0]
        kheap_page_def)
qed

text \<open>Successive requests for one page.\<close>

primrec take_pages :: "(nat \<Rightarrow> int) \<Rightarrow> (nat \<Rightarrow> byte) \<Rightarrow> nat \<Rightarrow> (u32 list \<times> (nat \<Rightarrow> byte)) option" where
  "take_pages junk bm 0 = Some ([], bm)"
| "take_pages junk bm (Suc n) = do {
     (as, bm1) \<leftarrow> take_pages junk bm n;
     (a, bm2) \<leftarrow> get_free_continuous_blocks_address junk bm1 1;
     Some (as @ [a], bm2)
   }"

lemma turn_bits_off_step: "turn_bits_off (turn_bits_off bm 0 0 n) (n div 8) (n mod 8) 1 = turn_bits_off bm 0 0 (Suc n)"
  by (simp add: turn_bits_off_def)

lemma take_pages_first:
  assumes "\<forall>p<8. bitmap_test bm p" "m \<le> 7"
  shows "take_pages junk bm m = Some (map kheap_page [0..<m], turn_bits_off bm 0 0 m)"
  using assms(2)
proof (induction m)
  case (Suc m)
  then have "first_run (turn_bits_off bm 0 0 m) 1 m"
    using assms(1) by (simp add: first_run_def bitmap_test_turn_bits_off)
  from get_free_first_run[OF this, of junk] Suc show ?case using turn_bits_off_step[of bm m] by simp
qed (simp add: turn_bits_off_def)

lemma last_page_of_byte:
  assumes "bm 0 = 1" "0 \<le> junk 0"
  shows "get_free_continuous_blocks_address junk bm 1 =
    Some (KHEAP_BEGIN_ADDRESS + word_of_int (junk 0) * PAGE_SIZE, turn_bits_off bm 0 (nat (junk 0)) 1)"
proof -
  have "parse_lookup_table bm 0 1 = [0, 0, 0, 0, 0, 0, 0, 1]"
    by (simp add: parse_lookup_table_def upt_rec assms(1) extract_bit_eq bit_1_iff)
  then have "find_continuous_blocks_index (junk 0) (parse_lookup_table bm 0 1) 1 = junk 0"
    by (simp add: find_continuous_blocks_index_def)
  then show ?thesis using assms
    by (simp add: get_free_continuous_blocks_address_def Let_def get_free_loop.simps[of _ _ _ _ 0] KHEAP_BITMAP_SIZE_def
        mod_word_less)
qed

lemma take_pages_two:
  "take_pages junk bm m = Some (as, b) \<Longrightarrow> get_free_continuous_blocks_address junk b 1 = Some (a1, b1) \<Longrightarrow>
     get_free_continuous_blocks_address junk b1 1 = Some (a2, b2) \<Longrightarrow>
     take_pages junk bm (Suc (Suc m)) = Some (as @ [a1, a2], b2)"
  by simp

lemma byte_one_kept:
  assumes "bm 0 = 1" "j \<noteq> 7"
  shows "turn_bits_off bm 0 j 1 0 = 1"
proof -
  have "turn_bit_off 1 j = 1" by (rule bit_word_eqI) (use assms(2) in \<open>auto simp: bit_turn_bit_off bit_1_iff\<close>)
  then show ?thesis using assms by (cases "j < 8") (auto simp: turn_bits_off_def)
qed

text \<open>The search returns nothing for the last page of a byte: it runs off its end, and
  its caller takes whatever value is left there. From a fresh heap the first seven requests
  for a page get pages 0 to 6; with any left-over value but -1 and 7, the eighth and the
  ninth request get the same address.\<close>

theorem kheap_page_handed_out_twice:
  assumes "\<forall>p<8. bitmap_test bm p" "0 \<le> junk 0" "junk 0 \<noteq> 7"
  shows "\<exists>bm'. take_pages junk bm 9 = Some (map kheap_page [0..<7] @
      [KHEAP_BEGIN_ADDRESS + word_of_int (junk 0) * PAGE_SIZE, KHEAP_BEGIN_ADDRESS + word_of_int (junk 0) * PAGE_SIZE], bm')"
proof -
  let ?b7 = "turn_bits_off bm 0 0 7"
  have "bit (?b7 0) k \<longleftrightarrow> k = 0" if "k < 8" for k
    using bitmap_test_turn_bits_off[of bm 0 0 7 "7 - k"] assms(1)[rule_format, of "7 - k"] that by (auto simp: bitmap_test_def)
  then have "?b7 0 = 1" by (intro bit_word_eqI) (simp add: bit_1_iff)
  moreover have "turn_bits_off ?b7 0 (nat (junk 0)) 1 0 = 1"
    using \<open>?b7 0 = 1\<close> assms(2,3) by (intro byte_one_kept) auto
  moreover have "take_pages junk bm 7 = Some (map kheap_page [0..<7], ?b7)" using take_pages_first[OF assms(1)] by simp
  ultimately show ?thesis
    using take_pages_two[of junk bm 7] last_page_of_byte[of ?b7 junk]
      last_page_of_byte[of "turn_bits_off ?b7 0 (nat (junk 0)) 1" junk] assms(2) by simp
qed

section \<open>Witnesses\<close>

definition fresh_kheap :: kernel_mm where
  "fresh_kheap = \<lparr>frames = all_ram, kheap_st = (\<lambda>_. 0xff),
     vmem = \<lparr>pmem = (\<lambda>_. 0)(slot 0x101000 1023 := 0x101003, slot 0x101000 770 := 0x104003),
             cr3 = 0x101000, paging = True\<rparr>\<rparr>"

lemma fresh_kheap_ready: "kheap_ready example_linker (vmem fresh_kheap)"
proof -
  have "slot 0x101000 770 \<noteq> slot 0x101000 1023" by (simp add: slot_inj)
  then show ?thesis
    by (auto simp: kheap_ready_def fresh_kheap_def recursive_ok_def table_at_def example_linker_def intro!: exI[of _ 3]
        simp: bit_or_3[of 0, simplified])
qed

lemma all_ones_test: "bitmap_test (\<lambda>_. 0xff) p"
proof -
  have "(0xff :: byte) = mask 8" by (simp add: mask_eq_exp_minus_1)
  then show ?thesis by (simp only: bitmap_test_def bit_mask_iff possible_bit_word) auto
qed

lemma fresh_kheap_run: "first_run (kheap_st fresh_kheap) 3 0"
  by (simp add: fresh_kheap_def first_run_def all_ones_test)

theorem alloc_kheap_pages_correct_witness:
  "\<exists>st'. alloc_kheap_pages example_linker (\<lambda>_. 0) fresh_kheap 3 = Some (0xC0800000, st')
     \<and> translate (vmem st') (kheap_page 2 + 0x123)
       = Some (fst (allocate_frames example_linker all_ram 3) ! 2 + 0x123)"
proof -
  let ?fs = "fst (allocate_frames example_linker (frames fresh_kheap) 3)"
  obtain st' where "alloc_kheap_pages example_linker (\<lambda>_. 0) fresh_kheap (of_nat 3) = Some (kheap_page 0, st')"
    "\<forall>j<3. \<forall>off<4096. translate (vmem st') (kheap_page (0 + j) + off) = Some (?fs ! j + off)"
    using alloc_kheap_pages_correct[OF fresh_kheap_ready fresh_kheap_run, of "\<lambda>_. 0"] by auto
  moreover have "frames fresh_kheap = all_ram" "kheap_page 0 = 0xC0800000"
    by (simp_all add: fresh_kheap_def kheap_page_def kheap_constants)
  moreover have "(2 :: nat) < 3" "(0x123 :: u32) < 4096" by simp_all
  ultimately show ?thesis by (metis add_0 of_nat_numeral)
qed

theorem free_kheap_pages_leaks_witness:
  "\<exists>a st1 st2. alloc_kheap_pages example_linker (\<lambda>_. 0) fresh_kheap 3 = Some (a, st1)
     \<and> free_kheap_pages st1 a 3 = Some (SUCCESS, st2) \<and> frames st2 = frames st1"
proof -
  obtain st1 where a: "alloc_kheap_pages example_linker (\<lambda>_. 0) fresh_kheap (of_nat 3) = Some (kheap_page 0, st1)"
    using alloc_kheap_pages_first_run[OF fresh_kheap_ready fresh_kheap_run] by auto
  from free_kheap_pages_leaks[OF fresh_kheap_ready fresh_kheap_run _ this] a show ?thesis by auto
qed

theorem kheap_init_correct_witness:
  "\<exists>st'. kheap_init example_linker (fresh_kheap\<lparr>vmem := paging_init example_linker (vmem fresh_kheap)\<rparr>) = Some st'
     \<and> first_run (kheap_st st') 9 0"
proof -
  have "tables_ok example_linker" by (simp add: tables_ok_def example_linker_def PAGE_SIZE_def)
  from kheap_init_correct[OF this, of "fresh_kheap\<lparr>vmem := paging_init example_linker (vmem fresh_kheap)\<rparr>" "vmem fresh_kheap"]
  obtain st' where "kheap_init example_linker (fresh_kheap\<lparr>vmem := paging_init example_linker (vmem fresh_kheap)\<rparr>) = Some st'"
    "\<forall>n. 0 < n \<and> n < 32768 \<and> \<not> 8 dvd n \<longrightarrow> first_run (kheap_st st') n 0" by auto
  then show ?thesis by (intro exI[of _ st']) simp
qed

theorem kheap_overrun_witness:
  "\<exists>st'. alloc_kheap_pages example_linker (\<lambda>_. 0) (fresh_kheap\<lparr>kheap_st := (\<lambda>_. 0)(130 := 0x80)\<rparr>) 1
     = Some (kheap_page 1040, st')"
proof -
  have "(0x80 :: byte) = push_bit 7 1" by simp
  then have b: "bit (0x80 :: byte) m \<longleftrightarrow> m = 7" for m by (simp only: bit_push_bit_iff bit_1_iff possible_bit_word) auto
  have "\<not> bitmap_test ((\<lambda>_. 0)(130 := 0x80)) j" if "j < 1040" for j
  proof (cases "j div 8 = 130")
    case True
    then have "1040 \<le> j" using div_times_less_eq_dividend[of j 8] by simp
    then show ?thesis using that by simp
  qed (simp add: bitmap_test_def)
  moreover have "bitmap_test ((\<lambda>_. 0)(130 := 0x80)) 1040" by (simp add: bitmap_test_def b)
  ultimately have "first_run ((\<lambda>_. 0)(130 := 0x80)) 1 1040" by (simp add: first_run_def)
  with kheap_overrun[of example_linker "fresh_kheap\<lparr>kheap_st := (\<lambda>_. 0)(130 := 0x80)\<rparr>" 1040 "\<lambda>_. 0"] fresh_kheap_ready
  show ?thesis by auto
qed

theorem kheap_search_ignores_gap_witness:
  "\<exists>bm'. get_free_continuous_blocks_address (\<lambda>_. 0) ((\<lambda>_. 0)(0 := 0xA0)) 2 = Some (kheap_page 2, bm')"
proof -
  have "bitmap_test ((\<lambda>_. 0)(0 := 0xA0)) j \<longleftrightarrow> j = 0 \<or> j = 2" if "j < 4" for j
  proof -
    have "j = 0 \<or> j = 1 \<or> j = 2 \<or> j = 3" using that by auto
    then show ?thesis by (auto simp: bitmap_test_def)
  qed
  with kheap_search_ignores_gap[of 2 "(\<lambda>_. 0)(0 := 0xA0)" "\<lambda>_. 0"] show ?thesis by (auto simp: le_antisym)
qed

theorem kheap_page_handed_out_twice_witness:
  "\<exists>bm'. take_pages (\<lambda>_. 8) (\<lambda>_. 0xff) 9 = Some (map kheap_page [0..<7] @ [kheap_page 8, kheap_page 8], bm')"
  using kheap_page_handed_out_twice[of "\<lambda>_. 0xff" "\<lambda>_. 8"] by (simp add: all_ones_test kheap_page_def)

lemma map_physical_page_entry:
  assumes "kheap_ready ls v" "j < 1024"
  shows "map_physical_page (of_nat j) (v, pa) = Some (v\<lparr>pmem := (pmem v)(kheap_slot ls j := pa OR 3)\<rparr>, pa + PAGE_SIZE)"
  using kheap_set_entry[OF assms, of pa] by (auto simp: map_physical_page_def split: Option.bind_splits)

lemma map_physical_run:
  assumes "kheap_ready ls v" "k + n \<le> 1024"
  shows "for_range map_physical_page (of_nat k) (of_nat k + of_nat n) (v, pa) =
    Some (v\<lparr>pmem := set_entries (kheap_page_tables ls) k (map (\<lambda>j. (pa + of_nat j * PAGE_SIZE) OR 3) [0..<n]) (pmem v)\<rparr>,
          pa + of_nat n * PAGE_SIZE)"
proof -
  define I where "I j s \<longleftrightarrow> s = (v\<lparr>pmem := set_entries (kheap_page_tables ls) k
    (map (\<lambda>j. (pa + of_nat j * PAGE_SIZE) OR 3) [0..<j]) (pmem v)\<rparr>, pa + of_nat j * PAGE_SIZE)" for j s
  have I0: "I 0 (v, pa)" by (simp add: I_def)
  have step: "\<exists>s'. map_physical_page (of_nat k + of_nat j) s = Some s' \<and> I (Suc j) s'" if "j < n" "I j s" for j s
  proof -
    note s = that(2)[unfolded I_def]
    have "kheap_ready ls (fst s)" using that(1) assms by (simp add: s set_entries_ready)
    from map_physical_page_entry[OF this, of "k + j" "snd s"] show ?thesis
      using that(1) assms(2) unfolding s I_def by (simp add: fun_upd_def distrib_right add.assoc add.commute add.left_commute)
  qed
  from for_range_rule[where I = I and a = "of_nat k" and n = n, OF _ I0 step] show ?thesis
    using assms(2) by (simp add: I_def unat_index)
qed

lemma map_to_kheap_run:
  assumes "kheap_ready ls (vmem st)" "first_run (kheap_st st) n k" "k + n \<le> 1024" "4096 dvd unat pa"
  shows "\<exists>st'. map_physical_address_to_kheap junk st pa (of_nat n) = Some (kheap_page k, st')
    \<and> frames st' = frames st
    \<and> (\<forall>j<n. \<forall>off<4096. translate (vmem st') (kheap_page (k + j) + off) = Some (pa + of_nat j * PAGE_SIZE + off))"
proof -
  let ?vs = "map (\<lambda>j. (pa + of_nat j * PAGE_SIZE) OR 3) [0..<n]"
  let ?st = "st\<lparr>kheap_st := turn_bits_off (kheap_st st) (k div 8) (k mod 8) n,
    vmem := (vmem st)\<lparr>pmem := set_entries (kheap_page_tables ls) k ?vs (pmem (vmem st))\<rparr>\<rparr>"
  have n: "0 < n" "n < 4096" "k < 1024" using assms(2,3) by (simp_all add: first_run_def)
  then have "PAGE_BOUNDARY (of_nat n) \<noteq> of_nat n" by (auto simp: page_simps unat_of_nat dest: nat_dvd_not_less)
  then have "register_physical_pages (frames st) pa (of_nat n) = Some (INVALID_ARGUMENT, frames st)"
    by (simp add: register_physical_pages_def change_pages_state_bad)
  then have "map_physical_address_to_kheap junk st pa (of_nat n) = Some (kheap_page k, ?st)"
    using get_free_first_run[OF assms(2), of junk] map_physical_run[OF assms(1,3), of pa] n
    by (simp add: map_physical_address_to_kheap_def kheap_page_facts)
  moreover have ready: "kheap_ready ls (vmem ?st)" using assms(1,3) by (simp add: set_entries_ready)
  moreover have "translate (vmem ?st) (kheap_page (k + j) + off) = Some (pa + of_nat j * PAGE_SIZE + off)"
    if "j < n" "off < 4096" for j off
  proof -
    have kj: "k + j < 1024" using that assms(3) by simp
    have "pmem (vmem ?st) (kheap_slot ls (k + j)) = (pa + of_nat j * PAGE_SIZE) OR 3"
      using that assms(3) by (simp add: set_entries_at)
    moreover have "4096 dvd unat (pa + of_nat j * PAGE_SIZE)"
      using assms(4) by (simp add: unat_word_ariths PAGE_SIZE_def dvd_mod_iff) 
    ultimately show ?thesis
      using kheap_translate[OF ready, of "kheap_page (k + j) + off"] kheap_page_offset[OF kj that(2)]
      by (simp add: bit_or_3 table_entry_boundary Let_def)
  qed
  ultimately show ?thesis by auto
qed

text \<open>\<open>map_physical_address_to_kheap\<close> maps a run of heap pages to consecutive physical
  pages, but leaves the frame bitmap as it is: it hands the number of pages to
  \<open>register_physical_pages\<close> as the end address, which is refused, so the frames it maps stay
  available to the frame allocator.\<close>

theorem map_physical_address_to_kheap_correct:
  assumes "kheap_ready ls (vmem st)" "first_run (kheap_st st) n k" "k + n \<le> 1024" "4096 dvd unat pa"
  shows "\<exists>st'. map_physical_address_to_kheap junk st pa (of_nat n) = Some (kheap_page k, st')
    \<and> frames st' = frames st
    \<and> (\<forall>j<n. \<forall>off<4096. translate (vmem st') (kheap_page (k + j) + off) = Some (pa + of_nat j * PAGE_SIZE + off))"
  by (rule map_to_kheap_run[OF assms])

theorem map_physical_address_to_kheap_correct_witness:
  "\<exists>st'. map_physical_address_to_kheap (\<lambda>_. 0) fresh_kheap 0x300000 3 = Some (kheap_page 0, st') \<and> frames st' = all_ram"
proof -
  have "4096 dvd unat (0x300000 :: u32)" by simp
  from map_physical_address_to_kheap_correct[OF fresh_kheap_ready fresh_kheap_run _ this, of "\<lambda>_. 0"]
  show ?thesis by (auto simp: fresh_kheap_def)
qed

end
