(* ===== verification/LinkedMemory.thy ===== *)
theory LinkedMemory
  imports Paging
begin

text \<open>
  Kernel code reads and writes its data through the page tables. A set of virtual addresses
  is a data window when each of them is mapped, no two of them to the same place, and none to
  an entry that the walk of one of them reads. In a data window memory behaves like an array:
  the laws are those of the locale \<open>word_memory\<close>, and the linked structures of the kernel
  are reasoned about inside it.
\<close>

definition pde_address :: "vm \<Rightarrow> u32 \<Rightarrow> u32" where
  "pde_address s va = PAGE_BOUNDARY (cr3 s) + 4 * ADDRESS_TO_DIRECTORY_ENTRY va"

definition pte_address :: "vm \<Rightarrow> u32 \<Rightarrow> u32" where
  "pte_address s va = PAGE_BOUNDARY (pde_at s va) + 4 * ADDRESS_TO_PAGE_TABLE_ENTRY va"

definition data_window :: "u32 set \<Rightarrow> vm \<Rightarrow> bool" where
  "data_window W s \<longleftrightarrow> (\<forall>a\<in>W. \<exists>pa. translate s a = Some pa
     \<and> (\<forall>b\<in>W. (paging s \<longrightarrow> pa \<noteq> pde_address s b \<and> pa \<noteq> pte_address s b) \<and> (translate s b = Some pa \<longrightarrow> a = b)))"

text \<open>
  Singly linked records behind a head cell \<open>h\<close>: a node \<open>(p, x)\<close> at address \<open>p\<close> has its
  link at offset \<open>lk\<close> and the value \<open>x\<close> at offset \<open>vl\<close>. The code walks such lists with a
  pointer to the cell that holds the current link, \<open>link_cell\<close> here.
\<close>

primrec seg :: "(u32 \<Rightarrow> u32 option) \<Rightarrow> u32 \<Rightarrow> u32 \<Rightarrow> u32 \<Rightarrow> (u32 \<times> u32) list \<Rightarrow> u32 \<Rightarrow> bool" where
  "seg rd lk vl p [] q \<longleftrightarrow> p = q"
| "seg rd lk vl p (n # ns) q \<longleftrightarrow> p = fst n \<and> p \<noteq> 0 \<and> rd (p + vl) = Some (snd n)
     \<and> (\<exists>r. rd (p + lk) = Some r \<and> seg rd lk vl r ns q)"

definition linked :: "(u32 \<Rightarrow> u32 option) \<Rightarrow> u32 \<Rightarrow> u32 \<Rightarrow> u32 \<Rightarrow> (u32 \<times> u32) list \<Rightarrow> bool" where
  "linked rd lk vl h ns \<longleftrightarrow> (\<exists>p. rd h = Some p \<and> seg rd lk vl p ns 0)"

definition cells :: "u32 \<Rightarrow> u32 \<Rightarrow> (u32 \<times> u32) list \<Rightarrow> u32 list" where
  "cells lk vl ns = concat (map (\<lambda>n. [fst n + lk, fst n + vl]) ns)"

definition link_cell :: "u32 \<Rightarrow> u32 \<Rightarrow> (u32 \<times> u32) list \<Rightarrow> u32" where
  "link_cell lk h ns = (if ns = [] then h else fst (last ns) + lk)"

lemma cells_simps [simp]:
  "cells lk vl [] = []" "cells lk vl (n # ns) = (fst n + lk) # (fst n + vl) # cells lk vl ns"
  "cells lk vl (xs @ ys) = cells lk vl xs @ cells lk vl ys"
  by (simp_all add: cells_def)

lemma link_cell_simps [simp]: "link_cell lk h [] = h" "link_cell lk h (xs @ [n]) = fst n + lk"
  by (simp_all add: link_cell_def)

lemma link_cell_Cons: "link_cell lk h (n # ns) = link_cell lk (fst n + lk) ns"
  by (simp add: link_cell_def)

lemma link_cell_in: "link_cell lk h ns \<in> set (h # cells lk vl ns)"
  by (induction ns rule: rev_induct) auto

lemma seg_append: "seg rd lk vl p (xs @ ys) q \<longleftrightarrow> (\<exists>r. seg rd lk vl p xs r \<and> seg rd lk vl r ys q)"
  by (induction xs arbitrary: p) auto

lemma seg_cong: "(\<And>a. a \<in> set (cells lk vl ns) \<Longrightarrow> rd' a = rd a) \<Longrightarrow> seg rd' lk vl p ns q = seg rd lk vl p ns q"
  by (induction ns arbitrary: p) auto

lemma linked_Cons:
  "linked rd lk vl h (n # ns) \<longleftrightarrow>
     rd h = Some (fst n) \<and> fst n \<noteq> 0 \<and> rd (fst n + vl) = Some (snd n) \<and> linked rd lk vl (fst n + lk) ns"
  by (auto simp: linked_def)

lemma linked_Nil [simp]: "linked rd lk vl h [] \<longleftrightarrow> rd h = Some 0"
  by (simp add: linked_def)

lemma linked_append:
  "linked rd lk vl h (xs @ ys) \<Longrightarrow> linked rd lk vl (link_cell lk h xs) ys"
  by (induction xs arbitrary: h) (simp_all add: linked_Cons link_cell_Cons)

text \<open>Replacing what follows a prefix: the link cell of the prefix is set, its other cells keep
  their contents.\<close>

lemma linked_splice:
  assumes "linked rd lk vl h (xs @ ys)" "distinct (h # cells lk vl xs)"
    and "\<And>a. a \<in> set (h # cells lk vl xs) \<Longrightarrow> a \<noteq> link_cell lk h xs \<Longrightarrow> rd' a = rd a"
    and "linked rd' lk vl (link_cell lk h xs) zs"
  shows "linked rd' lk vl h (xs @ zs)"
  using assms
proof (induction xs arbitrary: h)
  case (Cons n xs)
  have "h \<noteq> link_cell lk h (n # xs)" "fst n + vl \<noteq> link_cell lk h (n # xs)"
    using link_cell_in[of lk "fst n + lk" xs vl] Cons.prems(2) by (auto simp: link_cell_Cons)
  then have "rd' h = rd h" "rd' (fst n + vl) = rd (fst n + vl)"
    using Cons.prems(3)[of h] Cons.prems(3)[of "fst n + vl"] by simp_all
  moreover have "linked rd' lk vl (fst n + lk) (xs @ zs)"
    using Cons.prems by (intro Cons.IH) (auto simp: linked_Cons link_cell_Cons)
  ultimately show ?case using Cons.prems(1) by (simp add: linked_Cons)
qed simp

lemma linked_cong:
  "(\<And>a. a \<in> set (h # cells lk vl ns) \<Longrightarrow> rd' a = rd a) \<Longrightarrow> linked rd' lk vl h ns = linked rd lk vl h ns"
  unfolding linked_def using seg_cong[of lk vl ns rd' rd] by auto

locale word_memory =
  fixes rd :: "'s \<Rightarrow> u32 \<Rightarrow> u32 option"
    and wr :: "'s \<Rightarrow> u32 \<Rightarrow> u32 \<Rightarrow> 's option"
    and good :: "u32 set \<Rightarrow> 's \<Rightarrow> bool"
  assumes good_subset: "good W s \<Longrightarrow> U \<subseteq> W \<Longrightarrow> good U s"
    and rd_good: "good W s \<Longrightarrow> a \<in> W \<Longrightarrow> \<exists>x. rd s a = Some x"
    and wr_good: "good W s \<Longrightarrow> a \<in> W \<Longrightarrow>
      \<exists>s'. wr s a x = Some s' \<and> good W s' \<and> (\<forall>b\<in>W. rd s' b = (if b = a then Some x else rd s b))"
begin

lemma wr_word:
  assumes "good W s" "a \<in> W"
  obtains s' where "wr s a x = Some s'" "good W s'" "rd s' a = Some x"
    "\<And>b. b \<in> W \<Longrightarrow> b \<noteq> a \<Longrightarrow> rd s' b = rd s b"
  using wr_good[OF assms, of x] assms(2) by auto

text \<open>Writing a list of words.\<close>

lemma write_all:
  assumes "good W v" "distinct (map fst ps)" "fst ` set ps \<subseteq> W"
  shows "\<exists>v'. good W v' \<and> (\<forall>(a, x)\<in>set ps. rd v' a = Some x) \<and> (\<forall>b\<in>W. b \<notin> fst ` set ps \<longrightarrow> rd v' b = rd v b)"
  using assms
proof (induction ps)
  case (Cons q ps)
  then obtain v1 where v1: "good W v1" "\<forall>(a, x)\<in>set ps. rd v1 a = Some x" "\<forall>b\<in>W. b \<notin> fst ` set ps \<longrightarrow> rd v1 b = rd v b"
    by auto
  have "fst q \<in> W" using Cons.prems(3) by simp
  then obtain v' where v': "good W v'" "rd v' (fst q) = Some (snd q)" "\<And>b. b \<in> W \<Longrightarrow> b \<noteq> fst q \<Longrightarrow> rd v' b = rd v1 b"
    using wr_word[OF v1(1), where x = "snd q"] by blast
  have "rd v' a = Some x" if "(a, x) \<in> set ps" for a x
    using v'(3)[of a] v1(2) that Cons.prems(2,3) by (force simp: image_iff)
  then show ?case using v' v1(3) by (intro exI[of _ v']) auto
qed auto

text \<open>A new last node, linked before its own link is cleared.\<close>

lemma append_node:
  assumes "good W s" "linked (rd s) lk vl h xs" "distinct (h # cells lk vl (xs @ [(q, x)]))"
    and W: "set (h # cells lk vl (xs @ [(q, x)])) \<subseteq> W" and q: "q \<noteq> 0" "rd s (q + vl) = Some x"
  obtains s1 s2 where "wr s (link_cell lk h xs) q = Some s1" "rd s1 (link_cell lk h xs) = Some q"
    "wr s1 (q + lk) 0 = Some s2" "good W s2" "linked (rd s2) lk vl h (xs @ [(q, x)])"
    "rd s2 (link_cell lk h xs) = Some q"
    "\<And>b. b \<in> W \<Longrightarrow> b \<noteq> link_cell lk h xs \<Longrightarrow> b \<noteq> q + lk \<Longrightarrow> rd s2 b = rd s b"
proof -
  let ?l = "link_cell lk h xs"
  have l: "?l \<in> set (h # cells lk vl xs)" by (rule link_cell_in)
  then have w: "?l \<in> W" "q + lk \<in> W" "q + vl \<in> W" "set (h # cells lk vl xs) \<subseteq> W" and ne: "q + lk \<noteq> q + vl" "?l \<noteq> q + lk" "?l \<noteq> q + vl"
    using W assms(3) by auto
  obtain s1 where s1: "wr s ?l q = Some s1" "good W s1" "rd s1 ?l = Some q" "\<And>b. b \<in> W \<Longrightarrow> b \<noteq> ?l \<Longrightarrow> rd s1 b = rd s b"
    using wr_word[OF assms(1) w(1), where x = q] by blast
  obtain s2 where s2: "wr s1 (q + lk) 0 = Some s2" "good W s2" "rd s2 (q + lk) = Some 0"
    "\<And>b. b \<in> W \<Longrightarrow> b \<noteq> q + lk \<Longrightarrow> rd s2 b = rd s1 b"
    using wr_word[OF s1(2) w(2), where x = 0] by blast
  have v: "rd s2 ?l = Some q" "rd s2 (q + vl) = Some x"
    using s2(4)[of ?l] s2(4)[of "q + vl"] s1(3) s1(4)[of "q + vl"] w ne q(2) by auto
  have "linked (rd s2) lk vl ?l [(q, x)]" using v q(1) s2(3) by (simp add: linked_Cons)
  moreover have same: "rd s2 a = rd s a" if "a \<in> W" "a \<noteq> ?l" "a \<noteq> q + lk" for a using that s1(4) s2(4) by simp
  have "rd s2 a = rd s a" if "a \<in> set (h # cells lk vl xs)" "a \<noteq> ?l" for a
  proof (rule same)
    show "a \<in> W" using that(1) w(4) by blast
    show "a \<noteq> q + lk" using that(1) assms(3) by auto
  qed (rule that(2))
  moreover have "distinct (h # cells lk vl xs)" using assms(3) by simp
  moreover have "linked (rd s) lk vl h (xs @ [])" using assms(2) by simp
  ultimately have "linked (rd s2) lk vl h (xs @ [(q, x)])" using linked_splice by blast
  with s1 s2 v same that show thesis by blast
qed

text \<open>A new value in a node.\<close>

lemma set_value:
  assumes "good W s" "linked (rd s) lk vl h (xs @ n # ys)" "distinct (h # cells lk vl (xs @ n # ys))"
    and W: "set (h # cells lk vl (xs @ n # ys)) \<subseteq> W"
  obtains s' where "wr s (fst n + vl) y = Some s'" "good W s'" "linked (rd s') lk vl h (xs @ (fst n, y) # ys)"
    "\<And>b. b \<in> W \<Longrightarrow> b \<noteq> fst n + vl \<Longrightarrow> rd s' b = rd s b"
proof -
  let ?l = "link_cell lk h xs" and ?a = "fst n + vl"
  have l: "?l \<in> set (h # cells lk vl xs)" by (rule link_cell_in)
  have w: "?a \<in> W" "?l \<in> W" "?l \<noteq> ?a" "fst n + lk \<in> W" "fst n + lk \<noteq> ?a" "set (h # cells lk vl xs) \<subseteq> W"
    "set ((fst n + lk) # cells lk vl ys) \<subseteq> W" using W l assms(3) by auto
  obtain s' where s': "wr s ?a y = Some s'" "good W s'" "rd s' ?a = Some y" "\<And>b. b \<in> W \<Longrightarrow> b \<noteq> ?a \<Longrightarrow> rd s' b = rd s b"
    using wr_word[OF assms(1) w(1), where x = y] by blast
  have n: "linked (rd s) lk vl ?l (n # ys)" by (rule linked_append[OF assms(2)])
  have "rd s' b = rd s b" if "b \<in> set ((fst n + lk) # cells lk vl ys)" for b
  proof (rule s'(4))
    show "b \<in> W" using that w(7) by blast
    show "b \<noteq> ?a" using that assms(3) by auto
  qed
  then have "linked (rd s') lk vl (fst n + lk) ys = linked (rd s) lk vl (fst n + lk) ys" by (rule linked_cong)
  then have "linked (rd s') lk vl ?l ((fst n, y) # ys)"
    using n s'(3) s'(4)[of ?l] w by (simp add: linked_Cons)
  moreover have "rd s' b = rd s b" if "b \<in> set (h # cells lk vl xs)" for b
  proof (rule s'(4))
    show "b \<in> W" using that w(6) by blast
    show "b \<noteq> ?a" using that assms(3) by auto
  qed
  moreover have "distinct (h # cells lk vl xs)" using assms(3) by simp
  ultimately have "linked (rd s') lk vl h (xs @ (fst n, y) # ys)" using linked_splice[OF assms(2)] by blast
  with s' that show thesis by blast
qed

text \<open>Cutting a node out of a list.\<close>

lemma unlink_node:
  assumes "good W s" "linked (rd s) lk vl h (xs @ n # ys)" "distinct (h # cells lk vl (xs @ n # ys))"
    and W: "set (h # cells lk vl (xs @ n # ys)) \<subseteq> W" and q: "rd s (fst n + lk) = Some q"
  obtains s' where "wr s (link_cell lk h xs) q = Some s'" "good W s'" "linked (rd s') lk vl h (xs @ ys)"
    "\<And>b. b \<in> W \<Longrightarrow> b \<noteq> link_cell lk h xs \<Longrightarrow> rd s' b = rd s b"
proof -
  let ?l = "link_cell lk h xs"
  have l: "?l \<in> set (h # cells lk vl xs)" by (rule link_cell_in)
  then have "?l \<in> W" using W by auto
  from wr_good[OF assms(1) this, of q] obtain s' where s': "wr s ?l q = Some s'" "good W s'"
    "\<And>b. b \<in> W \<Longrightarrow> rd s' b = (if b = ?l then Some q else rd s b)" by blast
  have "linked (rd s) lk vl ?l (n # ys)" by (rule linked_append[OF assms(2)])
  then have ys: "seg (rd s) lk vl q ys 0" using q by (simp add: linked_Cons linked_def)
  have "?l \<notin> set (cells lk vl ys)" using l assms(3) by auto
  moreover have "set (cells lk vl ys) \<subseteq> W" "set (h # cells lk vl xs) \<subseteq> W" using W by auto
  ultimately have "b \<in> W \<and> b \<noteq> ?l" if "b \<in> set (cells lk vl ys)" for b using that by blast
  then have "rd s' b = rd s b" if "b \<in> set (cells lk vl ys)" for b using that by (simp add: s'(3))
  then have "seg (rd s') lk vl q ys 0 = seg (rd s) lk vl q ys 0" by (rule seg_cong)
  then have "linked (rd s') lk vl ?l ys" using ys s'(3)[OF \<open>?l \<in> W\<close>] by (simp add: linked_def)
  moreover have "rd s' a = rd s a" if "a \<in> set (h # cells lk vl xs)" "a \<noteq> ?l" for a
    using that s'(3)[of a] \<open>set (h # cells lk vl xs) \<subseteq> W\<close> by (simp add: subsetD)
  moreover have "distinct (h # cells lk vl xs)" using assms(3) by simp
  ultimately have "linked (rd s') lk vl h (xs @ ys)" using linked_splice[OF assms(2)] by blast
  moreover have "rd s' b = rd s b" if "b \<in> W" "b \<noteq> ?l" for b using s'(3)[OF that(1)] that(2) by simp
  ultimately show thesis using that s'(1,2) by blast
qed

end

section \<open>Paged memory\<close>

lemma translate_entries:
  "translate s va = (if \<not> paging s then Some va
     else if \<not> bit (pmem s (pde_address s va)) 0 \<or> \<not> bit (pmem s (pte_address s va)) 0 then None
     else Some (PAGE_BOUNDARY (pmem s (pte_address s va)) + (va AND 0xfff)))"
  by (simp add: translate_def pde_at_def pte_at_def pde_address_def pte_address_def)

interpretation paged: word_memory vread vwrite data_window
proof
  fix W U s a x
  assume w: "data_window W s"
  show "data_window U s" if "U \<subseteq> W" using w that unfolding data_window_def by (meson subsetD)
  assume a: "a \<in> W"
  from w a obtain pa where pa: "translate s a = Some pa"
    "\<And>b. b \<in> W \<Longrightarrow> paging s \<Longrightarrow> pa \<noteq> pde_address s b \<and> pa \<noteq> pte_address s b"
    "\<And>b. b \<in> W \<Longrightarrow> translate s b = Some pa \<Longrightarrow> a = b"
    unfolding data_window_def by blast
  then show "\<exists>x. vread s a = Some x" by (simp add: vread_def)
  let ?s = "s\<lparr>pmem := (pmem s)(pa := x)\<rparr>"
  have same: "pde_address ?s b = pde_address s b" "paging s \<Longrightarrow> pte_address ?s b = pte_address s b"
    "translate ?s b = translate s b" if "b \<in> W" for b
    using pa(2)[OF that] by (auto simp: translate_entries pde_address_def pte_address_def pde_at_def)
  have "data_window W ?s" unfolding data_window_def
  proof
    fix c assume "c \<in> W"
    with w show "\<exists>pa. translate ?s c = Some pa \<and> (\<forall>b\<in>W. (paging ?s \<longrightarrow> pa \<noteq> pde_address ?s b \<and> pa \<noteq> pte_address ?s b)
        \<and> (translate ?s b = Some pa \<longrightarrow> c = b))"
      by (auto simp: same data_window_def)
  qed
  moreover have "vread ?s b = (if b = a then Some x else vread s b)" if "b \<in> W" for b
  proof (cases "translate s b")
    case (Some pb)
    then show ?thesis using pa(1) pa(3)[OF that] same(3)[OF that] by (auto simp: vread_def)
  qed (use same(3)[OF that] pa(1) in \<open>auto simp: vread_def\<close>)
  ultimately show "\<exists>s'. vwrite s a x = Some s' \<and> data_window W s' \<and> (\<forall>b\<in>W. vread s' b = (if b = a then Some x else vread s b))"
    using pa(1) by (intro exI[of _ ?s]) (simp add: vwrite_def)
qed

end
