(* ===== verification/HeapSound.thy ===== *)
theory HeapSound
  imports KHeap LinkedMemory
begin

text \<open>
  The invariant that joins the frame bitmap, the heap bitmap and the page tables: the memory
  that kernel code uses is a data window whose frames, and the frames of the tables that map
  it, are reserved in the frame bitmap, and whose heap pages are taken in the heap bitmap.
  Under it a heap allocation extends the window by the new pages and changes nothing in it,
  which is what the heap allocator and the data structures on the heap rely on.
\<close>

section \<open>Successive frames\<close>

lemma allocate_one:
  assumes "fst (allocate_physical_page ls pm) \<noteq> 0"
  shows "page_of (fst (allocate_physical_page ls pm)) \<in> avail pm"
    and "avail (snd (allocate_physical_page ls pm)) = avail pm - {page_of (fst (allocate_physical_page ls pm))}"
proof -
  have c: "\<not> (no_page_available pm \<or> usable ls pm = {})"
    using assms allocate_physical_page_none(1)[of pm ls] by blast
  then have s: "\<not> no_page_available pm" "usable ls pm \<noteq> {}" by auto
  note a = allocate_physical_page_some[OF s]
  have "Min (usable ls pm) \<in> avail pm" using Min_in[OF finite_usable s(2)] by (simp add: usable_def)
  with a show "page_of (fst (allocate_physical_page ls pm)) \<in> avail pm"
    "avail (snd (allocate_physical_page ls pm)) = avail pm - {page_of (fst (allocate_physical_page ls pm))}" by simp_all
qed

lemma allocate_frames_fresh:
  assumes "0 \<notin> set (fst (allocate_frames ls pm n))"
  shows "distinct (map page_of (fst (allocate_frames ls pm n)))
    \<and> page_of ` set (fst (allocate_frames ls pm n)) \<subseteq> avail pm
    \<and> avail (snd (allocate_frames ls pm n)) = avail pm - page_of ` set (fst (allocate_frames ls pm n))"
  using assms
proof (induction n)
  case (Suc n)
  let ?r = "allocate_frames ls pm n"
  have "fst (allocate_physical_page ls (snd ?r)) \<noteq> 0" "0 \<notin> set (fst ?r)"
    using Suc.prems by (auto simp: case_prod_beta Let_def)
  with allocate_one[OF this(1)] Suc.IH show ?case by (auto simp: case_prod_beta Let_def)
qed simp

section \<open>The invariant\<close>

definition reserved :: "kernel_mm \<Rightarrow> u32 \<Rightarrow> bool" where
  "reserved st pa \<longleftrightarrow> page_of pa \<notin> avail (frames st)"

definition word_sound :: "linker_symbols \<Rightarrow> kernel_mm \<Rightarrow> u32 \<Rightarrow> bool" where
  "word_sound ls st a \<longleftrightarrow>
     (\<exists>pa. translate (vmem st) a = Some pa \<and> reserved st pa
        \<and> PAGE_BOUNDARY pa \<noteq> cr3 (vmem st) \<and> PAGE_BOUNDARY pa \<noteq> kheap_page_tables ls)
     \<and> reserved st (pte_address (vmem st) a)
     \<and> (PAGE_BOUNDARY (pte_address (vmem st) a) = kheap_page_tables ls \<longrightarrow> unat a div 2 ^ 22 = 770)
     \<and> (unat a div 2 ^ 22 = 770 \<longrightarrow> \<not> bitmap_test (kheap_st st) (unat a div 4096 mod 1024))"

definition heap_sound :: "linker_symbols \<Rightarrow> kernel_mm \<Rightarrow> u32 set \<Rightarrow> bool" where
  "heap_sound ls st W \<longleftrightarrow> kheap_ready ls (vmem st) \<and> data_window W (vmem st)
     \<and> reserved st (cr3 (vmem st)) \<and> reserved st (kheap_page_tables ls) \<and> (\<forall>a\<in>W. word_sound ls st a)"

definition heap_words :: "nat \<Rightarrow> nat \<Rightarrow> u32 set" where
  "heap_words k n = {kheap_page (k + j) + 4 * of_nat i | j i. j < n \<and> i < 1024}"

lemma page_of_eq_iff: "page_of a = page_of b \<longleftrightarrow> PAGE_BOUNDARY a = PAGE_BOUNDARY b"
proof -
  have "PAGE_BOUNDARY a = PAGE_BOUNDARY b \<longleftrightarrow> unat a div 4096 * 4096 = unat b div 4096 * 4096"
    by (simp only: word_unat_eq_iff unat_PAGE_BOUNDARY)
  then show ?thesis by (simp add: page_of_def)
qed

lemma page_of_slot: "4096 dvd unat t \<Longrightarrow> i < 1024 \<Longrightarrow> page_of (slot t i) = page_of t"
  using PAGE_BOUNDARY_eq_iff[of t] by (simp add: page_of_eq_iff slot_page)

lemma page_of_add_offset:
  assumes "4096 dvd unat f" "unat off < 4096"
  shows "page_of (f + off) = page_of f" "PAGE_BOUNDARY (f + off) = f"
proof -
  have "unat f + 4096 \<le> 2 ^ 32" by (rule aligned_room[OF assms(1)])
  then have "unat (f + off) = unat f + unat off" using assms(2) by (simp add: unat_word_ariths)
  then show p: "page_of (f + off) = page_of f" using assms by (auto simp: page_of_def dvd_def)
  then show "PAGE_BOUNDARY (f + off) = f" using assms(1) by (simp add: page_of_eq_iff page_simps)
qed

lemma word_offset: "i < 1024 \<Longrightarrow> (4 * of_nat i :: u32) < 4096 \<and> unat (4 * of_nat i :: u32) < 4096"
  by (simp add: word_less_nat_alt unat_word_ariths unat_of_nat)

text \<open>Where the walk of an address looks, in terms of the slots of the tables.\<close>

lemma pde_address_slot: "4096 dvd unat (cr3 s) \<Longrightarrow> pde_address s va = slot (cr3 s) (unat va div 2 ^ 22)"
proof -
  assume "4096 dvd unat (cr3 s)"
  moreover have "ADDRESS_TO_DIRECTORY_ENTRY va = of_nat (unat va div 2 ^ 22)"
    by (simp only: unat_dir_index[symmetric]) simp
  ultimately show ?thesis by (simp add: pde_address_def slot_def page_simps)
qed

lemma dir_index_less: "unat (va :: u32) div 2 ^ 22 < 1024"
  using unsigned_less[of va, where ?'a = nat] by (simp add: less_mult_imp_div_less)

lemma pte_address_slot: "pte_address s va = slot (PAGE_BOUNDARY (pde_at s va)) (unat va div 4096 mod 1024)"
proof -
  have "ADDRESS_TO_PAGE_TABLE_ENTRY va = of_nat (unat va div 4096 mod 1024)"
    by (simp only: unat_pgt_index[symmetric]) simp
  then show ?thesis by (simp add: pte_address_def slot_def)
qed

section \<open>A heap allocation extends the window\<close>

lemma heap_soundD:
  assumes "heap_sound ls st W"
  shows "kheap_ready ls (vmem st)" "data_window W (vmem st)" "reserved st (cr3 (vmem st))" "reserved st (kheap_page_tables ls)"
    "\<And>a. a \<in> W \<Longrightarrow> word_sound ls st a"
    "4096 dvd unat (cr3 (vmem st))" "4096 dvd unat (kheap_page_tables ls)" "kheap_page_tables ls \<noteq> cr3 (vmem st)" "paging (vmem st)"
  using assms by (auto simp: heap_sound_def kheap_ready_def recursive_ok_def table_at_def)

text \<open>The walks of the old words read none of the new entries.\<close>

lemma old_walk:
  assumes snd: "heap_sound ls st W" and run: "first_run (kheap_st st) n k" "k + n \<le> 1024" "length vs = n" and a: "a \<in> W"
  defines "v' \<equiv> (vmem st)\<lparr>pmem := set_entries (kheap_page_tables ls) k vs (pmem (vmem st))\<rparr>"
  shows "translate v' a = translate (vmem st) a" "pde_address v' a = pde_address (vmem st) a"
    "pte_address v' a = pte_address (vmem st) a" "vread v' a = vread (vmem st) a"
proof -
  note h = heap_soundD[OF snd]
  let ?v = "vmem st" and ?t = "kheap_page_tables ls"
  let ?T = "PAGE_BOUNDARY (pde_at ?v a)" and ?i = "unat a div 4096 mod 1024"
  have other: "pmem v' x = pmem ?v x" if "\<And>j. j < n \<Longrightarrow> x \<noteq> kheap_slot ls (k + j)" for x
    using that run(3) by (simp add: v'_def set_entries_other)
  have cr3: "cr3 v' = cr3 ?v" "paging v'" using h(9) by (simp_all add: v'_def)
  show d: "pde_address v' a = pde_address ?v a" by (simp add: pde_address_def cr3)
  have "slot (cr3 ?v) (unat a div 2 ^ 22) \<noteq> kheap_slot ls (k + j)" if "j < n" for j
    using h(6-8) run(2) that dir_index_less[of a] by (auto simp: slot_eq_iff)
  then have e: "pmem v' (pde_address ?v a) = pmem ?v (pde_address ?v a)"
    using h(6) by (intro other) (simp add: pde_address_slot)
  then show p: "pte_address v' a = pte_address ?v a"
    using d by (simp add: pte_address_def pde_at_def pde_address_def cr3)
  have T: "4096 dvd unat ?T" by (simp add: unat_PAGE_BOUNDARY)
  have w: "word_sound ls st a" using h(5) a by blast
  have "pte_address ?v a \<noteq> kheap_slot ls (k + j)" if "j < n" for j
  proof
    assume "pte_address ?v a = kheap_slot ls (k + j)"
    then have eq: "?T = ?t" "?i = k + j"
      using T h(7) run(2) that by (simp_all add: pte_address_slot slot_eq_iff)
    moreover have "PAGE_BOUNDARY (pte_address ?v a) = ?T" using T by (simp add: pte_address_slot slot_page)
    ultimately have "\<not> bitmap_test (kheap_st st) (k + j)" using w by (simp add: word_sound_def)
    then show False using first_runD(5)[OF run(1) that] by simp
  qed
  then have "pmem v' (pte_address ?v a) = pmem ?v (pte_address ?v a)" by (rule other)
  then show t: "translate v' a = translate ?v a" using e d p cr3 h(9) by (simp add: translate_entries)
  obtain pa where pa: "translate ?v a = Some pa" "PAGE_BOUNDARY pa \<noteq> ?t" using w by (auto simp: word_sound_def)
  then have "pa \<noteq> kheap_slot ls (k + j)" if "j < n" for j
    using slot_page(1)[OF h(7), of "k + j"] run(2) that by auto
  then have "pmem v' pa = pmem ?v pa" by (rule other)
  then show "vread v' a = vread ?v a" using t pa(1) by (simp add: vread_def)
qed

text \<open>The new words lead into the new frames.\<close>

lemma new_walk:
  assumes snd: "kheap_ready ls v" and run: "k + n \<le> 1024" "length fs = n" and a: "a \<in> heap_words k n"
    and al: "\<And>f. f \<in> set fs \<Longrightarrow> 4096 dvd unat f"
  defines "v' \<equiv> v\<lparr>pmem := set_entries (kheap_page_tables ls) k (map (\<lambda>f. f OR 3) fs) (pmem v)\<rparr>"
  obtains j i where "j < n" "i < 1024" "a = kheap_page (k + j) + 4 * of_nat i" "translate v' a = Some (fs ! j + 4 * of_nat i)"
    "pte_address v' a = kheap_slot ls (k + j)" "unat a div 2 ^ 22 = 770" "unat a div 4096 mod 1024 = k + j"
    "fs ! j \<in> set fs" "page_of (fs ! j + 4 * of_nat i) = page_of (fs ! j)" "PAGE_BOUNDARY (fs ! j + 4 * of_nat i) = fs ! j"
proof -
  obtain j i where ji: "j < n" "i < 1024" "a = kheap_page (k + j) + 4 * of_nat i" using a by (auto simp: heap_words_def)
  have kj: "k + j < 1024" using ji(1) run(1) by simp
  note o = kheap_page_offset[OF kj word_offset[OF ji(2), THEN conjunct1]]
  have ready: "kheap_ready ls v'" using set_entries_ready[OF snd, of k "map (\<lambda>f. f OR 3) fs"] run by (simp add: v'_def)
  have "pmem v' (kheap_slot ls (k + j)) = fs ! j OR 3" using ji(1) run by (simp add: v'_def set_entries_at)
  moreover have "4096 dvd unat (fs ! j)" using al ji(1) run(2) by simp
  ultimately have "translate v' a = Some (fs ! j + 4 * of_nat i)"
    using kheap_translate[OF ready, of a] o by (simp add: ji(3) bit_or_3 table_entry_boundary Let_def)
  moreover have "PAGE_BOUNDARY (pde_at v' a) = kheap_page_tables ls"
  proof -
    obtain b where "pmem v' (slot (cr3 v') 770) = kheap_page_tables ls OR b" "b AND NOT 0xfff = 0" "4096 dvd unat (kheap_page_tables ls)"
      using ready by (auto simp: kheap_ready_def table_at_def)
    moreover have "pde_at v' a = pmem v' (slot (cr3 v') 770)"
      using table_at_translate(3)[of v' a "kheap_page_tables ls"] ready o(1) by (simp add: ji(3) kheap_ready_def)
    ultimately show ?thesis by (simp add: entry_attributes page_simps)
  qed
  then have "pte_address v' a = kheap_slot ls (k + j)" using o(2) by (simp add: pte_address_slot ji(3))
  moreover have "fs ! j \<in> set fs" using ji(1) run(2) by simp
  ultimately show thesis
    using that ji o page_of_add_offset[OF al word_offset[OF ji(2), THEN conjunct2], of "fs ! j"] by blast
qed

lemma new_words_inj:
  assumes "kheap_ready ls v" "k + n \<le> 1024" "length fs = n" "\<And>f. f \<in> set fs \<Longrightarrow> 4096 dvd unat f" "distinct fs"
  shows "inj_on (translate (v\<lparr>pmem := set_entries (kheap_page_tables ls) k (map (\<lambda>f. f OR 3) fs) (pmem v)\<rparr>)) (heap_words k n)"
    (is "inj_on (translate ?v) _")
proof (rule inj_onI)
  fix a b assume "a \<in> heap_words k n" "b \<in> heap_words k n" and eq: "translate ?v a = translate ?v b"
  then obtain j i j' i' where a: "j < n" "a = kheap_page (k + j) + 4 * of_nat i" "translate ?v a = Some (fs ! j + 4 * of_nat i)"
      "PAGE_BOUNDARY (fs ! j + 4 * of_nat i) = fs ! j"
    and b: "j' < n" "b = kheap_page (k + j') + 4 * of_nat i'" "translate ?v b = Some (fs ! j' + 4 * of_nat i')"
      "PAGE_BOUNDARY (fs ! j' + 4 * of_nat i') = fs ! j'"
    by (elim new_walk[OF assms(1-3) _ assms(4)]) blast
  then have f: "fs ! j = fs ! j'" using eq by (metis option.inject)
  then have "4 * of_nat i = (4 * of_nat i' :: u32)" using a b eq by simp
  moreover have "j = j'" using f assms(3,5) a(1) b(1) by (simp add: nth_eq_iff_index_eq)
  ultimately show "a = b" using a(2) b(2) by simp
qed

text \<open>A window grows by words that lead to places no walk and no old word uses.\<close>

lemma data_window_union:
  assumes "data_window W v" "inj_on (translate v) N"
    and new: "\<And>a. a \<in> N \<Longrightarrow> \<exists>pa\<in>F. translate v a = Some pa"
    and old: "\<And>a pa. a \<in> W \<Longrightarrow> translate v a = Some pa \<Longrightarrow> pa \<notin> F \<union> D \<union> T"
    and D: "\<And>b. b \<in> W \<union> N \<Longrightarrow> pde_address v b \<in> D"
    and T: "\<And>b. b \<in> N \<Longrightarrow> pte_address v b \<in> T" "\<And>b. b \<in> W \<Longrightarrow> pte_address v b \<notin> F" and "F \<inter> (D \<union> T) = {}"
  shows "data_window (W \<union> N) v"
  unfolding data_window_def
proof
  fix a assume "a \<in> W \<union> N"
  then consider "a \<in> W" | "a \<in> N" "a \<notin> W" by blast
  then show "\<exists>pa. translate v a = Some pa \<and> (\<forall>b\<in>W \<union> N. (paging v \<longrightarrow> pa \<noteq> pde_address v b \<and> pa \<noteq> pte_address v b)
      \<and> (translate v b = Some pa \<longrightarrow> a = b))"
  proof cases
    case 1
    with assms(1) obtain pa where pa: "translate v a = Some pa" "\<And>b. b \<in> W \<Longrightarrow> paging v \<Longrightarrow> pa \<noteq> pte_address v b"
      "\<And>b. b \<in> W \<Longrightarrow> translate v b = Some pa \<Longrightarrow> a = b" unfolding data_window_def by blast
    moreover note o = old[OF 1 pa(1)]
    moreover have "translate v b \<noteq> Some pa" if "b \<in> N" for b using new[OF that] o by auto
    ultimately show ?thesis using D T(1) by (intro exI[of _ pa]) blast
  next
    case 2
    from new[OF 2(1)] obtain pa where pa: "translate v a = Some pa" "pa \<in> F" by blast
    then have "pa \<notin> D" "pa \<notin> T" using assms(8) by blast+
    moreover have "b = a" if "b \<in> N" "translate v b = Some pa" for b
      using assms(2) that pa(1) 2(1) by (metis inj_on_def)
    ultimately show ?thesis using pa old D T by (intro exI[of _ pa]) blast
  qed
qed

lemma heap_sound_extend:
  assumes snd: "heap_sound ls st W" and run: "first_run (kheap_st st) n k" "k + n \<le> 1024"
  defines "fs \<equiv> fst (allocate_frames ls (frames st) n)"
  assumes fs: "0 \<notin> set fs"
  defines "st' \<equiv> st\<lparr>frames := snd (allocate_frames ls (frames st) n),
       kheap_st := turn_bits_off (kheap_st st) (k div 8) (k mod 8) n,
       vmem := (vmem st)\<lparr>pmem := set_entries (kheap_page_tables ls) k (map (\<lambda>f. f OR 3) fs) (pmem (vmem st))\<rparr>\<rparr>"
  shows "heap_sound ls st' (W \<union> heap_words k n)"
proof -
  note h = heap_soundD[OF snd]
  let ?t = "kheap_page_tables ls" and ?d = "cr3 (vmem st)" and ?v = "vmem st'"
  have len: "length fs = n" by (simp add: fs_def)
  have al: "4096 dvd unat f" if "f \<in> set fs" for f
    using allocate_frames_aligned[of f ls "frames st" n] that by (simp add: fs_def page_simps)
  have fresh: "distinct (map page_of fs)" "page_of ` set fs \<subseteq> avail (frames st)"
    "avail (frames st') = avail (frames st) - page_of ` set fs"
    using allocate_frames_fresh[of ls "frames st" n] fs by (simp_all add: fs_def st'_def)
  have res: "reserved st' x" if "reserved st x" for x using that fresh(3) by (simp add: reserved_def)
  have cr3: "cr3 ?v = ?d" "paging ?v" using h(9) by (simp_all add: st'_def)
  have bits: "\<not> bitmap_test (kheap_st st') p" if "\<not> bitmap_test (kheap_st st) p \<or> k \<le> p \<and> p < k + n" for p
    using that by (auto simp: st'_def bitmap_test_turn_bits_off mult.commute[of 8])
  have old: "translate ?v a = translate (vmem st) a" "pde_address ?v a = pde_address (vmem st) a"
    "pte_address ?v a = pte_address (vmem st) a" if "a \<in> W" for a
    using old_walk[OF snd run, of "map (\<lambda>f. f OR 3) fs" a] len that by (simp_all add: st'_def)
  note new = new_walk[OF h(1) run(2) len _ al, of _ thesis for thesis]
  have new_v: "?v = (vmem st)\<lparr>pmem := set_entries ?t k (map (\<lambda>f. f OR 3) fs) (pmem (vmem st))\<rparr>" by (simp add: st'_def)
  have sep: "f \<noteq> ?d" "f \<noteq> ?t" "page_of f \<noteq> page_of ?d" "page_of f \<noteq> page_of ?t" if "f \<in> set fs" for f
    using that fresh(2) h(3,4) by (auto simp: reserved_def)
  have word: "word_sound ls st' a" if a: "a \<in> W \<union> heap_words k n" for a
  proof (cases "a \<in> W")
    case True
    then show ?thesis using h(5)[OF True] old[OF True] res bits by (auto simp: word_sound_def cr3)
  next
    case False
    with a have "a \<in> heap_words k n" by blast
    then show ?thesis
    proof (rule new[folded new_v])
      fix j i assume ji: "j < n" "translate ?v a = Some (fs ! j + 4 * of_nat i)" "pte_address ?v a = kheap_slot ls (k + j)"
        "unat a div 2 ^ 22 = 770" "unat a div 4096 mod 1024 = k + j" "fs ! j \<in> set fs"
        "page_of (fs ! j + 4 * of_nat i) = page_of (fs ! j)" "PAGE_BOUNDARY (fs ! j + 4 * of_nat i) = fs ! j"
      have "reserved st' (kheap_slot ls (k + j))"
        using res[OF h(4)] h(7) run(2) ji(1) by (simp add: reserved_def page_of_slot)
      then show ?thesis using ji sep[of "fs ! j"] fresh(3) bits[of "k + j"] by (auto simp: word_sound_def cr3 reserved_def)
    qed
  qed
  have "data_window (W \<union> heap_words k n) ?v"
  proof (rule data_window_union[where F = "{x. page_of x \<in> page_of ` set fs}" and D = "{x. PAGE_BOUNDARY x = ?d}"
        and T = "{x. PAGE_BOUNDARY x = ?t}"])
    show "data_window W ?v" using h(2,9) cr3(2) old unfolding data_window_def by simp
    show "inj_on (translate ?v) (heap_words k n)"
      using new_words_inj[OF h(1) run(2) len al] fresh(1) by (simp add: new_v distinct_map)
    show "\<exists>pa\<in>{x. page_of x \<in> page_of ` set fs}. translate ?v a = Some pa" if "a \<in> heap_words k n" for a
      by (rule new[folded new_v, OF that]) auto
    show "pa \<notin> {x. page_of x \<in> page_of ` set fs} \<union> {x. PAGE_BOUNDARY x = ?d} \<union> {x. PAGE_BOUNDARY x = ?t}"
      if "a \<in> W" "translate ?v a = Some pa" for a pa
      using h(5)[OF that(1)] that(2) old[OF that(1)] fresh(2) by (auto simp: word_sound_def reserved_def)
    show "pde_address ?v b \<in> {x. PAGE_BOUNDARY x = ?d}" for b
      using h(6) dir_index_less[of b] by (simp add: pde_address_slot cr3 slot_page)
    have slots: "PAGE_BOUNDARY (kheap_slot ls (k + j)) = ?t" if "j < n" for j using slot_page h(7) run(2) that by simp
    show "pte_address ?v b \<in> {x. PAGE_BOUNDARY x = ?t}" if "b \<in> heap_words k n" for b
    proof (rule new[folded new_v, OF that])
      fix j assume 1: "j < n" "pte_address ?v b = kheap_slot ls (k + j)"
      have "PAGE_BOUNDARY (kheap_slot ls (k + j)) = ?t" by (rule slots[OF 1(1)])
      then show ?thesis using 1(2) by (simp only: mem_Collect_eq)
    qed
    show "pte_address ?v b \<notin> {x. page_of x \<in> page_of ` set fs}" if "b \<in> W" for b
      using h(5)[OF that] old[OF that] fresh(2) by (auto simp: word_sound_def reserved_def)
    show "{x. page_of x \<in> page_of ` set fs} \<inter> ({x. PAGE_BOUNDARY x = ?d} \<union> {x. PAGE_BOUNDARY x = ?t}) = {}"
      using sep(1,2) PAGE_BOUNDARY_eq_iff[THEN iffD2, OF al] by (fastforce simp: page_of_eq_iff)
  qed
  moreover have "kheap_ready ls ?v" using set_entries_ready[OF h(1)] run(2) len by (simp add: new_v)
  ultimately show ?thesis using word res h(3,4) by (simp add: heap_sound_def cr3)
qed

section \<open>The invariant under writes\<close>

text \<open>Memory of the kernel as its data structures see it: words read and written through the
  page tables, with any invariant that writes to the window keep.\<close>

locale kernel_words = word_memory vread vwrite good
  for good :: "u32 set \<Rightarrow> vm \<Rightarrow> bool"

interpretation window: kernel_words data_window
  by (rule kernel_words.intro) (rule paged.word_memory_axioms)

lemma heap_sound_subset: "heap_sound ls st W \<Longrightarrow> U \<subseteq> W \<Longrightarrow> heap_sound ls st U"
  by (auto simp: heap_sound_def dest: paged.good_subset)

lemma data_windowD:
  assumes "data_window W s" "a \<in> W" "translate s a = Some pa" "b \<in> W"
  shows "paging s \<longrightarrow> pa \<noteq> pde_address s b \<and> pa \<noteq> pte_address s b" "translate s b = Some pa \<longrightarrow> a = b"
proof -
  from assms(1,2) obtain pa' where "translate s a = Some pa'"
    "\<forall>b\<in>W. (paging s \<longrightarrow> pa' \<noteq> pde_address s b \<and> pa' \<noteq> pte_address s b) \<and> (translate s b = Some pa' \<longrightarrow> a = b)"
    unfolding data_window_def by blast
  then show "paging s \<longrightarrow> pa \<noteq> pde_address s b \<and> pa \<noteq> pte_address s b" "translate s b = Some pa \<longrightarrow> a = b"
    using assms(3,4) by auto
qed

lemma heap_sound_write:
  assumes "heap_sound ls st W" "a \<in> W"
  shows "\<exists>v'. vwrite (vmem st) a x = Some v' \<and> heap_sound ls (st\<lparr>vmem := v'\<rparr>) W
    \<and> (\<forall>b\<in>W. vread v' b = (if b = a then Some x else vread (vmem st) b))"
proof -
  note h = heap_soundD[OF assms(1)]
  obtain pa where pa: "translate (vmem st) a = Some pa" "PAGE_BOUNDARY pa \<noteq> cr3 (vmem st)" "PAGE_BOUNDARY pa \<noteq> kheap_page_tables ls"
    using h(5)[OF assms(2)] by (auto simp: word_sound_def)
  let ?v = "(vmem st)\<lparr>pmem := (pmem (vmem st))(pa := x)\<rparr>"
  have w: "vwrite (vmem st) a x = Some ?v" by (simp add: vwrite_def pa(1))
  then have dw: "data_window W ?v" "\<forall>b\<in>W. vread ?v b = (if b = a then Some x else vread (vmem st) b)"
    using paged.wr_good[OF h(2) assms(2), of x] by auto
  have "slot (cr3 (vmem st)) i \<noteq> pa" if "i < 1024" for i using pa(2) slot_page(1)[OF h(6) that] by auto
  then have "kheap_ready ls ?v" using h(1) by (auto simp: kheap_ready_def recursive_ok_def table_at_def)
  moreover have "word_sound ls (st\<lparr>vmem := ?v\<rparr>) b" if b: "b \<in> W" for b
  proof -
    have "pa \<noteq> pde_address (vmem st) b" "pa \<noteq> pte_address (vmem st) b"
      using data_windowD[OF h(2) assms(2) pa(1) b] h(9) by simp_all
    then have "translate ?v b = translate (vmem st) b" "pte_address ?v b = pte_address (vmem st) b"
      by (auto simp: translate_entries pde_address_def pte_address_def pde_at_def)
    then show ?thesis using h(5)[OF b] by (simp add: word_sound_def reserved_def)
  qed
  ultimately show ?thesis using w dw h(3,4) by (auto simp: heap_sound_def reserved_def)
qed

interpretation heap: kernel_words "\<lambda>W v. heap_sound ls (st\<lparr>vmem := v\<rparr>) W"
proof (intro kernel_words.intro word_memory.intro)
  fix W U v a x
  show "heap_sound ls (st\<lparr>vmem := v\<rparr>) W \<Longrightarrow> U \<subseteq> W \<Longrightarrow> heap_sound ls (st\<lparr>vmem := v\<rparr>) U" by (rule heap_sound_subset)
  assume s: "heap_sound ls (st\<lparr>vmem := v\<rparr>) W" and a: "a \<in> W"
  show "\<exists>x. vread v a = Some x" using paged.rd_good[OF heap_soundD(2)[OF s] a] by simp
  show "\<exists>v'. vwrite v a x = Some v' \<and> heap_sound ls (st\<lparr>vmem := v'\<rparr>) W
      \<and> (\<forall>b\<in>W. vread v' b = (if b = a then Some x else vread v b))"
  proof -
    obtain v' where "vwrite v a x = Some v'" "heap_sound ls (st\<lparr>vmem := v'\<rparr>) W"
      "\<forall>b\<in>W. vread v' b = (if b = a then Some x else vread v b)" using heap_sound_write[OF s a, of x] by auto
    then show ?thesis by blast
  qed
qed

text \<open>C7: the invariant of the kernel's memory survives a heap allocation of \<open>n\<close> pages when the
  lowest \<open>n\<close> free heap pages are consecutive, lie in the 4 MB of the heap and end before the end
  of the bitmap bytes that the search looks at (\<open>first_run\<close>), and a frame is left for each: the
  pages that \<open>alloc_kheap_pages\<close> maps join the window, every word of the old window keeps its
  contents, and no word shares its place in physical memory with another word or with a page
  table. Outside these conditions the search can hand out a page in use
  (\<open>kheap_search_ignores_gap\<close>, \<open>kheap_page_handed_out_twice\<close>).\<close>

theorem alloc_kheap_pages_sound:
  assumes "heap_sound ls st W" "first_run (kheap_st st) n k" "k + n \<le> 1024"
    and "0 \<notin> set (fst (allocate_frames ls (frames st) n))"
  shows "\<exists>st'. alloc_kheap_pages ls junk st (of_nat n) = Some (kheap_page k, st')
    \<and> heap_sound ls st' (W \<union> heap_words k n) \<and> (\<forall>a\<in>W. vread (vmem st') a = vread (vmem st) a)"
  using alloc_kheap_pages_first_run[OF heap_soundD(1)[OF assms(1)] assms(2,3), of junk]
    heap_sound_extend[OF assms] old_walk(4)[OF assms(1-3)] by simp

section \<open>A kernel after boot\<close>

text \<open>The state the witnesses start from: the frames below 0x140000 are reserved, the heap is
  empty, and the word of the kernel's free-list head is mapped.\<close>

definition booted :: kernel_mm where
  "booted = \<lparr>frames = \<lparr>bitmap = (\<lambda>i. if i < 40 then 0 else 0xff), no_page_available = False\<rparr>, kheap_st = (\<lambda>_. 0xff),
     vmem = \<lparr>pmem = (\<lambda>_. 0)(0x101FFC := 0x101003, 0x101C08 := 0x104003, 0x101C00 := 0x102003, 0x102480 := 0x120003),
             cr3 = 0x101000, paging = True\<rparr>\<rparr>"

lemma booted_slots: "slot 0x101000 1023 = 0x101FFC" "slot 0x101000 770 = 0x101C08" "slot 0x101000 768 = 0x101C00"
  "slot 0x102000 0x120 = 0x102480" by (simp_all add: slot_def)

lemma avail_booted: "k \<in> avail (frames booted) \<longleftrightarrow> 320 \<le> k \<and> k < 2 ^ 20"
proof (cases "k < 320")
  case True
  then have "k div 8 < 40" by (simp add: less_mult_imp_div_less)
  then show ?thesis using True by (simp add: avail_def booted_def bitmap_test_def)
next
  case False
  then have "\<not> k div 8 < 40" using div_le_mono[of 320 k 8] by simp
  then show ?thesis using False all_ones_test[of k] by (auto simp: avail_def booted_def bitmap_test_def)
qed

lemma booted_ready: "kheap_ready example_linker (vmem booted)"
  by (auto simp: kheap_ready_def booted_def recursive_ok_def table_at_def example_linker_def booted_slots
      intro!: exI[of _ 3] simp: bit_or_3[of 0, simplified])

lemma booted_head: "translate (vmem booted) 0xC0120000 = Some 0x120000"
  "pte_address (vmem booted) 0xC0120000 = 0x102480" "pde_address (vmem booted) 0xC0120000 = 0x101C00"
proof -
  have d: "ADDRESS_TO_DIRECTORY_ENTRY 0xC0120000 = 768" "ADDRESS_TO_PAGE_TABLE_ENTRY 0xC0120000 = 0x120"
    by (simp_all add: ADDRESS_TO_DIRECTORY_ENTRY_def ADDRESS_TO_PAGE_TABLE_ENTRY_def drop_bit_eq_div)
  have p: "pde_at (vmem booted) 0xC0120000 = 0x102003" 
    by (simp add: pde_at_def d booted_def PAGE_BOUNDARY_def PAGE_SIZE_def)
  then show "pte_address (vmem booted) 0xC0120000 = 0x102480"
    by (simp add: pte_address_def d PAGE_BOUNDARY_def PAGE_SIZE_def)
  show "pde_address (vmem booted) 0xC0120000 = 0x101C00" by (simp add: pde_address_def d booted_def PAGE_BOUNDARY_def PAGE_SIZE_def)
  have "pte_at (vmem booted) 0xC0120000 = 0x120003"
    by (simp add: pte_at_def p d PAGE_BOUNDARY_def PAGE_SIZE_def) (simp add: booted_def)
  then show "translate (vmem booted) 0xC0120000 = Some 0x120000"
    by (simp add: translate_def p) (simp add: booted_def PAGE_BOUNDARY_def PAGE_SIZE_def)
qed

lemma booted_sound: "heap_sound example_linker booted {0xC0120000}"
proof -
  have "cr3 (vmem booted) = 0x101000" "paging (vmem booted)" "kheap_page_tables example_linker = 0x104000"
    by (simp_all add: booted_def example_linker_def)
  then show ?thesis using booted_ready booted_head avail_booted
    by (simp add: heap_sound_def data_window_def word_sound_def reserved_def page_of_def PAGE_BOUNDARY_def PAGE_SIZE_def)
qed

lemma booted_run: "0 < n \<Longrightarrow> n < 8 \<Longrightarrow> first_run (kheap_st booted) n 0"
proof -
  assume n: "0 < n" "n < 8"
  then have "(n + 7) div 8 = 1" by (simp add: div_nat_eqI)
  with n show ?thesis by (simp add: first_run_def booted_def all_ones_test)
qed

lemma booted_frame: "0 \<notin> set (fst (allocate_frames example_linker (frames booted) 1))"
proof -
  let ?u = "usable example_linker (frames booted)"
  have "scan_start example_linker = 320" by (simp add: scan_start_def example_linker_def)
  then have u: "k \<in> ?u \<longleftrightarrow> 320 \<le> k \<and> k < 2 ^ 20" for k using avail_booted[of k] by (auto simp: usable_def)
  then have "320 \<in> ?u" by simp
  then have ne: "?u \<noteq> {}" by blast
  from Min_in[OF finite_usable ne] have m: "320 \<le> Min ?u" "Min ?u < 2 ^ 20" by (simp_all only: u)
  have "fst (allocate_physical_page example_linker (frames booted)) = of_nat (Min ?u) * PAGE_SIZE"
    by (rule allocate_physical_page_some(1)[OF _ ne]) (simp add: booted_def)
  moreover have "of_nat (Min ?u) * PAGE_SIZE \<noteq> 0" using unat_frame_address[OF m(2)] m(1) by auto
  ultimately show ?thesis by (simp add: case_prod_beta)
qed

theorem alloc_kheap_pages_sound_witness:
  "\<exists>st'. alloc_kheap_pages example_linker (\<lambda>_. 0) booted 1 = Some (kheap_page 0, st')
     \<and> heap_sound example_linker st' ({0xC0120000} \<union> heap_words 0 1)"
  using alloc_kheap_pages_sound[OF booted_sound booted_run[of 1] _ booted_frame, of "\<lambda>_. 0"] by auto

end
