(* ===== verification/KMalloc.thy ===== *)
theory KMalloc
  imports HeapSound
begin

text \<open>
  The heap allocator of \<^verbatim>\<open>src/kernel/mm/kmalloc.c\<close>: a list of free blocks, each with a
  header of two words, the link and the size in units of eight bytes. The list lives in paged
  memory; \<open>blocks_info\<close> is the address of its head. A \<open>block_header_t**\<close> is the address
  of the word it points to. The walk to the end of the list and the search for a block are
  partial functions: on a cyclic list neither returns.
\<close>

section \<open>Definitions\<close>

subsection \<open>Freeing\<close>

text \<open>\<open>for(; *current != NULL; current = &(*current)->next_free_block);\<close>\<close>

partial_function (option) kfree_walk :: "vm \<Rightarrow> u32 \<Rightarrow> u32 option" where
  "kfree_walk v current = do {
     block \<leftarrow> vread v current;
     if block \<noteq> 0 then kfree_walk v block else Some current
   }"

definition kfree :: "linker_symbols \<Rightarrow> vm \<Rightarrow> u32 \<Rightarrow> vm option" where
  "kfree ls v address = do {
     let block = address - 8;
     current \<leftarrow> kfree_walk v (blocks_info ls);
     v1 \<leftarrow> vwrite v current block;
     c \<leftarrow> vread v1 current;
     vwrite v1 c 0
   }"

subsection \<open>Growing the heap\<close>

definition increase_heap_size ::
  "linker_symbols \<Rightarrow> (nat \<Rightarrow> int) \<Rightarrow> kernel_mm \<Rightarrow> u32 \<Rightarrow> (error_code_t \<times> kernel_mm) option" where
  "increase_heap_size ls junk st units = do {
     let num_pages = units div PAGE_SIZE + 1;
     (block, st1) \<leftarrow> alloc_kheap_pages ls junk st num_pages;
     if block = 0 then Some (FAILURE, st1)
     else do {
       v1 \<leftarrow> vwrite (vmem st1) (block + 4) (num_pages * PAGE_SIZE);
       s1 \<leftarrow> vread v1 (block + 4);
       v2 \<leftarrow> vwrite v1 (block + 4) ((s1 + 8 - 1) div 8);
       s2 \<leftarrow> vread v2 (block + 4);
       v3 \<leftarrow> vwrite v2 (block + 4) (s2 - 1);
       v4 \<leftarrow> kfree ls v3 (block + 8);
       Some (SUCCESS, st1\<lparr>vmem := v4\<rparr>)
     }
   }"

subsection \<open>Allocating\<close>

text \<open>A block that is large enough: split it from its end, or unlink it.\<close>

definition kmalloc_take :: "vm \<Rightarrow> u32 \<Rightarrow> u32 \<Rightarrow> u32 \<Rightarrow> (u32 \<times> vm) option" where
  "kmalloc_take v current block units = do {
     block_size \<leftarrow> vread v (block + 4);
     if block_size > units then do {
       let free_block = block + 8 * block_size - 8 * units - 8;
       v1 \<leftarrow> vwrite v (free_block + 4) units;
       v2 \<leftarrow> vwrite v1 free_block 0;
       c \<leftarrow> vread v2 current;
       s \<leftarrow> vread v2 (c + 4);
       v3 \<leftarrow> vwrite v2 (c + 4) (s - units);
       Some (free_block + 8, v3)
     } else do {
       next_free \<leftarrow> vread v block;
       v1 \<leftarrow> vwrite v current next_free;
       Some (block + 8, v1)
     }
   }"

partial_function (option) kmalloc_loop ::
  "linker_symbols \<Rightarrow> (nat \<Rightarrow> int) \<Rightarrow> u32 \<Rightarrow> u32 \<Rightarrow> kernel_mm \<Rightarrow> (u32 \<times> kernel_mm) option" where
  "kmalloc_loop ls junk units current st = do {
     c \<leftarrow> vread (vmem st) current;
     (error_code, st1) \<leftarrow> (if c = 0 then increase_heap_size ls junk st units else Some (SUCCESS, st));
     if error_code \<noteq> SUCCESS then Some (0, st1)
     else do {
       block \<leftarrow> vread (vmem st1) current;
       block_size \<leftarrow> vread (vmem st1) (block + 4);
       if block_size \<ge> units then do {
         (address, v) \<leftarrow> kmalloc_take (vmem st1) current block units;
         Some (address, st1\<lparr>vmem := v\<rparr>)
       } else kmalloc_loop ls junk units block st1
     }
   }"

definition kmalloc :: "linker_symbols \<Rightarrow> (nat \<Rightarrow> int) \<Rightarrow> kernel_mm \<Rightarrow> u32 \<Rightarrow> (u32 \<times> kernel_mm) option" where
  "kmalloc ls junk st size' =
     kmalloc_loop ls junk ((size' + 8 - 1) div 8) (blocks_info ls) st"

section \<open>The free list\<close>

text \<open>The free blocks with their sizes, in list order.\<close>

abbreviation free_list_at :: "linker_symbols \<Rightarrow> vm \<Rightarrow> (u32 \<times> u32) list \<Rightarrow> bool" where
  "free_list_at ls v \<equiv> linked (vread v) 0 4 (blocks_info ls)"

lemma kfree_walk_linked: "linked (vread v) 0 4 h bs \<Longrightarrow> kfree_walk v h = Some (link_cell 0 h bs)"
proof (induction bs arbitrary: h)
  case Nil
  then show ?case by (subst kfree_walk.simps) simp
next
  case (Cons b bs)
  then show ?case by (subst kfree_walk.simps) (simp add: linked_Cons link_cell_Cons)
qed

lemma kmalloc_loop_skip:
  assumes "linked (vread (vmem st)) 0 4 h (xs @ ys)" "\<forall>x\<in>set xs. snd x < units"
  shows "kmalloc_loop ls junk units h st = kmalloc_loop ls junk units (link_cell 0 h xs) st"
  using assms
proof (induction xs arbitrary: h)
  case (Cons x xs)
  then have "kmalloc_loop ls junk units h st = kmalloc_loop ls junk units (fst x) st"
    by (subst kmalloc_loop.simps) (simp add: linked_Cons not_le[symmetric])
  with Cons show ?case by (simp add: linked_Cons link_cell_Cons)
qed simp

lemma kmalloc_loop_found:
  assumes "linked (vread (vmem st)) 0 4 h (xs @ y # ys)" "\<forall>x\<in>set xs. snd x < units" "units \<le> snd y"
  shows "kmalloc_loop ls junk units h st =
    map_option (\<lambda>(a, v). (a, st\<lparr>vmem := v\<rparr>)) (kmalloc_take (vmem st) (link_cell 0 h xs) (fst y) units)"
  using linked_append[OF assms(1)] assms(3) unfolding kmalloc_loop_skip[OF assms(1,2)]
  by (subst kmalloc_loop.simps) (auto simp: linked_Cons not_le[symmetric] split: Option.bind_split)

text \<open>What the three operations on the list do, in any window that writes keep.\<close>

context kernel_words
begin

lemma kfree_linked:
  assumes "good W v" "free_list_at ls v bs" "vread v (a - 8 + 4) = Some n" "a \<noteq> 8"
    and "distinct (blocks_info ls # cells 0 4 (bs @ [(a - 8, n)]))"
    and "set (blocks_info ls # cells 0 4 (bs @ [(a - 8, n)])) \<subseteq> W"
  obtains v' where "kfree ls v a = Some v'" "good W v'" "free_list_at ls v' (bs @ [(a - 8, n)])"
    "\<And>b. b \<in> W \<Longrightarrow> b \<noteq> link_cell 0 (blocks_info ls) bs \<Longrightarrow> b \<noteq> a - 8 \<Longrightarrow> vread v' b = vread v b"
proof -
  have "a - 8 \<noteq> 0" using assms(4) by simp
  obtain v1 v2 where v:
    "vwrite v (link_cell 0 (blocks_info ls) bs) (a - 8) = Some v1"
    "vread v1 (link_cell 0 (blocks_info ls) bs) = Some (a - 8)" "vwrite v1 (a - 8 + 0) 0 = Some v2"
    "good W v2" "free_list_at ls v2 (bs @ [(a - 8, n)])"
    "\<And>b. b \<in> W \<Longrightarrow> b \<noteq> link_cell 0 (blocks_info ls) bs \<Longrightarrow> b \<noteq> a - 8 + 0 \<Longrightarrow> vread v2 b = vread v b"
    using append_node[OF assms(1,2,5,6) \<open>a - 8 \<noteq> 0\<close> assms(3)] by blast
  moreover have "kfree ls v a = Some v2" using v kfree_walk_linked[OF assms(2)] by (simp add: kfree_def)
  ultimately show thesis using that by simp
qed

text \<open>Splitting a block: the new block is the end of the old one.\<close>

lemma kmalloc_take_split:
  assumes "good W v" "linked (vread v) 0 4 h (xs @ y # ys)" "units < snd y"
    and "distinct (h # cells 0 4 (xs @ y # ys))" "set (h # cells 0 4 (xs @ y # ys)) \<subseteq> W"
  defines "f \<equiv> fst y + 8 * snd y - 8 * units - 8"
  assumes f: "f \<in> W" "f + 4 \<in> W" "f \<notin> set (h # cells 0 4 (xs @ y # ys))" "f + 4 \<notin> set (h # cells 0 4 (xs @ y # ys))"
  obtains v' where "kmalloc_take v (link_cell 0 h xs) (fst y) units = Some (f + 8, v')" "good W v'"
    "linked (vread v') 0 4 h (xs @ (fst y, snd y - units) # ys)" "vread v' f = Some 0" "vread v' (f + 4) = Some units"
    "\<And>b. b \<in> W \<Longrightarrow> b \<notin> {f, f + 4, fst y + 4} \<Longrightarrow> vread v' b = vread v b"
proof -
  let ?l = "link_cell 0 h xs" and ?C = "set (h # cells 0 4 (xs @ y # ys))"
  have ne: "f \<noteq> f + 4" by simp
  obtain v1 where v1: "vwrite v (f + 4) units = Some v1" "good W v1" "vread v1 (f + 4) = Some units"
    "\<And>b. b \<in> W \<Longrightarrow> b \<noteq> f + 4 \<Longrightarrow> vread v1 b = vread v b"
    using wr_word[OF assms(1) f(2), where x = units] by blast
  obtain v2 where v2: "vwrite v1 f 0 = Some v2" "good W v2" "vread v2 f = Some 0"
    "\<And>b. b \<in> W \<Longrightarrow> b \<noteq> f \<Longrightarrow> vread v2 b = vread v1 b"
    using wr_word[OF v1(2) f(1), where x = 0] by blast
  have same: "vread v2 b = vread v b" if "b \<in> W" "b \<noteq> f" "b \<noteq> f + 4" for b using that v1(4) v2(4) by simp
  have C: "vread v2 b = vread v b" if "b \<in> ?C" for b using that assms(5) f(3,4) by (intro same) blast+
  then have l2: "linked (vread v2) 0 4 h (xs @ y # ys)" using linked_cong[of h 0 4 "xs @ y # ys" "vread v2" "vread v"] assms(2) by blast
  from linked_append[OF l2] linked_append[OF assms(2)]
  have rd: "vread v2 ?l = Some (fst y)" "vread v2 (fst y + 4) = Some (snd y)" "vread v (fst y + 4) = Some (snd y)"
    by (simp_all add: linked_Cons)
  obtain v3 where v3: "vwrite v2 (fst y + 4) (snd y - units) = Some v3" "good W v3"
    "linked (vread v3) 0 4 h (xs @ (fst y, snd y - units) # ys)"
    "\<And>b. b \<in> W \<Longrightarrow> b \<noteq> fst y + 4 \<Longrightarrow> vread v3 b = vread v2 b"
    using set_value[OF v2(2) l2 assms(4,5), where y = "snd y - units"] by blast
  have "kmalloc_take v ?l (fst y) units = Some (f + 8, v3)"
    using v1(1) v2(1) v3(1) rd assms(3) by (simp add: kmalloc_take_def f_def Let_def)
  moreover have "f \<noteq> fst y + 4" "f + 4 \<noteq> fst y + 4" using f(3,4) by auto
  then have "vread v3 f = Some 0" "vread v3 (f + 4) = Some units"
    using v3(4) v2(3,4) v1(3) f(1,2) ne by simp_all
  moreover have "vread v3 b = vread v b" if "b \<in> W" "b \<notin> {f, f + 4, fst y + 4}" for b using that v3(4) same by simp
  ultimately show thesis using that v3(2,3) by blast
qed

text \<open>An exact fit: the block leaves the list.\<close>

lemma kmalloc_take_exact:
  assumes "good W v" "linked (vread v) 0 4 h (xs @ y # ys)" "units = snd y"
    and "distinct (h # cells 0 4 (xs @ y # ys))" "set (h # cells 0 4 (xs @ y # ys)) \<subseteq> W"
  obtains v' where "kmalloc_take v (link_cell 0 h xs) (fst y) units = Some (fst y + 8, v')" "good W v'"
    "linked (vread v') 0 4 h (xs @ ys)" "\<And>b. b \<in> W \<Longrightarrow> b \<noteq> link_cell 0 h xs \<Longrightarrow> vread v' b = vread v b"
proof -
  from linked_append[OF assms(2)] obtain q where q: "vread v (fst y + 0) = Some q" "vread v (fst y + 4) = Some (snd y)"
    by (auto simp: linked_def)
  obtain v' where "vwrite v (link_cell 0 h xs) q = Some v'" "good W v'" "linked (vread v') 0 4 h (xs @ ys)"
    "\<And>b. b \<in> W \<Longrightarrow> b \<noteq> link_cell 0 h xs \<Longrightarrow> vread v' b = vread v b"
    using unlink_node[OF assms(1,2,4,5) q(1)] by blast
  moreover from this have "kmalloc_take v (link_cell 0 h xs) (fst y) units = Some (fst y + 8, v')"
    using q assms(3) by (simp add: kmalloc_take_def)
  ultimately show thesis using that by blast
qed

text \<open>A block of one unit more than asked for: the new header is the header of the block itself,
  whose link is cleared and whose size becomes 0. The block stays on the list, what follows it is
  lost.\<close>

lemma kmalloc_take_whole:
  assumes "good W v" "linked (vread v) 0 4 h (xs @ y # ys)" "snd y = units + 1" "units < snd y"
    and "distinct (h # cells 0 4 (xs @ y # ys))" "set (h # cells 0 4 (xs @ y # ys)) \<subseteq> W"
  obtains v' where "kmalloc_take v (link_cell 0 h xs) (fst y) units = Some (fst y + 8, v')" "good W v'"
    "linked (vread v') 0 4 h (xs @ [(fst y, 0)])" "\<And>b. b \<in> W \<Longrightarrow> b \<notin> {fst y, fst y + 4} \<Longrightarrow> vread v' b = vread v b"
proof -
  let ?b = "fst y" and ?l = "link_cell 0 h xs"
  define g where "g = ?b + 8 * snd y - 8 * units - 8"
  have g: "g = ?b" by (simp add: g_def assms(3) algebra_simps)
  have l: "?l \<in> set (h # cells 0 4 xs)" by (rule link_cell_in)
  have w: "?b \<in> W" "?b + 4 \<in> W" "?l \<in> W" "?l \<notin> {?b, ?b + 4}" "set (h # cells 0 4 xs) \<subseteq> W" "set (h # cells 0 4 xs) \<inter> {?b, ?b + 4} = {}"
    using assms(5,6) l by auto
  from linked_append[OF assms(2)] have rd: "vread v ?l = Some ?b" "vread v (?b + 4) = Some (snd y)" "?b \<noteq> 0" by (simp_all add: linked_Cons)
  obtain v1 where v1: "vwrite v (?b + 4) units = Some v1" "good W v1" "vread v1 (?b + 4) = Some units"
    "\<And>b. b \<in> W \<Longrightarrow> b \<noteq> ?b + 4 \<Longrightarrow> vread v1 b = vread v b" using wr_word[OF assms(1) w(2), where x = units] by blast
  obtain v2 where v2: "vwrite v1 ?b 0 = Some v2" "good W v2" "vread v2 ?b = Some 0"
    "\<And>b. b \<in> W \<Longrightarrow> b \<noteq> ?b \<Longrightarrow> vread v2 b = vread v1 b" using wr_word[OF v1(2) w(1), where x = 0] by blast
  have r2: "vread v2 ?l = Some ?b" "vread v2 (?b + 4) = Some units" using v1(3,4) v2(4) w rd(1) by simp_all
  obtain v3 where v3: "vwrite v2 (?b + 4) 0 = Some v3" "good W v3" "vread v3 (?b + 4) = Some 0"
    "\<And>b. b \<in> W \<Longrightarrow> b \<noteq> ?b + 4 \<Longrightarrow> vread v3 b = vread v2 b" using wr_word[OF v2(2) w(2), where x = 0] by blast
  have same: "vread v3 b = vread v b" if "b \<in> W" "b \<notin> {?b, ?b + 4}" for b using that v1(4) v2(4) v3(4) by simp
  have "vwrite v (g + 4) units = Some v1" "vwrite v1 g 0 = Some v2" using v1(1) v2(1) by (simp_all add: g)
  then have "kmalloc_take v ?l ?b units = Some (g + 8, v3)"
    using rd(2) assms(3,4) v3(1) r2 by (simp add: kmalloc_take_def Let_def g_def)
  then have "kmalloc_take v ?l ?b units = Some (?b + 8, v3)" by (simp only: g)
  moreover have "linked (vread v3) 0 4 ?l [(?b, 0)]"
    using same[OF w(3,4)] rd(1,3) v3(3) v3(4)[OF w(1)] v2(3) by (simp add: linked_Cons)
  moreover have "vread v3 a = vread v a" if "a \<in> set (h # cells 0 4 xs)" for a using that w(5,6) by (intro same) blast+
  moreover have "distinct (h # cells 0 4 xs)" using assms(5) by simp
  ultimately show thesis using that linked_splice[OF assms(2)] v3(2) same by blast
qed

end

section \<open>Growing the heap\<close>

lemma heap_words_fresh:
  assumes "heap_sound ls st W" "first_run (kheap_st st) n k" "k + n \<le> 1024" "a \<in> heap_words k n"
  shows "a \<notin> W"
proof
  assume "a \<in> W"
  obtain j i where ji: "j < n" "i < 1024" "a = kheap_page (k + j) + 4 * of_nat i" using assms(4) by (auto simp: heap_words_def)
  have kj: "k + j < 1024" using ji(1) assms(3) by simp
  note o = kheap_page_offset[OF kj word_offset[OF ji(2), THEN conjunct1]]
  have "\<not> bitmap_test (kheap_st st) (k + j)"
    using heap_soundD(5)[OF assms(1) \<open>a \<in> W\<close>] o by (simp add: word_sound_def ji(3))
  then show False using first_runD(5)[OF assms(2) ji(1)] by simp
qed

lemma heap_words_first: "0 < n \<Longrightarrow> i < 1024 \<Longrightarrow> kheap_page k + 4 * of_nat i \<in> heap_words k n"
  by (force simp: heap_words_def)

lemma heap_words_header: "0 < n \<Longrightarrow> kheap_page k \<in> heap_words k n" "0 < n \<Longrightarrow> kheap_page k + 4 \<in> heap_words k n"
  using heap_words_first[of n 0 k] heap_words_first[of n 1 k] by simp_all

lemma kheap_page_nonzero: "k < 2 ^ 16 \<Longrightarrow> kheap_page k \<noteq> 0"
  using unat_kheap_page[of k] by auto

text \<open>The size in units of a fresh block of \<open>n\<close> pages, as the code computes it.\<close>

lemma block_units: "n \<le> 1024 \<Longrightarrow> (of_nat n * PAGE_SIZE + 8 - 1) div 8 - 1 = (of_nat (512 * n) - 1 :: u32)"
proof -
  assume n: "n \<le> 1024"
  have "unat (of_nat n * PAGE_SIZE + 8 - 1 :: u32) = 4096 * n + 7"
    using n by (simp add: PAGE_SIZE_def unat_word_ariths unat_of_nat)
  then have "unat ((of_nat n * PAGE_SIZE + 8 - 1) div 8 :: u32) = 512 * n" by (simp add: unat_div)
  then have "(of_nat n * PAGE_SIZE + 8 - 1) div 8 = (of_nat (512 * n) :: u32)"
    using n by (simp only: word_unat_eq_iff unat_of_nat) simp
  then show ?thesis by (simp only:)
qed

lemma num_pages_value: "units div PAGE_SIZE + 1 = of_nat (unat units div 4096 + 1)"
proof -
  have "units div PAGE_SIZE = of_nat (unat units div 4096)"
    using page_of_less[of units] by (simp add: PAGE_SIZE_def word_unat_eq_iff unat_div unat_of_nat page_of_def)
  then show ?thesis by simp
qed

lemma increase_heap_size_sound:
  assumes snd: "heap_sound ls st W" and fl: "free_list_at ls (vmem st) bs"
    and cells: "distinct (blocks_info ls # cells 0 4 bs)" "set (blocks_info ls # cells 0 4 bs) \<subseteq> W"
    and n: "n = unat units div 4096 + 1" and run: "first_run (kheap_st st) n k" "k + n \<le> 1024"
    and frames: "0 \<notin> set (fst (allocate_frames ls (frames st) n))"
  obtains st' where "increase_heap_size ls junk st units = Some (SUCCESS, st')"
    "heap_sound ls st' (W \<union> heap_words k n)"
    "free_list_at ls (vmem st') (bs @ [(kheap_page k, of_nat (512 * n) - 1)])"
    "\<And>a. a \<in> W \<Longrightarrow> a \<noteq> link_cell 0 (blocks_info ls) bs \<Longrightarrow> vread (vmem st') a = vread (vmem st) a"
    "frames st' = snd (allocate_frames ls (frames st) n)" "kheap_st st' = turn_bits_off (kheap_st st) (k div 8) (k mod 8) n"
proof -
  let ?W = "W \<union> heap_words k n" and ?b = "kheap_page k" and ?l = "link_cell 0 (blocks_info ls) bs"
  have n0: "0 < n" "k < 2 ^ 16" using n run by (simp_all add: first_run_def)
  obtain st1 where st1: "alloc_kheap_pages ls junk st (of_nat n) = Some (?b, st1)" "heap_sound ls st1 ?W"
    "\<And>a. a \<in> W \<Longrightarrow> vread (vmem st1) a = vread (vmem st) a"
    "frames st1 = snd (allocate_frames ls (frames st) n)" "kheap_st st1 = turn_bits_off (kheap_st st) (k div 8) (k mod 8) n"
    using alloc_kheap_pages_first_run[OF heap_soundD(1)[OF snd] run, of junk] heap_sound_extend[OF snd run frames]
      old_walk(4)[OF snd run] by simp
  have w: "?b + 4 \<in> ?W" "?b \<in> ?W" "?b + 4 \<notin> W" "?b \<notin> W"
    using heap_words_header[OF n0(1), of k] heap_words_fresh[OF snd run] by auto
  have s1: "heap_sound ls (st1\<lparr>vmem := vmem st1\<rparr>) ?W" using st1(2) by simp
  obtain v1 where v1: "vwrite (vmem st1) (?b + 4) (of_nat n * PAGE_SIZE) = Some v1" "heap_sound ls (st1\<lparr>vmem := v1\<rparr>) ?W"
    "vread v1 (?b + 4) = Some (of_nat n * PAGE_SIZE)" "\<And>a. a \<in> ?W \<Longrightarrow> a \<noteq> ?b + 4 \<Longrightarrow> vread v1 a = vread (vmem st1) a"
    using heap.wr_word[OF s1 w(1)] by blast
  obtain v2 where v2: "vwrite v1 (?b + 4) ((of_nat n * PAGE_SIZE + 8 - 1) div 8) = Some v2" "heap_sound ls (st1\<lparr>vmem := v2\<rparr>) ?W"
    "vread v2 (?b + 4) = Some ((of_nat n * PAGE_SIZE + 8 - 1) div 8)" "\<And>a. a \<in> ?W \<Longrightarrow> a \<noteq> ?b + 4 \<Longrightarrow> vread v2 a = vread v1 a"
    using heap.wr_word[OF v1(2) w(1)] by blast
  obtain v3 where v3: "vwrite v2 (?b + 4) (of_nat (512 * n) - 1) = Some v3" "heap_sound ls (st1\<lparr>vmem := v3\<rparr>) ?W"
    "vread v3 (?b + 4) = Some (of_nat (512 * n) - 1)" "\<And>a. a \<in> ?W \<Longrightarrow> a \<noteq> ?b + 4 \<Longrightarrow> vread v3 a = vread v2 a"
    using heap.wr_word[OF v2(2) w(1)] by blast
  have same: "vread v3 a = vread (vmem st) a" if "a \<in> W" for a
    using that w(3) v1(4)[of a] v2(4)[of a] v3(4)[of a] st1(3)[OF that] by auto
  then have fl3: "free_list_at ls v3 bs"
    using fl cells(2) linked_cong[of "blocks_info ls" 0 4 bs "vread v3" "vread (vmem st)"] by blast
  have hdr: "?b + 8 - 8 = ?b" "?b + 8 \<noteq> 8" using kheap_page_nonzero[OF n0(2)] by simp_all
  have c: "distinct (blocks_info ls # cells 0 4 (bs @ [(?b + 8 - 8, of_nat (512 * n) - 1)]))"
    "set (blocks_info ls # cells 0 4 (bs @ [(?b + 8 - 8, of_nat (512 * n) - 1)])) \<subseteq> ?W"
    "vread v3 (?b + 8 - 8 + 4) = Some (of_nat (512 * n) - 1)" unfolding hdr(1) using cells w v3(3) by auto
  obtain v4 where v4: "kfree ls v3 (?b + 8) = Some v4" "heap_sound ls (st1\<lparr>vmem := v4\<rparr>) ?W"
    "free_list_at ls v4 (bs @ [(?b + 8 - 8, of_nat (512 * n) - 1)])"
    "\<And>a. a \<in> ?W \<Longrightarrow> a \<noteq> ?l \<Longrightarrow> a \<noteq> ?b + 8 - 8 \<Longrightarrow> vread v4 a = vread v3 a"
    using heap.kfree_linked[OF v3(2) fl3 c(3) hdr(2) c(1,2)] by blast
  have nk: "n \<le> 1024" and num_pages: "units div PAGE_SIZE + 1 = of_nat n"
    using run(2) num_pages_value[of units] n by simp_all
  have "increase_heap_size ls junk st units = Some (SUCCESS, st1\<lparr>vmem := v4\<rparr>)"
    using st1(1) v1(1,3) v2(1,3) v3(1) v4(1) kheap_page_nonzero[OF n0(2)] block_units[OF nk]
    by (simp add: increase_heap_size_def num_pages Let_def del: of_nat_mult)
  moreover have "vread v4 a = vread (vmem st) a" if "a \<in> W" "a \<noteq> ?l" for a
    using that w(4) v4(4)[of a] same by (auto simp: hdr(1))
  ultimately show thesis using that[of "st1\<lparr>vmem := v4\<rparr>"] v4(2,3) st1(4,5) by (simp add: hdr(1))
qed

text \<open>The search meets the end of the list: the heap grows, and the search goes on with the new
  block.\<close>

lemma kmalloc_loop_grows:
  assumes snd: "heap_sound ls st W" and fl: "free_list_at ls (vmem st) bs"
    and cells: "distinct (blocks_info ls # cells 0 4 bs)" "set (blocks_info ls # cells 0 4 bs) \<subseteq> W"
    and n: "n = unat units div 4096 + 1" and run: "first_run (kheap_st st) n k" "k + n \<le> 1024"
    and frames: "0 \<notin> set (fst (allocate_frames ls (frames st) n))" and small: "\<forall>x\<in>set bs. snd x < units"
  obtains st1 where "heap_sound ls st1 (W \<union> heap_words k n)"
    "free_list_at ls (vmem st1) (bs @ [(kheap_page k, of_nat (512 * n) - 1)])"
    "kmalloc_loop ls junk units (blocks_info ls) st =
       (if units \<le> of_nat (512 * n) - 1
        then map_option (\<lambda>(a, v). (a, st1\<lparr>vmem := v\<rparr>))
               (kmalloc_take (vmem st1) (link_cell 0 (blocks_info ls) bs) (kheap_page k) units)
        else kmalloc_loop ls junk units (kheap_page k) st1)"
    "\<And>a. a \<in> W \<Longrightarrow> a \<noteq> link_cell 0 (blocks_info ls) bs \<Longrightarrow> vread (vmem st1) a = vread (vmem st) a"
    "frames st1 = snd (allocate_frames ls (frames st) n)" "kheap_st st1 = turn_bits_off (kheap_st st) (k div 8) (k mod 8) n"
proof -
  let ?l = "link_cell 0 (blocks_info ls) bs"
  obtain st1 where st1: "increase_heap_size ls junk st units = Some (SUCCESS, st1)" "heap_sound ls st1 (W \<union> heap_words k n)"
    "free_list_at ls (vmem st1) (bs @ [(kheap_page k, of_nat (512 * n) - 1)])"
    "\<And>a. a \<in> W \<Longrightarrow> a \<noteq> ?l \<Longrightarrow> vread (vmem st1) a = vread (vmem st) a"
    "frames st1 = snd (allocate_frames ls (frames st) n)" "kheap_st st1 = turn_bits_off (kheap_st st) (k div 8) (k mod 8) n"
    using increase_heap_size_sound[OF snd fl cells n run frames] by blast
  have nil: "linked (vread (vmem st)) 0 4 (blocks_info ls) (bs @ [])" using fl by simp
  from linked_append[OF nil] have "vread (vmem st) ?l = Some 0" by simp
  moreover from linked_append[OF st1(3)] have "vread (vmem st1) ?l = Some (kheap_page k)"
    "vread (vmem st1) (kheap_page k + 4) = Some (of_nat (512 * n) - 1)" by (simp_all add: linked_Cons)
  ultimately have "kmalloc_loop ls junk units (blocks_info ls) st =
       (if units \<le> of_nat (512 * n) - 1
        then map_option (\<lambda>(a, v). (a, st1\<lparr>vmem := v\<rparr>)) (kmalloc_take (vmem st1) ?l (kheap_page k) units)
        else kmalloc_loop ls junk units (kheap_page k) st1)"
    unfolding kmalloc_loop_skip[OF nil small] using st1(1)
    by (subst kmalloc_loop.simps) (auto split: Option.bind_split)
  with st1 that show thesis by blast
qed

section \<open>Properties\<close>

lemma kmalloc_exact:
  assumes sound: "heap_sound ls st W" and fl: "free_list_at ls (vmem st) (xs @ (b, n) # ys)"
    and cells: "distinct (blocks_info ls # cells 0 4 (xs @ (b, n) # ys))" "set (blocks_info ls # cells 0 4 (xs @ (b, n) # ys)) \<subseteq> W"
    and fit: "\<forall>x\<in>set xs. snd x < n" "(req + 8 - 1) div 8 = n"
  obtains v' where "kmalloc ls junk st req = Some (b + 8, st\<lparr>vmem := v'\<rparr>)" "heap_sound ls (st\<lparr>vmem := v'\<rparr>) W"
    "free_list_at ls v' (xs @ ys)" "\<And>w. w \<in> W \<Longrightarrow> w \<noteq> link_cell 0 (blocks_info ls) xs \<Longrightarrow> vread v' w = vread (vmem st) w"
proof -
  let ?l = "link_cell 0 (blocks_info ls) xs"
  have s: "heap_sound ls (st\<lparr>vmem := vmem st\<rparr>) W" and n: "n = snd (b, n)" using sound by simp_all
  have k: "kmalloc ls junk st req = map_option (\<lambda>(a, v). (a, st\<lparr>vmem := v\<rparr>)) (kmalloc_take (vmem st) ?l b n)"
    using kmalloc_loop_found[OF fl fit(1)] unfolding kmalloc_def fit(2) by simp
  obtain v' where "kmalloc_take (vmem st) ?l (fst (b, n)) n = Some (fst (b, n) + 8, v')"
    "heap_sound ls (st\<lparr>vmem := v'\<rparr>) W" "free_list_at ls v' (xs @ ys)" "\<And>w. w \<in> W \<Longrightarrow> w \<noteq> ?l \<Longrightarrow> vread v' w = vread (vmem st) w"
    using heap.kmalloc_take_exact[OF s fl n cells] by blast
  then show thesis using k that by simp
qed

lemma kmalloc_splits:
  assumes sound: "heap_sound ls st W" and fl: "free_list_at ls (vmem st) (xs @ (b, n) # ys)"
    and cells: "distinct (blocks_info ls # cells 0 4 (xs @ (b, n) # ys))" "set (blocks_info ls # cells 0 4 (xs @ (b, n) # ys)) \<subseteq> W"
    and fit: "\<forall>x\<in>set xs. snd x < units" "(req + 8 - 1) div 8 = units" "units < n"
    and header: "{b + 8 * (n - units) - 8, b + 8 * (n - units) - 4} \<subseteq> W - set (blocks_info ls # cells 0 4 (xs @ (b, n) # ys))"
  defines "a \<equiv> b + 8 * (n - units)"
  obtains v' where "kmalloc ls junk st req = Some (a, st\<lparr>vmem := v'\<rparr>)" "heap_sound ls (st\<lparr>vmem := v'\<rparr>) W"
    "free_list_at ls v' (xs @ (b, n - units) # ys)" "vread v' (a - 8) = Some 0" "vread v' (a - 4) = Some units"
    "\<And>w. w \<in> W \<Longrightarrow> w \<notin> {a - 8, a - 4, b + 4} \<Longrightarrow> vread v' w = vread (vmem st) w"
proof -
  let ?l = "link_cell 0 (blocks_info ls) xs" and ?f = "b + 8 * n - 8 * units - 8"
  have s: "heap_sound ls (st\<lparr>vmem := vmem st\<rparr>) W" and less: "units < snd (b, n)" using sound fit(3) by simp_all
  have k: "kmalloc ls junk st req = map_option (\<lambda>(a, v). (a, st\<lparr>vmem := v\<rparr>)) (kmalloc_take (vmem st) ?l b units)"
    using kmalloc_loop_found[OF fl fit(1)] less_imp_le[OF fit(3)] unfolding kmalloc_def fit(2) by simp
  have f: "?f = a - 8" "a - 8 + 4 = a - 4" "a - 8 + 8 = a" by (simp_all add: a_def algebra_simps)
  have h: "a - 8 \<in> W" "a - 8 + 4 \<in> W" "a - 8 \<notin> set (blocks_info ls # cells 0 4 (xs @ (b, n) # ys))"
    "a - 8 + 4 \<notin> set (blocks_info ls # cells 0 4 (xs @ (b, n) # ys))" using header unfolding f a_def[symmetric] by auto
  from heap.kmalloc_take_split[OF s fl less cells, unfolded fst_conv snd_conv f(1), OF h]
  obtain v' where v': "kmalloc_take (vmem st) ?l b units = Some (a, v')" "heap_sound ls (st\<lparr>vmem := v'\<rparr>) W"
    "free_list_at ls v' (xs @ (b, n - units) # ys)" "vread v' (a - 8) = Some 0" "vread v' (a - 4) = Some units"
    "\<And>w. w \<in> W \<Longrightarrow> w \<notin> {a - 8, a - 4, b + 4} \<Longrightarrow> vread v' w = vread (vmem st) w" unfolding f(2,3) by blast
  then show thesis using k that by simp
qed

lemma kmalloc_whole:
  assumes sound: "heap_sound ls st W" and fl: "free_list_at ls (vmem st) (xs @ (b, n) # ys)"
    and cells: "distinct (blocks_info ls # cells 0 4 (xs @ (b, n) # ys))" "set (blocks_info ls # cells 0 4 (xs @ (b, n) # ys)) \<subseteq> W"
    and fit: "\<forall>x\<in>set xs. snd x < units" "(req + 8 - 1) div 8 = units" "n = units + 1" "units < n"
  obtains v' where "kmalloc ls junk st req = Some (b + 8, st\<lparr>vmem := v'\<rparr>)" "heap_sound ls (st\<lparr>vmem := v'\<rparr>) W"
    "free_list_at ls v' (xs @ [(b, 0)])" "\<And>w. w \<in> W \<Longrightarrow> w \<notin> {b, b + 4} \<Longrightarrow> vread v' w = vread (vmem st) w"
proof -
  let ?l = "link_cell 0 (blocks_info ls) xs"
  have s: "heap_sound ls (st\<lparr>vmem := vmem st\<rparr>) W" and n: "snd (b, n) = units + 1" "units < snd (b, n)" using sound fit by simp_all
  have k: "kmalloc ls junk st req = map_option (\<lambda>(a, v). (a, st\<lparr>vmem := v\<rparr>)) (kmalloc_take (vmem st) ?l b units)"
    using kmalloc_loop_found[OF fl fit(1)] less_imp_le[OF fit(4)] unfolding kmalloc_def fit(2) by simp
  from heap.kmalloc_take_whole[OF s fl n cells]
  obtain v' where "kmalloc_take (vmem st) ?l b units = Some (b + 8, v')" "heap_sound ls (st\<lparr>vmem := v'\<rparr>) W"
    "free_list_at ls v' (xs @ [(b, 0)])" "\<And>w. w \<in> W \<Longrightarrow> w \<notin> {b, b + 4} \<Longrightarrow> vread v' w = vread (vmem st) w" unfolding fst_conv by blast
  then show thesis using k that by simp
qed

text \<open>C10: \<open>kmalloc\<close> takes the first block of the free list that is large enough. A block of
  exactly the size leaves the list. A block that is larger by two units or more is split: the
  caller gets its last units behind a fresh header and the block stays on the list with what is
  left. A block of one unit more leaves no room for the new header, which is then the header of
  the block itself: the caller gets the whole block, which stays on the list with size 0, and
  every block behind it is lost. No other word that the kernel keeps in memory changes.\<close>

theorem kmalloc_first_fit:
  fixes req :: u32
  defines "units \<equiv> (req + 8 - 1) div 8"
  assumes sound: "heap_sound ls st W" and fl: "free_list_at ls (vmem st) (xs @ (b, n) # ys)"
    and cells: "distinct (blocks_info ls # cells 0 4 (xs @ (b, n) # ys))" "set (blocks_info ls # cells 0 4 (xs @ (b, n) # ys)) \<subseteq> W"
    and fit: "\<forall>x\<in>set xs. snd x < units" "units \<le> n"
    and header: "units + 1 < n \<Longrightarrow> {b + 8 * (n - units) - 8, b + 8 * (n - units) - 4} \<subseteq> W - set (blocks_info ls # cells 0 4 (xs @ (b, n) # ys))"
  shows "\<exists>a v'. kmalloc ls junk st req = Some (a, st\<lparr>vmem := v'\<rparr>) \<and> heap_sound ls (st\<lparr>vmem := v'\<rparr>) W
    \<and> (if n = units then a = b + 8 \<and> free_list_at ls v' (xs @ ys)
       else if n = units + 1 then a = b + 8 \<and> free_list_at ls v' (xs @ [(b, 0)])
       else a = b + 8 * (n - units) \<and> free_list_at ls v' (xs @ (b, n - units) # ys)
          \<and> vread v' (a - 8) = Some 0 \<and> vread v' (a - 4) = Some units)
    \<and> (\<forall>w\<in>W. w \<notin> {link_cell 0 (blocks_info ls) xs, b + 4, a - 8, a - 4} \<longrightarrow> vread v' w = vread (vmem st) w)"
proof -
  have u: "unat units < 2 ^ 29"
  proof -
    have "unat units = unat (req + 8 - 1) div 8" by (simp add: units_def unat_div)
    then show ?thesis using unsigned_less[of "req + 8 - 1", where ?'a = nat] by (simp add: less_mult_imp_div_less)
  qed
  have u1: "unat (units + 1) = unat units + 1" using u by (simp add: unat_word_ariths)
  consider (exact) "n = units" | (whole) "n \<noteq> units" "n = units + 1" | (split) "n \<noteq> units" "n \<noteq> units + 1" by blast
  then show ?thesis
  proof cases
    case exact
    then obtain v' where "kmalloc ls junk st req = Some (b + 8, st\<lparr>vmem := v'\<rparr>)" "heap_sound ls (st\<lparr>vmem := v'\<rparr>) W"
      "free_list_at ls v' (xs @ ys)" "\<And>w. w \<in> W \<Longrightarrow> w \<noteq> link_cell 0 (blocks_info ls) xs \<Longrightarrow> vread v' w = vread (vmem st) w"
      using kmalloc_exact[OF sound fl cells, of req junk] fit(1) by (auto simp: units_def)
    then show ?thesis using exact by auto
  next
    case whole
    have less: "units < n" using u1 by (simp add: whole(2) word_less_nat_alt)
    obtain v' where v': "kmalloc ls junk st req = Some (b + 8, st\<lparr>vmem := v'\<rparr>)" "heap_sound ls (st\<lparr>vmem := v'\<rparr>) W"
      "free_list_at ls v' (xs @ [(b, 0)])" "\<And>w. w \<in> W \<Longrightarrow> w \<notin> {b, b + 4} \<Longrightarrow> vread v' w = vread (vmem st) w"
      using kmalloc_whole[OF sound fl cells fit(1) _ whole(2) less, of req junk] unfolding units_def by blast
    then show ?thesis using whole v' by (intro exI[of _ "b + 8"] exI[of _ v'] conjI) simp_all
  next
    case split
    define a where "a = b + 8 * (n - units)"
    have less: "units < n" "units + 1 < n" using split fit(2) u1 by (auto simp: word_less_nat_alt word_le_nat_alt word_unat_eq_iff)
    obtain v' where "kmalloc ls junk st req = Some (a, st\<lparr>vmem := v'\<rparr>)" "heap_sound ls (st\<lparr>vmem := v'\<rparr>) W"
      "free_list_at ls v' (xs @ (b, n - units) # ys)" "vread v' (a - 8) = Some 0" "vread v' (a - 4) = Some units"
      "\<And>w. w \<in> W \<Longrightarrow> w \<notin> {a - 8, a - 4, b + 4} \<Longrightarrow> vread v' w = vread (vmem st) w"
      using kmalloc_splits[OF sound fl cells fit(1) _ less(1) header[OF less(2)], of req] unfolding a_def units_def by blast
    then show ?thesis using split unfolding a_def[symmetric] by (intro exI[of _ a] exI[of _ v']) auto
  qed
qed

text \<open>\<open>kfree\<close> puts the block behind the last one of the free list, with the size its
  header has, and changes no other word of the kernel.\<close>

theorem kfree_appends:
  assumes "heap_sound ls st W" "free_list_at ls (vmem st) bs" "vread (vmem st) (a - 4) = Some n" "a \<noteq> 8"
    and "distinct (blocks_info ls # cells 0 4 (bs @ [(a - 8, n)]))" "set (blocks_info ls # cells 0 4 (bs @ [(a - 8, n)])) \<subseteq> W"
  shows "\<exists>v'. kfree ls (vmem st) a = Some v' \<and> heap_sound ls (st\<lparr>vmem := v'\<rparr>) W
    \<and> free_list_at ls v' (bs @ [(a - 8, n)])
    \<and> (\<forall>w\<in>W. w \<noteq> link_cell 0 (blocks_info ls) bs \<and> w \<noteq> a - 8 \<longrightarrow> vread v' w = vread (vmem st) w)"
proof -
  have s: "heap_sound ls (st\<lparr>vmem := vmem st\<rparr>) W" using assms(1) by simp
  have "a - 8 + 4 = a - 4" by simp
  then have r: "vread (vmem st) (a - 8 + 4) = Some n" using assms(3) by (simp only:)
  obtain v' where "kfree ls (vmem st) a = Some v'" "heap_sound ls (st\<lparr>vmem := v'\<rparr>) W" "free_list_at ls v' (bs @ [(a - 8, n)])"
    "\<And>w. w \<in> W \<Longrightarrow> w \<noteq> link_cell 0 (blocks_info ls) bs \<Longrightarrow> w \<noteq> a - 8 \<Longrightarrow> vread v' w = vread (vmem st) w"
    using heap.kfree_linked[OF s assms(2) r assms(4-6)] by blast
  then show ?thesis by auto
qed

text \<open>C15: no block of the free list is large enough for a request of at most 511 units, a frame
  is left, and the lowest free heap page is not the last one of its bitmap byte. Then that page
  is mapped and becomes a block of 511 units behind the list, from which the request is served:
  up to 509 units get its end, 511 units get all of it, and 510 units get all of it while the
  block stays on the list with size 0. Every word the kernel used keeps its contents, up to the
  one link that now leads to the new block.\<close>

theorem kmalloc_new_page:
  fixes req :: u32
  defines "units \<equiv> (req + 8 - 1) div 8"
  assumes sound: "heap_sound ls st W" and fl: "free_list_at ls (vmem st) bs" and small: "\<forall>x\<in>set bs. snd x < units"
    and cells: "distinct (blocks_info ls # cells 0 4 bs)" "set (blocks_info ls # cells 0 4 bs) \<subseteq> W"
    and units: "units \<le> 511" and run: "first_run (kheap_st st) 1 k" "k < 1024"
    and frames: "fst (allocate_physical_page ls (frames st)) \<noteq> 0"
  shows "\<exists>a st'. kmalloc ls junk st req = Some (a, st') \<and> heap_sound ls st' (W \<union> heap_words k 1)
    \<and> (if units = 511 then a = kheap_page k + 8 \<and> free_list_at ls (vmem st') bs
       else if units = 510 then a = kheap_page k + 8 \<and> free_list_at ls (vmem st') (bs @ [(kheap_page k, 0)])
       else a = kheap_page k + 8 * (511 - units) \<and> free_list_at ls (vmem st') (bs @ [(kheap_page k, 511 - units)]))
    \<and> (\<forall>w\<in>W. w \<noteq> link_cell 0 (blocks_info ls) bs \<longrightarrow> vread (vmem st') w = vread (vmem st) w)"
proof -
  let ?l = "link_cell 0 (blocks_info ls) bs" and ?b = "kheap_page k" and ?W = "W \<union> heap_words k 1"
  have u: "unat units \<le> 511" using units by (simp add: word_le_nat_alt)
  then have n: "(1::nat) = unat units div 4096 + 1" and run1: "k + 1 \<le> 1024" using run(2) by simp_all
  have fr: "0 \<notin> set (fst (allocate_frames ls (frames st) 1))" using frames by (simp add: case_prod_beta)
  obtain st1 where st1: "heap_sound ls st1 ?W" "free_list_at ls (vmem st1) (bs @ [(?b, of_nat (512 * 1) - 1)])"
    "kmalloc_loop ls junk units (blocks_info ls) st = (if units \<le> of_nat (512 * 1) - 1
      then map_option (\<lambda>(a, v). (a, st1\<lparr>vmem := v\<rparr>)) (kmalloc_take (vmem st1) ?l ?b units)
      else kmalloc_loop ls junk units ?b st1)"
    "\<And>a. a \<in> W \<Longrightarrow> a \<noteq> ?l \<Longrightarrow> vread (vmem st1) a = vread (vmem st) a"
    using kmalloc_loop_grows[OF sound fl cells n run(1) run1 fr small] by blast
  have fresh: "a \<notin> W" if "a \<in> heap_words k 1" for a using heap_words_fresh[OF sound run(1) run1 that] .
  have words: "slot ?b j \<in> heap_words k 1" if "j < 1024" for j using heap_words_first[of 1 j k] that by (simp add: slot_def)
  have fl1: "free_list_at ls (vmem st1) (bs @ (?b, 511) # [])" using st1(2) by simp
  have C: "distinct (blocks_info ls # cells 0 4 (bs @ (?b, 511) # []))" "set (blocks_info ls # cells 0 4 (bs @ (?b, 511) # [])) \<subseteq> ?W"
    using cells fresh[OF words[of 0]] fresh[OF words[of 1]] words[of 0] words[of 1] by (auto simp: slot_def)
  have s1: "heap_sound ls (st1\<lparr>vmem := vmem st1\<rparr>) ?W" using st1(1) by simp
  have run: "kmalloc ls junk st req = map_option (\<lambda>(a, v). (a, st1\<lparr>vmem := v\<rparr>)) (kmalloc_take (vmem st1) ?l ?b units)"
    using st1(3) units unfolding kmalloc_def units_def[symmetric] by simp
  have old: "vread v' w = vread (vmem st) w" if "\<And>w. w \<in> ?W \<Longrightarrow> w \<noteq> ?l \<Longrightarrow> w \<notin> heap_words k 1 \<Longrightarrow> vread v' w = vread (vmem st1) w" "w \<in> W" "w \<noteq> ?l" for v' w
    using that(1)[of w] that(2,3) st1(4)[OF that(2,3)] fresh by auto
  have b01: "?b \<in> heap_words k 1" "?b + 4 \<in> heap_words k 1" using words[of 0] words[of 1] by (simp_all add: slot_def)
  consider (exact) "units = 511" | (whole) "units = 510" | (split) "units \<noteq> 511" "units \<noteq> 510" by blast
  then show ?thesis
  proof cases
    case exact
    then have e: "units = snd (?b, 511 :: u32)" by simp
    obtain v' where v': "kmalloc_take (vmem st1) ?l ?b units = Some (?b + 8, v')" "heap_sound ls (st1\<lparr>vmem := v'\<rparr>) ?W" "free_list_at ls v' bs"
      "\<And>w. w \<in> ?W \<Longrightarrow> w \<noteq> ?l \<Longrightarrow> vread v' w = vread (vmem st1) w"
      using heap.kmalloc_take_exact[OF s1 fl1 e C] unfolding fst_conv append_Nil2 by blast
    then show ?thesis using run exact old[of v'] by auto
  next
    case whole
    then have e: "snd (?b, 511 :: u32) = units + 1" "units < snd (?b, 511 :: u32)" by simp_all
    obtain v' where v': "kmalloc_take (vmem st1) ?l ?b units = Some (?b + 8, v')" "heap_sound ls (st1\<lparr>vmem := v'\<rparr>) ?W"
      "free_list_at ls v' (bs @ [(?b, 0)])" "\<And>w. w \<in> ?W \<Longrightarrow> w \<notin> {?b, ?b + 4} \<Longrightarrow> vread v' w = vread (vmem st1) w"
      using heap.kmalloc_take_whole[OF s1 fl1 e C] unfolding fst_conv by blast
    have "vread v' w = vread (vmem st) w" if "w \<in> W" "w \<noteq> ?l" for w by (rule old[OF _ that]) (use v'(4) b01 in auto)
    then show ?thesis using run whole v'(1-3) by auto
  next
    case split
    have u9: "unat units \<le> 509"
    proof -
      have "unat units \<noteq> 511" "unat units \<noteq> 510" using split by (auto simp: word_unat_eq_iff)
      then show ?thesis using u by simp
    qed
    define i where "i = 2 * (510 - unat units)"
    let ?f = "slot ?b i" and ?C = "set (blocks_info ls # cells 0 4 (bs @ [(?b, 511)]))"
    have "of_nat (510 - unat units) = (510 - units :: u32)" using u9 by (simp add: of_nat_diff)
    then have "of_nat i = 2 * (510 - units)" unfolding i_def of_nat_mult by simp
    then have f: "?b + 8 * 511 - 8 * units - 8 = ?f" "?f + 8 = ?b + 8 * (511 - units)"
      unfolding slot_def by (simp_all only:) (simp_all add: algebra_simps)
    have f4: "?f + 4 = slot ?b (Suc i)" "?b + 0 = slot ?b 0" "?b + 4 = slot ?b 1" by (simp_all add: slot_def)
    have i: "1 < i" "Suc i < 1024" using u9 by (simp_all add: i_def)
    have notin: "slot ?b j \<notin> ?C" if "1 < j" "j < 1024" for j
      using fresh[OF words[OF that(2)]] cells(2) that slot_inj[of j 0 ?b] slot_inj[of j 1 ?b] by (auto simp: f4 simp flip: f4(2))
    have less: "units < snd (?b, 511 :: u32)" using u9 by (simp add: word_less_nat_alt)
    have hf: "?f \<in> ?W" "?f + 4 \<in> ?W" "?f \<notin> ?C" "?f + 4 \<notin> ?C"
      unfolding f4(1) using words[of i] words[of "Suc i"] notin[of i] notin[of "Suc i"] i by simp_all
    obtain v' where v': "kmalloc_take (vmem st1) ?l ?b units = Some (?f + 8, v')" "heap_sound ls (st1\<lparr>vmem := v'\<rparr>) ?W"
      "free_list_at ls v' (bs @ (?b, 511 - units) # [])"
      "\<And>a. a \<in> ?W \<Longrightarrow> a \<notin> {?f, ?f + 4, ?b + 4} \<Longrightarrow> vread v' a = vread (vmem st1) a"
      using heap.kmalloc_take_split[OF s1 fl1 less C, unfolded fst_conv snd_conv f(1), OF hf] by blast
    have "?f \<in> heap_words k 1" "?f + 4 \<in> heap_words k 1" unfolding f4(1) using words i by simp_all
    then have "vread v' w = vread (vmem st) w" if "w \<in> W" "w \<noteq> ?l" for w by (intro old[OF _ that] v'(4)) (use b01 in auto)
    then show ?thesis using run v'(1-3) split f(2) by auto
  qed
qed

lemma heap_words_add: "heap_words k (m + n) = heap_words k m \<union> heap_words (k + m) n"
proof (intro equalityI subsetI)
  fix a assume "a \<in> heap_words k (m + n)"
  then obtain j i where a: "j < m + n" "i < 1024" "a = kheap_page (k + j) + 4 * of_nat i" by (auto simp: heap_words_def)
  show "a \<in> heap_words k m \<union> heap_words (k + m) n"
  proof (cases "j < m")
    case True
    with a show ?thesis by (auto simp: heap_words_def)
  next
    case False
    then have "k + j = k + m + (j - m)" "j - m < n" using a(1) by simp_all
    with a(2,3) have "a \<in> heap_words (k + m) n" unfolding heap_words_def by (simp only: mem_Collect_eq) blast
    then show ?thesis by blast
  qed
next
  fix a assume "a \<in> heap_words k m \<union> heap_words (k + m) n"
  then consider j i where "j < m" "i < 1024" "a = kheap_page (k + j) + 4 * of_nat i"
    | j i where "j < n" "i < 1024" "a = kheap_page (k + (m + j)) + 4 * of_nat i" by (auto simp: heap_words_def add.assoc)
  then show "a \<in> heap_words k (m + n)"
  proof cases
    case 1
    then have "j < m + n" by simp
    with 1(2,3) show ?thesis unfolding heap_words_def by blast
  next
    case 2
    then have "m + j < m + n" by simp
    with 2(2,3) show ?thesis unfolding heap_words_def by blast
  qed
qed

lemma kmalloc_large_step:
  assumes sound: "heap_sound ls st W" and fl: "free_list_at ls (vmem st) bs" and small: "\<forall>x\<in>set bs. snd x < units"
    and cells: "distinct (blocks_info ls # cells 0 4 bs)" "set (blocks_info ls # cells 0 4 bs) \<subseteq> W"
    and units: "512 \<le> units" "units < 4096" and run: "first_run (kheap_st st) 1 k" "k < 1024"
    and frames: "fst (allocate_physical_page ls (frames st)) \<noteq> 0"
  defines "bs' \<equiv> bs @ [(kheap_page k, 511)]"
  obtains st' where "kmalloc_loop ls junk units (blocks_info ls) st = kmalloc_loop ls junk units (blocks_info ls) st'"
    "heap_sound ls st' (W \<union> heap_words k 1)" "free_list_at ls (vmem st') bs'" "\<forall>x\<in>set bs'. snd x < units"
    "distinct (blocks_info ls # cells 0 4 bs')" "set (blocks_info ls # cells 0 4 bs') \<subseteq> W \<union> heap_words k 1"
    "frames st' = snd (allocate_physical_page ls (frames st))" "\<forall>p. bitmap_test (kheap_st st') p \<longleftrightarrow> bitmap_test (kheap_st st) p \<and> p \<noteq> k"
proof -
  let ?b = "kheap_page k" and ?W = "W \<union> heap_words k 1"
  have u: "512 \<le> unat units" "unat units < 4096" using units by (simp_all add: word_le_nat_alt word_less_nat_alt)
  then have n: "(1::nat) = unat units div 4096 + 1" and run1: "k + 1 \<le> 1024" using run(2) by simp_all
  have fr: "0 \<notin> set (fst (allocate_frames ls (frames st) 1))" using frames by (simp add: case_prod_beta)
  have big: "\<not> units \<le> 511" "511 < units" using u by (simp_all add: word_le_nat_alt word_less_nat_alt)
  obtain st1 where st1: "heap_sound ls st1 ?W" "free_list_at ls (vmem st1) (bs @ [(?b, of_nat (512 * 1) - 1)])"
    "kmalloc_loop ls junk units (blocks_info ls) st = (if units \<le> of_nat (512 * 1) - 1
      then map_option (\<lambda>(a, v). (a, st1\<lparr>vmem := v\<rparr>)) (kmalloc_take (vmem st1) (link_cell 0 (blocks_info ls) bs) ?b units)
      else kmalloc_loop ls junk units ?b st1)"
    "frames st1 = snd (allocate_frames ls (frames st) 1)" "kheap_st st1 = turn_bits_off (kheap_st st) (k div 8) (k mod 8) 1"
    using kmalloc_loop_grows[OF sound fl cells n run(1) run1 fr small] by blast
  have all: "\<forall>x\<in>set bs'. snd x < units" using small big by (simp add: bs'_def)
  have fl1: "free_list_at ls (vmem st1) bs'" using st1(2) by (simp add: bs'_def)
  then have "linked (vread (vmem st1)) 0 4 (blocks_info ls) (bs' @ [])" by simp
  from kmalloc_loop_skip[OF this all] st1(3) big
  have "kmalloc_loop ls junk units (blocks_info ls) st = kmalloc_loop ls junk units (blocks_info ls) st1" by (simp add: bs'_def)
  moreover have b: "?b \<in> heap_words k 1" "?b + 4 \<in> heap_words k 1" "?b \<notin> W" "?b + 4 \<notin> W"
    using heap_words_header[of 1 k] heap_words_fresh[OF sound run(1) run1] by simp_all
  then have "distinct (blocks_info ls # cells 0 4 bs')" "set (blocks_info ls # cells 0 4 bs') \<subseteq> ?W" using cells by (auto simp: bs'_def)
  moreover have "frames st1 = snd (allocate_physical_page ls (frames st))" using st1(4) by (simp add: case_prod_beta)
  moreover have "\<forall>p. bitmap_test (kheap_st st1) p \<longleftrightarrow> bitmap_test (kheap_st st) p \<and> p \<noteq> k"
    unfolding st1(5) by (auto simp: bitmap_test_turn_bits_off mult.commute[of 8])
  ultimately show thesis using that st1(1) fl1 all by blast
qed

lemma kmalloc_large_steps:
  assumes sound: "heap_sound ls st W" and fl: "free_list_at ls (vmem st) bs" and small: "\<forall>x\<in>set bs. snd x < units"
    and cells: "distinct (blocks_info ls # cells 0 4 bs)" "set (blocks_info ls # cells 0 4 bs) \<subseteq> W"
    and units: "512 \<le> units" "units < 4096"
    and free: "\<forall>j<k. \<not> bitmap_test (kheap_st st) j" "\<forall>j<m. bitmap_test (kheap_st st) (k + j)" "k mod 8 + m < 8" "k < 1024"
    and frames: "0 \<notin> set (fst (allocate_frames ls (frames st) m))"
  defines "bs' \<equiv> bs @ map (\<lambda>j. (kheap_page (k + j), 511)) [0..<m]"
  shows "\<exists>st'. kmalloc_loop ls junk units (blocks_info ls) st = kmalloc_loop ls junk units (blocks_info ls) st'
    \<and> heap_sound ls st' (W \<union> heap_words k m) \<and> free_list_at ls (vmem st') bs' \<and> (\<forall>x\<in>set bs'. snd x < units)
    \<and> distinct (blocks_info ls # cells 0 4 bs') \<and> set (blocks_info ls # cells 0 4 bs') \<subseteq> W \<union> heap_words k m
    \<and> frames st' = snd (allocate_frames ls (frames st) m)
    \<and> (\<forall>p. bitmap_test (kheap_st st') p \<longleftrightarrow> bitmap_test (kheap_st st) p \<and> \<not> (k \<le> p \<and> p < k + m))"
  using free(2,3) frames unfolding bs'_def
proof (induction m)
  case 0
  have e: "heap_words k 0 = {}" by (simp add: heap_words_def)
  show ?case using sound fl small cells unfolding e by (intro exI[of _ st]) simp
next
  case (Suc m)
  let ?bs = "bs @ map (\<lambda>j. (kheap_page (k + j), 511)) [0..<m]"
  have "0 \<notin> set (fst (allocate_frames ls (frames st) m))" using Suc.prems(3) by (simp add: case_prod_beta)
  with Suc.IH Suc.prems(1,2) obtain st1 where
    eq: "kmalloc_loop ls junk units (blocks_info ls) st = kmalloc_loop ls junk units (blocks_info ls) st1" and
    st1: "heap_sound ls st1 (W \<union> heap_words k m)" "free_list_at ls (vmem st1) ?bs" "\<forall>x\<in>set ?bs. snd x < units"
      "distinct (blocks_info ls # cells 0 4 ?bs)" "set (blocks_info ls # cells 0 4 ?bs) \<subseteq> W \<union> heap_words k m" and
    fr: "frames st1 = snd (allocate_frames ls (frames st) m)" and
    bm: "\<forall>p. bitmap_test (kheap_st st1) p \<longleftrightarrow> bitmap_test (kheap_st st) p \<and> \<not> (k \<le> p \<and> p < k + m)" by auto
  have "(k + m) mod 8 = k mod 8 + m" "m < 8" using Suc.prems(2) mod_less[of "k mod 8 + m" 8] by (simp_all add: mod_add_left_eq)
  then have "first_run (kheap_st st1) 1 (k + m)"
    using Suc.prems(1,2) free(1,4) bm by (auto simp: first_run_def)
  moreover have "k div 8 < 128" using free(4) by (simp add: less_mult_imp_div_less)
  then have "k + m < 1024" using Suc.prems(2) div_mult_mod_eq[of k 8] by linarith
  moreover have "fst (allocate_physical_page ls (frames st1)) \<noteq> 0" using Suc.prems(3) by (auto simp: fr case_prod_beta)
  ultimately obtain st2 where
    eq2: "kmalloc_loop ls junk units (blocks_info ls) st1 = kmalloc_loop ls junk units (blocks_info ls) st2" and
    st2: "heap_sound ls st2 (W \<union> heap_words k m \<union> heap_words (k + m) 1)" "free_list_at ls (vmem st2) (?bs @ [(kheap_page (k + m), 511)])"
      "\<forall>x\<in>set (?bs @ [(kheap_page (k + m), 511)]). snd x < units"
      "distinct (blocks_info ls # cells 0 4 (?bs @ [(kheap_page (k + m), 511)]))"
      "set (blocks_info ls # cells 0 4 (?bs @ [(kheap_page (k + m), 511)])) \<subseteq> W \<union> heap_words k m \<union> heap_words (k + m) 1" and
    fr2: "frames st2 = snd (allocate_physical_page ls (frames st1))" and
    bm2: "\<forall>p. bitmap_test (kheap_st st2) p \<longleftrightarrow> bitmap_test (kheap_st st1) p \<and> p \<noteq> k + m"
    using kmalloc_large_step[OF st1(1-3) st1(4,5) units, where junk = junk] by blast
  have e: "bs @ map (\<lambda>j. (kheap_page (k + j), 511)) [0..<Suc m] = ?bs @ [(kheap_page (k + m), 511)]"
    "W \<union> heap_words k (Suc m) = W \<union> heap_words k m \<union> heap_words (k + m) 1" using heap_words_add[of k m 1] by auto
  have "frames st2 = snd (allocate_frames ls (frames st) (Suc m))" by (simp add: fr2 fr case_prod_beta)
  moreover have "\<forall>p. bitmap_test (kheap_st st2) p \<longleftrightarrow> bitmap_test (kheap_st st) p \<and> \<not> (k \<le> p \<and> p < k + Suc m)"
  proof
    fix p
    have "\<not> (k \<le> p \<and> p < k + Suc m) \<longleftrightarrow> \<not> (k \<le> p \<and> p < k + m) \<and> p \<noteq> k + m" by auto
    then show "bitmap_test (kheap_st st2) p \<longleftrightarrow> bitmap_test (kheap_st st) p \<and> \<not> (k \<le> p \<and> p < k + Suc m)"
      using spec[OF bm, of p] spec[OF bm2, of p] by (simp only: conj_assoc)
  qed
  ultimately show ?case unfolding e
    by (intro exI[of _ st2] conjI trans[OF eq eq2] st2)
qed

text \<open>C39: \<open>increase_heap_size\<close> divides units of eight bytes by the page size, so a request of
  512 to 4095 units (4 KB to 32 KB) grows the heap by one page, which gives a block of 511
  units, and the search goes on behind it. When every block of the list is too small and the
  \<open>m\<close> pages from \<open>k\<close> on are the lowest free heap pages, before the last one of their bitmap
  byte, with a frame left for each, the request maps all of them: it is then where it would be
  in a kernel with \<open>m\<close> more blocks of 511 units, still all too small.\<close>

theorem kmalloc_large_request:
  fixes req :: u32
  defines "units \<equiv> (req + 8 - 1) div 8"
  assumes sound: "heap_sound ls st W" and fl: "free_list_at ls (vmem st) bs" and small: "\<forall>x\<in>set bs. snd x < units"
    and cells: "distinct (blocks_info ls # cells 0 4 bs)" "set (blocks_info ls # cells 0 4 bs) \<subseteq> W"
    and units: "512 \<le> units" "units < 4096"
    and free: "\<forall>j<k. \<not> bitmap_test (kheap_st st) j" "\<forall>j<m. bitmap_test (kheap_st st) (k + j)" "k mod 8 + m < 8" "k < 1024"
    and frames: "0 \<notin> set (fst (allocate_frames ls (frames st) m))"
  shows "\<exists>st'. kmalloc ls junk st req = kmalloc ls junk st' req \<and> heap_sound ls st' (W \<union> heap_words k m)
    \<and> free_list_at ls (vmem st') (bs @ map (\<lambda>j. (kheap_page (k + j), 511)) [0..<m])
    \<and> (\<forall>x\<in>set (bs @ map (\<lambda>j. (kheap_page (k + j), 511)) [0..<m]). snd x < units)
    \<and> frames st' = snd (allocate_frames ls (frames st) m)
    \<and> (\<forall>p. bitmap_test (kheap_st st') p \<longleftrightarrow> bitmap_test (kheap_st st) p \<and> \<not> (k \<le> p \<and> p < k + m))"
  using kmalloc_large_steps[OF sound fl small cells units free frames, of junk] unfolding kmalloc_def units_def[symmetric] by blast

text \<open>C21: two live allocations overlap. From a free block of \<open>n\<close> units a request for \<open>u\<close> units
  is split off, and a request for the \<open>n - u\<close> units the block still claims to have gets all of
  it: the last eight bytes of the second allocation are the first eight of the first one.\<close>

theorem kmalloc_overlap:
  fixes u n b :: u32
  assumes sound: "heap_sound ls st W" and fl: "free_list_at ls (vmem st) [(b, n)]"
    and cells: "distinct [blocks_info ls, b, b + 4]" "{blocks_info ls, b, b + 4} \<subseteq> W"
    and size: "0 < u" "u + 1 < n" "n < 0x10000000" "u < n"
    and header: "{b + 8 * (n - u) - 8, b + 8 * (n - u) - 4} \<subseteq> W - {blocks_info ls, b, b + 4}"
  shows "\<exists>a1 a2 st1 st2. kmalloc ls junk st (8 * u) = Some (a1, st1) \<and> kmalloc ls junk st1 (8 * (n - u)) = Some (a2, st2)
    \<and> span a1 8 \<subseteq> span a1 (8 * unat u) \<inter> span a2 (8 * unat (n - u))"
proof -
  let ?m = "n - u" and ?a = "b + 8 * (n - u)"
  have un: "unat u + 1 < unat n" "unat n < 0x10000000"
    using size by (simp_all add: word_less_nat_alt unat_word_ariths) 
  have units: "(8 * x + 8 - 1) div 8 = x" if "unat x < 0x10000000" for x :: u32
    using that by (simp add: word_unat_eq_iff unat_div unat_word_ariths)
  have C: "distinct (blocks_info ls # cells 0 4 ([] @ (b, x) # []))" "set (blocks_info ls # cells 0 4 ([] @ (b, x) # [])) \<subseteq> W" for x
    using cells by auto
  obtain v1 where v1: "kmalloc ls junk st (8 * u) = Some (?a, st\<lparr>vmem := v1\<rparr>)" "heap_sound ls (st\<lparr>vmem := v1\<rparr>) W"
    "free_list_at ls v1 ([] @ (b, ?m) # [])"
    using kmalloc_splits[OF sound _ C, of n u "8 * u" junk] fl units[of u] un size(4) header by auto
  have m: "unat ?m = unat n - unat u" using un by (simp add: unat_sub_if')
  obtain v2 where "kmalloc ls junk (st\<lparr>vmem := v1\<rparr>) (8 * ?m) = Some (b + 8, st\<lparr>vmem := v2\<rparr>)"
    using kmalloc_exact[OF v1(2) _ C, of ?m "8 * ?m" junk] v1(3) units[of ?m] m un by auto
  moreover have "span ?a 8 \<subseteq> span ?a (8 * unat u) \<inter> span (b + 8) (8 * unat ?m)"
  proof
    fix x assume "x \<in> span ?a 8"
    define y d where "y = x - ?a" and "d = 8 * ?m - 8"
    have x: "unat y < 8" using \<open>x \<in> span ?a 8\<close> by (simp only: span_iff y_def)
    have e: "x - (b + 8) = y + d" by (simp add: y_def d_def)
    have "unat (8 * ?m) = 8 * unat ?m" using m un by (simp only: unat_word_ariths) simp
    then have d: "unat d = 8 * unat ?m - 8" using m un by (simp add: d_def unat_sub_if' word_le_nat_alt)
    then have "unat (y + d) = unat y + unat d" using x m un by (simp add: unat_word_ariths)
    then have "unat (x - (b + 8)) < 8 * unat ?m" unfolding e using d x m un by simp
    moreover have "unat (x - ?a) < 8 * unat u" unfolding y_def[symmetric] using x size(1) by (simp add: word_less_nat_alt)
    ultimately show "x \<in> span ?a (8 * unat u) \<inter> span (b + 8) (8 * unat ?m)" by (simp only: span_iff Int_iff)
  qed
  ultimately show ?thesis using v1(1) by blast
qed

text \<open>The rounding of the requested size to units wraps: a request within seven bytes of
  4 GB is served like a request for nothing.\<close>

lemma kmalloc_size_wraps:
  assumes "2 ^ 32 - 7 \<le> unat (req :: u32)"
  shows "kmalloc ls junk st req = kmalloc ls junk st 0"
proof -
  define d where "d = unat req - (2 ^ 32 - 7)"
  have d: "unat req = 2 ^ 32 - 7 + d" "d < 7" using assms unsigned_less[of req, where ?'a = nat] by (simp_all add: d_def)
  then have "unat (req + 8 - 1) = d" by (simp add: unat_word_ariths)
  then have "(req + 8 - 1) div 8 = 0" using d(2) by (simp add: word_unat_eq_iff unat_div)
  moreover have "(0 + 8 - 1) div 8 = (0 :: u32)" by simp
  ultimately show ?thesis unfolding kmalloc_def by (simp only:)
qed

section \<open>Witnesses\<close>

lemma booted_free_list: "free_list_at example_linker (vmem booted) []"
proof -
  have "pmem (vmem booted) 0x120000 = 0" by (simp add: booted_def)
  then show ?thesis by (simp add: vread_def booted_head example_linker_def)
qed

lemma booted_head_cell: "blocks_info example_linker = 0xC0120000"
  by (simp add: example_linker_def)

lemma booted_allocates: "fst (allocate_physical_page example_linker (frames booted)) \<noteq> 0"
  using booted_frame by (simp add: case_prod_beta)

lemma first_page_words: "j < 1024 \<Longrightarrow> 0xC0800000 + 4 * of_nat j \<in> heap_words 0 1"
  using heap_words_first[of 1 j 0] by (simp add: kheap_page_def kheap_constants)

text \<open>The heap after its first growth: one free block of 511 units.\<close>

lemma grown_heap:
  obtains st where "heap_sound example_linker st ({0xC0120000} \<union> heap_words 0 1)"
    "free_list_at example_linker (vmem st) [(0xC0800000, 511)]"
proof -
  have "distinct (blocks_info example_linker # cells 0 4 [])" "set (blocks_info example_linker # cells 0 4 []) \<subseteq> {0xC0120000}"
    "(1 :: nat) = unat (10 :: u32) div 4096 + 1" "(0 :: nat) + 1 \<le> 1024" by (simp_all add: booted_head_cell)
  from increase_heap_size_sound[OF booted_sound booted_free_list this(1-3) booted_run[of 1] this(4) booted_frame]
  obtain st where "heap_sound example_linker st ({0xC0120000} \<union> heap_words 0 1)"
    "free_list_at example_linker (vmem st) ([] @ [(kheap_page 0, of_nat (512 * 1) - 1)])" by auto
  moreover have "kheap_page 0 = 0xC0800000" by (simp add: kheap_page_def kheap_constants)
  ultimately show thesis using that by simp
qed

abbreviation first_heap_page :: "u32 set" where
  "first_heap_page \<equiv> {0xC0120000} \<union> heap_words 0 1"

theorem kmalloc_first_fit_witness:
  "\<exists>st a v'. free_list_at example_linker (vmem st) [(0xC0800000, 511)]
     \<and> kmalloc example_linker (\<lambda>_. 0) st 80 = Some (a, st\<lparr>vmem := v'\<rparr>) \<and> a = 0xC0800FA8"
proof (rule grown_heap)
  fix st assume s: "heap_sound example_linker st ({0xC0120000} \<union> heap_words 0 1)"
    "free_list_at example_linker (vmem st) [(0xC0800000, 511)]"
  then have fl: "free_list_at example_linker (vmem st) ([] @ (0xC0800000, 511) # [])" by simp
  have w: "0xC0800000 \<in> heap_words 0 1" "0xC0800004 \<in> heap_words 0 1" "0xC0800FA0 \<in> heap_words 0 1" "0xC0800FA4 \<in> heap_words 0 1"
    using first_page_words[of 0] first_page_words[of 1] first_page_words[of 1000] first_page_words[of 1001] by simp_all
  have "\<exists>a v'. kmalloc example_linker (\<lambda>_. 0) st 80 = Some (a, st\<lparr>vmem := v'\<rparr>) \<and> a = 0xC0800FA8"
    using kmalloc_first_fit[OF s(1) fl, of 80 "\<lambda>_. 0"] w by (auto simp: booted_head_cell)
  with s(2) show ?thesis by blast
qed

theorem kfree_appends_witness:
  "\<exists>(st :: kernel_mm) v' n. free_list_at example_linker (vmem st) [(0xC0800000, 511)]
     \<and> kfree example_linker (vmem st) 0xC0800108 = Some v' \<and> free_list_at example_linker v' [(0xC0800000, 511), (0xC0800100, n)]"
proof (rule grown_heap)
  fix st assume s: "heap_sound example_linker st ({0xC0120000} \<union> heap_words 0 1)"
    "free_list_at example_linker (vmem st) [(0xC0800000, 511)]"
  have w: "0xC0800000 \<in> heap_words 0 1" "0xC0800004 \<in> heap_words 0 1" "0xC0800100 \<in> heap_words 0 1" "0xC0800104 \<in> heap_words 0 1"
    using first_page_words[of 0] first_page_words[of 1] first_page_words[of 64] first_page_words[of 65] by simp_all
  then obtain n where "vread (vmem st) 0xC0800104 = Some n" using paged.rd_good[OF heap_soundD(2)[OF s(1)]] by blast
  with kfree_appends[OF s, of "0xC0800108" n] w
  have "\<exists>v'. kfree example_linker (vmem st) 0xC0800108 = Some v' \<and> free_list_at example_linker v' [(0xC0800000, 511), (0xC0800100, n)]"
    by (auto simp: booted_head_cell)
  then show ?thesis using s(2) by blast
qed

theorem kmalloc_new_page_witness:
  "\<exists>st'. kmalloc example_linker (\<lambda>_. 0) booted 80 = Some (0xC0800FA8, st')"
proof -
  have "kheap_page 0 + 8 * (511 - 10) = 0xC0800FA8" by (simp add: kheap_page_def kheap_constants)
  then show ?thesis
    using kmalloc_new_page[OF booted_sound booted_free_list, of 80 0 "\<lambda>_. 0"] booted_run[of 1] booted_allocates
    by (auto simp: booted_head_cell)
qed


theorem kmalloc_large_request_witness:
  "\<exists>st'. kmalloc example_linker (\<lambda>_. 0) booted 4096 = kmalloc example_linker (\<lambda>_. 0) st' 4096
     \<and> free_list_at example_linker (vmem st') [(kheap_page 0, 511)]"
  using kmalloc_large_request[OF booted_sound booted_free_list, of 4096 0 1 "\<lambda>_. 0"] booted_run[of 1] booted_frame
  by (auto simp: booted_head_cell first_run_def)

theorem kmalloc_overlap_witness:
  "\<exists>st a1 a2 st1 st2. kmalloc example_linker (\<lambda>_. 0) st 800 = Some (a1, st1)
     \<and> kmalloc example_linker (\<lambda>_. 0) st1 3288 = Some (a2, st2) \<and> span a1 8 \<subseteq> span a2 3288"
proof (rule grown_heap)
  fix st assume s: "heap_sound example_linker st ({0xC0120000} \<union> heap_words 0 1)"
    "free_list_at example_linker (vmem st) [(0xC0800000, 511)]"
  have w: "0xC0800000 \<in> heap_words 0 1" "0xC0800004 \<in> heap_words 0 1" "0xC0800CD0 \<in> heap_words 0 1" "0xC0800CD4 \<in> heap_words 0 1"
    using first_page_words[of 0] first_page_words[of 1] first_page_words[of 820] first_page_words[of 821] by simp_all
  with kmalloc_overlap[OF s, of 100 "\<lambda>_. 0"]
  have "\<exists>a1 a2 st1 st2. kmalloc example_linker (\<lambda>_. 0) st 800 = Some (a1, st1)
     \<and> kmalloc example_linker (\<lambda>_. 0) st1 3288 = Some (a2, st2) \<and> span a1 8 \<subseteq> span a2 3288" by (fastforce simp: booted_head_cell)
  then show ?thesis by (rule exI[of _ st])
qed

end
