(* ===== verification/VirtualMM.thy ===== *)
theory VirtualMM
  imports KMalloc
begin

text \<open>
  The virtual memory manager of \<^verbatim>\<open>src/kernel/mm/virtual_mm_manager.c\<close>. A
  \<open>virtual_address_space_t\<close> is two words of paged memory, the directory's address and its
  physical address. The user half of the current directory is edited through the recursive
  entry. \<open>memset\<close> of a page is 1024 stores of the word 0. The loop variable of \<open>mmap\<close> is an
  \<open>int\<close> that is compared as unsigned; it wraps at 2 GB here. \<open>tlb_flush\<close> has no effect on
  the model, which walks the tables at every access.
\<close>

section \<open>Definitions\<close>

definition USER_SPACE_LIMIT :: u32 where "USER_SPACE_LIMIT = 767"

definition zero_word :: "u32 \<Rightarrow> u32 \<Rightarrow> vm \<Rightarrow> vm option" where
  "zero_word page i v = vwrite v (page + 4 * i) 0"

definition zero_page :: "vm \<Rightarrow> u32 \<Rightarrow> vm option" where
  "zero_page v page = for_range (zero_word page) 0 1024 v"

definition copy_kernel_entry :: "linker_symbols \<Rightarrow> u32 \<Rightarrow> u32 \<Rightarrow> vm \<Rightarrow> vm option" where
  "copy_kernel_entry ls page_directory i v = do {
     v1 \<leftarrow> vwrite v (page_directory + 4 * i)
             (kernel_page_tables ls + (i - of_nat KERNEL_PGD_ENTRY_INDEX) * PAGE_SIZE);
     edit_entry_attributes v1 (page_directory + 4 * i) (READ_WRITE OR PRESENT)
   }"

definition alloc_page_dir :: "linker_symbols \<Rightarrow> (nat \<Rightarrow> int) \<Rightarrow> kernel_mm \<Rightarrow> u32 \<Rightarrow> (error_code_t \<times> kernel_mm) option" where
  "alloc_page_dir ls junk st vmm = do {
     (page_directory, st1) \<leftarrow> alloc_kheap_pages ls junk st 1;
     if page_directory = 0 then Some (FAILURE, st1)
     else do {
       v0 \<leftarrow> zero_page (vmem st1) page_directory;
       v1 \<leftarrow> for_range (copy_kernel_entry ls page_directory) (of_nat KERNEL_PGD_ENTRY_INDEX)
               (of_nat (KERNEL_PGD_ENTRY_INDEX + NUM_KERNEL_PAGE_TABLES)) v0;
       v2 \<leftarrow> map_kheap_to_pgd ls v1 page_directory;
       v3 \<leftarrow> vwrite v2 vmm page_directory;
       physical \<leftarrow> kheap_get_physical_address v3 page_directory;
       v4 \<leftarrow> vwrite v3 (vmm + 4) physical;
       pgd \<leftarrow> vread v4 vmm;
       physical_pgd \<leftarrow> vread v4 (vmm + 4);
       v5 \<leftarrow> vwrite v4 (pgd + 4 * of_nat (PAGE_DIRECTORY_SIZE - 1)) physical_pgd;
       pgd' \<leftarrow> vread v5 vmm;
       v6 \<leftarrow> edit_entry_attributes v5 (pgd' + 4 * of_nat (PAGE_DIRECTORY_SIZE - 1)) (READ_WRITE OR PRESENT);
       Some (SUCCESS, st1\<lparr>vmem := v6\<rparr>)
     }
   }"

definition alloc_virtual_address_space :: "linker_symbols \<Rightarrow> (nat \<Rightarrow> int) \<Rightarrow> kernel_mm \<Rightarrow> (u32 \<times> kernel_mm) option" where
  "alloc_virtual_address_space ls junk st = do {
     (vmm, st1) \<leftarrow> kmalloc ls junk st 8;
     if vmm = 0 then Some (0, st1)
     else do {
       (error, st2) \<leftarrow> alloc_page_dir ls junk st1 vmm;
       if error \<noteq> SUCCESS then do { v \<leftarrow> kfree ls (vmem st2) vmm; Some (0, st2\<lparr>vmem := v\<rparr>) }
       else Some (vmm, st2)
     }
   }"

definition free_user_entry :: "u32 \<Rightarrow> u32 \<Rightarrow> kernel_mm \<Rightarrow> kernel_mm option" where
  "free_user_entry i j st = do {
     e \<leftarrow> vread (vmem st) (RECURSIVE_PGD_ADDRESS + 4 * (i * of_nat PAGE_TABLE_SIZE + j));
     Some (if e \<noteq> 0 then st\<lparr>frames := snd (free_physical_page (frames st) e)\<rparr> else st)
   }"

definition free_user_table :: "u32 \<Rightarrow> u32 \<Rightarrow> kernel_mm \<Rightarrow> kernel_mm option" where
  "free_user_table vmm i st = do {
     pgd \<leftarrow> vread (vmem st) vmm;
     e \<leftarrow> vread (vmem st) (pgd + 4 * i);
     if e \<noteq> 0 then do {
       st1 \<leftarrow> for_range (free_user_entry i) 0 (of_nat PAGE_TABLE_SIZE) st;
       pgd' \<leftarrow> vread (vmem st1) vmm;
       e' \<leftarrow> vread (vmem st1) (pgd' + 4 * i);
       Some (st1\<lparr>frames := snd (free_physical_page (frames st1) e')\<rparr>)
     } else Some st
   }"

definition free_virtual_address_space :: "linker_symbols \<Rightarrow> kernel_mm \<Rightarrow> u32 \<Rightarrow> (error_code_t \<times> kernel_mm) option" where
  "free_virtual_address_space ls st vmm =
     (if vmm = 0 then Some (INVALID_ARGUMENT, st)
      else do {
        st1 \<leftarrow> for_range (free_user_table vmm) 0 USER_SPACE_LIMIT st;
        pgd \<leftarrow> vread (vmem st1) vmm;
        (_, st2) \<leftarrow> free_kheap_pages st1 pgd 1;
        v \<leftarrow> kfree ls (vmem st2) vmm;
        Some (SUCCESS, st2\<lparr>vmem := v\<rparr>)
      })"

text \<open>No caller: a static function without a \<open>return\<close>.\<close>

definition free_user_virtual_page :: "kernel_mm \<Rightarrow> u32 \<Rightarrow> kernel_mm option" where
  "free_user_virtual_page st virtual_address = do {
     e \<leftarrow> vread (vmem st) (RECURSIVE_PGT_ADDRESS + 4 * ADDRESS_TO_DIRECTORY_ENTRY virtual_address);
     Some (st\<lparr>frames := snd (free_physical_page (frames st) e)\<rparr>)
   }"

definition switch_virtual_address_space :: "vm \<Rightarrow> u32 \<Rightarrow> (error_code_t \<times> vm) option" where
  "switch_virtual_address_space v vmm =
     (if vmm = 0 then Some (INVALID_ARGUMENT, v)
      else do {
        pgd \<leftarrow> vread v vmm;
        if pgd = 0 then Some (INVALID_ARGUMENT, v)
        else do {
          physical_pgd_address \<leftarrow> vread v (vmm + 4);
          Some (SUCCESS, v\<lparr>cr3 := physical_pgd_address\<rparr>)
        }
      })"

definition map_user_virtual_address_to_physical :: "linker_symbols \<Rightarrow> kernel_mm \<Rightarrow> u32 \<Rightarrow> u32 \<Rightarrow> kernel_mm option" where
  "map_user_virtual_address_to_physical ls st virtual_address physical_address = do {
     let pgd_index = ADDRESS_TO_DIRECTORY_ENTRY virtual_address;
     let pgt_index = ADDRESS_TO_PAGE_TABLE_ENTRY virtual_address;
     let directory_entry = RECURSIVE_PGT_ADDRESS + 4 * pgd_index;
     let table_entry = RECURSIVE_PGD_ADDRESS + 4 * (pgd_index * of_nat PAGE_TABLE_SIZE + pgt_index);
     pde \<leftarrow> vread (vmem st) directory_entry;
     st1 \<leftarrow> (if pde = 0 then do {
               let (table, frames') = allocate_physical_page ls (frames st);
               v1 \<leftarrow> vwrite (vmem st) directory_entry table;
               v2 \<leftarrow> edit_entry_attributes v1 directory_entry (READ_WRITE OR PRESENT OR USER);
               v3 \<leftarrow> zero_page v2 (RECURSIVE_PGD_ADDRESS + 4 * (pgd_index * 1024));
               Some (st\<lparr>frames := frames', vmem := v3\<rparr>)
             } else Some st);
     v4 \<leftarrow> vwrite (vmem st1) table_entry physical_address;
     v5 \<leftarrow> edit_entry_attributes v4 table_entry (READ_WRITE OR PRESENT OR USER);
     Some (st1\<lparr>vmem := v5\<rparr>)
   }"

definition page_exists :: "vm \<Rightarrow> u32 \<Rightarrow> bool option" where
  "page_exists v virtual_address = do {
     let pgd_index = ADDRESS_TO_DIRECTORY_ENTRY virtual_address;
     let pgt_index = ADDRESS_TO_PAGE_TABLE_ENTRY virtual_address;
     pde \<leftarrow> vread v (RECURSIVE_PGT_ADDRESS + 4 * pgd_index);
     if pde = 0 then Some False
     else do {
       pte \<leftarrow> vread v (RECURSIVE_PGD_ADDRESS + 4 * (pgd_index * of_nat PAGE_TABLE_SIZE + pgt_index));
       Some (pte \<noteq> 0)
     }
   }"

partial_function (option) mmap_loop :: "linker_symbols \<Rightarrow> u32 \<Rightarrow> u32 \<Rightarrow> kernel_mm \<Rightarrow> kernel_mm option" where
  "mmap_loop ls i limit st =
     (if i < limit then do {
        present \<leftarrow> page_exists (vmem st) i;
        st1 \<leftarrow> (if \<not> present
                then (let (frame, frames') = allocate_physical_page ls (frames st)
                      in map_user_virtual_address_to_physical ls (st\<lparr>frames := frames'\<rparr>) i frame)
                else Some st);
        mmap_loop ls (i + PAGE_SIZE) limit st1
      } else Some st)"

definition mmap :: "linker_symbols \<Rightarrow> kernel_mm \<Rightarrow> u32 \<Rightarrow> u32 \<Rightarrow> (error_code_t \<times> kernel_mm) option" where
  "mmap ls st virtual_address num_pages =
     (if virtual_address \<ge> KERNEL_VIRTUAL_OFFSET \<or> virtual_address + num_pages * PAGE_SIZE \<ge> KERNEL_VIRTUAL_OFFSET
      then Some (INVALID_ARGUMENT, st)
      else if PAGE_BOUNDARY virtual_address \<noteq> virtual_address then Some (INVALID_ARGUMENT, st)
      else do {
        st1 \<leftarrow> mmap_loop ls virtual_address (virtual_address + num_pages * PAGE_SIZE) st;
        Some (SUCCESS, st1)
      })"

section \<open>The user half of the directory\<close>

text \<open>Directory entry and table of index \<open>d\<close>, the table entry of user page \<open>p\<close>.\<close>

definition user_pages :: nat where "user_pages = 768 * 1024"

definition pde_of :: "vm \<Rightarrow> nat \<Rightarrow> u32" where
  "pde_of v d = pmem v (slot (cr3 v) d)"

definition user_pte :: "vm \<Rightarrow> nat \<Rightarrow> u32" where
  "user_pte v p = (if pde_of v (p div 1024) = 0 then 0 else pmem v (slot (PAGE_BOUNDARY (pde_of v (p div 1024))) (p mod 1024)))"

text \<open>Frames of the tables and of the pages of the user half.\<close>

definition used_tables :: "vm \<Rightarrow> nat set" where
  "used_tables v = {d. d < 768 \<and> pde_of v d \<noteq> 0}"

definition used_pages :: "vm \<Rightarrow> nat set" where
  "used_pages v = {p. p < user_pages \<and> user_pte v p \<noteq> 0}"

definition table_frame :: "vm \<Rightarrow> nat \<Rightarrow> u32" where
  "table_frame v d = PAGE_BOUNDARY (pde_of v d)"

definition page_frame :: "vm \<Rightarrow> nat \<Rightarrow> u32" where
  "page_frame v p = PAGE_BOUNDARY (user_pte v p)"

definition user_entry :: "u32 \<Rightarrow> bool" where
  "user_entry e \<longleftrightarrow> (\<exists>f. e = f OR 7 \<and> 4096 dvd unat f)"

text \<open>Isolation: the directory, its tables and the user pages lie in frames of their own, none of
  them among the frames \<open>A\<close> that the frame allocator may hand out, and every entry of the user
  half is empty or present, writable and accessible to ring 3.\<close>

definition isolated :: "vm \<Rightarrow> nat set \<Rightarrow> bool" where
  "isolated v A \<longleftrightarrow> recursive_ok v \<and> page_of (cr3 v) \<notin> A
     \<and> (\<forall>d\<in>used_tables v. user_entry (pde_of v d) \<and> table_frame v d \<noteq> cr3 v \<and> page_of (table_frame v d) \<notin> A)
     \<and> (\<forall>p\<in>used_pages v. user_entry (user_pte v p) \<and> page_frame v p \<noteq> cr3 v \<and> page_of (page_frame v p) \<notin> A)
     \<and> (\<forall>d\<in>used_tables v. \<forall>e\<in>used_tables v. table_frame v d = table_frame v e \<longrightarrow> d = e)
     \<and> (\<forall>p\<in>used_pages v. \<forall>q\<in>used_pages v. page_frame v p = page_frame v q \<longrightarrow> p = q)
     \<and> (\<forall>d\<in>used_tables v. \<forall>p\<in>used_pages v. table_frame v d \<noteq> page_frame v p)"

lemma or_7: "READ_WRITE OR PRESENT OR USER = 7"
  by (simp add: READ_WRITE_def PRESENT_def USER_def)

lemma or_7_facts: "4096 dvd unat f \<Longrightarrow> PAGE_BOUNDARY (f OR 7) = f" "f OR 7 \<noteq> 0" "bit (f OR 7) 0" "bit (f OR 7) 1" "bit (f OR 7) 2" for f :: u32
proof -
  show "4096 dvd unat f \<Longrightarrow> PAGE_BOUNDARY (f OR 7) = f" by (rule entry_attributes) (simp_all add: page_simps)
  show b: "bit (f OR 7) 0" "bit (f OR 7) 1" "bit (f OR 7) 2" by (simp_all add: bit_or_iff bit_numeral_rec(2))
  then show "f OR 7 \<noteq> 0" by (metis bit_0_eq bot_apply bot_bool_def)
qed

lemma user_entryD:
  assumes "user_entry e"
  shows "e = PAGE_BOUNDARY e OR 7" "4096 dvd unat (PAGE_BOUNDARY e)" "e \<noteq> 0"
  using assms or_7_facts by (auto simp: user_entry_def)

lemma user_entryI: "4096 dvd unat f \<Longrightarrow> user_entry (f OR 7)"
  by (auto simp: user_entry_def)

lemma isolatedD:
  assumes "isolated v A"
  shows "recursive_ok v" "4096 dvd unat (cr3 v)" "page_of (cr3 v) \<notin> A"
    "d \<in> used_tables v \<Longrightarrow> user_entry (pde_of v d)" "d \<in> used_tables v \<Longrightarrow> table_frame v d \<noteq> cr3 v"
    "d \<in> used_tables v \<Longrightarrow> page_of (table_frame v d) \<notin> A" "d \<in> used_tables v \<Longrightarrow> 4096 dvd unat (table_frame v d)"
    "d \<in> used_tables v \<Longrightarrow> e \<in> used_tables v \<Longrightarrow> table_frame v d = table_frame v e \<Longrightarrow> d = e"
    "p \<in> used_pages v \<Longrightarrow> page_of (page_frame v p) \<notin> A" "d \<in> used_tables v \<Longrightarrow> p \<in> used_pages v \<Longrightarrow> table_frame v d \<noteq> page_frame v p"
    "p \<in> used_pages v \<Longrightarrow> q \<in> used_pages v \<Longrightarrow> page_frame v p = page_frame v q \<Longrightarrow> p = q"
proof -
  have "4096 dvd unat (cr3 v)" using assms by (simp add: isolated_def recursive_ok_def)
  then show "4096 dvd unat (cr3 v)" .
  show "d \<in> used_tables v \<Longrightarrow> 4096 dvd unat (table_frame v d)" using assms user_entryD(2) by (simp add: isolated_def table_frame_def)
qed (use assms in \<open>simp_all add: isolated_def\<close>)

lemma isolated_mono: "isolated v A \<Longrightarrow> B \<subseteq> A \<Longrightarrow> isolated v B"
  unfolding isolated_def by blast

lemma isolated_table_at:
  assumes "isolated v A" "d \<in> used_tables v"
  shows "table_at v d (table_frame v d)"
  unfolding table_at_def table_frame_def
  using user_entryD[OF isolatedD(4)[OF assms]] assms(2) or_7_facts(3)[of 0]
  by (intro conjI exI[of _ 7]) (simp_all add: pde_of_def[symmetric] used_tables_def)

lemma user_pte_eq: "p < user_pages \<Longrightarrow> user_pte v p =
    (if p div 1024 \<in> used_tables v then pmem v (slot (table_frame v (p div 1024)) (p mod 1024)) else 0)"
  by (auto simp: user_pte_def used_tables_def table_frame_def user_pages_def)

text \<open>A user page and its two indices.\<close>

lemma user_page_indices:
  assumes "p < user_pages"
  defines "va \<equiv> of_nat p * PAGE_SIZE"
  shows "ADDRESS_TO_DIRECTORY_ENTRY va = of_nat (p div 1024)" "ADDRESS_TO_PAGE_TABLE_ENTRY va = of_nat (p mod 1024)"
    "p div 1024 < 768" "p mod 1024 < 1024" "unat va = 4096 * p" "4096 dvd unat va"
proof -
  show u: "unat va = 4096 * p" "4096 dvd unat va" using assms by (simp_all add: PAGE_SIZE_def user_pages_def unat_word_ariths unat_of_nat)
  have "unat (ADDRESS_TO_DIRECTORY_ENTRY va) = p div 1024" unfolding unat_dir_index u(1) by simp
  from arg_cong[OF this, of "of_nat :: nat \<Rightarrow> u32"] show "ADDRESS_TO_DIRECTORY_ENTRY va = of_nat (p div 1024)" by simp
  have "unat (ADDRESS_TO_PAGE_TABLE_ENTRY va) = p mod 1024" unfolding unat_pgt_index u(1) by simp
  from arg_cong[OF this, of "of_nat :: nat \<Rightarrow> u32"] show "ADDRESS_TO_PAGE_TABLE_ENTRY va = of_nat (p mod 1024)" by simp
  show "p div 1024 < 768" "p mod 1024 < 1024" using assms(1) by (simp_all add: user_pages_def)
qed

lemma page_exists_user:
  assumes "isolated v A" "p < user_pages"
  shows "page_exists v (of_nat p * PAGE_SIZE) = Some (user_pte v p \<noteq> 0)"
proof -
  note i = user_page_indices[OF assms(2)]
  have d: "vread v (RECURSIVE_PGT_ADDRESS + 4 * of_nat (p div 1024)) = Some (pde_of v (p div 1024))"
    using recursive_directory_entry[OF isolatedD(1)[OF assms(1)], of "p div 1024"] i(3) by (simp add: vread_def pde_of_def)
  show ?thesis
  proof (cases "pde_of v (p div 1024) = 0")
    case True
    then show ?thesis using d i(1,2) by (simp add: page_exists_def Let_def user_pte_def)
  next
    case False
    then have u: "p div 1024 \<in> used_tables v" using i(3) by (simp add: used_tables_def)
    have "vread v (RECURSIVE_PGD_ADDRESS + 4 * (of_nat (p div 1024) * 1024 + of_nat (p mod 1024))) = Some (user_pte v p)"
      using recursive_entry[OF isolatedD(1)[OF assms(1)] isolated_table_at[OF assms(1) u] i(4)] u
      by (simp add: vread_def user_pte_eq[OF assms(2)])
    then show ?thesis using d i(1,2) False by (simp add: page_exists_def Let_def PAGE_TABLE_SIZE_def)
  qed
qed

section \<open>Installing a table and a page\<close>

definition clear_table :: "u32 \<Rightarrow> nat \<Rightarrow> dwords \<Rightarrow> dwords" where
  "clear_table t n p = (\<lambda>a. if \<exists>j<n. a = slot t j then 0 else p a)"

lemma clear_table_Suc: "clear_table t (Suc n) p = (clear_table t n p)(slot t n := 0)"
  by (auto simp: clear_table_def fun_eq_iff less_Suc_eq)

lemma clear_table_0 [simp]: "clear_table t 0 p = p"
  by (simp add: clear_table_def)

lemma zero_page_window:
  assumes "recursive_ok v" "table_at v d t" "t \<noteq> cr3 v"
  shows "zero_page v (RECURSIVE_PGD_ADDRESS + 4 * (of_nat d * 1024)) = Some (v\<lparr>pmem := clear_table t 1024 (pmem v)\<rparr>)"
proof -
  define I where "I k s \<longleftrightarrow> s = v\<lparr>pmem := clear_table t k (pmem v)\<rparr> \<and> recursive_ok s \<and> table_at s d t" for k s
  have al: "4096 dvd unat t" using assms(2) by (simp add: table_at_def)
  have "\<exists>s'. for_range (zero_word (RECURSIVE_PGD_ADDRESS + 4 * (of_nat d * 1024))) 0 (0 + of_nat 1024) v = Some s' \<and> I 1024 s'"
  proof (rule for_range_rule)
    show "unat (0 :: u32) + 1024 < 2 ^ 32" "I 0 v" using assms by (simp_all add: I_def)
    fix k s assume k: "k < 1024" and I: "I k s"
    note s = I[unfolded I_def]
    have "translate s (RECURSIVE_PGD_ADDRESS + 4 * (of_nat d * 1024 + of_nat k)) = Some (slot t k)"
      using recursive_entry[of s d t k] s k by blast
    then have w: "zero_word (RECURSIVE_PGD_ADDRESS + 4 * (of_nat d * 1024)) (0 + of_nat k) s = Some (s\<lparr>pmem := (pmem s)(slot t k := 0)\<rparr>)"
      by (simp add: zero_word_def vwrite_def algebra_simps)
    have "cr3 s = cr3 v" using s by simp
    then have "recursive_ok (s\<lparr>pmem := (pmem s)(slot t k := 0)\<rparr>)" "table_at (s\<lparr>pmem := (pmem s)(slot t k := 0)\<rparr>) d t"
      using table_write(1,2)[of s t k 0] s al assms(3) k by auto
    moreover have "s\<lparr>pmem := (pmem s)(slot t k := 0)\<rparr> = v\<lparr>pmem := clear_table t (Suc k) (pmem v)\<rparr>"
      using s by (simp add: clear_table_Suc)
    ultimately show "\<exists>s'. zero_word (RECURSIVE_PGD_ADDRESS + 4 * (of_nat d * 1024)) (0 + of_nat k) s = Some s' \<and> I (Suc k) s'"
      using w unfolding I_def by metis
  qed
  then show ?thesis by (simp add: zero_page_def I_def)
qed

lemma edit_after_write:
  assumes "translate v a = Some pa" "translate (v\<lparr>pmem := (pmem v)(pa := x)\<rparr>) a = Some pa" "a \<noteq> 0"
  shows "do { v1 \<leftarrow> vwrite v a x; edit_entry_attributes v1 a attr } = Some (v\<lparr>pmem := (pmem v)(pa := x OR attr)\<rparr>)"
  using assms by (simp add: vwrite_def vread_def edit_entry_attributes_def)

text \<open>What mapping may change: the user half of the directory, its tables, and frames taken from
  \<open>A\<close>. A new table lies in such a frame.\<close>

definition space_edit :: "vm \<Rightarrow> nat set \<Rightarrow> vm \<Rightarrow> bool" where
  "space_edit v A v' \<longleftrightarrow> cr3 v' = cr3 v \<and> paging v' = paging v
     \<and> (\<forall>d\<in>used_tables v'. page_of (table_frame v' d) \<in> A \<or> table_frame v' d \<in> table_frame v ` used_tables v)
     \<and> (\<forall>pa. page_of pa \<notin> A \<and> (\<forall>d\<in>used_tables v. page_of pa \<noteq> page_of (table_frame v d)) \<and> (\<forall>d<768. pa \<noteq> slot (cr3 v) d)
          \<longrightarrow> pmem v' pa = pmem v pa)"

lemma space_edit_refl: "space_edit v A v"
  by (simp add: space_edit_def)

lemma space_edit_trans:
  assumes 1: "space_edit v A v1" and 2: "space_edit v1 B v2" and B: "B \<subseteq> A"
  shows "space_edit v A v2"
proof -
  note e1 = 1[unfolded space_edit_def] and e2 = 2[unfolded space_edit_def]
  have c: "cr3 v1 = cr3 v" using e1 by simp
  have t1: "page_of (table_frame v1 d) \<in> A \<or> table_frame v1 d \<in> table_frame v ` used_tables v" if "d \<in> used_tables v1" for d
    using e1 that by blast
  have t2: "page_of (table_frame v2 d) \<in> B \<or> table_frame v2 d \<in> table_frame v1 ` used_tables v1" if "d \<in> used_tables v2" for d
    using e2 that by blast
  have "page_of (table_frame v2 d) \<in> A \<or> table_frame v2 d \<in> table_frame v ` used_tables v" if "d \<in> used_tables v2" for d
    using t2[OF that] t1 B by (metis imageE subsetD)
  moreover have "pmem v2 pa = pmem v pa"
    if pa: "page_of pa \<notin> A" "\<forall>d\<in>used_tables v. page_of pa \<noteq> page_of (table_frame v d)" "\<forall>d<768. pa \<noteq> slot (cr3 v) d" for pa
  proof -
    have "page_of pa \<noteq> page_of (table_frame v1 d)" if "d \<in> used_tables v1" for d using t1[OF that] pa(1,2) by (metis imageE)
    moreover have "page_of pa \<notin> B" using pa(1) B by blast
    ultimately have "pmem v2 pa = pmem v1 pa" using e2 pa(3) c by simp
    also have "\<dots> = pmem v pa" using e1 pa by simp
    finally show ?thesis .
  qed
  ultimately show ?thesis using e1 e2 unfolding space_edit_def by simp
qed

text \<open>A fresh, cleared table keeps isolation and changes no user page.\<close>

lemma install_table:
  assumes iso: "isolated v A" and d: "d < 768" "d \<notin> used_tables v" and t: "4096 dvd unat t" "page_of t \<in> A"
  defines "v' \<equiv> v\<lparr>pmem := clear_table t 1024 ((pmem v)(slot (cr3 v) d := t OR 7))\<rparr>"
  shows "isolated v' (A - {page_of t})" "p < user_pages \<Longrightarrow> user_pte v' p = user_pte v p"
    "used_tables v' = insert d (used_tables v)" "table_frame v' d = t" "space_edit v A v'"
proof -
  note c = isolatedD(2,3)[OF iso]
  have ne: "t \<noteq> cr3 v" "e \<in> used_tables v \<Longrightarrow> table_frame v e \<noteq> t" for e using t(2) c(2) isolatedD(6)[OF iso] by auto
  have cs: "clear_table t 1024 q (slot b j) = (if b = t then 0 else q (slot b j))" if "4096 dvd unat b" "j < 1024" for q b j
    using that t(1) by (auto simp: clear_table_def slot_eq_iff)
  have cr: "cr3 v' = cr3 v" "paging v' = paging v" by (simp_all add: v'_def)
  have dir: "pmem v' (slot (cr3 v) e) = (if e = d then t OR 7 else pmem v (slot (cr3 v) e))" if "e < 1024" for e
    using that d(1) c(1) cs[OF c(1) that] ne(1) by (simp add: v'_def slot_inj)
  have pde: "pde_of v' e = (if e = d then t OR 7 else pde_of v e)" if "e < 1024" for e
    using dir[OF that] by (simp add: pde_of_def cr)
  then show u: "used_tables v' = insert d (used_tables v)" using d(1) or_7_facts(2) by (auto simp: used_tables_def split: if_splits)
  show td: "table_frame v' d = t" using pde[of d] d(1) or_7_facts(1) t(1) by (simp add: table_frame_def)
  have te: "table_frame v' e = table_frame v e" if "e \<in> used_tables v" for e
    using pde[of e] that d(2) by (auto simp: table_frame_def used_tables_def)
  have "pmem v' pa = pmem v pa" if "page_of pa \<notin> A" "\<forall>d<768. pa \<noteq> slot (cr3 v) d" for pa
  proof -
    have "pa \<noteq> slot t j" if "j < 1024" for j using \<open>page_of pa \<notin> A\<close> t page_of_slot[OF t(1) that] by auto
    then have "\<not> (\<exists>j<1024. pa = slot t j)" by blast
    then show ?thesis using that(2) d(1) by (auto simp: v'_def clear_table_def)
  qed
  then show "space_edit v A v'" using u td te t(2) by (auto simp: space_edit_def cr)
  have pte: "user_pte v' p = user_pte v p" if p: "p < user_pages" for p
  proof -
    have i: "p mod 1024 < 1024" by simp
    have "pmem v' (slot (table_frame v e) (p mod 1024)) = pmem v (slot (table_frame v e) (p mod 1024))" if e: "e \<in> used_tables v" for e
      using cs[OF isolatedD(7)[OF iso e] i] ne(2)[OF e] isolatedD(5,7)[OF iso e] c(1) d(1) by (simp add: v'_def slot_eq_iff)
    moreover have "pmem v' (slot t (p mod 1024)) = 0" using cs[OF t(1) i] by (simp add: v'_def)
    ultimately show ?thesis unfolding user_pte_eq[OF p] u using td te d(2) by auto
  qed
  then show "p < user_pages \<Longrightarrow> user_pte v' p = user_pte v p" .
  have ups: "used_pages v' = used_pages v" "\<And>p. p \<in> used_pages v \<Longrightarrow> page_frame v' p = page_frame v p"
    "\<And>p. p \<in> used_pages v \<Longrightarrow> user_pte v' p = user_pte v p"
    using pte by (auto simp: used_pages_def page_frame_def)
  show "isolated v' (A - {page_of t})" unfolding isolated_def ups(1) cr
  proof (intro conjI)
    show "recursive_ok v'" using isolatedD(1)[OF iso] dir[of 1023] d(1) by (simp add: recursive_ok_def cr)
    have "user_entry (pde_of v' d)" using pde[of d] d(1) user_entryI[OF t(1)] by simp
    moreover have "pde_of v' e = pde_of v e" if "e \<in> used_tables v" for e using pde[of e] that d(2) by (auto simp: used_tables_def)
    ultimately show "\<forall>e\<in>used_tables v'. user_entry (pde_of v' e) \<and> table_frame v' e \<noteq> cr3 v \<and> page_of (table_frame v' e) \<notin> A - {page_of t}"
      unfolding u using td te ne(1) isolatedD(4-6)[OF iso] by simp
    show "\<forall>e\<in>used_tables v'. \<forall>e'\<in>used_tables v'. table_frame v' e = table_frame v' e' \<longrightarrow> e = e'"
      unfolding u using isolatedD(8)[OF iso] ne(2) te td by (metis insertE)
    show "\<forall>e\<in>used_tables v'. \<forall>p\<in>used_pages v. table_frame v' e \<noteq> page_frame v' p"
      unfolding u using isolatedD(10)[OF iso] isolatedD(9)[OF iso] te td ups(2) t(2) by auto
  qed (use iso ups(2,3) c(2) in \<open>simp_all add: isolated_def\<close>)
qed

text \<open>A fresh frame for a page whose table is there.\<close>

lemma install_page:
  assumes iso: "isolated v A" and p: "p < user_pages" "user_pte v p = 0" and d: "p div 1024 \<in> used_tables v"
    and f: "4096 dvd unat f" "page_of f \<in> A"
  defines "v' \<equiv> v\<lparr>pmem := (pmem v)(slot (table_frame v (p div 1024)) (p mod 1024) := f OR 7)\<rparr>"
  shows "isolated v' (A - {page_of f})" "user_pte v' p = f OR 7" "q < user_pages \<Longrightarrow> q \<noteq> p \<Longrightarrow> user_pte v' q = user_pte v q"
    "used_tables v' = used_tables v" "space_edit v A v'"
proof -
  let ?t = "table_frame v (p div 1024)"
  note c = isolatedD(2,3)[OF iso] and al = isolatedD(7)[OF iso] and t = isolatedD(5,7)[OF iso d]
  have cr: "cr3 v' = cr3 v" "paging v' = paging v" by (simp_all add: v'_def)
  have dir: "pmem v' (slot (cr3 v) e) = pmem v (slot (cr3 v) e)" if "e < 1024" for e
    using that t c(1) by (simp add: v'_def slot_eq_iff)
  then have pde: "pde_of v' e = pde_of v e" if "e < 1024" for e using that by (simp add: pde_of_def cr)
  then show u: "used_tables v' = used_tables v" by (auto simp: used_tables_def)
  have te: "table_frame v' e = table_frame v e" "pde_of v' e = pde_of v e" if "e \<in> used_tables v" for e
    using pde[of e] that by (simp_all add: table_frame_def used_tables_def)
  have "pmem v' pa = pmem v pa" if "\<forall>d\<in>used_tables v. page_of pa \<noteq> page_of (table_frame v d)" for pa
  proof -
    have "page_of (slot ?t (p mod 1024)) = page_of ?t" by (rule page_of_slot[OF t(2)]) simp
    then have "pa \<noteq> slot ?t (p mod 1024)" using that d by auto
    then show ?thesis by (simp add: v'_def)
  qed
  then show "space_edit v A v'" using u te by (simp add: space_edit_def cr)
  have pte: "user_pte v' q = (if q = p then f OR 7 else user_pte v q)" if q: "q < user_pages" for q
  proof (cases "q div 1024 \<in> used_tables v")
    case True
    have "slot (table_frame v (q div 1024)) (q mod 1024) = slot ?t (p mod 1024) \<longleftrightarrow> q = p"
    proof -
      have "slot (table_frame v (q div 1024)) (q mod 1024) = slot ?t (p mod 1024) \<longleftrightarrow> q div 1024 = p div 1024 \<and> q mod 1024 = p mod 1024"
        using slot_eq_iff[OF al[OF True] t(2)] isolatedD(8)[OF iso True d] by auto
      then show ?thesis by (metis div_mult_mod_eq)
    qed
    then show ?thesis unfolding user_pte_eq[OF q] u using True te by (simp add: v'_def)
  next
    case False
    then show ?thesis unfolding user_pte_eq[OF q] u using d by auto
  qed
  then show "user_pte v' p = f OR 7" "q < user_pages \<Longrightarrow> q \<noteq> p \<Longrightarrow> user_pte v' q = user_pte v q" using p(1) by simp_all
  have ups: "used_pages v' = insert p (used_pages v)" using pte p or_7_facts(2) by (auto simp: used_pages_def split: if_splits)
  have np: "p \<notin> used_pages v" using p by (simp add: used_pages_def)
  have pe: "page_frame v' q = page_frame v q" "user_pte v' q = user_pte v q" if "q \<in> used_pages v" for q
    using pte[of q] that np by (auto simp: used_pages_def page_frame_def)
  have pp: "page_frame v' p = f" "user_entry (user_pte v' p)" using pte[OF p(1)] or_7_facts(1)[OF f(1)] user_entryI[OF f(1)] by (simp_all add: page_frame_def)
  have fresh: "f \<noteq> cr3 v" "e \<in> used_tables v \<Longrightarrow> table_frame v e \<noteq> f" "q \<in> used_pages v \<Longrightarrow> page_frame v q \<noteq> f" for e q
    using f(2) c(2) isolatedD(6,9)[OF iso] by auto
  show "isolated v' (A - {page_of f})" unfolding isolated_def u cr ups
  proof (intro conjI)
    show "recursive_ok v'" using isolatedD(1)[OF iso] dir[of 1023] by (simp add: recursive_ok_def cr)
    show "\<forall>q\<in>insert p (used_pages v). user_entry (user_pte v' q) \<and> page_frame v' q \<noteq> cr3 v \<and> page_of (page_frame v' q) \<notin> A - {page_of f}"
      using pp fresh(1) pe iso by (simp add: isolated_def)
    show "\<forall>q\<in>insert p (used_pages v). \<forall>q'\<in>insert p (used_pages v). page_frame v' q = page_frame v' q' \<longrightarrow> q = q'"
      using isolatedD(11)[OF iso] fresh(3) pe pp by (metis insertE)
    show "\<forall>e\<in>used_tables v. \<forall>q\<in>insert p (used_pages v). table_frame v' e \<noteq> page_frame v' q"
      using isolatedD(10)[OF iso] fresh(2) te pe pp by auto
  qed (use iso te c(2) in \<open>simp_all add: isolated_def\<close>)
qed

section \<open>Mapping pages\<close>

text \<open>The frame allocator can still serve \<open>n\<close> requests, none of them with frame 0.\<close>

definition frames_left :: "linker_symbols \<Rightarrow> physical_mem_t \<Rightarrow> nat \<Rightarrow> bool" where
  "frames_left ls pm n \<longleftrightarrow> (n > 0 \<longrightarrow> \<not> no_page_available pm) \<and> 0 \<notin> usable ls pm \<and> n \<le> card (usable ls pm)"

lemma frames_left_alloc:
  assumes "frames_left ls pm (Suc n)"
  obtains f pm' where "allocate_physical_page ls pm = (f, pm')" "4096 dvd unat f" "page_of f \<in> avail pm"
    "avail pm' = avail pm - {page_of f}" "frames_left ls pm' n"
proof -
  let ?k = "Min (usable ls pm)"
  have a: "\<not> no_page_available pm" "usable ls pm \<noteq> {}" using assms by (auto simp: frames_left_def)
  note s = allocate_physical_page_some[OF a]
  have k: "?k \<in> usable ls pm" using a(2) by simp
  have pk: "page_of (of_nat ?k * PAGE_SIZE) = ?k" "4096 dvd unat (of_nat ?k * PAGE_SIZE :: u32)"
    using s(4) by (simp_all add: unat_frame_address page_of_def)
  have u: "usable ls (snd (allocate_physical_page ls pm)) = usable ls pm - {?k}" unfolding usable_def s(2) by blast
  have "card (usable ls pm - {?k}) = card (usable ls pm) - 1" using card_Diff_singleton[OF k] .
  then have "frames_left ls (snd (allocate_physical_page ls pm)) n"
    using assms s(3) unfolding frames_left_def u by (simp, linarith)
  moreover have "?k \<in> avail pm" using k unfolding usable_def by blast
  ultimately show thesis using that[of "of_nat ?k * PAGE_SIZE" "snd (allocate_physical_page ls pm)"] s(1,2) pk
    by (metis prod.collapse)
qed

lemma window_nonzero: "RECURSIVE_PGD_ADDRESS + 4 * (of_nat i * 1024 + of_nat j) \<noteq> 0" if "i < 1024" "j < 1024"
  using window_address(1)[OF that] by auto

lemma write_page_entry:
  assumes iso: "isolated v A" and p: "p < user_pages" and d: "p div 1024 \<in> used_tables v"
  shows "do { v4 \<leftarrow> vwrite v (RECURSIVE_PGD_ADDRESS + 4 * (of_nat (p div 1024) * 1024 + of_nat (p mod 1024))) f;
              edit_entry_attributes v4 (RECURSIVE_PGD_ADDRESS + 4 * (of_nat (p div 1024) * 1024 + of_nat (p mod 1024))) 7 }
    = Some (v\<lparr>pmem := (pmem v)(slot (table_frame v (p div 1024)) (p mod 1024) := f OR 7)\<rparr>)"
proof (rule edit_after_write)
  let ?t = "table_frame v (p div 1024)"
  note r = isolatedD(1)[OF iso] and t = isolated_table_at[OF iso d] and al = isolatedD(5,7)[OF iso d]
  have i: "p div 1024 < 1024" "p mod 1024 < 1024" using p by (simp_all add: user_pages_def)
  show "translate v (RECURSIVE_PGD_ADDRESS + 4 * (of_nat (p div 1024) * 1024 + of_nat (p mod 1024))) = Some (slot ?t (p mod 1024))"
    by (rule recursive_entry[OF r t i(2)])
  show "translate (v\<lparr>pmem := (pmem v)(slot ?t (p mod 1024) := f)\<rparr>)
      (RECURSIVE_PGD_ADDRESS + 4 * (of_nat (p div 1024) * 1024 + of_nat (p mod 1024))) = Some (slot ?t (p mod 1024))"
    using table_write(1,2)[OF r al(2,1) i(2)] t i(2) by (intro recursive_entry) simp_all
  show "RECURSIVE_PGD_ADDRESS + 4 * (of_nat (p div 1024) * 1024 + of_nat (p mod 1024)) \<noteq> 0" by (rule window_nonzero[OF i])
qed

text \<open>The directory entry of a new table: the entry itself is not in the window that is edited.\<close>

lemma write_directory_entry:
  assumes iso: "isolated v A" and d: "d < 768"
  shows "do { v1 \<leftarrow> vwrite v (RECURSIVE_PGT_ADDRESS + 4 * of_nat d) t;
              edit_entry_attributes v1 (RECURSIVE_PGT_ADDRESS + 4 * of_nat d) 7 }
    = Some (v\<lparr>pmem := (pmem v)(slot (cr3 v) d := t OR 7)\<rparr>)"
proof (rule edit_after_write)
  note r = isolatedD(1)[OF iso]
  have "recursive_ok (v\<lparr>pmem := (pmem v)(slot (cr3 v) d := t)\<rparr>)" using r d by (simp add: recursive_ok_def slot_inj)
  then show "translate v (RECURSIVE_PGT_ADDRESS + 4 * of_nat d) = Some (slot (cr3 v) d)"
    "translate (v\<lparr>pmem := (pmem v)(slot (cr3 v) d := t)\<rparr>) (RECURSIVE_PGT_ADDRESS + 4 * of_nat d) = Some (slot (cr3 v) d)"
    using recursive_directory_entry[OF r, of d] recursive_directory_entry[of "v\<lparr>pmem := (pmem v)(slot (cr3 v) d := t)\<rparr>" d] d by simp_all
  have "unat (RECURSIVE_PGT_ADDRESS + 4 * of_nat d) = 0xFFFFF000 + 4 * d" using d by (simp add: RECURSIVE_PGT_ADDRESS_def unat_word_ariths unat_of_nat)
  then show "RECURSIVE_PGT_ADDRESS + 4 * of_nat d \<noteq> 0" by auto
qed

lemma new_table:
  assumes iso: "isolated v A" and d: "d < 768" "d \<notin> used_tables v" and t: "4096 dvd unat t" "page_of t \<in> A"
  shows "do { v1 \<leftarrow> vwrite v (RECURSIVE_PGT_ADDRESS + 4 * of_nat d) t;
              v2 \<leftarrow> edit_entry_attributes v1 (RECURSIVE_PGT_ADDRESS + 4 * of_nat d) 7;
              zero_page v2 (RECURSIVE_PGD_ADDRESS + 4 * (of_nat d * 1024)) }
    = Some (v\<lparr>pmem := clear_table t 1024 ((pmem v)(slot (cr3 v) d := t OR 7))\<rparr>)"
proof -
  let ?v2 = "v\<lparr>pmem := (pmem v)(slot (cr3 v) d := t OR 7)\<rparr>"
  have r: "recursive_ok ?v2" using isolatedD(1)[OF iso] d(1) by (simp add: recursive_ok_def slot_inj)
  have ta: "table_at ?v2 d t" using t(1) d(1) or_7_facts(3)[of 0] by (auto simp: table_at_def intro!: exI[of _ 7])
  have ne: "t \<noteq> cr3 ?v2" using t(2) isolatedD(3)[OF iso] by auto
  have w: "vwrite v (RECURSIVE_PGT_ADDRESS + 4 * of_nat d) t \<bind> (\<lambda>v1. edit_entry_attributes v1 (RECURSIVE_PGT_ADDRESS + 4 * of_nat d) 7) = Some ?v2"
    by (rule write_directory_entry[OF iso d(1)])
  show ?thesis using zero_page_window[OF r ta ne] unfolding bind_assoc[symmetric] w by simp
qed

lemma frames_left_less: "frames_left ls pm (Suc n) \<Longrightarrow> frames_left ls pm n"
  by (simp add: frames_left_def)

lemma map_user_page:
  assumes iso: "isolated (vmem st) A" and f: "4096 dvd unat f" "page_of f \<in> A" "avail (frames st) = A - {page_of f}"
    and p: "p < user_pages" "user_pte (vmem st) p = 0" and left: "frames_left ls (frames st) (Suc n)"
  shows "\<exists>st'. map_user_virtual_address_to_physical ls st (of_nat p * PAGE_SIZE) f = Some st'
    \<and> isolated (vmem st') (avail (frames st')) \<and> user_pte (vmem st') p = f OR 7
    \<and> (\<forall>q<user_pages. q \<noteq> p \<longrightarrow> user_pte (vmem st') q = user_pte (vmem st) q)
    \<and> frames_left ls (frames st') n \<and> avail (frames st') \<subseteq> avail (frames st) \<and> space_edit (vmem st) A (vmem st')"
proof -
  let ?v = "vmem st" and ?d = "p div 1024"
  note i = user_page_indices[OF p(1)]
  have pde: "vread ?v (RECURSIVE_PGT_ADDRESS + 4 * of_nat ?d) = Some (pde_of ?v ?d)"
    using recursive_directory_entry[OF isolatedD(1)[OF iso], of ?d] i(3) by (simp add: vread_def pde_of_def)
  have fin: "do { v4 \<leftarrow> vwrite v (RECURSIVE_PGD_ADDRESS + 4 * (of_nat ?d * 1024 + of_nat (p mod 1024))) f;
        v5 \<leftarrow> edit_entry_attributes v4 (RECURSIVE_PGD_ADDRESS + 4 * (of_nat ?d * 1024 + of_nat (p mod 1024))) 7; Some (g v5) }
      = Some (g (v\<lparr>pmem := (pmem v)(slot (table_frame v ?d) (p mod 1024) := f OR 7)\<rparr>))"
    if "isolated v B" "?d \<in> used_tables v" for v B and g :: "vm \<Rightarrow> kernel_mm"
    using write_page_entry[OF that(1) p(1) that(2), of f] by (cases "vwrite v (RECURSIVE_PGD_ADDRESS + 4 * (of_nat ?d * 1024 + of_nat (p mod 1024))) f") auto
  show ?thesis
  proof (cases "?d \<in> used_tables ?v")
    case True
    let ?v' = "?v\<lparr>pmem := (pmem ?v)(slot (table_frame ?v ?d) (p mod 1024) := f OR 7)\<rparr>"
    note w = install_page[OF iso p True f(1,2)]
    have "map_user_virtual_address_to_physical ls st (of_nat p * PAGE_SIZE) f = Some (st\<lparr>vmem := ?v'\<rparr>)"
      using fin[OF iso True, of "\<lambda>v. st\<lparr>vmem := v\<rparr>"] pde True i(1,2)
      by (simp add: map_user_virtual_address_to_physical_def Let_def or_7 PAGE_TABLE_SIZE_def used_tables_def)
    then show ?thesis using w(1-3,5) f(3) frames_left_less[OF left] by simp
  next
    case False
    obtain t fr where t: "allocate_physical_page ls (frames st) = (t, fr)" "4096 dvd unat t" "page_of t \<in> avail (frames st)"
      "avail fr = avail (frames st) - {page_of t}" "frames_left ls fr n" using frames_left_alloc[OF left] by blast
    let ?v1 = "?v\<lparr>pmem := clear_table t 1024 ((pmem ?v)(slot (cr3 ?v) ?d := t OR 7))\<rparr>"
    have tA: "page_of t \<in> A" "page_of f \<in> A - {page_of t}" using t(3) f by auto
    note n = install_table[OF iso i(3) False t(2) tA(1)]
    have d1: "?d \<in> used_tables ?v1" using n(3) by simp
    have p1: "user_pte ?v1 p = 0" using n(2)[OF p(1)] p(2) by simp
    let ?v2 = "?v1\<lparr>pmem := (pmem ?v1)(slot (table_frame ?v1 ?d) (p mod 1024) := f OR 7)\<rparr>"
    note w = install_page[OF n(1) p(1) p1 d1 f(1) tA(2)]
    have z: "pde_of ?v ?d = 0" using False i(3) by (simp add: used_tables_def)
    have nt: "do { v1 \<leftarrow> vwrite ?v (RECURSIVE_PGT_ADDRESS + 4 * of_nat ?d) t;
        v2 \<leftarrow> edit_entry_attributes v1 (RECURSIVE_PGT_ADDRESS + 4 * of_nat ?d) 7;
        v3 \<leftarrow> zero_page v2 (RECURSIVE_PGD_ADDRESS + 4 * (of_nat ?d * 1024)); h v3 } = h ?v1" for h :: "vm \<Rightarrow> kernel_mm option"
      using new_table[OF iso i(3) False t(2) tA(1)] unfolding bind_assoc[symmetric] by simp
    have "map_user_virtual_address_to_physical ls st (of_nat p * PAGE_SIZE) f = Some (st\<lparr>frames := fr, vmem := ?v2\<rparr>)"
      using fin[OF n(1) d1, of "\<lambda>v. st\<lparr>frames := fr, vmem := v\<rparr>"] nt pde z i(1,2) t(1)
      by (simp add: map_user_virtual_address_to_physical_def Let_def or_7 PAGE_TABLE_SIZE_def bind_assoc del: bind_assoc[symmetric])
    moreover have "avail fr = A - {page_of t} - {page_of f}" using t(4) f(3) by auto
    moreover have "user_pte ?v2 q = user_pte ?v q" if "q < user_pages" "q \<noteq> p" for q using w(3)[OF that] n(2)[OF that(1)] by simp
    moreover have "space_edit ?v A ?v2" by (rule space_edit_trans[OF n(5) w(5)]) blast
    ultimately show ?thesis using w(1,2) t(4,5) by (intro exI[of _ "st\<lparr>frames := fr, vmem := ?v2\<rparr>"]) auto
  qed
qed

lemma mmap_step:
  assumes iso: "isolated (vmem st) (avail (frames st))" and p: "p < m" "m < user_pages" and left: "frames_left ls (frames st) (Suc (Suc n))"
  shows "\<exists>st1. mmap_loop ls (of_nat p * PAGE_SIZE) (of_nat m * PAGE_SIZE) st = mmap_loop ls (of_nat (Suc p) * PAGE_SIZE) (of_nat m * PAGE_SIZE) st1
    \<and> isolated (vmem st1) (avail (frames st1)) \<and> frames_left ls (frames st1) n \<and> avail (frames st1) \<subseteq> avail (frames st)
    \<and> space_edit (vmem st) (avail (frames st)) (vmem st1)
    \<and> (\<forall>q<user_pages. q \<noteq> p \<longrightarrow> user_pte (vmem st1) q = user_pte (vmem st) q)
    \<and> (if user_pte (vmem st) p \<noteq> 0 then user_pte (vmem st1) p = user_pte (vmem st) p
       else \<exists>f. user_pte (vmem st1) p = f OR 7 \<and> 4096 dvd unat f \<and> page_of f \<in> avail (frames st))"
proof -
  have pu: "p < user_pages" using p by simp
  have "unat (of_nat k * PAGE_SIZE :: u32) = 4096 * k" if "k < user_pages" for k
    using user_page_indices(5)[OF that] .
  then have lt: "(of_nat p * PAGE_SIZE :: u32) < of_nat m * PAGE_SIZE" using p pu by (simp add: word_less_nat_alt)
  have nx: "of_nat p * PAGE_SIZE + PAGE_SIZE = (of_nat (Suc p) * PAGE_SIZE :: u32)" by (simp add: algebra_simps)
  note ex = page_exists_user[OF iso pu]
  show ?thesis
  proof (cases "user_pte (vmem st) p = 0")
    case False
    then have "mmap_loop ls (of_nat p * PAGE_SIZE) (of_nat m * PAGE_SIZE) st = mmap_loop ls (of_nat (Suc p) * PAGE_SIZE) (of_nat m * PAGE_SIZE) st"
      using lt ex nx by (subst mmap_loop.simps) (simp del: of_nat_Suc)
    then show ?thesis using iso False frames_left_less[OF frames_left_less[OF left]] space_edit_refl by (intro exI[of _ st]) simp
  next
    case True
    obtain f fr where f: "allocate_physical_page ls (frames st) = (f, fr)" "4096 dvd unat f" "page_of f \<in> avail (frames st)"
      "avail fr = avail (frames st) - {page_of f}" "frames_left ls fr (Suc n)" using frames_left_alloc[OF left] by blast
    obtain st1 where st1: "map_user_virtual_address_to_physical ls (st\<lparr>frames := fr\<rparr>) (of_nat p * PAGE_SIZE) f = Some st1"
      "isolated (vmem st1) (avail (frames st1))" "user_pte (vmem st1) p = f OR 7"
      "\<forall>q<user_pages. q \<noteq> p \<longrightarrow> user_pte (vmem st1) q = user_pte (vmem st) q" "frames_left ls (frames st1) n" "avail (frames st1) \<subseteq> avail fr"
      "space_edit (vmem st) (avail (frames st)) (vmem st1)"
      using map_user_page[of "st\<lparr>frames := fr\<rparr>" "avail (frames st)" f p ls n] iso f(2-5) pu True by auto
    have "mmap_loop ls (of_nat p * PAGE_SIZE) (of_nat m * PAGE_SIZE) st = mmap_loop ls (of_nat (Suc p) * PAGE_SIZE) (of_nat m * PAGE_SIZE) st1"
      using lt ex True f(1) st1(1) nx by (subst mmap_loop.simps) (simp del: of_nat_Suc)
    moreover have "avail (frames st1) \<subseteq> avail (frames st)" using st1(6) f(4) by blast
    ultimately show ?thesis using st1(2-5,7) f(2,3) True by auto
  qed
qed

text \<open>What mapping the pages from \<open>p\<close> to \<open>m\<close> makes of the user half.\<close>

definition mapped_range :: "kernel_mm \<Rightarrow> kernel_mm \<Rightarrow> nat \<Rightarrow> nat \<Rightarrow> bool" where
  "mapped_range st st' p m \<longleftrightarrow> isolated (vmem st') (avail (frames st')) \<and> avail (frames st') \<subseteq> avail (frames st)
     \<and> space_edit (vmem st) (avail (frames st)) (vmem st')
     \<and> (\<forall>q<user_pages. if q \<in> {p..<m} \<and> user_pte (vmem st) q = 0
          then \<exists>f. user_pte (vmem st') q = f OR 7 \<and> 4096 dvd unat f \<and> page_of f \<in> avail (frames st)
          else user_pte (vmem st') q = user_pte (vmem st) q)"

lemma mmap_loop_maps:
  assumes "isolated (vmem st) (avail (frames st))" "p \<le> m" "m < user_pages" "frames_left ls (frames st) (2 * (m - p) + k)"
  shows "\<exists>st'. mmap_loop ls (of_nat p * PAGE_SIZE) (of_nat m * PAGE_SIZE) st = Some st' \<and> mapped_range st st' p m
    \<and> frames_left ls (frames st') k"
  using assms
proof (induction "m - p" arbitrary: p st)
  case 0
  then have "p = m" by simp
  then show ?case using 0 by (subst mmap_loop.simps) (simp add: mapped_range_def space_edit_refl)
next
  case (Suc l)
  then have p: "p < m" by simp
  then have "2 * (m - p) + k = Suc (Suc (2 * (m - Suc p) + k))" by simp
  then have l: "frames_left ls (frames st) (Suc (Suc (2 * (m - Suc p) + k)))" using Suc.prems(4) by simp
  obtain st1 where s: "mmap_loop ls (of_nat p * PAGE_SIZE) (of_nat m * PAGE_SIZE) st = mmap_loop ls (of_nat (Suc p) * PAGE_SIZE) (of_nat m * PAGE_SIZE) st1"
    "isolated (vmem st1) (avail (frames st1))" "frames_left ls (frames st1) (2 * (m - Suc p) + k)" "avail (frames st1) \<subseteq> avail (frames st)"
    "space_edit (vmem st) (avail (frames st)) (vmem st1)"
    "\<forall>q<user_pages. q \<noteq> p \<longrightarrow> user_pte (vmem st1) q = user_pte (vmem st) q"
    "if user_pte (vmem st) p \<noteq> 0 then user_pte (vmem st1) p = user_pte (vmem st) p
     else \<exists>f. user_pte (vmem st1) p = f OR 7 \<and> 4096 dvd unat f \<and> page_of f \<in> avail (frames st)"
    using mmap_step[OF Suc.prems(1) p Suc.prems(3) l] by blast
  have "l = m - Suc p" "Suc p \<le> m" using Suc.hyps(2) p by simp_all
  from Suc.hyps(1)[OF this(1) s(2) this(2) Suc.prems(3) s(3)] obtain st'
    where st': "mmap_loop ls (of_nat (Suc p) * PAGE_SIZE) (of_nat m * PAGE_SIZE) st1 = Some st'" "mapped_range st1 st' (Suc p) m"
    "frames_left ls (frames st') k" by blast
  note r = st'(2)[unfolded mapped_range_def]
  have "if q \<in> {p..<m} \<and> user_pte (vmem st) q = 0
      then \<exists>f. user_pte (vmem st') q = f OR 7 \<and> 4096 dvd unat f \<and> page_of f \<in> avail (frames st)
      else user_pte (vmem st') q = user_pte (vmem st) q" if q: "q < user_pages" for q
  proof (cases "q = p")
    case True
    then have "user_pte (vmem st') q = user_pte (vmem st1) q" using r q by simp
    then show ?thesis using s(7) True p by simp
  next
    case False
    then have "user_pte (vmem st1) q = user_pte (vmem st) q" "q \<in> {p..<m} \<longleftrightarrow> q \<in> {Suc p..<m}" using s(6) q by auto
    then show ?thesis using r q s(4) by (metis subsetD)
  qed
  moreover have "space_edit (vmem st) (avail (frames st)) (vmem st')" using space_edit_trans[OF s(5)] r s(4) by blast
  ultimately have "mapped_range st st' p m" using r s(4) unfolding mapped_range_def by blast
  then show ?case using s(1) st'(1,3) by simp
qed

lemma user_entry_bits: "user_entry e \<Longrightarrow> bit e 0 \<and> bit e 1 \<and> bit e 2"
  unfolding user_entry_def using or_7_facts(3-5) by blast

lemma isolated_user_writable:
  assumes iso: "isolated v A" and p: "unat va div 4096 = p" "p \<in> used_pages v"
  shows "translate v va = Some (page_frame v p + (va AND 0xfff)) \<and> user_writable v va"
proof -
  have pu: "p < user_pages" "user_pte v p \<noteq> 0" using p(2) by (auto simp: used_pages_def)
  have i: "unat va div 2 ^ 22 = p div 1024" "unat va div 4096 mod 1024 = p mod 1024"
    using p(1) div_mult2_eq[of "unat va" 4096 1024] by simp_all
  have d: "p div 1024 \<in> used_tables v" using pu user_pte_eq[OF pu(1), of v] by (auto split: if_splits)
  have "table_at v (unat va div 2 ^ 22) (table_frame v (p div 1024))" using isolated_table_at[OF iso d] i(1) by simp
  note w = table_at_translate[OF isolatedD(1)[OF iso] this]
  have e: "pmem v (slot (table_frame v (p div 1024)) (unat va div 4096 mod 1024)) = user_pte v p" using user_pte_eq[OF pu(1), of v] d i(2) by simp
  have "user_entry (user_pte v p)" "user_entry (pde_of v (p div 1024))" using iso p(2) d by (simp_all add: isolated_def)
  then have b: "bit (user_pte v p) 0" "bit (user_pte v p) 1" "bit (user_pte v p) 2" "bit (pde_of v (p div 1024)) 1" "bit (pde_of v (p div 1024)) 2"
    using user_entry_bits by blast+
  have pd: "pde_at v va = pde_of v (p div 1024)" using w(3) i(1) by (simp add: pde_of_def)
  show ?thesis using w(1,2) e b pd by (simp add: user_writable_def page_frame_def)
qed

text \<open>Refusals leave the state alone; the size in bytes wraps, so that a request for all pages of
  the address space is granted without mapping one.\<close>

lemma mmap_refuses:
  "KERNEL_VIRTUAL_OFFSET \<le> va \<or> PAGE_BOUNDARY va \<noteq> va \<Longrightarrow> mmap ls st va n = Some (INVALID_ARGUMENT, st)"
  by (auto simp: mmap_def)

lemma mmap_size_wraps: "mmap ls st 0 0x100000 = Some (SUCCESS, st)"
  by (simp add: mmap_def PAGE_SIZE_def KERNEL_VIRTUAL_OFFSET_def PAGE_BOUNDARY_def mmap_loop.simps)

lemma mmap_maps:
  assumes iso: "isolated (vmem st) (avail (frames st))" and va: "4096 dvd unat va" "unat va + 4096 * n < 0xC0000000"
    and left: "frames_left ls (frames st) (2 * n + k)"
  obtains st' where "mmap ls st va (of_nat n) = Some (SUCCESS, st')" "mapped_range st st' (page_of va) (page_of va + n)"
    "page_of va + n < user_pages" "frames_left ls (frames st') k"
proof -
  let ?p = "page_of va"
  have u: "unat va = 4096 * ?p" using va(1) by (simp add: page_of_def)
  then have m: "?p + n < user_pages" using va(2) by (simp add: user_pages_def)
  have e: "va = of_nat ?p * PAGE_SIZE" using u user_page_indices(5)[of ?p] m by (simp add: word_unat_eq_iff)
  have lim: "va + of_nat n * PAGE_SIZE = of_nat (?p + n) * PAGE_SIZE" by (subst (1) e) (simp add: algebra_simps)
  have "unat (va + of_nat n * PAGE_SIZE) = 4096 * (?p + n)" unfolding lim using user_page_indices(5)[OF m] .
  then have ok: "\<not> KERNEL_VIRTUAL_OFFSET \<le> va" "\<not> KERNEL_VIRTUAL_OFFSET \<le> va + of_nat n * PAGE_SIZE" "PAGE_BOUNDARY va = va"
    using u m va(1) by (simp_all add: KERNEL_VIRTUAL_OFFSET_def word_le_nat_alt user_pages_def page_simps)
  have "frames_left ls (frames st) (2 * (?p + n - ?p) + k)" using left by simp
  then obtain st' where "mmap_loop ls va (va + of_nat n * PAGE_SIZE) st = Some st'" "mapped_range st st' ?p (?p + n)" "frames_left ls (frames st') k"
    using mmap_loop_maps[OF iso le_add1 m] unfolding lim e[symmetric] by blast
  then show thesis using that ok m by (simp add: mmap_def)
qed

text \<open>C1: \<open>mmap\<close> gives a process the pages it asks for. For a page-aligned range below the kernel,
  with two free frames per page, it succeeds, and afterwards every address of the range can be
  written from ring 3. Pages that were there keep their frame, new ones get a frame that was free,
  and no other user page changes. The address space stays isolated: directory, tables and pages
  lie in frames of their own that the frame allocator no longer hands out; memory outside the user
  half, its tables and the new frames keeps its contents.\<close>

theorem mmap_correct:
  assumes iso: "isolated (vmem st) (avail (frames st))" and va: "4096 dvd unat va" "unat va + 4096 * n < 0xC0000000"
    and left: "frames_left ls (frames st) (2 * n)"
  shows "\<exists>st'. mmap ls st va (of_nat n) = Some (SUCCESS, st') \<and> mapped_range st st' (page_of va) (page_of va + n)
    \<and> (\<forall>a. page_of a \<in> {page_of va..<page_of va + n} \<longrightarrow> user_writable (vmem st') a)"
proof -
  let ?p = "page_of va"
  obtain st' where st': "mmap ls st va (of_nat n) = Some (SUCCESS, st')" "mapped_range st st' ?p (?p + n)" "?p + n < user_pages"
    using mmap_maps[OF iso va, of ls 0] left by auto
  have "user_writable (vmem st') a" if a: "page_of a \<in> {?p..<?p + n}" for a
  proof -
    note r = st'(2)[unfolded mapped_range_def]
    have lt: "page_of a < user_pages" using a st'(3) by simp
    have "if page_of a \<in> {?p..<?p + n} \<and> user_pte (vmem st) (page_of a) = 0
        then \<exists>f. user_pte (vmem st') (page_of a) = f OR 7 \<and> 4096 dvd unat f \<and> page_of f \<in> avail (frames st)
        else user_pte (vmem st') (page_of a) = user_pte (vmem st) (page_of a)" using r lt by blast
    then have "user_pte (vmem st') (page_of a) \<noteq> 0" using a or_7_facts(2) by (cases "user_pte (vmem st) (page_of a) = 0") auto
    then have "page_of a \<in> used_pages (vmem st')" using lt by (simp add: used_pages_def)
    then show ?thesis using isolated_user_writable[OF _ page_of_def[symmetric]] r by blast
  qed
  then show ?thesis using st' by simp
qed

definition empty_space :: kernel_mm where
  "empty_space = booted\<lparr>vmem := \<lparr>pmem = (\<lambda>_. 0)(slot 0x101000 1023 := 0x101003), cr3 = 0x101000, paging = True\<rparr>\<rparr>"

lemma empty_space_isolated: "isolated (vmem empty_space) (avail (frames empty_space))"
proof -
  have z: "pde_of (vmem empty_space) d = 0" if "d < 768" for d using that by (simp add: pde_of_def empty_space_def slot_inj)
  then have "used_tables (vmem empty_space) = {}" "used_pages (vmem empty_space) = {}"
    by (auto simp: used_tables_def used_pages_def user_pte_def user_pages_def)
  moreover have "recursive_ok (vmem empty_space)" by (simp add: recursive_ok_def empty_space_def)
  moreover have "page_of (cr3 (vmem empty_space)) \<notin> avail (frames empty_space)"
    using avail_booted[of 257] by (simp add: empty_space_def page_of_def)
  ultimately show ?thesis by (simp add: isolated_def)
qed

theorem mmap_correct_witness:
  "\<exists>st'. mmap example_linker empty_space 0x400000 3 = Some (SUCCESS, st') \<and> user_writable (vmem st') 0x402010"
proof -
  have "scan_start example_linker = 320" by (simp add: scan_start_def example_linker_def)
  then have u: "usable example_linker (frames booted) = {320..<2 ^ 20}" unfolding usable_def by (intro set_eqI) (auto simp only: avail_booted mem_Collect_eq atLeastLessThan_iff)
  have "\<not> no_page_available (frames booted)" "frames empty_space = frames booted" by (simp_all add: booted_def empty_space_def)
  moreover have "card {320..<2 ^ 20 :: nat} = 2 ^ 20 - 320" by (rule card_atLeastLessThan)
  ultimately have "frames_left example_linker (frames empty_space) (2 * 3)" unfolding frames_left_def by (simp only: u) simp
  with mmap_correct[OF empty_space_isolated, of "0x400000" 3 example_linker]
  obtain st' where st': "mmap example_linker empty_space 0x400000 3 = Some (SUCCESS, st')"
    "\<forall>a. page_of a \<in> {page_of 0x400000..<page_of 0x400000 + 3} \<longrightarrow> user_writable (vmem st') a" by auto
  have "page_of 0x402010 \<in> {page_of 0x400000..<page_of 0x400000 + 3}" by (simp add: page_of_def)
  then show ?thesis using st' by blast
qed

end
