(* ===== verification/Vga.thy ===== *)
theory Vga
  imports LibcString
begin

text \<open>
  The text console of \<^verbatim>\<open>src/kernel/drivers/vga/vga.c\<close>: the cursor, the colour and the
  buffer address as the record \<open>vga_state_t\<close>, the screen as bytes of memory. The colours are
  the enumeration of \<^verbatim>\<open>vga.h\<close>, ordered by their codes. The table of special characters has
  four entries, the table of their handlers three; a call through the entry that is missing is
  \<open>None\<close>. \<open>vga_putc\<close> and \<open>backspace_handler\<close> call each other.
\<close>

section \<open>Colours\<close>

datatype vga_color =
  COLOR_BLACK | COLOR_BLUE | COLOR_GREEN | COLOR_CYAN | COLOR_RED | COLOR_MAGENTA | COLOR_BROWN
  | COLOR_LIGHT_GREY | COLOR_DARK_GREY | COLOR_LIGHT_BLUE | COLOR_LIGHT_GREEN | COLOR_LIGHT_CYAN
  | COLOR_LIGHT_RED | COLOR_LIGHT_MAGENTA | COLOR_LIGHT_BROWN | COLOR_WHITE

primrec color_code :: "vga_color \<Rightarrow> nat" where
  "color_code COLOR_BLACK = 0"
| "color_code COLOR_BLUE = 1"
| "color_code COLOR_GREEN = 2"
| "color_code COLOR_CYAN = 3"
| "color_code COLOR_RED = 4"
| "color_code COLOR_MAGENTA = 5"
| "color_code COLOR_BROWN = 6"
| "color_code COLOR_LIGHT_GREY = 7"
| "color_code COLOR_DARK_GREY = 8"
| "color_code COLOR_LIGHT_BLUE = 9"
| "color_code COLOR_LIGHT_GREEN = 10"
| "color_code COLOR_LIGHT_CYAN = 11"
| "color_code COLOR_LIGHT_RED = 12"
| "color_code COLOR_LIGHT_MAGENTA = 13"
| "color_code COLOR_LIGHT_BROWN = 14"
| "color_code COLOR_WHITE = 15"

lemma color_code_inj: "color_code c = color_code d \<Longrightarrow> c = d"
  by (cases c; cases d) simp_all

instantiation vga_color :: linorder
begin

definition less_eq_vga_color :: "vga_color \<Rightarrow> vga_color \<Rightarrow> bool" where
  "less_eq_vga_color c d = (color_code c \<le> color_code d)"

definition less_vga_color :: "vga_color \<Rightarrow> vga_color \<Rightarrow> bool" where
  "less_vga_color c d = (color_code c < color_code d)"

instance
  by standard (auto simp: less_eq_vga_color_def less_vga_color_def intro: color_code_inj)

end

section \<open>State\<close>

definition SCREEN_COLS :: u32 where "SCREEN_COLS = 80"
definition SCREEN_ROWS :: u32 where "SCREEN_ROWS = 25"
definition VGA_PHYSICAL_ADDRESS :: u32 where "VGA_PHYSICAL_ADDRESS = 0xb8000"
definition VGA_DEFAULT_COLOR :: vga_color where "VGA_DEFAULT_COLOR = COLOR_LIGHT_GREY"

record vga_state_t =
  vga_buffer :: u32
  color :: vga_color
  vga_x :: u32
  vga_y :: u32

text \<open>The console: the memory the kernel sees and the driver's static state.\<close>

record console =
  bytes :: mem
  vga_state :: vga_state_t

definition initial_vga_state :: vga_state_t where
  "initial_vga_state = \<lparr>vga_buffer = VGA_PHYSICAL_ADDRESS, color = VGA_DEFAULT_COLOR, vga_x = 0, vga_y = 0\<rparr>"

section \<open>Definitions\<close>

datatype vga_handler = newline | tab | backspace

definition special_characters :: "byte list" where
  "special_characters = [10, 9, 13, 8]"

definition special_characters_handlers :: "vga_handler list" where
  "special_characters_handlers = [newline, tab, backspace]"

function special_index_loop :: "byte \<Rightarrow> nat \<Rightarrow> u32" where
  "special_index_loop c i =
     (if i < length special_characters
      then if special_characters ! i = c then of_nat i else special_index_loop c (i + 1)
      else - 1)"
  by pat_completeness auto
termination
  by (relation "measure (\<lambda>(c, i). length special_characters - i)") auto

definition get_special_character_index :: "byte \<Rightarrow> u32" where
  "get_special_character_index c = special_index_loop c 0"

definition get_address_by_location :: "vga_state_t \<Rightarrow> u32 \<Rightarrow> u32 \<Rightarrow> u32" where
  "get_address_by_location vs x y = vga_buffer vs + ((x * 2) + (y * SCREEN_COLS * 2))"

definition y_reached_limit :: "vga_state_t \<Rightarrow> bool" where
  "y_reached_limit vs = (vga_y vs > SCREEN_ROWS)"

definition x_reached_limit :: "vga_state_t \<Rightarrow> bool" where
  "x_reached_limit vs = (vga_x vs > SCREEN_COLS)"

function vga_flush_loop :: "u32 \<Rightarrow> u32 \<Rightarrow> mem \<Rightarrow> mem" where
  "vga_flush_loop buffer i m =
     (if i < SCREEN_COLS * SCREEN_ROWS * 2
      then vga_flush_loop buffer (i + 2)
             (m(buffer + i := 32, buffer + (i + 1) := of_nat (color_code COLOR_BLACK)))
      else m)"
  by pat_completeness auto
termination
proof (relation "measure (\<lambda>(buffer, i, m). 4000 - unat i)")
  fix buffer i :: u32 and m :: mem
  assume "i < SCREEN_COLS * SCREEN_ROWS * 2"
  then have "unat i < 4000" by (simp add: SCREEN_COLS_def SCREEN_ROWS_def word_less_nat_alt)
  then show "((buffer, i + 2, m(buffer + i := 32, buffer + (i + 1) := of_nat (color_code COLOR_BLACK))), buffer, i, m)
      \<in> measure (\<lambda>(buffer, i, m). 4000 - unat i)"
    by (simp add: unat_word_ariths)
qed simp

declare vga_flush_loop.simps [simp del]

definition vga_flush :: "console \<Rightarrow> console" where
  "vga_flush st =
     st\<lparr>bytes := vga_flush_loop (vga_buffer (vga_state st)) 0 (bytes st),
        vga_state := (vga_state st)\<lparr>vga_x := 0, vga_y := 0\<rparr>\<rparr>"

definition newline_handler :: "console \<Rightarrow> console" where
  "newline_handler st =
     (let vs = (vga_state st)\<lparr>vga_y := vga_y (vga_state st) + 1, vga_x := 0\<rparr>; st1 = st\<lparr>vga_state := vs\<rparr>
      in if y_reached_limit vs then vga_flush st1 else st1)"

definition tab_handler :: "console \<Rightarrow> console" where
  "tab_handler st =
     (let vs = (vga_state st)\<lparr>vga_x := vga_x (vga_state st) + 4\<rparr>; st1 = st\<lparr>vga_state := vs\<rparr>
      in if x_reached_limit vs then newline_handler st1 else st1)"

definition default_handler :: "byte \<Rightarrow> console \<Rightarrow> console" where
  "default_handler c st =
     (let vs = vga_state st; addr = get_address_by_location vs (vga_x vs) (vga_y vs);
          m1 = (bytes st)(addr := c); m2 = m1(addr + 1 := of_nat (color_code (color vs)));
          vs1 = vs\<lparr>vga_x := vga_x vs + 1\<rparr>; st1 = st\<lparr>bytes := m2, vga_state := vs1\<rparr>
      in if x_reached_limit vs1 then newline_handler st1 else st1)"

lemma special_index_cases:
  "get_special_character_index c = (if c = 10 then 0 else if c = 9 then 1 else if c = 13 then 2 else if c = 8 then 3 else - 1)"
  by (simp add: get_special_character_index_def special_index_loop.simps special_characters_def numeral_nat nth_Cons')

text \<open>The comparison of an unsigned value with 0 is kept as the code has it.\<close>

function vga_putc :: "byte \<Rightarrow> console \<Rightarrow> console option"
  and backspace_handler :: "console \<Rightarrow> console option" where
  "vga_putc c st =
     (let handler_index = get_special_character_index c
      in if handler_index \<noteq> - 1
         then if unat handler_index < length special_characters_handlers
              then (case special_characters_handlers ! unat handler_index of
                      newline \<Rightarrow> Some (newline_handler st)
                    | tab \<Rightarrow> Some (tab_handler st)
                    | backspace \<Rightarrow> backspace_handler st)
              else None
         else Some (default_handler c st))"
| "backspace_handler st =
     (if vga_x (vga_state st) - 1 \<ge> 0
      then do {
        st1 \<leftarrow> vga_putc 32 (st\<lparr>vga_state := (vga_state st)\<lparr>vga_x := vga_x (vga_state st) - 1\<rparr>\<rparr>);
        Some (st1\<lparr>vga_state := (vga_state st1)\<lparr>vga_x := vga_x (vga_state st1) - 1\<rparr>\<rparr>)
      } else Some st)"
  by pat_completeness auto
termination
proof (relation "measure (\<lambda>x. case x of Inl (c, st) \<Rightarrow> if c = 13 then 2 else 0 | Inr st \<Rightarrow> 1)", goal_cases)
  case (2 c st i)
  then have "get_special_character_index c \<noteq> - 1" "unat (get_special_character_index c) < 3"
    "special_characters_handlers ! unat (get_special_character_index c) = backspace"
    by (simp_all add: special_characters_handlers_def)
  then have "c = 13" by (auto simp: special_index_cases special_characters_handlers_def split: if_splits)
  then show ?case by simp
qed simp_all

declare vga_putc.simps [simp del] backspace_handler.simps [simp del]

text \<open>A \<open>char*\<close> argument points into the memory the console shares, or to an array that nothing
  else writes, a local buffer or a literal: then it is the bytes from there to the end of the
  array, and a read past the end is \<open>None\<close>.\<close>

datatype c_string = In_memory u32 | Array "byte list"

fun char_at :: "console \<Rightarrow> c_string \<Rightarrow> byte option" where
  "char_at st (In_memory p) = Some (bytes st p)"
| "char_at st (Array []) = None"
| "char_at st (Array (c # cs)) = Some c"

fun next_char :: "c_string \<Rightarrow> c_string" where
  "next_char (In_memory p) = In_memory (p + 1)"
| "next_char (Array cs) = Array (tl cs)"

partial_function (option) vga_print :: "c_string \<Rightarrow> console \<Rightarrow> console option" where
  "vga_print str st = do {
     c \<leftarrow> char_at st str;
     if c \<noteq> 0 then do { st1 \<leftarrow> vga_putc c st; vga_print (next_char str) st1 } else Some st
   }"

definition set_terminal_color :: "vga_color \<Rightarrow> console \<Rightarrow> console" where
  "set_terminal_color c st =
     (if c \<ge> COLOR_BLUE \<and> c \<le> COLOR_WHITE then st\<lparr>vga_state := (vga_state st)\<lparr>color := c\<rparr>\<rparr> else st)"

text \<open>\<open>VGA_WORD_TO_CHAR\<close> takes the high byte of a little-endian word.\<close>

partial_function (option) vga_scroll_find :: "mem \<Rightarrow> u32 \<Rightarrow> u32 option" where
  "vga_scroll_find m rows_iter =
     (if m (rows_iter + 1) \<noteq> 10 then vga_scroll_find m (rows_iter + 2) else Some (rows_iter + 2))"

definition vga_scroll :: "console \<Rightarrow> console option" where
  "vga_scroll st = do {
     rows_iter \<leftarrow> vga_scroll_find (bytes st) (vga_buffer (vga_state st));
     Some (st\<lparr>bytes := memcpy (bytes st) (vga_buffer (vga_state st)) rows_iter (SCREEN_COLS * (SCREEN_ROWS - 1) * 2)\<rparr>)
   }"

section \<open>Bounds of the cursor and of the writes\<close>

text \<open>Column 80 and row 25 are past the screen, and the column can be one below 0.\<close>

definition vga_ok :: "vga_state_t \<Rightarrow> bool" where
  "vga_ok vs \<longleftrightarrow> (vga_x vs \<le> 80 \<or> vga_x vs = - 1) \<and> vga_y vs \<le> 25"

definition vga_window :: "vga_state_t \<Rightarrow> u32 set" where
  "vga_window vs = span (vga_buffer vs - 4) 4166"

text \<open>What every operation of the console leaves alone.\<close>

definition vga_keeps :: "console \<Rightarrow> console \<Rightarrow> bool" where
  "vga_keeps st st' \<longleftrightarrow> vga_buffer (vga_state st') = vga_buffer (vga_state st) \<and> color (vga_state st') = color (vga_state st)
     \<and> (\<forall>a. a \<notin> vga_window (vga_state st) \<longrightarrow> bytes st' a = bytes st a)"

lemma vga_keeps_refl [simp]: "vga_keeps st st"
  by (simp add: vga_keeps_def)

lemma vga_keeps_trans: "vga_keeps st st1 \<Longrightarrow> vga_keeps st1 st2 \<Longrightarrow> vga_keeps st st2"
  by (simp add: vga_keeps_def vga_window_def)

lemma vga_keeps_cursor [simp]: "vga_keeps st (st\<lparr>vga_state := (vga_state st)\<lparr>vga_x := x, vga_y := y\<rparr>\<rparr>)"
  "vga_keeps st (st\<lparr>vga_state := (vga_state st)\<lparr>vga_x := x\<rparr>\<rparr>)"
  by (simp_all add: vga_keeps_def)

lemma pred_le_80: "x \<le> 80 \<Longrightarrow> x - 1 \<le> 80 \<or> x - 1 = - 1" for x :: u32
  by (cases "x = 0") (simp_all add: word_le_nat_alt unat_minus_one)

lemma cell_in_window:
  fixes buf x y :: u32
  assumes "unat (x + 2) \<le> 82" "unat y \<le> 25"
  shows "buf + ((x * 2) + (y * 80 * 2)) \<in> span (buf - 4) 4166 \<and> buf + ((x * 2) + (y * 80 * 2)) + 1 \<in> span (buf - 4) 4166"
proof -
  define z where "z = x + 2"
  have z: "unat z \<le> 82" using assms(1) by (simp add: z_def)
  have "unat (2 * z + 160 * y) \<le> 4164" "unat (2 * z + 160 * y + 1) \<le> 4165"
    using z assms(2) by (simp_all add: unat_word_ariths)
  then have u: "unat (2 * z + 160 * y) < 4166" "unat (2 * z + 160 * y + 1) < 4166" by simp_all
  have "buf + ((x * 2) + (y * 80 * 2)) - (buf - 4) = 2 * z + 160 * y"
    "buf + ((x * 2) + (y * 80 * 2)) + 1 - (buf - 4) = 2 * z + 160 * y + 1" by (simp_all add: z_def)
  with u show ?thesis unfolding span_iff by metis
qed

lemma flush_loop_frame:
  assumes "a \<notin> span (buf - 4) 4166" shows "vga_flush_loop buf i m a = m a"
  using assms
proof (induction buf i m rule: vga_flush_loop.induct)
  case (1 buf i m)
  show ?case
  proof (cases "i < SCREEN_COLS * SCREEN_ROWS * 2")
    case True
    then have "unat i < 4000" by (simp add: SCREEN_COLS_def SCREEN_ROWS_def word_less_nat_alt)
    then have "buf + i \<in> span (buf - 4) 4166" "buf + (i + 1) \<in> span (buf - 4) 4166"
      by (simp_all add: unat_word_ariths)
    then have "a \<noteq> buf + i" "a \<noteq> buf + (i + 1)" using 1(2) by auto
    then show ?thesis using 1(1)[OF True 1(2)] True by (subst vga_flush_loop.simps) (simp add: fun_upd_def)
  qed (subst vga_flush_loop.simps, simp)
qed

lemma vga_flush_ok: "vga_ok (vga_state (vga_flush st)) \<and> vga_keeps st (vga_flush st)"
  by (simp add: vga_flush_def vga_ok_def vga_keeps_def vga_window_def flush_loop_frame)

lemma newline_ok:
  assumes "vga_y (vga_state st) \<le> 25"
  shows "vga_ok (vga_state (newline_handler st)) \<and> vga_keeps st (newline_handler st)
    \<and> vga_x (vga_state (newline_handler st)) = 0"
proof -
  let ?st = "st\<lparr>vga_state := (vga_state st)\<lparr>vga_y := vga_y (vga_state st) + 1, vga_x := 0\<rparr>\<rparr>"
  have "vga_keeps st ?st" by (simp add: vga_keeps_def)
  then show ?thesis using vga_flush_ok[of ?st] vga_keeps_trans[of st ?st]
    by (auto simp: newline_handler_def Let_def y_reached_limit_def SCREEN_ROWS_def vga_ok_def vga_flush_def)
qed

lemma tab_ok:
  assumes "vga_ok (vga_state st)" shows "vga_ok (vga_state (tab_handler st)) \<and> vga_keeps st (tab_handler st)"
proof -
  let ?st = "st\<lparr>vga_state := (vga_state st)\<lparr>vga_x := vga_x (vga_state st) + 4\<rparr>\<rparr>"
  show ?thesis using newline_ok[of ?st] vga_keeps_trans[of st ?st] assms
    by (auto simp: tab_handler_def Let_def x_reached_limit_def SCREEN_COLS_def vga_ok_def)
qed

text \<open>The columns at which a character is stored.\<close>

lemma default_ok:
  assumes x: "vga_x (vga_state st) \<le> 80 \<or> vga_x (vga_state st) = - 1 \<or> vga_x (vga_state st) = - 2" and y: "vga_y (vga_state st) \<le> 25"
  shows "vga_ok (vga_state (default_handler c st)) \<and> vga_x (vga_state (default_handler c st)) \<le> 80 \<and> vga_keeps st (default_handler c st)"
proof -
  let ?vs = "vga_state st"
  let ?addr = "get_address_by_location ?vs (vga_x ?vs) (vga_y ?vs)"
  let ?st = "st\<lparr>bytes := (bytes st)(?addr := c, ?addr + 1 := of_nat (color_code (color ?vs))), vga_state := ?vs\<lparr>vga_x := vga_x ?vs + 1\<rparr>\<rparr>"
  have "unat (vga_x ?vs + 2) \<le> 82"
    using x by (elim disjE) (simp_all add: word_le_nat_alt unat_word_ariths)
  moreover have "unat (vga_y ?vs) \<le> 25" using y by (simp add: word_le_nat_alt)
  ultimately have "?addr \<in> vga_window ?vs" "?addr + 1 \<in> vga_window ?vs"
    using cell_in_window[of "vga_x ?vs" "vga_y ?vs" "vga_buffer ?vs"]
    unfolding vga_window_def get_address_by_location_def SCREEN_COLS_def by blast+
  then have k: "vga_keeps st ?st" by (auto simp: vga_keeps_def)
  have x': "\<not> vga_x ?vs + 1 > 80 \<Longrightarrow> vga_x ?vs + 1 \<le> 80" by simp
  show ?thesis using newline_ok[of ?st] vga_keeps_trans[OF k] k y x'
    by (auto simp: default_handler_def Let_def x_reached_limit_def SCREEN_COLS_def vga_ok_def)
qed

lemma vga_putc_simps:
  "vga_putc 10 st = Some (newline_handler st)" "vga_putc 9 st = Some (tab_handler st)"
  "vga_putc 13 st = backspace_handler st" "vga_putc 8 st = None"
  "c \<notin> set special_characters \<Longrightarrow> vga_putc c st = Some (default_handler c st)"
  by (simp_all add: vga_putc.simps special_index_cases special_characters_handlers_def special_characters_def)

lemma backspace_ok:
  assumes "vga_ok (vga_state st)"
  shows "\<exists>st'. backspace_handler st = Some st' \<and> vga_ok (vga_state st') \<and> vga_keeps st st'"
proof -
  let ?st = "st\<lparr>vga_state := (vga_state st)\<lparr>vga_x := vga_x (vga_state st) - 1\<rparr>\<rparr>"
  let ?d = "default_handler 32 ?st"
  have x: "vga_x (vga_state ?st) \<le> 80 \<or> vga_x (vga_state ?st) = - 1 \<or> vga_x (vga_state ?st) = - 2"
    using assms pred_le_80[of "vga_x (vga_state st)"] by (auto simp: vga_ok_def)
  have y: "vga_y (vga_state ?st) \<le> 25" using assms by (simp add: vga_ok_def)
  note d = default_ok[OF x y, of 32]
  have "vga_putc 32 ?st = Some ?d" by (simp add: vga_putc_simps special_characters_def)
  moreover have "vga_x (vga_state ?d) - 1 \<le> 80 \<or> vga_x (vga_state ?d) - 1 = - 1"
    using d by (intro pred_le_80) simp
  moreover have "vga_keeps st (?d\<lparr>vga_state := (vga_state ?d)\<lparr>vga_x := vga_x (vga_state ?d) - 1\<rparr>\<rparr>)"
    using vga_keeps_trans[OF vga_keeps_trans[OF vga_keeps_cursor(2) conjunct2[OF conjunct2[OF d]]] vga_keeps_cursor(2)] .
  ultimately show ?thesis using d by (simp add: backspace_handler.simps vga_ok_def)
qed

lemma vga_putc_ok:
  assumes "vga_ok (vga_state st)" "c \<noteq> 8"
  shows "\<exists>st'. vga_putc c st = Some st' \<and> vga_ok (vga_state st') \<and> vga_keeps st st'"
proof -
  have y: "vga_y (vga_state st) \<le> 25" "vga_x (vga_state st) \<le> 80 \<or> vga_x (vga_state st) = - 1 \<or> vga_x (vga_state st) = - 2"
    using assms(1) by (auto simp: vga_ok_def)
  consider "c = 10" | "c = 9" | "c = 13" | "c \<notin> set special_characters" using assms(2) by (auto simp: special_characters_def)
  then show ?thesis
    using newline_ok[OF y(1)] tab_ok[OF assms(1)] backspace_ok[OF assms(1)] default_ok[OF y(2,1), of c]
    by cases (auto simp: vga_putc_simps)
qed

primrec vga_puts :: "byte list \<Rightarrow> console \<Rightarrow> console option" where
  "vga_puts [] st = Some st"
| "vga_puts (c # cs) st = do { st1 \<leftarrow> vga_putc c st; vga_puts cs st1 }"

lemma vga_puts_append: "vga_puts (xs @ ys) st = vga_puts xs st \<bind> vga_puts ys"
  by (induction xs arbitrary: st) (simp_all add: Option.bind_assoc)

lemma vga_puts_ok:
  "vga_ok (vga_state st) \<Longrightarrow> 8 \<notin> set cs \<Longrightarrow> \<exists>st'. vga_puts cs st = Some st' \<and> vga_ok (vga_state st') \<and> vga_keeps st st'"
proof (induction cs arbitrary: st)
  case (Cons c cs)
  then obtain st1 where "vga_putc c st = Some st1" "vga_ok (vga_state st1)" "vga_keeps st st1" using vga_putc_ok[of st c] by auto
  with Cons show ?case using vga_keeps_trans by fastforce
qed simp

lemma vga_puts_backspace: "8 \<in> set cs \<Longrightarrow> vga_puts cs st = None"
  by (induction cs arbitrary: st) (auto simp: vga_putc_simps)

lemma cstr_keeps:
  "vga_keeps st st' \<Longrightarrow> span s (Suc (length cs)) \<inter> vga_window (vga_state st) = {} \<Longrightarrow> length cs < 2 ^ 32 \<Longrightarrow> cstr (bytes st) s cs \<Longrightarrow> cstr (bytes st') s cs"
proof -
  assume a: "vga_keeps st st'" "span s (Suc (length cs)) \<inter> vga_window (vga_state st) = {}" "length cs < 2 ^ 32" "cstr (bytes st) s cs"
  have "bytes st' (s + of_nat i) = bytes st (s + of_nat i)" if "i \<le> length cs" for i
  proof -
    have "s + of_nat i \<in> span s (Suc (length cs))" using that a(3) by (intro of_nat_in_span) simp_all
    then have "s + of_nat i \<notin> vga_window (vga_state st)" using a(2) by blast
    then show ?thesis using a(1) by (simp add: vga_keeps_def)
  qed
  then show ?thesis using cstr_cong[of cs "bytes st'" s "bytes st"] a(4) by blast
qed

lemma vga_print_cstr:
  assumes "vga_ok (vga_state st)" "cstr (bytes st) s cs" "span s (Suc (length cs)) \<inter> vga_window (vga_state st) = {}"
  shows "vga_print (In_memory s) st = vga_puts cs st"
  using assms
proof (induction cs arbitrary: s st)
  case Nil
  then show ?case by (subst vga_print.simps) simp
next
  case (Cons c cs)
  show ?case
  proof (cases "c = 8")
    case True
    then show ?thesis using Cons.prems by (subst vga_print.simps) (simp add: vga_putc_simps)
  next
    case False
    then obtain st1 where st1: "vga_putc c st = Some st1" "vga_ok (vga_state st1)" "vga_keeps st st1"
      using vga_putc_ok[OF Cons.prems(1)] by blast
    have "span (s + 1) (Suc (length cs)) \<inter> vga_window (vga_state st) = {}"
      using span_Suc_subset[of s "Suc (length cs)"] Cons.prems(3) by auto
    moreover have "vga_window (vga_state st1) = vga_window (vga_state st)" using st1(3) by (simp add: vga_keeps_def vga_window_def)
    ultimately have "vga_print (In_memory (s + 1)) st1 = vga_puts cs st1"
      using Cons.IH[OF st1(2), of "s + 1"] cstr_keeps[OF st1(3), of "s + 1" cs] Cons.prems(2) cstr_length[of "bytes st" "s + 1" cs] by simp
    then show ?thesis using Cons.prems(2) st1(1) by (subst vga_print.simps) simp
  qed
qed

text \<open>C33: the console stays inside its bounds. Printing a string of bytes other than backspace
  returns with the cursor in range again, keeps buffer and colour, and stores nothing outside
  4166 bytes around the screen: four below it and 162 above it can be hit, because the handlers
  test the cursor with \<open>>\<close> and an unsigned column is never negative. A backspace character
  never comes back: it is the fourth special character and there are three handlers.\<close>

theorem vga_print_bounds:
  assumes "vga_ok (vga_state st)" "cstr (bytes st) s cs" "span s (Suc (length cs)) \<inter> vga_window (vga_state st) = {}"
  shows "if 8 \<in> set cs then vga_print (In_memory s) st = None
    else \<exists>st'. vga_print (In_memory s) st = Some st' \<and> vga_ok (vga_state st') \<and> vga_keeps st st'"
  using vga_print_cstr[OF assms] vga_puts_ok[OF assms(1), of cs] vga_puts_backspace[of cs st] by simp

text \<open>A character that is not special, at a column of the screen.\<close>

definition cell :: "vga_state_t \<Rightarrow> u32 \<Rightarrow> u32 \<Rightarrow> u32" where
  "cell vs x y = vga_buffer vs + (2 * x + 160 * y)"

lemma default_handler_text:
  assumes "unat (vga_x (vga_state st)) < 80"
  shows "default_handler c st = st\<lparr>bytes := (bytes st)(cell (vga_state st) (vga_x (vga_state st)) (vga_y (vga_state st)) := c,
      cell (vga_state st) (vga_x (vga_state st)) (vga_y (vga_state st)) + 1 := of_nat (color_code (color (vga_state st)))),
      vga_state := (vga_state st)\<lparr>vga_x := vga_x (vga_state st) + 1\<rparr>\<rparr>"
proof -
  have "\<not> 80 < vga_x (vga_state st) + 1" using assms by (simp add: word_less_nat_alt unat_word_ariths)
  then show ?thesis by (simp add: default_handler_def Let_def x_reached_limit_def SCREEN_COLS_def get_address_by_location_def cell_def mult.commute)
qed

lemma cell_next: "cell vs (x + of_nat i) y = cell vs x y + of_nat (2 * i)"
  by (simp add: cell_def algebra_simps)

definition put_cells :: "u32 \<Rightarrow> byte list \<Rightarrow> byte \<Rightarrow> mem \<Rightarrow> mem" where
  "put_cells b cs attr m a =
     (let k = unat (a - b) in if k < 2 * length cs then if even k then cs ! (k div 2) else attr else m a)"

lemma put_cells_snoc:
  assumes "length cs < 80"
  shows "(put_cells b cs attr m)(b + of_nat (2 * length cs) := c, b + of_nat (2 * length cs) + 1 := attr) = put_cells b (cs @ [c]) attr m"
proof
  fix a
  have e: "b + of_nat (2 * length cs) + 1 = b + of_nat (2 * length cs + 1)" by simp
  have "a = b + of_nat (2 * length cs) \<longleftrightarrow> unat (a - b) = 2 * length cs" "a = b + of_nat (2 * length cs + 1) \<longleftrightarrow> unat (a - b) = 2 * length cs + 1"
    by (rule eq_add_of_nat_iff; use assms in simp)+
  then show "((put_cells b cs attr m)(b + of_nat (2 * length cs) := c, b + of_nat (2 * length cs) + 1 := attr)) a = put_cells b (cs @ [c]) attr m a"
    unfolding e fun_upd_apply put_cells_def Let_def by (auto simp: nth_append)
qed

lemma vga_puts_text:
  assumes "unat (vga_x (vga_state st)) + length cs \<le> 80" "set cs \<inter> set special_characters = {}"
  shows "vga_puts cs st = Some (st\<lparr>
      bytes := put_cells (cell (vga_state st) (vga_x (vga_state st)) (vga_y (vga_state st))) cs (of_nat (color_code (color (vga_state st)))) (bytes st),
      vga_state := (vga_state st)\<lparr>vga_x := vga_x (vga_state st) + of_nat (length cs)\<rparr>\<rparr>)"
  using assms
proof (induction cs rule: rev_induct)
  case Nil
  then show ?case by (simp add: put_cells_def)
next
  case (snoc c cs)
  let ?vs = "vga_state st"
  let ?st = "st\<lparr>bytes := put_cells (cell ?vs (vga_x ?vs) (vga_y ?vs)) cs (of_nat (color_code (color ?vs))) (bytes st),
      vga_state := ?vs\<lparr>vga_x := vga_x ?vs + of_nat (length cs)\<rparr>\<rparr>"
  have n: "length cs < 80" using snoc.prems(1) by simp
  have "unat (vga_x (vga_state ?st)) < 80" using snoc.prems(1) n by (simp add: unat_word_ariths unat_of_nat)
  note d = default_handler_text[OF this, of c]
  have e: "cell (vga_state ?st) (vga_x (vga_state ?st)) (vga_y (vga_state ?st)) = cell ?vs (vga_x ?vs) (vga_y ?vs) + of_nat (2 * length cs)"
    using cell_next[of ?vs "vga_x ?vs" "length cs"] by (simp add: cell_def)
  have "vga_puts (cs @ [c]) st = Some (default_handler c ?st)"
    using snoc by (simp add: vga_puts_append vga_putc_simps)
  also have "\<dots> = Some (st\<lparr>bytes := put_cells (cell ?vs (vga_x ?vs) (vga_y ?vs)) (cs @ [c]) (of_nat (color_code (color ?vs))) (bytes st),
      vga_state := ?vs\<lparr>vga_x := vga_x ?vs + of_nat (length (cs @ [c]))\<rparr>\<rparr>)"
    unfolding d e using put_cells_snoc[OF n] by (simp add: fun_upd_def add.assoc)
  finally show ?case .
qed

text \<open>The column limit is tested with \<open>>\<close>: the eighty-first character of a line goes to the
  first cell of the next line, and so does the eighty-second.\<close>

lemma default_handler_wraps:
  assumes "vga_x (vga_state st) = 80" "vga_y (vga_state st) < 25"
  shows "default_handler c st = st\<lparr>bytes := (bytes st)(cell (vga_state st) 0 (vga_y (vga_state st) + 1) := c,
      cell (vga_state st) 0 (vga_y (vga_state st) + 1) + 1 := of_nat (color_code (color (vga_state st)))),
      vga_state := (vga_state st)\<lparr>vga_x := 0, vga_y := vga_y (vga_state st) + 1\<rparr>\<rparr>"
proof -
  have "unat (vga_y (vga_state st)) < 25" using assms(2) by (simp add: word_less_nat_alt)
  then have y: "\<not> 25 < vga_y (vga_state st) + 1" by (simp add: word_less_nat_alt unat_word_ariths)
  have a: "get_address_by_location (vga_state st) 80 (vga_y (vga_state st)) = cell (vga_state st) 0 (vga_y (vga_state st) + 1)"
    by (simp add: get_address_by_location_def cell_def SCREEN_COLS_def algebra_simps)
  show ?thesis unfolding default_handler_def Let_def assms(1) a
    using y by (simp add: x_reached_limit_def y_reached_limit_def newline_handler_def Let_def SCREEN_COLS_def SCREEN_ROWS_def)
qed

lemma put_cells_bytes:
  "i < length cs \<Longrightarrow> length cs < 2 ^ 31 \<Longrightarrow> put_cells b cs attr m (b + of_nat (2 * i)) = cs ! i"
  by (simp add: put_cells_def Let_def unat_of_nat unat_word_ariths)

text \<open>A line of text. Eighty characters printed from the start of a line are the cells of
  that line, in order, with the current colour; of the two characters after them the first is
  lost: both are stored in the first cell of the next line, where the cursor goes on.\<close>

theorem vga_print_line:
  assumes "vga_x (vga_state st) = 0" "vga_y (vga_state st) < 24" and s: "cstr (bytes st) s (cs @ [c, d])"
    and apart: "span s (Suc (length (cs @ [c, d]))) \<inter> vga_window (vga_state st) = {}"
    and cs: "length cs = 80" "set (cs @ [c, d]) \<inter> set special_characters = {}"
  shows "\<exists>st'. vga_print (In_memory s) st = Some st' \<and> vga_state st' = (vga_state st)\<lparr>vga_x := 1, vga_y := vga_y (vga_state st) + 1\<rparr>
    \<and> (\<forall>i<80. bytes st' (cell (vga_state st) (of_nat i) (vga_y (vga_state st))) = cs ! i)
    \<and> bytes st' (cell (vga_state st) 0 (vga_y (vga_state st) + 1)) = d"
proof -
  let ?vs = "vga_state st" and ?attr = "of_nat (color_code (color (vga_state st))) :: byte"
  let ?b = "cell ?vs 0 (vga_y ?vs)" and ?n = "cell ?vs 0 (vga_y ?vs + 1)"
  let ?st1 = "st\<lparr>bytes := put_cells ?b cs ?attr (bytes st), vga_state := ?vs\<lparr>vga_x := 80\<rparr>\<rparr>"
  let ?m2 = "(put_cells ?b cs ?attr (bytes st))(?n := d, ?n + 1 := ?attr)"
  have "unat (vga_y ?vs) < 24" using assms(2) by (simp add: word_less_nat_alt)
  then have y: "vga_y ?vs < 25" "vga_y ?vs \<le> 25" by (simp_all add: word_less_nat_alt word_le_nat_alt)
  have ok: "vga_ok ?vs" using assms(1) y(2) by (simp add: vga_ok_def)
  have 1: "vga_puts cs st = Some ?st1" using vga_puts_text[of st cs] assms(1) cs by simp
  let ?st2 = "st\<lparr>bytes := (put_cells ?b cs ?attr (bytes st))(?n := c, ?n + 1 := ?attr),
    vga_state := ?vs\<lparr>vga_x := 0, vga_y := vga_y ?vs + 1\<rparr>\<rparr>"
  have 2: "default_handler c ?st1 = ?st2" using default_handler_wraps[of ?st1 c] y(1) by (simp add: cell_def)
  have "?vs\<lparr>vga_x := 0, vga_y := vga_y ?vs + 1, vga_x := 1\<rparr> = ?vs\<lparr>vga_x := 1, vga_y := vga_y ?vs + 1\<rparr>" by (cases ?vs) simp
  then have "default_handler d ?st2 = st\<lparr>bytes := ?m2, vga_state := ?vs\<lparr>vga_x := 1, vga_y := vga_y ?vs + 1\<rparr>\<rparr>"
    using default_handler_text[of ?st2 d] by (simp add: cell_def fun_upd_twist)
  then have 3: "vga_puts (cs @ [c, d]) st = Some (st\<lparr>bytes := ?m2, vga_state := ?vs\<lparr>vga_x := 1, vga_y := vga_y ?vs + 1\<rparr>\<rparr>)"
    using cs(2) 1 2 by (simp add: vga_puts_append vga_putc_simps)
  have n: "?n = ?b + 160" by (simp add: cell_def algebra_simps)
  have "?m2 (cell ?vs (of_nat i) (vga_y ?vs)) = cs ! i" if "i < 80" for i
  proof -
    have "of_nat (2 * i) \<noteq> (160 :: u32)" "of_nat (2 * i) \<noteq> (161 :: u32)" using that
      by (simp_all add: word_unat_eq_iff unat_word_ariths unat_of_nat del: of_nat_mult)
    then have "?b + of_nat (2 * i) \<noteq> ?b + 160" "?b + of_nat (2 * i) \<noteq> ?b + 160 + 1" by (simp_all add: add.assoc)
    then show ?thesis using cell_next[of ?vs 0 i "vga_y ?vs"] put_cells_bytes[of i cs ?b ?attr "bytes st"] that cs(1) by (simp add: n)
  qed
  then show ?thesis using vga_print_cstr[OF ok s apart] 3 by simp
qed

definition example_console :: "byte list \<Rightarrow> console" where
  "example_console cs = \<lparr>bytes = (\<lambda>a. if unat (a - 0x200000) < length cs then cs ! unat (a - 0x200000) else 0), vga_state = initial_vga_state\<rparr>"

lemma example_console_state [simp]: "vga_state (example_console cs) = initial_vga_state"
  by (simp add: example_console_def)

lemma initial_vga_simps [simp]: "vga_x initial_vga_state = 0" "vga_y initial_vga_state = 0" "vga_buffer initial_vga_state = 0xb8000"
  "color initial_vga_state = COLOR_LIGHT_GREY" "vga_ok initial_vga_state"
  by (simp_all add: initial_vga_state_def vga_ok_def VGA_PHYSICAL_ADDRESS_def VGA_DEFAULT_COLOR_def)

lemma example_cstr:
  assumes "0 \<notin> set cs" "length cs < 2 ^ 20"
  shows "cstr (bytes (example_console cs)) 0x200000 cs"
proof -
  have "cstr (bytes (example_console cs)) (0x200000 + of_nat i) (drop i cs)" if "i \<le> length cs" for i
    using that
  proof (induction "length cs - i" arbitrary: i)
    case 0
    then show ?case using assms(2) by (simp add: example_console_def unat_of_nat)
  next
    case (Suc k)
    then have i: "i < length cs" by simp
    have "cstr (bytes (example_console cs)) (0x200000 + of_nat (Suc i)) (drop (Suc i) cs)" using Suc i by (intro Suc.hyps(1)) simp_all
    moreover have "bytes (example_console cs) (0x200000 + of_nat i) = cs ! i" using i assms(2) by (simp add: example_console_def unat_of_nat)
    moreover have "cs ! i \<noteq> 0" using assms(1) i by (metis nth_mem)
    ultimately show ?case using i by (simp add: Cons_nth_drop_Suc[symmetric] add.assoc add.commute)
  qed
  from this[of 0] show ?thesis by simp
qed

lemma example_apart: "n < 2 ^ 20 \<Longrightarrow> span 0x200000 (Suc n) \<inter> vga_window initial_vga_state = {}"
proof -
  assume n: "n < 2 ^ 20"
  have "unat (a - 0xb7ffc) \<ge> 4166" if "unat (a - 0x200000) < 2 ^ 20" for a :: u32
  proof -
    define z where "z = a - 0x200000"
    have "a - 0xb7ffc = z + 0x148004" by (simp add: z_def)
    then show ?thesis using that by (simp add: z_def[symmetric] unat_word_ariths)
  qed
  then show ?thesis using n by (auto simp: vga_window_def disjoint_iff not_less)
qed

theorem vga_print_bounds_witness:
  "vga_print (In_memory 0x200000) (example_console [97, 8]) = None
   \<and> (\<exists>st'. vga_print (In_memory 0x200000) (example_console [97, 13, 13]) = Some st' \<and> vga_keeps (example_console [97, 13, 13]) st')"
  using vga_print_bounds[OF _ example_cstr, of "[97, 8]"] vga_print_bounds[OF _ example_cstr, of "[97, 13, 13]"]
    example_apart[of "length [97, 8]"] example_apart[of "length [97, 13, 13]"] by auto

theorem vga_print_line_witness:
  "\<exists>st'. vga_print (In_memory 0x200000) (example_console (replicate 80 65 @ [66, 67])) = Some st' \<and> bytes st' 0xb80a0 = 67"
proof -
  have "0 \<notin> set (replicate 80 65 @ [66, 67] :: byte list)" "length (replicate 80 65 @ [66, 67] :: byte list) < 2 ^ 20" by simp_all
  note c = example_cstr[OF this]
  show ?thesis using vga_print_line[OF _ _ c] example_apart[of 82] by (auto simp: special_characters_def cell_def)
qed

end
