(* ===== verification/Stdio.thy ===== *)
theory Stdio
  imports Vga
begin

text \<open>
  \<^verbatim>\<open>src/libc/stdio.c\<close>, a small \<open>printf\<close>. Output goes to the console, or through
  \<open>char **out\<close> to a string: the flag \<open>str\<close> says that the pointer is not null, and its target
  is the second part of the state. The variable arguments are a list of words, and taking one
  too many is \<open>None\<close>, as is a width beyond an \<open>int\<close>. The local \<open>print_buf\<close> is filled
  from its end: it is the bytes written so far, and a thirteenth byte is \<open>None\<close>.
\<close>

section \<open>Definitions\<close>

definition PAD_RIGHT :: u32 where "PAD_RIGHT = 1"
definition PAD_ZERO :: u32 where "PAD_ZERO = 2"
definition PRINT_BUF_LEN :: nat where "PRINT_BUF_LEN = 12"

type_synonym out_state = "console \<times> u32"

definition printchar :: "bool \<Rightarrow> byte \<Rightarrow> out_state \<Rightarrow> out_state option" where
  "printchar str c = (\<lambda>(st, p).
     if str then Some (st\<lparr>bytes := (bytes st)(p := c)\<rparr>, p + 1)
     else do { st1 \<leftarrow> vga_print (Array [c, 0]) st; Some (st1, p) })"

partial_function (option) prints_len :: "console \<Rightarrow> c_string \<Rightarrow> int \<Rightarrow> int option" where
  "prints_len st ptr len = do {
     c \<leftarrow> char_at st ptr;
     if c \<noteq> 0 then prints_len st (next_char ptr) (len + 1) else Some len
   }"

function prints_pad :: "bool \<Rightarrow> byte \<Rightarrow> int \<Rightarrow> int \<Rightarrow> out_state \<Rightarrow> (int \<times> int \<times> out_state) option" where
  "prints_pad out padchar width pc s =
     (if width > 0
      then do { s1 \<leftarrow> printchar out padchar s; prints_pad out padchar (width - 1) (pc + 1) s1 }
      else Some (width, pc, s))"
  by pat_completeness auto
termination
  by (relation "measure (\<lambda>(out, padchar, width, pc, s). nat width)") auto

declare prints_pad.simps [simp del]

partial_function (option) prints_chars :: "bool \<Rightarrow> c_string \<Rightarrow> int \<Rightarrow> out_state \<Rightarrow> (int \<times> out_state) option" where
  "prints_chars out str pc s = do {
     c \<leftarrow> char_at (fst s) str;
     if c \<noteq> 0 then do { s1 \<leftarrow> printchar out c s; prints_chars out (next_char str) (pc + 1) s1 }
     else Some (pc, s)
   }"

definition prints :: "bool \<Rightarrow> c_string \<Rightarrow> int \<Rightarrow> u32 \<Rightarrow> out_state \<Rightarrow> (int \<times> out_state) option" where
  "prints out str width pad s = do {
     (width1, padchar) \<leftarrow>
       (if width > 0 then do {
          len \<leftarrow> prints_len (fst s) str 0;
          Some (if len \<ge> width then 0 else width - len, if pad AND PAD_ZERO \<noteq> 0 then 48 else 32)
        } else Some (width, 32));
     (width2, pc1, s1) \<leftarrow>
       (if pad AND PAD_RIGHT = 0 then prints_pad out padchar width1 0 s else Some (width1, 0, s));
     (pc2, s2) \<leftarrow> prints_chars out str pc1 s1;
     (width3, pc3, s3) \<leftarrow> prints_pad out padchar width2 pc2 s2;
     Some (pc3, s3)
   }"

definition digit_char :: "u32 \<Rightarrow> int \<Rightarrow> byte" where
  "digit_char t letbase = of_int (if uint t \<ge> 10 then uint t + letbase - 48 - 10 + 48 else uint t + 48)"

function printi_digits :: "u32 \<Rightarrow> u32 \<Rightarrow> int \<Rightarrow> byte list \<Rightarrow> byte list option" where
  "printi_digits u b letbase buf =
     (if u = 0 then Some buf
      else if b = 0 \<or> length buf \<ge> PRINT_BUF_LEN then None
      else printi_digits (u div b) b letbase (digit_char (u mod b) letbase # buf))"
  by pat_completeness auto
termination
  by (relation "measure (\<lambda>(u, b, letbase, buf). PRINT_BUF_LEN - length buf)") auto

declare printi_digits.simps [simp del]

definition printi :: "bool \<Rightarrow> u32 \<Rightarrow> u32 \<Rightarrow> bool \<Rightarrow> int \<Rightarrow> u32 \<Rightarrow> int \<Rightarrow> out_state \<Rightarrow> (int \<times> out_state) option" where
  "printi out i b sg width pad letbase s =
     (if i = 0 then prints out (Array [48, 0]) width pad s
      else let neg = (sg \<and> b = 10 \<and> sint i < 0); u = (if neg then - i else i) in do {
        buf \<leftarrow> printi_digits u b letbase [0];
        if neg
        then if width \<noteq> 0 \<and> pad AND PAD_ZERO \<noteq> 0
             then do {
               s1 \<leftarrow> printchar out 45 s;
               (pc, s2) \<leftarrow> prints out (Array buf) (width - 1) pad s1;
               Some (1 + pc, s2)
             }
             else if length buf \<ge> PRINT_BUF_LEN then None
             else prints out (Array (45 # buf)) width pad s
        else prints out (Array buf) width pad s
      })"

partial_function (option) print_zeros :: "console \<Rightarrow> c_string \<Rightarrow> u32 \<Rightarrow> (c_string \<times> u32) option" where
  "print_zeros st format pad = do {
     c \<leftarrow> char_at st format;
     if c = 48 then print_zeros st (next_char format) (pad OR PAD_ZERO) else Some (format, pad)
   }"

partial_function (option) print_width :: "console \<Rightarrow> c_string \<Rightarrow> int \<Rightarrow> (c_string \<times> int) option" where
  "print_width st format width = do {
     c \<leftarrow> char_at st format;
     if sint c \<ge> 48 \<and> sint c \<le> 57
     then let width' = width * 10 + (sint c - 48)
          in if width' < 2 ^ 31 then print_width st (next_char format) width' else None
     else Some (format, width)
   }"

definition null_text :: "byte list" where
  "null_text = [40, 110, 117, 108, 108, 41, 0]"

text \<open>The tests on the conversion character: the number of bytes printed, what is left of the
  arguments. A character that none of them accepts prints nothing.\<close>

definition print_conversion ::
  "bool \<Rightarrow> byte \<Rightarrow> int \<Rightarrow> u32 \<Rightarrow> u32 list \<Rightarrow> out_state \<Rightarrow> (int \<times> u32 list \<times> out_state) option" where
  "print_conversion out c width pad args s =
     (if c \<in> {115, 100, 120, 88, 117, 99}
      then case args of
             [] \<Rightarrow> None
           | a # args' \<Rightarrow> do {
               (pc, s1) \<leftarrow>
                 (if c = 115 then prints out (if a \<noteq> 0 then In_memory a else Array null_text) width pad s
                  else if c = 100 then printi out a 10 True width pad 97 s
                  else if c = 120 then printi out a 16 False width pad 97 s
                  else if c = 88 then printi out a 16 False width pad 65 s
                  else if c = 117 then printi out a 10 False width pad 97 s
                  else prints out (Array [ucast a, 0]) width pad s);
               Some (pc, args', s1)
             }
      else Some (0, args, s))"

partial_function (option) print_loop ::
  "bool \<Rightarrow> c_string \<Rightarrow> u32 list \<Rightarrow> int \<Rightarrow> out_state \<Rightarrow> (int \<times> out_state) option" where
  "print_loop out format args pc s = do {
     c \<leftarrow> char_at (fst s) format;
     if c = 0 then Some (pc, s)
     else if c = 37 then let f1 = next_char format in do {
       c1 \<leftarrow> char_at (fst s) f1;
       if c1 = 0 then Some (pc, s)
       else if c1 = 37 then do { s1 \<leftarrow> printchar out c1 s; print_loop out (next_char f1) args (pc + 1) s1 }
       else do {
         (f3, pad) \<leftarrow> (if c1 = 45 then print_zeros (fst s) (next_char f1) PAD_RIGHT else print_zeros (fst s) f1 0);
         (f4, width) \<leftarrow> print_width (fst s) f3 0;
         c4 \<leftarrow> char_at (fst s) f4;
         (n, args', s1) \<leftarrow> print_conversion out c4 width pad args s;
         print_loop out (next_char f4) args' (pc + n) s1
       }
     }
     else do { s1 \<leftarrow> printchar out c s; print_loop out (next_char format) args (pc + 1) s1 }
   }"

definition print :: "bool \<Rightarrow> c_string \<Rightarrow> u32 list \<Rightarrow> out_state \<Rightarrow> (int \<times> out_state) option" where
  "print out format args s = do {
     (pc, (st, p)) \<leftarrow> print_loop out format args 0 s;
     Some (pc, (if out then st\<lparr>bytes := (bytes st)(p := 0)\<rparr> else st, p))
   }"

definition printf :: "c_string \<Rightarrow> u32 list \<Rightarrow> console \<Rightarrow> (int \<times> console) option" where
  "printf format args st = do { (pc, (st1, _)) \<leftarrow> print False format args (st, 0); Some (pc, st1) }"

section \<open>Strings and padding\<close>

fun reads :: "console \<Rightarrow> c_string \<Rightarrow> byte list \<Rightarrow> bool" where
  "reads st (In_memory p) cs \<longleftrightarrow> cstr (bytes st) p cs \<and> span p (Suc (length cs)) \<inter> vga_window (vga_state st) = {}"
| "reads st (Array bs) cs \<longleftrightarrow> 0 \<notin> set cs \<and> (\<exists>r. bs = cs @ 0 # r)"

lemma reads_Nil: "reads st src [] \<Longrightarrow> char_at st src = Some 0"
  by (cases src) auto

lemma reads_Cons:
  assumes "reads st src (c # cs)"
  shows "char_at st src = Some c" "c \<noteq> 0" "reads st (next_char src) cs"
proof -
  have "span (p + 1) (Suc n) \<subseteq> span p (Suc (Suc n))" for p n by (rule span_Suc_subset)
  then show "char_at st src = Some c" "c \<noteq> 0" "reads st (next_char src) cs"
    using assms by (cases src; force)+
qed

lemma reads_keeps: "reads st src cs \<Longrightarrow> vga_keeps st st' \<Longrightarrow> reads st' src cs"
proof (cases src)
  case (In_memory p)
  assume "reads st src cs" "vga_keeps st st'"
  then show ?thesis using In_memory cstr_keeps[of st st' p cs] cstr_length[of "bytes st" p cs]
    by (auto simp: vga_keeps_def vga_window_def)
qed simp

lemma printchar_console: "printchar False c (st, p) = do { st' \<leftarrow> vga_puts (if c = 0 then [] else [c]) st; Some (st', p) }"
  by (simp add: printchar_def vga_print.simps)

lemma prints_len_reads: "reads st src cs \<Longrightarrow> prints_len st src len = Some (len + int (length cs))"
proof (induction cs arbitrary: src len)
  case Nil
  then show ?case by (subst prints_len.simps) (simp add: reads_Nil)
next
  case (Cons c cs)
  note r = reads_Cons[OF Cons.prems]
  show ?case using r(1,2) Cons.IH[OF r(3)] by (subst prints_len.simps) simp
qed

lemma prints_pad_console:
  assumes "c \<noteq> 0"
  shows "prints_pad False c w pc (st, p) =
    do { st' \<leftarrow> vga_puts (replicate (nat w) c) st; Some (min w 0, pc + int (nat w), (st', p)) }"
proof (induction "nat w" arbitrary: w pc st)
  case 0
  then show ?case by (subst prints_pad.simps) simp
next
  case (Suc n)
  then have "nat w = Suc (nat (w - 1))" "w > 0" "min (w - 1) 0 = min w 0" by simp_all
  then show ?case using assms Suc(1)[of "w - 1" "pc + 1"] Suc(2)
    by (subst prints_pad.simps) (simp add: printchar_console bind_assoc split: Option.bind_split)
qed

lemma prints_chars_console:
  assumes "vga_ok (vga_state st)" "reads st src cs"
  shows "prints_chars False src pc (st, p) = do { st' \<leftarrow> vga_puts cs st; Some (pc + int (length cs), (st', p)) }"
  using assms
proof (induction cs arbitrary: src pc st)
  case Nil
  then show ?case by (subst prints_chars.simps) (simp add: reads_Nil)
next
  case (Cons c cs)
  note r = reads_Cons[OF Cons.prems(2)]
  show ?case
  proof (cases "c = 8")
    case True
    then show ?thesis using r by (subst prints_chars.simps) (simp add: printchar_console vga_putc_simps)
  next
    case False
    then obtain st1 where st1: "vga_putc c st = Some st1" "vga_ok (vga_state st1)" "vga_keeps st st1"
      using vga_putc_ok[OF Cons.prems(1)] by blast
    then show ?thesis using r Cons.IH[OF st1(2) reads_keeps[OF r(3) st1(3)]]
      by (subst prints_chars.simps) (simp add: printchar_console add.assoc)
  qed
qed

text \<open>What a padded string looks like.\<close>

definition pad_text :: "byte list \<Rightarrow> int \<Rightarrow> u32 \<Rightarrow> byte list" where
  "pad_text cs width pad =
     (let fill = replicate (nat (width - int (length cs))) (if pad AND PAD_ZERO \<noteq> 0 then 48 else 32)
      in if pad AND PAD_RIGHT = 0 then fill @ cs else cs @ fill)"

lemma prints_console:
  assumes ok: "vga_ok (vga_state st)" and r: "reads st src cs"
  shows "prints False src width pad (st, p) =
    do { st' \<leftarrow> vga_puts (pad_text cs width pad) st; Some (int (length (pad_text cs width pad)), (st', p)) }"
proof -
  define n where "n = nat (width - int (length cs))"
  define c where "c = (if width > 0 \<and> pad AND PAD_ZERO \<noteq> 0 then 48 else 32 :: byte)"
  define w where "w = (if width > 0 then if int (length cs) \<ge> width then 0 else width - int (length cs) else width)"
  have c: "c \<noteq> 0" "8 \<notin> set (replicate n c)" and w: "nat w = n" "nat (min w 0) = 0" by (auto simp: c_def w_def n_def)
  have "replicate (nat (width - int (length cs))) (if pad AND PAD_ZERO \<noteq> 0 then 48 else 32) = replicate n c"
    by (auto simp: n_def c_def)
  then have pt: "pad_text cs width pad = (if pad AND PAD_RIGHT = 0 then replicate n c @ cs else cs @ replicate n c)"
    by (simp only: pad_text_def Let_def)
  have start: "prints False src width pad (st, p) = do {
      (width2, pc1, s1) \<leftarrow> (if pad AND PAD_RIGHT = 0 then prints_pad False c w 0 (st, p) else Some (w, 0, (st, p)));
      (pc2, s2) \<leftarrow> prints_chars False src pc1 s1;
      (width3, pc3, s3) \<leftarrow> prints_pad False c width2 pc2 s2;
      Some (pc3, s3) }"
    using prints_len_reads[OF r, of 0] by (simp add: prints_def w_def c_def)
  show ?thesis
  proof (cases "pad AND PAD_RIGHT = 0")
    case True
    obtain st1 where st1: "vga_puts (replicate n c) st = Some st1" "vga_ok (vga_state st1)" "vga_keeps st st1"
      using vga_puts_ok[OF ok c(2)] by blast
    show ?thesis unfolding start
      using True st1(1) prints_chars_console[OF st1(2) reads_keeps[OF r st1(3)]] w pt
      by (simp add: prints_pad_console[OF c(1)] vga_puts_append bind_assoc)
  next
    case False
    show ?thesis unfolding start
      using False prints_chars_console[OF ok r] w pt
      by (simp add: prints_pad_console[OF c(1)] vga_puts_append bind_assoc)
  qed
qed

section \<open>Numbers\<close>

text \<open>The digits of a number, most significant first, on natural numbers.\<close>

fun nat_digits :: "nat \<Rightarrow> nat \<Rightarrow> nat list" where
  "nat_digits b n = (if n < b \<or> b < 2 then [n] else nat_digits b (n div b) @ [n mod b])"

declare nat_digits.simps [simp del]

definition digits_value :: "nat \<Rightarrow> nat list \<Rightarrow> nat" where
  "digits_value b = foldl (\<lambda>v d. v * b + d) 0"

lemma digits_value_nat_digits: "digits_value b (nat_digits b n) = n"
proof (induction b n rule: nat_digits.induct)
  case (1 b n)
  then show ?case by (subst nat_digits.simps) (auto simp: digits_value_def)
qed

lemma nat_digits_less: "2 \<le> b \<Longrightarrow> d \<in> set (nat_digits b n) \<Longrightarrow> d < b"
proof (induction b n rule: nat_digits.induct)
  case (1 b n)
  from 1(1)[OF _ 1(2)] 1(2,3) show ?case unfolding nat_digits.simps[of b n] by (auto split: if_splits)
qed

lemma nat_digits_length: "2 \<le> b \<Longrightarrow> n < b ^ Suc k \<Longrightarrow> length (nat_digits b n) \<le> Suc k"
proof (induction k arbitrary: n)
  case 0
  then show ?case by (subst nat_digits.simps) simp
next
  case (Suc k)
  then have "n div b < b ^ Suc k" by (simp add: less_mult_imp_div_less mult.commute)
  with Suc show ?case by (subst nat_digits.simps) simp
qed

definition digit_text :: "int \<Rightarrow> nat \<Rightarrow> byte" where
  "digit_text letbase d = (if d < 10 then of_nat (48 + d) else of_int (letbase + int d - 10))"

lemma digit_char_text: "digit_char t letbase = digit_text letbase (unat t)"
proof -
  have "uint t = int (unat t)" by simp
  then have "10 \<le> uint t \<longleftrightarrow> \<not> unat t < 10" by linarith
  then show ?thesis by (simp add: digit_char_def digit_text_def algebra_simps)
qed

lemma printi_digits_text:
  assumes "2 \<le> unat b" "u \<noteq> 0" "length (nat_digits (unat b) (unat u)) + length buf \<le> PRINT_BUF_LEN"
  shows "printi_digits u b letbase buf = Some (map (digit_text letbase) (nat_digits (unat b) (unat u)) @ buf)"
  using assms
proof (induction u b letbase buf rule: printi_digits.induct)
  case (1 u b letbase buf)
  have b: "b \<noteq> 0" using 1(2) by auto
  show ?case
  proof (cases "unat u < unat b")
    case True
    then have "u div b = 0" "u mod b = u" by (simp_all add: word_unat_eq_iff unat_div unat_mod)
    then show ?thesis using 1 b True
      by (subst printi_digits.simps, subst nat_digits.simps, subst printi_digits.simps)
        (auto simp: digit_char_text nat_digits.simps[of _ "unat u"])
  next
    case False
    then have d: "nat_digits (unat b) (unat u) = nat_digits (unat b) (unat (u div b)) @ [unat (u mod b)]"
      using 1(2) by (subst nat_digits.simps) (simp add: unat_div unat_mod)
    have u: "u div b \<noteq> 0" using False 1(2) by (simp add: word_unat_eq_iff unat_div div_eq_0_iff)
    have n: "\<not> (b = 0 \<or> PRINT_BUF_LEN \<le> length buf)" using 1(4) b by (simp add: d)
    show ?thesis using 1(1)[OF 1(3) n 1(2) u] 1(3,4) n
      by (subst printi_digits.simps) (simp add: d digit_char_text)
  qed
qed

lemma digits_fit: "b = 10 \<or> b = 16 \<Longrightarrow> length (nat_digits b (unat (u :: u32))) \<le> 10"
  using nat_digits_length[of b "unat u" 9] unsigned_less[of u, where ?'a = nat] by auto

lemma unat_digit_text:
  assumes "d < 16" "letbase = 97 \<or> letbase = 65"
  shows "unat (digit_text letbase d) = (if d < 10 then 48 + d else nat letbase + d - 10)"
proof (cases "d < 10")
  case False
  then have "letbase + int d - 10 = int (nat letbase + d - 10)" "nat letbase + d - 10 < 256" using assms by auto
  then have "digit_text letbase d = of_nat (nat letbase + d - 10)"
    using False unfolding digit_text_def by (metis of_int_of_nat_eq)
  with \<open>nat letbase + d - 10 < 256\<close> show ?thesis using False unat_of_nat[of "nat letbase + d - 10", where ?'a = 8] by simp
qed (simp add: digit_text_def unat_of_nat unat_word_ariths)

lemma digit_text_nonzero:
  assumes "d < 16" "letbase = 97 \<or> letbase = 65" shows "digit_text letbase d \<noteq> 0 \<and> digit_text letbase d \<noteq> 8"
  using unat_digit_text[OF assms] assms(2) by (auto split: if_splits)

definition number_text :: "u32 \<Rightarrow> u32 \<Rightarrow> bool \<Rightarrow> int \<Rightarrow> u32 \<Rightarrow> int \<Rightarrow> byte list" where
  "number_text i b sg width pad letbase =
     (let neg = sg \<and> b = 10 \<and> sint i < 0;
          ds = map (digit_text letbase) (nat_digits (unat b) (unat (if neg then - i else i)))
      in if neg then if width \<noteq> 0 \<and> pad AND PAD_ZERO \<noteq> 0 then 45 # pad_text ds (width - 1) pad else pad_text (45 # ds) width pad
         else pad_text ds width pad)"

lemma printi_console:
  assumes ok: "vga_ok (vga_state st)" and b: "b = 10 \<or> b = 16" and lb: "letbase = 97 \<or> letbase = 65"
  shows "printi False i b sg width pad letbase (st, p) = do {
    st' \<leftarrow> vga_puts (number_text i b sg width pad letbase) st; Some (int (length (number_text i b sg width pad letbase)), (st', p)) }"
proof (cases "i = 0")
  case True
  have "nat_digits (unat b) 0 = [0]" using b by (auto simp: nat_digits.simps)
  then show ?thesis using prints_console[OF ok, of "Array [48, 0]" "[48]"] True
    by (simp add: printi_def number_text_def digit_text_def)
next
  case False
  define neg where "neg \<longleftrightarrow> sg \<and> b = 10 \<and> sint i < 0"
  define u where "u = (if neg then - i else i)"
  define ds where "ds = map (digit_text letbase) (nat_digits (unat b) (unat u))"
  have ub: "unat b = 10 \<or> unat b = 16" using b by auto
  have u: "u \<noteq> 0" using False by (simp add: u_def)
  have len: "length ds \<le> 10" using digits_fit[OF ub] by (simp add: ds_def)
  have buf: "printi_digits u b letbase [0] = Some (ds @ [0])"
    using printi_digits_text[of b u "[0]" letbase] digits_fit[OF ub, of u] ub u by (auto simp: ds_def PRINT_BUF_LEN_def)
  have "d < 16" if "d \<in> set (nat_digits (unat b) (unat u))" for d using nat_digits_less[of "unat b" d "unat u"] ub that by auto
  then have nz: "0 \<notin> set ds" using digit_text_nonzero lb by (auto simp: ds_def)
  have r: "reads s (Array (ds @ [0])) ds" "reads s (Array (45 # ds @ [0])) (45 # ds)" for s using nz by auto
  have nt: "number_text i b sg width pad letbase =
      (if neg then if width \<noteq> 0 \<and> pad AND PAD_ZERO \<noteq> 0 then 45 # pad_text ds (width - 1) pad else pad_text (45 # ds) width pad
       else pad_text ds width pad)"
    unfolding number_text_def Let_def neg_def u_def ds_def by (rule refl)
  obtain st1 where st1: "vga_putc 45 st = Some st1" "vga_ok (vga_state st1)" using vga_putc_ok[OF ok, of 45] by auto
  show ?thesis
    using False buf len st1 prints_console[OF ok r(1)] prints_console[OF ok r(2)] prints_console[OF st1(2) r(1)]
    by (simp add: printi_def Let_def neg_def[symmetric] u_def[symmetric] nt PRINT_BUF_LEN_def printchar_console bind_assoc)
qed

definition parse_digit :: "byte \<Rightarrow> nat" where
  "parse_digit c = (if unat c < 58 then unat c - 48 else if unat c < 97 then unat c - 55 else unat c - 87)"

definition parse_number :: "nat \<Rightarrow> byte list \<Rightarrow> nat" where
  "parse_number b cs = digits_value b (map parse_digit cs)"

definition parse_signed :: "byte list \<Rightarrow> int" where
  "parse_signed cs = (if hd cs = 45 then - int (parse_number 10 (tl cs)) else int (parse_number 10 cs))"

lemma parse_digit_text: "d < 16 \<Longrightarrow> letbase = 97 \<or> letbase = 65 \<Longrightarrow> parse_digit (digit_text letbase d) = d"
  using unat_digit_text[of d letbase] by (auto simp: parse_digit_def)

lemma parse_nat_digits:
  assumes "b = 10 \<or> b = 16" "letbase = 97 \<or> letbase = 65"
  shows "parse_number b (map (digit_text letbase) (nat_digits b n)) = n"
proof -
  have "d < 16" if "d \<in> set (nat_digits b n)" for d using nat_digits_less[of b d n] assms(1) that by auto
  then have "map parse_digit (map (digit_text letbase) (nat_digits b n)) = nat_digits b n"
    using parse_digit_text assms(2) by (auto intro!: map_idI)
  then show ?thesis using digits_value_nat_digits by (simp add: parse_number_def)
qed

lemma digits_no_sign: "letbase = 97 \<or> letbase = 65 \<Longrightarrow> hd (map (digit_text letbase) (nat_digits 10 n)) \<noteq> 45"
proof -
  assume lb: "letbase = 97 \<or> letbase = 65"
  have ne: "nat_digits 10 n \<noteq> []" by (subst nat_digits.simps) simp
  then have "hd (nat_digits 10 n) < 10" using nat_digits_less[of 10 "hd (nat_digits 10 n)" n] by simp
  then show ?thesis using unat_digit_text[of "hd (nat_digits 10 n)" letbase] lb ne by (auto simp: hd_map)
qed

lemma pad_text_0: "pad_text cs 0 0 = cs"
  by (simp add: pad_text_def)

lemma sint_magnitude:
  fixes i :: u32
  shows "sint i < 0 \<Longrightarrow> int (unat (- i)) = - sint i" "\<not> sint i < 0 \<Longrightarrow> int (unat i) = sint i"
proof -
  have r: "- (2 ^ 31) \<le> sint i" "sint i < 2 ^ 31" using sint_greater_eq[of i] sint_less[of i] by simp_all
  have "- i = word_of_int (- sint i)" by simp
  then have "uint (- i) = uint (word_of_int (- sint i) :: u32)" by (rule arg_cong)
  also have "\<dots> = (- sint i) mod 2 ^ 32" unfolding uint_word_of_int by simp
  finally have "uint (- i) = (- sint i) mod 2 ^ 32" .
  then show "sint i < 0 \<Longrightarrow> int (unat (- i)) = - sint i" using r by (simp add: mod_pos_pos_trivial)
  have "uint i = sint i mod 2 ^ 32" using uint_sint[of i] by (simp add: take_bit_eq_mod)
  then show "\<not> sint i < 0 \<Longrightarrow> int (unat i) = sint i" using r by (simp add: mod_pos_pos_trivial)
qed

lemma plain_number:
  "number_text i b sg 0 0 letbase =
     (if sg \<and> b = 10 \<and> sint i < 0 then 45 # map (digit_text letbase) (nat_digits (unat b) (unat (- i)))
      else map (digit_text letbase) (nat_digits (unat b) (unat i)))"
  by (simp add: number_text_def pad_text_0 Let_def)

lemma number_value:
  "parse_signed (number_text i 10 True 0 0 97) = sint i"
  "parse_number 10 (number_text i 10 False 0 0 97) = unat i"
  "parse_number 16 (number_text i 16 False 0 0 97) = unat i" "parse_number 16 (number_text i 16 False 0 0 65) = unat i"
  using parse_nat_digits[of 10 97] digits_no_sign[of 97] sint_magnitude[of i]
  by (simp_all add: plain_number parse_signed_def parse_nat_digits)

lemma number_length:
  assumes "b = 10 \<or> b = 16" shows "length (number_text i b sg 0 0 letbase) \<le> 11"
proof -
  have d: "length (nat_digits (unat b) (unat u)) \<le> 10" for u :: u32 using digits_fit[of "unat b"] assms by auto
  show ?thesis using d[of i] d[of "- i"] by (auto simp: plain_number)
qed

text \<open>C18: numbers round-trip through their printed form. Without a width, \<open>%d\<close>, \<open>%u\<close>, \<open>%x\<close>
  and \<open>%X\<close> return, print at most eleven characters, all of them through the console, and the
  characters read back as the signed or unsigned value of the argument, for every 32-bit value.\<close>

theorem printi_roundtrip:
  assumes "vga_ok (vga_state st)"
  shows "\<exists>st1 st2 st3 st4 d u x y.
      printi False i 10 True 0 0 97 (st, p) = Some (int (length d), (st1, p)) \<and> vga_puts d st = Some st1 \<and> parse_signed d = sint i
    \<and> printi False i 10 False 0 0 97 (st, p) = Some (int (length u), (st2, p)) \<and> vga_puts u st = Some st2 \<and> parse_number 10 u = unat i
    \<and> printi False i 16 False 0 0 97 (st, p) = Some (int (length x), (st3, p)) \<and> vga_puts x st = Some st3 \<and> parse_number 16 x = unat i
    \<and> printi False i 16 False 0 0 65 (st, p) = Some (int (length y), (st4, p)) \<and> vga_puts y st = Some st4 \<and> parse_number 16 y = unat i
    \<and> length d \<le> 11 \<and> length u \<le> 11 \<and> length x \<le> 11 \<and> length y \<le> 11"
proof -
  have e: "\<exists>st'. printi False i b sg 0 0 lb (st, p) = Some (int (length (number_text i b sg 0 0 lb)), (st', p))
      \<and> vga_puts (number_text i b sg 0 0 lb) st = Some st'" if b: "b = 10 \<or> b = 16" and lb: "lb = 97 \<or> lb = 65" for b sg lb
  proof -
    have "c \<noteq> 8" if "c \<in> set (number_text i b sg 0 0 lb)" for c
    proof -
      have "d < 16" if "d \<in> set (nat_digits (unat b) n)" for d n using nat_digits_less[of "unat b" d n] that b by auto
      then show ?thesis using that lb digit_text_nonzero[of _ lb] by (auto simp: plain_number split: if_splits)
    qed
    then obtain st' where "vga_puts (number_text i b sg 0 0 lb) st = Some st'" using vga_puts_ok[OF assms, of "number_text i b sg 0 0 lb"] by blast
    then show ?thesis using printi_console[OF assms b lb, of i sg 0 0 p] by simp
  qed
  show ?thesis
    using e[of 10 97 True] e[of 10 97 False] e[of 16 97 False] e[of 16 65 False] number_value[of i]
      number_length[of 10 i True 97] number_length[of 10 i False 97] number_length[of 16 i False 97] number_length[of 16 i False 65]
    by blast
qed

section \<open>Formats\<close>

text \<open>A format as its pieces: characters, \<open>%%\<close>, and directives with a minus sign, zeros, the
  digits of a width and a conversion with its argument.\<close>

datatype conversion = Conv_s u32 "byte list" | Conv_d u32 | Conv_x u32 | Conv_X u32 | Conv_u u32 | Conv_c u32

datatype piece = Plain byte | Percent | Directive bool nat "byte list" conversion

fun conv_char :: "conversion \<Rightarrow> byte" where
  "conv_char (Conv_s _ _) = 115"
| "conv_char (Conv_d _) = 100"
| "conv_char (Conv_x _) = 120"
| "conv_char (Conv_X _) = 88"
| "conv_char (Conv_u _) = 117"
| "conv_char (Conv_c _) = 99"

fun conv_arg :: "conversion \<Rightarrow> u32" where
  "conv_arg (Conv_s a _) = a"
| "conv_arg (Conv_d a) = a"
| "conv_arg (Conv_x a) = a"
| "conv_arg (Conv_X a) = a"
| "conv_arg (Conv_u a) = a"
| "conv_arg (Conv_c a) = a"

fun conv_text :: "conversion \<Rightarrow> int \<Rightarrow> u32 \<Rightarrow> byte list" where
  "conv_text (Conv_s _ cs) w pad = pad_text cs w pad"
| "conv_text (Conv_d a) w pad = number_text a 10 True w pad 97"
| "conv_text (Conv_x a) w pad = number_text a 16 False w pad 97"
| "conv_text (Conv_X a) w pad = number_text a 16 False w pad 65"
| "conv_text (Conv_u a) w pad = number_text a 10 False w pad 97"
| "conv_text (Conv_c a) w pad = pad_text (if ucast a = (0 :: byte) then [] else [ucast a]) w pad"

definition width_value :: "int \<Rightarrow> byte list \<Rightarrow> int" where
  "width_value = foldl (\<lambda>w c. w * 10 + (sint c - 48))"

definition directive_pad :: "bool \<Rightarrow> nat \<Rightarrow> u32" where
  "directive_pad left zeros = (if left then PAD_RIGHT else 0) OR (if zeros = 0 then 0 else PAD_ZERO)"

fun piece_format :: "piece \<Rightarrow> byte list" where
  "piece_format (Plain c) = [c]"
| "piece_format Percent = [37, 37]"
| "piece_format (Directive left zeros ds cv) =
     37 # (if left then [45] else []) @ replicate zeros 48 @ ds @ [conv_char cv]"

fun piece_args :: "piece \<Rightarrow> u32 list" where
  "piece_args (Directive left zeros ds cv) = [conv_arg cv]"
| "piece_args _ = []"

fun piece_text :: "piece \<Rightarrow> byte list" where
  "piece_text (Plain c) = [c]"
| "piece_text Percent = [37]"
| "piece_text (Directive left zeros ds cv) = conv_text cv (width_value 0 ds) (directive_pad left zeros)"

definition is_digit :: "byte \<Rightarrow> bool" where
  "is_digit c \<longleftrightarrow> sint c \<ge> 48 \<and> sint c \<le> 57"

fun conv_ok :: "console \<Rightarrow> conversion \<Rightarrow> bool" where
  "conv_ok st (Conv_s a cs) \<longleftrightarrow> (if a = 0 then cs = butlast null_text else reads st (In_memory a) cs)"
| "conv_ok st _ \<longleftrightarrow> True"

fun piece_ok :: "console \<Rightarrow> piece \<Rightarrow> bool" where
  "piece_ok st (Plain c) \<longleftrightarrow> c \<noteq> 37"
| "piece_ok st Percent \<longleftrightarrow> True"
| "piece_ok st (Directive left zeros ds cv) \<longleftrightarrow>
     (\<forall>c\<in>set ds. is_digit c) \<and> (ds = [] \<or> hd ds \<noteq> 48) \<and> width_value 0 ds < 2 ^ 31 \<and> conv_ok st cv"

lemma piece_ok_keeps: "piece_ok st x \<Longrightarrow> vga_keeps st st' \<Longrightarrow> piece_ok st' x"
proof (cases x)
  case (Directive left zeros ds cv)
  assume "piece_ok st x" "vga_keeps st st'"
  then show ?thesis using Directive reads_keeps[of st _ _ st'] by (cases cv) (auto simp del: reads.simps)
qed simp_all

lemma print_conversion_console:
  assumes ok: "vga_ok (vga_state st)" and cv: "conv_ok st cv"
  shows "print_conversion False (conv_char cv) width pad (conv_arg cv # args) (st, p) = do {
    st' \<leftarrow> vga_puts (conv_text cv width pad) st; Some (int (length (conv_text cv width pad)), args, (st', p)) }"
proof (cases cv)
  case (Conv_s a cs)
  then have "reads st (if a \<noteq> 0 then In_memory a else Array null_text) cs"
    using cv by (cases "a = 0") (simp_all add: null_text_def)
  then show ?thesis using prints_console[OF ok] Conv_s by (simp add: print_conversion_def bind_assoc)
next
  case (Conv_c a)
  then have "reads st (Array [ucast a, 0]) (if ucast a = (0 :: byte) then [] else [ucast a])" by simp
  then show ?thesis using prints_console[OF ok] Conv_c by (simp add: print_conversion_def bind_assoc)
qed (simp_all add: print_conversion_def bind_assoc printi_console[OF ok])

lemma print_zeros_reads:
  assumes "reads st f (replicate n 48 @ c # rest)" "c \<noteq> 48"
  shows "\<exists>f'. print_zeros st f pad = Some (f', if n = 0 then pad else pad OR PAD_ZERO) \<and> reads st f' (c # rest)"
  using assms(1)
proof (induction n arbitrary: f pad)
  case 0
  then have "reads st f (c # rest)" by simp
  with reads_Cons[OF this] show ?case using assms(2) by (subst print_zeros.simps) simp
next
  case (Suc n)
  then have "reads st f (48 # (replicate n 48 @ c # rest))" by simp
  note r = reads_Cons[OF this]
  show ?case using Suc.IH[OF r(3), of "pad OR PAD_ZERO"] r(1) by (subst print_zeros.simps) (simp add: or.assoc split: if_splits)
qed

lemma width_value_mono: "\<forall>c\<in>set ds. is_digit c \<Longrightarrow> 0 \<le> w \<Longrightarrow> w \<le> width_value w ds"
proof (induction ds arbitrary: w)
  case (Cons d ds)
  then have "w \<le> w * 10 + (sint d - 48)" "0 \<le> w * 10 + (sint d - 48)" by (auto simp: is_digit_def)
  moreover have "width_value w (d # ds) = width_value (w * 10 + (sint d - 48)) ds" by (simp add: width_value_def)
  ultimately show ?case using Cons.IH[of "w * 10 + (sint d - 48)"] Cons.prems(1) by simp
qed (simp add: width_value_def)

lemma print_width_reads:
  assumes "reads st f (ds @ c # rest)" "\<forall>d\<in>set ds. is_digit d" "\<not> is_digit c" "0 \<le> w" "width_value w ds < 2 ^ 31"
  shows "\<exists>f'. print_width st f w = Some (f', width_value w ds) \<and> reads st f' (c # rest)"
  using assms
proof (induction ds arbitrary: f w)
  case Nil
  then have "reads st f (c # rest)" by simp
  with reads_Cons[OF this] show ?case using Nil by (subst print_width.simps) (auto simp: width_value_def is_digit_def)
next
  case (Cons d ds)
  then have "reads st f (d # (ds @ c # rest))" by simp
  note r = reads_Cons[OF this]
  define w' where "w' = w * 10 + (sint d - 48)"
  have w': "0 \<le> w'" "width_value w (d # ds) = width_value w' ds" using Cons.prems by (auto simp: w'_def is_digit_def width_value_def)
  then have "w' < 2 ^ 31" using width_value_mono[of ds w'] Cons.prems by simp
  then show ?case using Cons.IH[OF r(3), of w'] r(1) w' Cons.prems
    by (subst print_width.simps) (auto simp: is_digit_def Let_def w'_def[symmetric])
qed

lemma conv_char_cases: "conv_char cv \<noteq> 0 \<and> conv_char cv \<noteq> 37 \<and> conv_char cv \<noteq> 45 \<and> conv_char cv \<noteq> 48 \<and> \<not> is_digit (conv_char cv)"
  by (cases cv) (simp_all add: is_digit_def)

lemma digit_cases: "is_digit c \<Longrightarrow> c \<noteq> 0 \<and> c \<noteq> 37 \<and> c \<noteq> 45"
  by (auto simp: is_digit_def)

lemma print_plain:
  assumes "reads st f (c # rest)" "c \<noteq> 37"
  shows "\<exists>f'. (\<forall>args pc. print_loop False f args pc (st, p) =
      do { st' \<leftarrow> vga_puts [c] st; print_loop False f' args (pc + 1) (st', p) }) \<and> reads st f' rest"
  using reads_Cons[OF assms(1)] assms(2)
  by (intro exI[of _ "next_char f"]) (simp add: print_loop.simps[of False f] printchar_console bind_assoc)

lemma print_percent:
  assumes "reads st f (37 # 37 # rest)"
  shows "\<exists>f'. (\<forall>args pc. print_loop False f args pc (st, p) =
      do { st' \<leftarrow> vga_puts [37] st; print_loop False f' args (pc + 1) (st', p) }) \<and> reads st f' rest"
proof -
  note r = reads_Cons[OF assms] and r' = reads_Cons[OF reads_Cons(3)[OF assms]]
  show ?thesis using r r'
    by (intro exI[of _ "next_char (next_char f)"]) (simp add: print_loop.simps[of False f] printchar_console bind_assoc Let_def)
qed

lemma print_directive:
  assumes ok: "vga_ok (vga_state st)" and f: "reads st f (piece_format (Directive left zeros ds cv) @ rest)"
    and piece: "piece_ok st (Directive left zeros ds cv)"
  shows "\<exists>f'. (\<forall>args pc. print_loop False f (conv_arg cv # args) pc (st, p) =
      do { st' \<leftarrow> vga_puts (piece_text (Directive left zeros ds cv)) st;
           print_loop False f' args (pc + int (length (piece_text (Directive left zeros ds cv)))) (st', p) }) \<and> reads st f' rest"
proof -
  let ?tail = "ds @ conv_char cv # rest" and ?flags = "replicate zeros 48 @ ds @ conv_char cv # rest"
  let ?f1 = "next_char f"
  obtain c cs where c: "?tail = c # cs" "c \<noteq> 48" "c \<noteq> 37" "c \<noteq> 45" "c \<noteq> 0"
    using piece conv_char_cases[of cv] digit_cases by (cases ds) auto
  have "reads st f (37 # (if left then [45] else []) @ ?flags)" using f by simp
  note r = reads_Cons[OF this]
  have "\<exists>f2. (if left then next_char ?f1 else ?f1) = f2 \<and> reads st f2 ?flags" using r(3) reads_Cons(3)[of st ?f1 45 ?flags] by auto
  then obtain f2 where f2: "(if left then next_char ?f1 else ?f1) = f2" "reads st f2 ?flags" by blast
  obtain c1 where c1: "char_at st ?f1 = Some c1" "c1 \<noteq> 0" "c1 \<noteq> 37" "c1 = 45 \<longleftrightarrow> left"
    using r(3) reads_Cons(1)[of st ?f1] c by (cases left; cases zeros) auto
  obtain f3 where f3: "print_zeros st f2 (if left then PAD_RIGHT else 0) = Some (f3, directive_pad left zeros)" "reads st f3 ?tail"
    using print_zeros_reads[of st f2 zeros c cs "if left then PAD_RIGHT else 0"] f2(2) c(1,2)
    by (auto simp: directive_pad_def)
  obtain f4 where f4: "print_width st f3 0 = Some (f4, width_value 0 ds)" "reads st f4 (conv_char cv # rest)"
    using print_width_reads[OF f3(2) _ _ _ , of 0] piece conv_char_cases[of cv] by auto
  note r4 = reads_Cons[OF f4(2)]
  have "print_loop False f (conv_arg cv # args) pc (st, p) = do {
      st' \<leftarrow> vga_puts (piece_text (Directive left zeros ds cv)) st;
      print_loop False (next_char f4) args (pc + int (length (piece_text (Directive left zeros ds cv)))) (st', p) }" for args pc
    using r(1,2) c1 f2(1) f3(1) f4(1) r4(1) piece
    by (subst print_loop.simps) (simp add: Let_def print_conversion_console[OF ok] bind_assoc split: if_splits)
  then show ?thesis using r4(3) by blast
qed

lemma print_piece:
  assumes "vga_ok (vga_state st)" "reads st f (piece_format x @ rest)" "piece_ok st x"
  shows "\<exists>f'. (\<forall>args pc. print_loop False f (piece_args x @ args) pc (st, p) =
      do { st' \<leftarrow> vga_puts (piece_text x) st; print_loop False f' args (pc + int (length (piece_text x))) (st', p) }) \<and> reads st f' rest"
proof (cases x)
  case (Plain c)
  then show ?thesis using print_plain[of st f c rest p] assms(2,3) by simp
next
  case Percent
  then show ?thesis using print_percent[of st f rest p] assms(2) by simp
next
  case (Directive left zeros ds cv)
  then show ?thesis using print_directive[of st f left zeros ds cv rest p] assms by simp
qed

lemma vga_puts_Some:
  assumes "vga_ok (vga_state st)" "vga_puts cs st = Some st'" shows "vga_ok (vga_state st') \<and> vga_keeps st st'"
  using vga_puts_ok[OF assms(1), of cs] vga_puts_backspace[of cs st] assms(2) by auto

lemma print_loop_pieces:
  assumes "vga_ok (vga_state st)" "reads st f (concat (map piece_format ps))" "\<forall>x\<in>set ps. piece_ok st x"
  shows "print_loop False f (concat (map piece_args ps)) pc (st, p) = do {
    st' \<leftarrow> vga_puts (concat (map piece_text ps)) st; Some (pc + int (length (concat (map piece_text ps))), (st', p)) }"
  using assms
proof (induction ps arbitrary: st f pc)
  case Nil
  then show ?case by (subst print_loop.simps) (simp add: reads_Nil)
next
  case (Cons x ps)
  obtain f' where f': "\<And>args pc. print_loop False f (piece_args x @ args) pc (st, p) =
      do { st' \<leftarrow> vga_puts (piece_text x) st; print_loop False f' args (pc + int (length (piece_text x))) (st', p) }"
    "reads st f' (concat (map piece_format ps))"
    using print_piece[of st f x "concat (map piece_format ps)" p] Cons.prems by auto
  show ?case
  proof (cases "vga_puts (piece_text x) st")
    case None
    then show ?thesis using f'(1) by (simp add: vga_puts_append)
  next
    case (Some st1)
    then have k: "vga_ok (vga_state st1)" "vga_keeps st st1" using vga_puts_Some[OF Cons.prems(1)] by auto
    then show ?thesis using Cons.IH[OF k(1) reads_keeps[OF f'(2) k(2)]] piece_ok_keeps[OF _ k(2)] Cons.prems(3) f'(1) Some
      by (simp add: vga_puts_append add.assoc)
  qed
qed

text \<open>C17: \<open>printf\<close> refines its format. A format built from characters, \<open>%%\<close> and directives with
  optional minus sign, zeros and width prints the pieces' texts in order, as the console prints
  that text, and returns its length.\<close>

theorem printf_renders:
  assumes "vga_ok (vga_state st)" "reads st f (concat (map piece_format ps))" "\<forall>x\<in>set ps. piece_ok st x"
  shows "printf f (concat (map piece_args ps)) st = do {
    st' \<leftarrow> vga_puts (concat (map piece_text ps)) st; Some (int (length (concat (map piece_text ps))), st') }"
  using print_loop_pieces[OF assms, of 0 0] by (simp add: printf_def print_def bind_assoc)

lemma printf_overread: "printf (Array [37, 53, 0]) args st = None"
  by (simp add: printf_def print_def print_loop.simps print_zeros.simps print_width.simps print_conversion_def)

theorem printi_roundtrip_witness:
  "\<exists>st1 d. printi False 0x80000000 10 True 0 0 97 (example_console [], 0) = Some (int (length d), (st1, 0))
     \<and> vga_puts d (example_console []) = Some st1 \<and> parse_signed d = - 2147483648"
proof -
  have "vga_ok (vga_state (example_console []))" by simp
  from printi_roundtrip[OF this, of "0x80000000" 0] show ?thesis by auto
qed

theorem printf_renders_witness:
  "printf (Array [37, 53, 100, 33, 0]) [0xFFFFFFD6] (example_console []) =
     do { st' \<leftarrow> vga_puts [32, 32, 45, 52, 50, 33] (example_console []); Some (6, st') }"
proof -
  let ?ps = "[Directive False 0 [53] (Conv_d 0xFFFFFFD6), Plain 33]"
  have "map (digit_text 97) (nat_digits 10 42) = [52, 50]"
    by (simp add: nat_digits.simps[of 10 42] nat_digits.simps[of 10 4] digit_text_def)
  moreover have "replicate 2 (32 :: byte) = [32, 32]" by (simp add: numeral_2_eq_2)
  ultimately have "number_text 0xFFFFFFD6 10 True 5 0 97 = [32, 32, 45, 52, 50]"
    by (simp add: number_text_def Let_def pad_text_def)
  then have "concat (map piece_text ?ps) = [32, 32, 45, 52, 50, 33]" by (simp add: width_value_def directive_pad_def)
  moreover have "vga_ok (vga_state (example_console []))" "reads (example_console []) (Array [37, 53, 100, 33, 0]) (concat (map piece_format ?ps))"
    "\<forall>x\<in>set ?ps. piece_ok (example_console []) x"
    by (simp_all add: is_digit_def width_value_def)
  ultimately show ?thesis using printf_renders[of "example_console []" "Array [37, 53, 100, 33, 0]" ?ps] by simp
qed

end
