(* ===== verification/Interrupts.thy ===== *)
theory Interrupts
  imports Prelude
begin

text \<open>
  Interrupts: the descriptor table and the controller set-up of \<^verbatim>\<open>src/kernel/idt.c\<close>, the
  dispatch of \<^verbatim>\<open>src/kernel/irq.c\<close> and the gate of \<^verbatim>\<open>src/kernel/syscall.c\<close>. Port writes
  are kept in order as a trace, which \<open>pic_run\<close> feeds to the two 8259 controllers. Addresses of
  assembler entry points and of the table are arguments, a registered handler is an address
  (0 is \<open>NULL\<close>), and what calling it does is an argument of the dispatcher.
\<close>

section \<open>Definitions\<close>

definition IDT_SIZE :: nat where "IDT_SIZE = 256"
definition PIC_1_CTRL :: u32 where "PIC_1_CTRL = 0x20"
definition PIC_2_CTRL :: u32 where "PIC_2_CTRL = 0xA0"
definition PIC_1_DATA :: u32 where "PIC_1_DATA = 0x21"
definition PIC_2_DATA :: u32 where "PIC_2_DATA = 0xA1"

definition IDT__RING3 :: byte where "IDT__RING3 = push_bit 5 3"
definition IDT__RING0 :: byte where "IDT__RING0 = 0"
definition IDT__PRESENT :: byte where "IDT__PRESENT = push_bit 7 1"
definition IDT__INTERRUPT_GATE :: byte where "IDT__INTERRUPT_GATE = 0x0e"
definition KERNEL_CODE_SEGMENT :: u16 where "KERNEL_CODE_SEGMENT = 0x08"

definition SLAVE_PIC_CMD :: u32 where "SLAVE_PIC_CMD = 0xA0"
definition MASTER_PIC_CMD :: u32 where "MASTER_PIC_CMD = 0x20"
definition PIC_ACK :: byte where "PIC_ACK = 0x20"
definition NUMBER_OF_IRQS :: nat where "NUMBER_OF_IRQS = 16"
definition SYSCALL_IDT_ENTRY :: byte where "SYSCALL_IDT_ENTRY = 0x80"

record idt_entry =
  offset_lowerbits :: u16
  selector :: u16
  zero :: byte
  flags :: byte
  offset_higherbits :: u16

record idt_pointer =
  idt_limit :: u16
  idt_base :: u32

record interrupts =
  idt_table :: "byte \<Rightarrow> idt_entry"
  idt_ptr :: idt_pointer
  idtr :: idt_pointer
  interrupt_flag :: bool
  irq_handlers :: "u32 list"
  ports :: "(u32 \<times> byte) list"

definition write_port :: "u32 \<Rightarrow> byte \<Rightarrow> interrupts \<Rightarrow> interrupts" where
  "write_port port v s = s\<lparr>ports := ports s @ [(port, v)]\<rparr>"

definition load_idt_entry :: "byte \<Rightarrow> u32 \<Rightarrow> u16 \<Rightarrow> byte \<Rightarrow> interrupts \<Rightarrow> interrupts" where
  "load_idt_entry isr_number base sel fl s =
     s\<lparr>idt_table := (idt_table s)(isr_number :=
        \<lparr>offset_lowerbits = ucast (base AND 0xFFFF), selector = sel, zero = 0, flags = fl,
         offset_higherbits = ucast (drop_bit 16 base AND 0xFFFF)\<rparr>)\<rparr>"

definition initialize_idt_pointer :: "u32 \<Rightarrow> interrupts \<Rightarrow> interrupts" where
  "initialize_idt_pointer idt_at s = s\<lparr>idt_ptr := \<lparr>idt_limit = of_nat (8 * IDT_SIZE - 1), idt_base = idt_at\<rparr>\<rparr>"

definition pic_writes :: "(u32 \<times> byte) list" where
  "pic_writes =
     [(PIC_1_CTRL, 0x11), (PIC_2_CTRL, 0x11),
      (PIC_1_DATA, 0x20), (PIC_2_DATA, 0x28),
      (0x21, 0x4), (0xA1, 0x2),
      (PIC_1_DATA, 0x00), (PIC_2_DATA, 0x00),
      (PIC_1_DATA, 0x01), (PIC_2_DATA, 0x01),
      (0x21, 0xff), (0xA1, 0xff)]"

definition initialize_pic :: "interrupts \<Rightarrow> interrupts" where
  "initialize_pic s = foldl (\<lambda>s (port, v). write_port port v s) s pic_writes"

definition idt_init :: "u32 \<Rightarrow> interrupts \<Rightarrow> interrupts" where
  "idt_init idt_at s =
     (let s1 = initialize_idt_pointer idt_at (initialize_pic s)
      in s1\<lparr>idtr := idt_ptr s1, interrupt_flag := True\<rparr>)"

text \<open>The vectors \<open>irq_init\<close> uses for IRQ 0 to 15, in the order of its calls.\<close>

definition irq_vectors :: "byte list" where
  "irq_vectors = [32, 33, 34, 35, 36, 37, 38, 39, 0x70, 0x71, 0x72, 0x73, 0x74, 0x75, 0x76, 0x77]"

definition irq_init :: "(nat \<Rightarrow> u32) \<Rightarrow> interrupts \<Rightarrow> interrupts" where
  "irq_init irq_entry s =
     foldl (\<lambda>s (n, v). load_idt_entry v (irq_entry n) KERNEL_CODE_SEGMENT
              (IDT__PRESENT OR IDT__RING0 OR IDT__INTERRUPT_GATE) s)
       s (enumerate 0 irq_vectors)"

definition irq_ack :: "u32 \<Rightarrow> interrupts \<Rightarrow> interrupts" where
  "irq_ack irq_number s =
     (if irq_number \<ge> 8 then write_port SLAVE_PIC_CMD PIC_ACK s else write_port MASTER_PIC_CMD PIC_ACK s)"

definition default_irq_handler :: "(u32 \<Rightarrow> interrupts \<Rightarrow> interrupts option) \<Rightarrow> u32 \<Rightarrow> interrupts \<Rightarrow> interrupts option" where
  "default_irq_handler call irq_number s =
     (if unat irq_number < length (irq_handlers s)
      then do {
        s1 \<leftarrow> (if irq_handlers s ! unat irq_number \<noteq> 0 then call (irq_handlers s ! unat irq_number) s else Some s);
        Some (irq_ack irq_number s1)
      } else None)"

definition register_irq :: "u32 \<Rightarrow> u32 \<Rightarrow> interrupts \<Rightarrow> error_code_t \<times> interrupts" where
  "register_irq irq_handler index s =
     (if irq_handler = 0 \<or> index < 0 \<or> index > 15 then (INVALID_ARGUMENT, s)
      else (SUCCESS, s\<lparr>irq_handlers := (irq_handlers s)[unat index := irq_handler]\<rparr>))"

definition unregister_irq :: "u32 \<Rightarrow> u32 \<Rightarrow> interrupts \<Rightarrow> error_code_t \<times> interrupts" where
  "unregister_irq irq_handler index s =
     (if irq_handler = 0 \<or> index < 0 \<or> index > 15 then (INVALID_ARGUMENT, s)
      else (SUCCESS, s\<lparr>irq_handlers := (irq_handlers s)[unat index := 0]\<rparr>))"

definition system_calls_init :: "u32 \<Rightarrow> interrupts \<Rightarrow> interrupts" where
  "system_calls_init interrupt_80 s =
     load_idt_entry SYSCALL_IDT_ENTRY interrupt_80 KERNEL_CODE_SEGMENT
       (IDT__PRESENT OR IDT__RING3 OR IDT__INTERRUPT_GATE) s"

section \<open>The interrupt controllers\<close>

text \<open>An 8259 after its data sheet: a command with bit 4 set starts the initialisation, the next
  writes to the data port are the words ICW2, ICW3 and, if asked for, ICW4, every later one is
  the mask. The command 0x20 ends the most urgent interrupt in service.\<close>

datatype pic_phase = Ready | Want_ICW2 | Want_ICW3 | Want_ICW4

record pic =
  phase :: pic_phase
  icw4_needed :: bool
  vector_base :: byte
  cascade :: byte
  mode_8086 :: bool
  mask_bits :: byte
  in_service :: byte

definition end_of_interrupt :: "byte \<Rightarrow> byte" where
  "end_of_interrupt b = b AND (b - 1)"

definition pic_command :: "byte \<Rightarrow> pic \<Rightarrow> pic" where
  "pic_command v p =
     (if bit v 4 then p\<lparr>phase := Want_ICW2, icw4_needed := bit v 0, mask_bits := 0, in_service := 0\<rparr>
      else if v = 0x20 then p\<lparr>in_service := end_of_interrupt (in_service p)\<rparr> else p)"

definition pic_data :: "byte \<Rightarrow> pic \<Rightarrow> pic" where
  "pic_data v p =
     (case phase p of
        Ready \<Rightarrow> p\<lparr>mask_bits := v\<rparr>
      | Want_ICW2 \<Rightarrow> p\<lparr>vector_base := v AND 0xF8, phase := Want_ICW3\<rparr>
      | Want_ICW3 \<Rightarrow> p\<lparr>cascade := v, phase := (if icw4_needed p then Want_ICW4 else Ready)\<rparr>
      | Want_ICW4 \<Rightarrow> p\<lparr>mode_8086 := bit v 0, phase := Ready\<rparr>)"

fun pic_port :: "u32 \<times> byte \<Rightarrow> pic \<times> pic \<Rightarrow> pic \<times> pic" where
  "pic_port (port, v) (m, s) =
     (if port = 0x20 then (pic_command v m, s) else if port = 0x21 then (pic_data v m, s)
      else if port = 0xA0 then (m, pic_command v s) else if port = 0xA1 then (m, pic_data v s) else (m, s))"

definition pic_run :: "(u32 \<times> byte) list \<Rightarrow> pic \<times> pic \<Rightarrow> pic \<times> pic" where
  "pic_run ws ps = foldl (\<lambda>ps w. pic_port w ps) ps ws"

text \<open>The vector that the controllers send for an interrupt line. Only in 8086 mode is it the base
  plus the number of the line; in the MCS-80 mode the acknowledgement is answered with a CALL
  instruction, so there is no vector. The lines of the slave pass through the master.\<close>

definition irq_vector :: "pic \<times> pic \<Rightarrow> nat \<Rightarrow> byte option" where
  "irq_vector ps n =
     (if \<not> mode_8086 (fst ps) \<or> 8 \<le> n \<and> \<not> mode_8086 (snd ps) then None
      else Some (if n < 8 then vector_base (fst ps) + of_nat n else vector_base (snd ps) + of_nat (n - 8)))"

text \<open>The same controllers in 8086 mode.\<close>

definition in_8086_mode :: "pic \<times> pic \<Rightarrow> pic \<times> pic" where
  "in_8086_mode ps = ((fst ps)\<lparr>mode_8086 := True\<rparr>, (snd ps)\<lparr>mode_8086 := True\<rparr>)"

text \<open>A line that is delivered is in service at its controller; the slave's come through line 2
  of the master.\<close>

definition deliver :: "nat \<Rightarrow> pic \<times> pic \<Rightarrow> pic \<times> pic" where
  "deliver n = (\<lambda>(m, s).
     if n < 8 then (m\<lparr>in_service := set_bit n (in_service m)\<rparr>, s)
     else (m\<lparr>in_service := set_bit 2 (in_service m)\<rparr>, s\<lparr>in_service := set_bit (n - 8) (in_service s)\<rparr>))"

definition gate_offset :: "idt_entry \<Rightarrow> u32" where
  "gate_offset e = ucast (offset_lowerbits e) OR push_bit 16 (ucast (offset_higherbits e))"

section \<open>Set-up\<close>

lemma initialize_pic_ports: "initialize_pic s = s\<lparr>ports := ports s @ pic_writes\<rparr>"
proof -
  have "foldl (\<lambda>s (port, v). write_port port v s) s ws = s\<lparr>ports := ports s @ ws\<rparr>" for ws s
    by (induction ws arbitrary: s) (auto simp: write_port_def)
  then show ?thesis by (simp add: initialize_pic_def)
qed

lemma pic_after_init:
  "\<exists>m' s'. pic_run pic_writes (m, s) = (m', s') \<and> phase m' = Ready \<and> phase s' = Ready \<and> vector_base m' = 0x20 \<and> vector_base s' = 0x28
    \<and> cascade m' = 4 \<and> cascade s' = 2 \<and> \<not> mode_8086 m' \<and> \<not> mode_8086 s' \<and> mask_bits m' = 0xFF \<and> mask_bits s' = 0xFF"
  by (simp add: pic_run_def pic_writes_def PIC_1_CTRL_def PIC_2_CTRL_def PIC_1_DATA_def PIC_2_DATA_def pic_command_def pic_data_def)

lemma gate_offset_load:
  "gate_offset (idt_table (load_idt_entry v base sel fl s) v) = base"
proof -
  have m: "(0xFFFF :: u32) = mask 16" by (simp add: mask_eq_exp_minus_1)
  have "(ucast (ucast (base AND 0xFFFF) :: u16) :: u32) OR push_bit 16 (ucast (ucast (drop_bit 16 base AND 0xFFFF) :: u16)) = base"
  proof (rule bit_word_eqI)
    fix n
    show "bit ((ucast (ucast (base AND 0xFFFF) :: u16) :: u32) OR push_bit 16 (ucast (ucast (drop_bit 16 base AND 0xFFFF) :: u16))) n = bit base n"
      if "n < LENGTH(32)" using that unfolding m by (cases "n < 16") (auto simp: bit_simps not_less)
  qed
  then show ?thesis by (simp add: gate_offset_def load_idt_entry_def)
qed

lemma load_idt_entry_other: "w \<noteq> v \<Longrightarrow> idt_table (load_idt_entry v base sel fl s) w = idt_table s w"
  by (simp add: load_idt_entry_def)

lemma load_idt_entry_at: "selector (idt_table (load_idt_entry v base sel fl s) v) = sel" "flags (idt_table (load_idt_entry v base sel fl s) v) = fl"
  "ports (load_idt_entry v base sel fl s) = ports s"
  by (simp_all add: load_idt_entry_def)

abbreviation load_gates :: "(nat \<Rightarrow> u32) \<Rightarrow> u16 \<Rightarrow> byte \<Rightarrow> interrupts \<Rightarrow> (nat \<times> byte) list \<Rightarrow> interrupts" where
  "load_gates entry sel fl \<equiv> foldl (\<lambda>s (n, v). load_idt_entry v (entry n) sel fl s)"

lemma load_gates_other: "v \<notin> snd ` set ns \<Longrightarrow> idt_table (load_gates entry sel fl s ns) v = idt_table s v"
  by (induction ns arbitrary: s) (auto simp: load_idt_entry_other)

lemma load_gates_ports: "ports (load_gates entry sel fl s ns) = ports s"
  by (induction ns arbitrary: s) (auto simp: load_idt_entry_at)

lemma load_gates_at:
  assumes "distinct (map snd ns)" "(n, v) \<in> set ns"
  shows "gate_offset (idt_table (load_gates entry sel fl s ns) v) = entry n \<and> selector (idt_table (load_gates entry sel fl s ns) v) = sel
    \<and> flags (idt_table (load_gates entry sel fl s ns) v) = fl"
  using assms
proof (induction ns arbitrary: s)
  case (Cons x ns)
  show ?case
  proof (cases "(n, v) \<in> set ns")
    case True
    then show ?thesis using Cons by (cases x) simp
  next
    case False
    then have x: "x = (n, v)" using Cons.prems by auto
    then have "v \<notin> snd ` set ns" using Cons.prems(1) by auto
    from load_gates_other[OF this] x show ?thesis by (simp add: gate_offset_load load_idt_entry_at)
  qed
qed simp

text \<open>C28: what \<open>idt_init\<close> and \<open>irq_init\<close> make of interrupts, whatever state the controllers were
  in. Every line is masked, and both controllers take the word meant as ICW3 for ICW4 and leave
  8086 mode, so they send no vector for any line. The bases are those of the table: with 8086
  mode on, as ICW4 was meant to set it, IRQ n would arrive at vector 0x20 + n. The gates of IRQ 0
  to 7 lead from there to the assembler entry of the line. The gates of IRQ 8 to 15 are at 0x70
  and up: at the vectors of these lines the table is as it was before.\<close>

theorem interrupt_routing:
  defines "fl \<equiv> IDT__PRESENT OR IDT__RING0 OR IDT__INTERRUPT_GATE"
  shows "\<exists>s' ps'. irq_init irq_entry (idt_init idt_at s) = s' \<and> pic_run (drop (length (ports s)) (ports s')) (m, sl) = ps'
    \<and> mask_bits (fst ps') = 0xFF \<and> mask_bits (snd ps') = 0xFF
    \<and> (\<forall>n<16. irq_vector ps' n = None \<and> irq_vector (in_8086_mode ps') n = Some (0x20 + of_nat n))
    \<and> (\<forall>n<8. gate_offset (idt_table s' (0x20 + of_nat n)) = irq_entry n \<and> flags (idt_table s' (0x20 + of_nat n)) = fl)
    \<and> (\<forall>n\<in>{8..<16}. idt_table s' (0x20 + of_nat n) = idt_table s (0x20 + of_nat n))"
proof -
  define s' where "s' = irq_init irq_entry (idt_init idt_at s)"
  define ps' where "ps' = pic_run pic_writes (m, sl)"
  let ?ns = "enumerate 0 irq_vectors"
  have p: "ports s' = ports s @ pic_writes"
    by (simp add: s'_def irq_init_def load_gates_ports idt_init_def Let_def initialize_idt_pointer_def initialize_pic_ports)
  have t: "idt_table (idt_init idt_at s) = idt_table s"
    by (simp add: idt_init_def Let_def initialize_idt_pointer_def initialize_pic_ports)
  have b: "vector_base (fst ps') = 0x20" "vector_base (snd ps') = 0x28" "mask_bits (fst ps') = 0xFF" "mask_bits (snd ps') = 0xFF"
    "\<not> mode_8086 (fst ps')" "\<not> mode_8086 (snd ps')" using pic_after_init[of m sl] by (auto simp: ps'_def)
  have v: "irq_vector ps' n = None \<and> irq_vector (in_8086_mode ps') n = Some (0x20 + of_nat n)" if "n < 16" for n
  proof (cases "n < 8")
    case False
    then have "of_nat n = (of_nat (n - 8) + 8 :: byte)" by (metis of_nat_add of_nat_numeral le_add_diff_inverse2 not_less)
    then show ?thesis using False b by (simp add: irq_vector_def in_8086_mode_def)
  qed (simp add: irq_vector_def in_8086_mode_def b)
  have d: "distinct (map snd ?ns)" by (simp add: irq_vectors_def)
  have "\<forall>n<8. (n, 0x20 + of_nat n :: byte) \<in> set ?ns" by (simp add: irq_vectors_def enumerate_eq_zip All_less_Suc numeral_nat)
  then have lo: "gate_offset (idt_table s' (0x20 + of_nat n)) = irq_entry n \<and> flags (idt_table s' (0x20 + of_nat n)) = fl" if "n < 8" for n
    using load_gates_at[OF d, of n "0x20 + of_nat n"] that by (simp add: s'_def irq_init_def fl_def)
  have out: "0x20 + of_nat n \<notin> set irq_vectors" if "n \<in> {8..<16}" for n
  proof -
    have "\<forall>w\<in>set irq_vectors. unat w < 40 \<or> 112 \<le> unat w" by (simp add: irq_vectors_def)
    moreover have "unat (0x20 + of_nat n :: byte) = 32 + n" using that by (simp add: unat_word_ariths unat_of_nat)
    ultimately show ?thesis using that by fastforce
  qed
  have "snd ` set ?ns = set irq_vectors" by (metis map_snd_enumerate set_map)
  then have hi: "idt_table s' (0x20 + of_nat n) = idt_table s (0x20 + of_nat n)" if "n \<in> {8..<16}" for n
    using load_gates_other[of "0x20 + of_nat n" ?ns] out[OF that] by (simp add: s'_def irq_init_def t)
  show ?thesis by (intro exI[of _ s'] exI[of _ ps'] conjI) (use s'_def ps'_def p v lo hi b in auto)
qed

section \<open>Dispatch\<close>

lemma end_of_interrupt_single: "n < 8 \<Longrightarrow> end_of_interrupt (set_bit n 0) = 0"
proof -
  have "\<forall>n<8. end_of_interrupt (set_bit n 0) = 0" by (simp add: end_of_interrupt_def All_less_Suc numeral_nat set_bit_eq_or)
  then show "n < 8 \<Longrightarrow> end_of_interrupt (set_bit n 0) = 0" by blast
qed

text \<open>C31: an interrupt from its registration to its end. \<open>register_irq\<close> takes lines 0 to 15 and a
  handler that is not \<open>NULL\<close>, refuses anything else with \<open>INVALID_ARGUMENT\<close> and changes
  nothing then. When the line is delivered to idle controllers, the dispatcher calls that handler
  and no other, and if it comes back the controllers are idle again for lines 0 to 7; for lines 8
  to 15 only the slave is told, and the master keeps line 2 in service.\<close>

theorem irq_dispatch:
  assumes len: "length (irq_handlers s) = 16" and idle: "in_service m = 0" "in_service sl = 0"
    and call: "\<And>st. \<exists>st'. call h st = Some st' \<and> ports st' = ports st"
  shows "(if h = 0 \<or> 15 < i then register_irq h i s = (INVALID_ARGUMENT, s)
    else \<exists>s1 s2 m' sl'. register_irq h i s = (SUCCESS, s1) \<and> default_irq_handler call i s1 = Some (irq_ack i s2) \<and> call h s1 = Some s2
      \<and> pic_run (drop (length (ports s)) (ports (irq_ack i s2))) (deliver (unat i) (m, sl)) = (m', sl')
      \<and> in_service m' = (if i < 8 then 0 else 4) \<and> in_service sl' = 0
      \<and> (\<forall>j. j \<noteq> i \<longrightarrow> unat j < 16 \<longrightarrow> irq_handlers s1 ! unat j = irq_handlers s ! unat j))"
proof (cases "h = 0 \<or> 15 < i")
  case True
  then show ?thesis by (auto simp: register_irq_def)
next
  case False
  define s1 where "s1 = s\<lparr>irq_handlers := (irq_handlers s)[unat i := h]\<rparr>"
  obtain s2 where s2: "call h s1 = Some s2" "ports s2 = ports s1" using call by blast
  have i: "unat i < 16" using False by (simp add: not_less word_le_nat_alt)
  have reg: "register_irq h i s = (SUCCESS, s1)" using False by (simp add: register_irq_def s1_def)
  have run: "default_irq_handler call i s1 = Some (irq_ack i s2)"
    using i len s2(1) False by (simp add: default_irq_handler_def s1_def)
  have d: "drop (length (ports s)) (ports (irq_ack i s2)) = [(if i < 8 then 0x20 else 0xA0, 0x20)]"
    using s2(2) by (cases "i < 8") (auto simp: irq_ack_def write_port_def s1_def MASTER_PIC_CMD_def SLAVE_PIC_CMD_def PIC_ACK_def)
  have i8: "i < 8 \<longleftrightarrow> unat i < 8" by (simp add: word_less_nat_alt)
  have "set_bit 2 (0 :: byte) = 4" by (simp add: set_bit_eq_or)
  then have "\<exists>m' sl'. pic_run (drop (length (ports s)) (ports (irq_ack i s2))) (deliver (unat i) (m, sl)) = (m', sl')
      \<and> in_service m' = (if i < 8 then 0 else 4) \<and> in_service sl' = 0"
    using i idle end_of_interrupt_single[of "unat i"] end_of_interrupt_single[of "unat i - 8"] unfolding d
    by (simp add: pic_run_def deliver_def i8 pic_command_def)
  moreover have "irq_handlers s1 ! unat j = irq_handlers s ! unat j" if "j \<noteq> i" for j
    using that by (simp add: s1_def word_unat_eq_iff)
  ultimately show ?thesis using False reg run s2(1) by auto
qed

definition example_interrupts :: interrupts where
  "example_interrupts = \<lparr>idt_table = (\<lambda>_. \<lparr>offset_lowerbits = 0, selector = 0, zero = 0, flags = 0, offset_higherbits = 0\<rparr>),
     idt_ptr = \<lparr>idt_limit = 0, idt_base = 0\<rparr>, idtr = \<lparr>idt_limit = 0, idt_base = 0\<rparr>, interrupt_flag = False,
     irq_handlers = replicate 16 0, ports = []\<rparr>"

definition example_pic :: pic where
  "example_pic = \<lparr>phase = Ready, icw4_needed = False, vector_base = 0, cascade = 0, mode_8086 = False, mask_bits = 0, in_service = 0\<rparr>"

theorem irq_dispatch_witness:
  "\<exists>s1 s2 m' sl'. register_irq 0xC0101234 14 example_interrupts = (SUCCESS, s1)
     \<and> default_irq_handler (\<lambda>h s. Some s) 14 s1 = Some (irq_ack 14 s2)
     \<and> pic_run (ports (irq_ack 14 s2)) (deliver 14 (example_pic, example_pic)) = (m', sl') \<and> in_service m' = 4"
proof -
  have "length (irq_handlers example_interrupts) = 16" "in_service example_pic = 0" "ports example_interrupts = []"
    by (simp_all add: example_interrupts_def example_pic_def)
  with irq_dispatch[of example_interrupts example_pic example_pic "\<lambda>h s. Some s" "0xC0101234" 14] show ?thesis by fastforce
qed

theorem interrupt_routing_witness:
  "\<exists>s' ps'. irq_init (\<lambda>n. 0xC0102000 + of_nat n) (idt_init 0xC0103000 example_interrupts) = s'
     \<and> pic_run (ports s') (example_pic, example_pic) = ps' \<and> irq_vector ps' 8 = None \<and> irq_vector (in_8086_mode ps') 8 = Some 0x28
     \<and> idt_table s' 0x28 = idt_table example_interrupts 0x28"
proof -
  have "ports example_interrupts = []" by (simp add: example_interrupts_def)
  moreover obtain s' ps' where r: "irq_init (\<lambda>n. 0xC0102000 + of_nat n) (idt_init 0xC0103000 example_interrupts) = s'"
    "pic_run (drop (length (ports example_interrupts)) (ports s')) (example_pic, example_pic) = ps'"
    "\<forall>n<16. irq_vector ps' n = None \<and> irq_vector (in_8086_mode ps') n = Some (0x20 + of_nat n)"
    "\<forall>n\<in>{8..<16}. idt_table s' (0x20 + of_nat n) = idt_table example_interrupts (0x20 + of_nat n)"
    using interrupt_routing[of "\<lambda>n. 0xC0102000 + of_nat n" "0xC0103000" example_interrupts example_pic example_pic] by blast
  moreover have "irq_vector ps' 8 = None" "irq_vector (in_8086_mode ps') 8 = Some 0x28" using r(3) by simp_all
  moreover have "idt_table s' (0x20 + of_nat 8) = idt_table example_interrupts (0x20 + of_nat 8)" by (rule bspec[OF r(4)]) simp
  ultimately show ?thesis by simp
qed

end
