(* ===== verification/Console.thy ===== *)
theory Console
  imports Stdio Interrupts KHeap
begin

text \<open>
  The users of the console: the logger of \<^verbatim>\<open>src/kernel/logging/logger.c\<close>, the PS/2 keyboard
  of \<^verbatim>\<open>src/kernel/drivers/keyboard/keyboard_driver.c\<close>, and \<open>vga_init\<close> of the VGA driver, which
  moves the screen into the kernel heap. What the keyboard's ports return is an argument.
\<close>

section \<open>Definitions\<close>

datatype log_type_t = LOG_INFO | LOG_WARNING | LOG_ERROR | LOG_DEBUG

primrec LOG_PREFIXS :: "log_type_t \<Rightarrow> byte list" where
  "LOG_PREFIXS LOG_INFO = [91, 73, 78, 70, 79, 93, 58, 0]"
| "LOG_PREFIXS LOG_WARNING = [91, 87, 65, 82, 78, 73, 78, 71, 93, 58, 0]"
| "LOG_PREFIXS LOG_ERROR = [91, 69, 82, 82, 79, 82, 93, 58, 0]"
| "LOG_PREFIXS LOG_DEBUG = [91, 68, 69, 66, 85, 71, 93, 58, 0]"

primrec colors :: "log_type_t \<Rightarrow> vga_color" where
  "colors LOG_INFO = COLOR_LIGHT_BLUE"
| "colors LOG_WARNING = COLOR_LIGHT_MAGENTA"
| "colors LOG_ERROR = COLOR_RED"
| "colors LOG_DEBUG = COLOR_BLUE"

definition log_print :: "log_type_t \<Rightarrow> c_string \<Rightarrow> u32 list \<Rightarrow> console \<Rightarrow> console option" where
  "log_print log_type format args st = do {
     let st0 = set_terminal_color (colors log_type) st;
     (_, st1) \<leftarrow> printf (Array (LOG_PREFIXS log_type)) [] st0;
     (_, (st2, _)) \<leftarrow> print False format args (st1, 0);
     (_, st3) \<leftarrow> printf (Array [10, 0]) [] st2;
     Some (set_terminal_color VGA_DEFAULT_COLOR st3)
   }"

definition keyboard_map :: "byte list" where
  "keyboard_map =
     [0, 27, 49, 50, 51, 52, 53, 54, 55, 56,
      57, 48, 45, 61, 8,
      9,
      113, 119, 101, 114,
      116, 121, 117, 105, 111, 112, 91, 93, 10,
      0,
      97, 115, 100, 102, 103, 104, 106, 107, 108, 59,
      39, 96, 0,
      92, 122, 120, 99, 118, 98, 110,
      109, 44, 46, 47, 0,
      42,
      0,
      32,
      0,
      0,
      0, 0, 0, 0, 0, 0, 0, 0,
      0,
      0,
      0,
      0,
      0,
      0,
      45,
      0,
      0,
      0,
      43,
      0,
      0,
      0,
      0,
      0,
      0, 0, 0,
      0,
      0,
      0] @ replicate 38 0"

definition keyboard_init :: "u32 \<Rightarrow> interrupts \<Rightarrow> interrupts" where
  "keyboard_init keyboard_irq_at s = write_port 0x21 0xFD (snd (register_irq keyboard_irq_at 1 s))"

definition keyboard_irq :: "byte \<Rightarrow> byte \<Rightarrow> console \<Rightarrow> console option" where
  "keyboard_irq port_64 port_60 st =
     (if port_64 AND 0x01 \<noteq> 0
      then if sint port_60 \<ge> 0 \<and> keyboard_map ! unat port_60 \<noteq> 0
           then do { (_, st1) \<leftarrow> printf (Array [37, 99, 0]) [ucast (keyboard_map ! unat port_60)] st; Some st1 }
           else Some st
      else Some st)"

definition vga_init :: "(nat \<Rightarrow> int) \<Rightarrow> kernel_mm \<Rightarrow> vga_state_t \<Rightarrow> (kernel_mm \<times> vga_state_t) option" where
  "vga_init junk st vs = do {
     (buffer, st1) \<leftarrow> map_physical_address_to_kheap junk st VGA_PHYSICAL_ADDRESS 2;
     Some (st1, vs\<lparr>vga_buffer := buffer\<rparr>)
   }"

lemma keyboard_map_length: "length keyboard_map = 128"
  by (simp add: keyboard_map_def)


section \<open>Properties\<close>

lemma printf_pieces:
  assumes "vga_ok (vga_state st)" "reads st f (concat (map piece_format ps))" "\<forall>x\<in>set ps. piece_ok st x"
  shows "printf f (concat (map piece_args ps)) st = do {
    st' \<leftarrow> vga_puts (concat (map piece_text ps)) st; Some (int (length (concat (map piece_text ps))), st') }"
  using print_loop_pieces[OF assms, of 0 0] by (simp add: printf_def print_def bind_assoc)

lemma printf_char:
  assumes "vga_ok (vga_state st)" "c \<noteq> 0"
  shows "printf (Array [37, 99, 0]) [ucast c] st = do { st' \<leftarrow> vga_putc c st; Some (1, st') }"
proof -
  have "ucast (ucast c :: u32) = c" by (rule bit_word_eqI) (auto simp: bit_simps)
  then show ?thesis using printf_pieces[of st "Array [37, 99, 0]" "[Directive False 0 [] (Conv_c (ucast c))]"] assms
    by (simp add: width_value_def directive_pad_def pad_text_def bind_assoc)
qed

text \<open>C38: a key press. With a byte waiting at the controller, a scan code of a key with a
  character prints that character, and every other event, a released key included, changes
  nothing. The backspace key stops the kernel: its character has no handler in the console.\<close>

theorem keyboard_irq_correct:
  assumes "vga_ok (vga_state st)"
  shows "keyboard_irq status code st =
      (if bit status 0 \<and> unat code < 128 \<and> keyboard_map ! unat code \<noteq> 0 then vga_putc (keyboard_map ! unat code) st else Some st)
    \<and> (bit status 0 \<longrightarrow> keyboard_irq status 14 st = None)"
proof -
  have b: "status AND 1 \<noteq> 0 \<longleftrightarrow> bit status 0" by (simp add: and_one_eq bit_0 odd_iff_mod_2_eq_one)
  have neg: "sint k \<ge> 0 \<longleftrightarrow> unat k < 128" for k :: byte
  proof -
    have "uint k = sint k mod 256" using uint_sint[of k] by (simp add: take_bit_eq_mod)
    moreover have "- 128 \<le> sint k" "sint k < 128" using sint_greater_eq[of k] sint_less[of k] by simp_all
    moreover have "uint k = int (unat k)" by simp
    ultimately show ?thesis by presburger
  qed
  have k: "keyboard_irq status k st =
      (if bit status 0 \<and> unat k < 128 \<and> keyboard_map ! unat k \<noteq> 0 then vga_putc (keyboard_map ! unat k) st else Some st)" for k
    using printf_char[OF assms, of "keyboard_map ! unat k"] b neg[of k] by (auto simp: keyboard_irq_def bind_assoc)
  moreover have "keyboard_map ! 14 = 8" by (simp add: keyboard_map_def nth_Cons')
  ultimately show ?thesis using k[of 14] by (simp add: vga_putc_simps)
qed


theorem keyboard_irq_correct_witness:
  "keyboard_irq 1 30 (example_console []) = vga_putc 97 (example_console []) \<and> keyboard_irq 1 14 (example_console []) = None"
proof -
  have "vga_ok (vga_state (example_console []))" "keyboard_map ! 30 = 97" by (simp_all add: keyboard_map_def nth_Cons')
  with keyboard_irq_correct[of "example_console []" 1 30] show ?thesis by simp
qed

text \<open>A line of the log: prefix, text and newline in the colour of the kind of message.\<close>

lemma set_terminal_color_nonblack: "c \<noteq> COLOR_BLACK \<Longrightarrow> set_terminal_color c st = st\<lparr>vga_state := (vga_state st)\<lparr>color := c\<rparr>\<rparr>"
  by (cases c) (simp_all add: set_terminal_color_def less_eq_vga_color_def)

lemma literal_text: "0 \<notin> set cs \<Longrightarrow> 37 \<notin> set cs \<Longrightarrow> vga_ok (vga_state st) \<Longrightarrow>
  printf (Array (cs @ [0])) [] st = do { st' \<leftarrow> vga_puts cs st; Some (int (length cs), st') }"
proof -
  assume a: "0 \<notin> set cs" "37 \<notin> set cs" "vga_ok (vga_state st)"
  have m: "concat (map piece_format (map Plain cs)) = cs" "concat (map piece_text (map Plain cs)) = cs" "concat (map piece_args (map Plain cs)) = []"
    by (induction cs) auto
  have "\<forall>x\<in>set (map Plain cs). piece_ok st x" using a(2) by auto
  then show ?thesis using printf_pieces[OF a(3), of "Array (cs @ [0])" "map Plain cs"] a(1) by (simp only: m) simp
qed

lemma reads_color: "reads (st\<lparr>vga_state := (vga_state st)\<lparr>color := c\<rparr>\<rparr>) f cs = reads st f cs"
  by (cases f) (simp_all add: vga_window_def)

lemma piece_ok_color: "piece_ok (st\<lparr>vga_state := (vga_state st)\<lparr>color := c\<rparr>\<rparr>) x = piece_ok st x"
proof (cases x)
  case (Directive left zeros ds cv)
  then show ?thesis by (cases cv) (simp_all add: reads_color del: reads.simps)
qed simp_all

lemma log_print_line:
  assumes ok: "vga_ok (vga_state st)" and f: "reads st f (concat (map piece_format ps))" "\<forall>x\<in>set ps. piece_ok st x"
  shows "log_print t f (concat (map piece_args ps)) st = do {
    st' \<leftarrow> vga_puts (butlast (LOG_PREFIXS t) @ concat (map piece_text ps) @ [10]) (st\<lparr>vga_state := (vga_state st)\<lparr>color := colors t\<rparr>\<rparr>);
    Some (st'\<lparr>vga_state := (vga_state st')\<lparr>color := VGA_DEFAULT_COLOR\<rparr>\<rparr>) }"
proof -
  let ?st0 = "st\<lparr>vga_state := (vga_state st)\<lparr>color := colors t\<rparr>\<rparr>" and ?pre = "butlast (LOG_PREFIXS t)" and ?text = "concat (map piece_text ps)"
  have c: "colors t \<noteq> COLOR_BLACK" "VGA_DEFAULT_COLOR \<noteq> COLOR_BLACK" by (cases t) (simp_all add: VGA_DEFAULT_COLOR_def)
  have pre: "LOG_PREFIXS t = ?pre @ [0]" "0 \<notin> set ?pre" "37 \<notin> set ?pre" "8 \<notin> set ?pre" by (cases t; simp)+
  have ok0: "vga_ok (vga_state ?st0)" using ok by (simp add: vga_ok_def)
  obtain st1 where st1: "vga_puts ?pre ?st0 = Some st1" "vga_ok (vga_state st1)" "vga_keeps ?st0 st1"
    using vga_puts_ok[OF ok0 pre(4)] by blast
  have p1: "printf (Array (LOG_PREFIXS t)) [] ?st0 = Some (int (length ?pre), st1)"
    using literal_text[OF pre(2,3) ok0] st1(1) pre(1) by simp
  have f1: "reads st1 f (concat (map piece_format ps))" "\<forall>x\<in>set ps. piece_ok st1 x"
    using f reads_keeps[OF _ st1(3)] piece_ok_keeps[OF _ st1(3)] by (simp_all only: reads_color piece_ok_color) blast
  have p2: "print False f (concat (map piece_args ps)) (st1, 0) = do { st2 \<leftarrow> vga_puts ?text st1; Some (int (length ?text), (st2, 0)) }"
    using print_loop_pieces[OF st1(2) f1, of 0 0] by (simp add: print_def bind_assoc)
  show ?thesis
  proof (cases "vga_puts ?text st1")
    case None
    then show ?thesis using p1 p2 st1(1) by (simp add: log_print_def Let_def set_terminal_color_nonblack[OF c(1)] vga_puts_append)
  next
    case (Some st2)
    then have "printf (Array [10, 0]) [] st2 = do { st' \<leftarrow> vga_puts [10] st2; Some (1, st') }"
      using literal_text[of "[10]" st2] vga_puts_Some[OF st1(2)] by simp
    then show ?thesis using p1 p2 st1(1) Some
      by (simp add: log_print_def Let_def set_terminal_color_nonblack[OF c(1)] set_terminal_color_nonblack[OF c(2)] vga_puts_append bind_assoc)
  qed
qed

text \<open>\<open>vga_init\<close> maps the screen: the new buffer address reaches the physical one, page by page.\<close>

lemma vga_init_maps_screen:
  assumes "kheap_ready ls (vmem st)" "first_run (kheap_st st) 2 k" "k + 2 \<le> 1024"
  shows "\<exists>st' vs'. vga_init junk st vs = Some (st', vs') \<and> vs' = vs\<lparr>vga_buffer := kheap_page k\<rparr>
    \<and> (\<forall>j<2. \<forall>off<4096. translate (vmem st') (kheap_page (k + j) + off) = Some (VGA_PHYSICAL_ADDRESS + of_nat j * PAGE_SIZE + off))"
proof -
  have "4096 dvd unat VGA_PHYSICAL_ADDRESS" by (simp add: VGA_PHYSICAL_ADDRESS_def)
  from map_to_kheap_run[OF assms this, of junk] show ?thesis by (auto simp: vga_init_def)
qed

end
