(* ===== verification/Segments.thy ===== *)
theory Segments
  imports Prelude
begin

text \<open>
  Segmentation: \<^verbatim>\<open>src/kernel/gdt.c\<close> and the task state of
  \<^verbatim>\<open>src/kernel/multitask/userspace_manager.c\<close>. The descriptor table is one array seen at
  its physical and at its virtual address; \<open>lgdt\<close>, \<open>ltr\<close> and the segment loads set the
  registers of the record. The addresses of the table and of the task state are arguments, a
  store past the six descriptors is \<open>None\<close>. How the processor reads a descriptor is
  \<open>seg_base\<close>, \<open>seg_limit\<close> and the access bits.
\<close>

section \<open>Definitions\<close>

definition GDT__ON_BIT :: byte where "GDT__ON_BIT = push_bit 4 1"
definition GDT__PRESENT :: byte where "GDT__PRESENT = push_bit 7 1 OR GDT__ON_BIT"
definition GDT__RING3 :: byte where "GDT__RING3 = push_bit 5 3 OR GDT__ON_BIT"
definition GDT__RING0 :: byte where "GDT__RING0 = 0 OR GDT__ON_BIT"
definition GDT__EXECUTABLE :: byte where "GDT__EXECUTABLE = push_bit 3 1 OR GDT__ON_BIT"
definition GDT__READABLE_WRITEABLE :: byte where "GDT__READABLE_WRITEABLE = push_bit 1 1 OR GDT__ON_BIT"

record gdt_entry =
  limit_low :: u16
  base_low :: u16
  base_middle :: byte
  access :: byte
  granularity :: byte
  base_high :: byte

record gdt_ptr =
  gp_limit :: u16
  gp_base :: u32

record tss_struct_t =
  prev_tss :: u32
  esp0 :: u32
  ss0 :: u32
  esp1 :: u32
  ss1 :: u32
  esp2 :: u32
  ss2 :: u32
  tss_cr3 :: u32
  eip :: u32
  eflags :: u32
  eax :: u32
  ecx :: u32
  edx :: u32
  ebx :: u32
  esp :: u32
  ebp :: u32
  esi :: u32
  edi :: u32
  tss_es :: u32
  tss_cs :: u32
  tss_ss :: u32
  tss_ds :: u32
  tss_fs :: u32
  tss_gs :: u32
  ldt :: u32
  trap :: u16
  iomap_base :: u16

record segments =
  early_gdt :: "gdt_entry list"
  gp :: gdt_ptr
  gdtr :: gdt_ptr
  cs :: u16
  ds :: u16
  es :: u16
  fs :: u16
  gs :: u16
  ss :: u16
  tr :: u16
  task_state :: tss_struct_t

text \<open>The entry that both setters build, field by field.\<close>

definition gdt_gate :: "u32 \<Rightarrow> u32 \<Rightarrow> byte \<Rightarrow> byte \<Rightarrow> gdt_entry" where
  "gdt_gate base limit acc gran =
     \<lparr>limit_low = ucast (limit AND 0xFFFF), base_low = ucast (base AND 0xFFFF),
      base_middle = ucast (drop_bit 16 base AND 0xFF), access = acc,
      granularity = ucast (drop_bit 16 limit AND 0x0F) OR (gran AND 0xF0),
      base_high = ucast (drop_bit 24 base AND 0xFF)\<rparr>"

definition early_set_gdt_gate :: "nat \<Rightarrow> u32 \<Rightarrow> u32 \<Rightarrow> byte \<Rightarrow> byte \<Rightarrow> segments \<Rightarrow> segments option" where
  "early_set_gdt_gate num base limit acc gran s =
     (if num < length (early_gdt s)
      then Some (s\<lparr>early_gdt := (early_gdt s)[num := gdt_gate base limit acc gran]\<rparr>) else None)"

definition load_gdt :: "u32 \<Rightarrow> segments \<Rightarrow> segments option" where
  "load_gdt gdt_at s = do {
     let s0 = s\<lparr>gp := \<lparr>gp_limit = 8 * 6 - 1, gp_base = gdt_at\<rparr>\<rparr>;
     s1 \<leftarrow> early_set_gdt_gate 0 0 0 0 0 s0;
     s2 \<leftarrow> early_set_gdt_gate 1 0 0xFFFFFFFF
             (GDT__PRESENT OR GDT__RING0 OR GDT__READABLE_WRITEABLE OR GDT__EXECUTABLE) 0xCF s1;
     s3 \<leftarrow> early_set_gdt_gate 2 0 0xFFFFFFFF (GDT__PRESENT OR GDT__RING0 OR GDT__READABLE_WRITEABLE) 0xCF s2;
     Some (s3\<lparr>gdtr := gp s3, ds := 0x10, es := 0x10, fs := 0x10, gs := 0x10, ss := 0x10, cs := 0x08\<rparr>)
   }"

definition remap_gdt :: "segments \<Rightarrow> segments" where
  "remap_gdt s =
     (let p = (gp s)\<lparr>gp_base := gp_base (gp s) + KERNEL_VIRTUAL_OFFSET\<rparr>
      in s\<lparr>gp := p, gdtr := p\<rparr>)"

definition set_gdt_gate :: "u32 \<Rightarrow> u32 \<Rightarrow> u32 \<Rightarrow> byte \<Rightarrow> byte \<Rightarrow> segments \<Rightarrow> segments option" where
  "set_gdt_gate num base limit acc gran s =
     (if unat num < length (early_gdt s)
      then Some (s\<lparr>early_gdt := (early_gdt s)[unat num := gdt_gate base limit acc gran]\<rparr>) else None)"

definition TSS_SEGMENT_ENTRY :: u32 where "TSS_SEGMENT_ENTRY = 5"
definition RING3_DATA_SEGMENT_ENTRY :: u32 where "RING3_DATA_SEGMENT_ENTRY = 4"
definition RING3_CODE_SEGMENT_ENTRY :: u32 where "RING3_CODE_SEGMENT_ENTRY = 3"

text \<open>25 words and two half-words.\<close>

definition sizeof_tss_struct_t :: u32 where "sizeof_tss_struct_t = 25 * 4 + 2 * 2"

definition load_task_state_segment :: "u32 \<Rightarrow> segments \<Rightarrow> segments option" where
  "load_task_state_segment tss_at s = do {
     s1 \<leftarrow> set_gdt_gate TSS_SEGMENT_ENTRY tss_at (tss_at + sizeof_tss_struct_t - 1) 0xe9 0x00 s;
     Some (s1\<lparr>task_state := (task_state s1)\<lparr>ss0 := 0x10\<rparr>, tr := 0x28\<rparr>)
   }"

definition load_ring3_segments :: "u32 \<Rightarrow> segments \<Rightarrow> segments option" where
  "load_ring3_segments tss_at s = do {
     s1 \<leftarrow> set_gdt_gate RING3_CODE_SEGMENT_ENTRY 0 0xFFFFFFFF
             (GDT__PRESENT OR GDT__RING3 OR GDT__READABLE_WRITEABLE OR GDT__EXECUTABLE) 0xCF s;
     s2 \<leftarrow> set_gdt_gate RING3_DATA_SEGMENT_ENTRY 0 0xFFFFFFFF
             (GDT__PRESENT OR GDT__RING3 OR GDT__READABLE_WRITEABLE) 0xCF s1;
     load_task_state_segment tss_at s2
   }"

definition userspace_init :: "u32 \<Rightarrow> segments \<Rightarrow> segments option" where
  "userspace_init tss_at s = load_ring3_segments tss_at s"

definition set_kernel_stack :: "u32 \<Rightarrow> segments \<Rightarrow> segments" where
  "set_kernel_stack address s = s\<lparr>task_state := (task_state s)\<lparr>esp0 := address\<rparr>\<rparr>"

section \<open>What the processor reads\<close>

definition seg_base :: "gdt_entry \<Rightarrow> u32" where
  "seg_base e = ucast (base_low e) OR push_bit 16 (ucast (base_middle e)) OR push_bit 24 (ucast (base_high e))"

definition seg_limit_field :: "gdt_entry \<Rightarrow> u32" where
  "seg_limit_field e = ucast (limit_low e) OR push_bit 16 (ucast (granularity e AND 0x0F))"

text \<open>With the granularity bit the limit counts pages.\<close>

definition seg_limit :: "gdt_entry \<Rightarrow> u32" where
  "seg_limit e = (if bit (granularity e) 7 then push_bit 12 (seg_limit_field e) OR 0xFFF else seg_limit_field e)"

definition seg_dpl :: "gdt_entry \<Rightarrow> byte" where
  "seg_dpl e = drop_bit 5 (access e) AND 3"

datatype segment_kind = Code_segment | Data_segment | System_segment

definition seg_kind :: "gdt_entry \<Rightarrow> segment_kind" where
  "seg_kind e = (if bit (access e) 4 then if bit (access e) 3 then Code_segment else Data_segment else System_segment)"

definition seg_present :: "gdt_entry \<Rightarrow> bool" where
  "seg_present e = bit (access e) 7"

lemma field_masks:
  "(0xFFFF :: u32) = mask 16" "(0xFF :: u32) = mask 8" "(0x0F :: u32) = mask 4" "(0xFFFFF :: u32) = mask 20"
  "(0x0F :: byte) = mask 4" "(0xF0 :: byte) = push_bit 4 (mask 4)"
  by (simp_all add: mask_eq_exp_minus_1)

lemma gate_fields:
  "seg_base (gdt_gate base limit acc gran) = base"
  "seg_limit_field (gdt_gate base limit acc gran) = limit AND 0xFFFFF"
  "granularity (gdt_gate base limit acc gran) AND 0xF0 = gran AND 0xF0"
proof -
  show "seg_base (gdt_gate base limit acc gran) = base"
  proof (rule bit_word_eqI)
    fix n
    show "bit (seg_base (gdt_gate base limit acc gran)) n = bit base n" if "n < LENGTH(32)"
      using that unfolding seg_base_def gdt_gate_def field_masks by (cases "n < 24") (auto simp: bit_simps not_less)
  qed
  show "seg_limit_field (gdt_gate base limit acc gran) = limit AND 0xFFFFF" "granularity (gdt_gate base limit acc gran) AND 0xF0 = gran AND 0xF0"
    unfolding seg_limit_field_def gdt_gate_def field_masks by (auto simp: bit_simps not_less intro!: bit_word_eqI)
qed

text \<open>C26: a descriptor round-trips through its scattered fields. The base, the low twenty bits
  of the limit, the access byte and the upper half of the granularity byte are what the setters
  were given, for all arguments; the upper twelve bits of the limit are dropped.\<close>

theorem gdt_gate_roundtrip:
  "seg_base (gdt_gate base limit acc gran) = base
   \<and> seg_limit_field (gdt_gate base limit acc gran) = limit AND 0xFFFFF
   \<and> access (gdt_gate base limit acc gran) = acc
   \<and> granularity (gdt_gate base limit acc gran) AND 0xF0 = gran AND 0xF0"
  by (simp add: gate_fields) (simp add: gdt_gate_def)

lemma access_bytes:
  "GDT__PRESENT OR GDT__RING0 OR GDT__READABLE_WRITEABLE OR GDT__EXECUTABLE = 0x9A"
  "GDT__PRESENT OR GDT__RING0 OR GDT__READABLE_WRITEABLE = 0x92"
  "GDT__PRESENT OR GDT__RING3 OR GDT__READABLE_WRITEABLE OR GDT__EXECUTABLE = 0xFA"
  "GDT__PRESENT OR GDT__RING3 OR GDT__READABLE_WRITEABLE = 0xF2"
  by (simp_all add: GDT__PRESENT_def GDT__ON_BIT_def GDT__RING0_def GDT__RING3_def GDT__READABLE_WRITEABLE_def GDT__EXECUTABLE_def)

definition boot_segments :: "u32 \<Rightarrow> u32 \<Rightarrow> segments \<Rightarrow> segments option" where
  "boot_segments gdt_at tss_at s = do { s1 \<leftarrow> load_gdt gdt_at s; userspace_init tss_at (remap_gdt s1) }"

lemma flat_gate: "seg_base (gdt_gate 0 0xFFFFFFFF acc 0xCF) = 0 \<and> seg_limit (gdt_gate 0 0xFFFFFFFF acc 0xCF) = 0xFFFFFFFF"
  by (simp add: seg_base_def seg_limit_def seg_limit_field_def gdt_gate_def)

lemma boot_segments_table:
  assumes "length (early_gdt s) = 6"
  shows "\<exists>s'. boot_segments gdt_at tss_at s = Some s' \<and> early_gdt s' =
    [gdt_gate 0 0 0 0, gdt_gate 0 0xFFFFFFFF 0x9A 0xCF, gdt_gate 0 0xFFFFFFFF 0x92 0xCF, gdt_gate 0 0xFFFFFFFF 0xFA 0xCF,
     gdt_gate 0 0xFFFFFFFF 0xF2 0xCF, gdt_gate tss_at (103 + tss_at) 0xe9 0]
    \<and> gdtr s' = \<lparr>gp_limit = 47, gp_base = gdt_at + 0xC0000000\<rparr> \<and> (cs s', ss s', ds s', tr s') = (8, 0x10, 0x10, 0x28)
    \<and> ss0 (task_state s') = 0x10"
proof -
  obtain a b c d e f where g: "early_gdt s = [a, b, c, d, e, f]"
    using assms by (auto simp: length_Suc_conv numeral_nat)
  show ?thesis
    by (simp add: boot_segments_def load_gdt_def early_set_gdt_gate_def remap_gdt_def userspace_init_def load_ring3_segments_def
        load_task_state_segment_def set_gdt_gate_def TSS_SEGMENT_ENTRY_def RING3_DATA_SEGMENT_ENTRY_def RING3_CODE_SEGMENT_ENTRY_def
        sizeof_tss_struct_t_def KERNEL_VIRTUAL_OFFSET_def g access_bytes Let_def)
qed

lemma tss_limit_covers:
  fixes tss_at :: u32
  assumes "4096 dvd unat tss_at"
  shows "103 \<le> (tss_at + 103) AND 0xFFFFF"
proof -
  have "(tss_at + 103) AND 0xFFFFF = take_bit 20 (tss_at + 103)" by (simp add: field_masks take_bit_eq_mask)
  then have e: "unat ((tss_at + 103) AND 0xFFFFF) = unat (tss_at + 103) mod 2 ^ 20" by (simp add: take_bit_eq_mod unat_mod)
  obtain k where k: "unat tss_at = 4096 * k" using assms by blast
  have "k < 2 ^ 20" using unsigned_less[of tss_at, where ?'a = nat] k by simp
  then have "unat (tss_at + 103) = 4096 * k + 103" using k by (simp add: unat_word_ariths)
  moreover have "(4096 * k + 103) mod 1048576 = 4096 * (k mod 256) + 103"
  proof -
    have "256 * (k div 256) + k mod 256 = k" by (rule mult_div_mod_eq)
    then have "4096 * k + 103 = 1048576 * (k div 256) + (4096 * (k mod 256) + 103)" by linarith
    moreover have "4096 * (k mod 256) + 103 < (1048576 :: nat)" using mod_less_divisor[of 256 k] by linarith
    ultimately show ?thesis by (metis mod_mult_self4 mod_less)
  qed
  ultimately show ?thesis using e by (simp add: word_le_nat_alt)
qed

text \<open>C24: segmentation at boot. After \<open>load_gdt\<close>, \<open>remap_gdt\<close> and \<open>userspace_init\<close> the processor
  has the table at its virtual address, and the table is the flat model: a code and a data
  segment for ring 0 and for ring 3, each with base 0 and all four gigabytes, and the task state
  segment at its address, loaded, with the kernel stack segment set. The limit of the task state
  segment is its end address cut to twenty bits, not its size: it reaches at least to its end.\<close>

theorem boot_segments_flat:
  assumes "length (early_gdt s) = 6" "4096 dvd unat tss_at"
  shows "\<exists>s' n c d c3 d3 t. boot_segments gdt_at tss_at s = Some s' \<and> early_gdt s' = [n, c, d, c3, d3, t]
    \<and> gdtr s' = \<lparr>gp_limit = 47, gp_base = gdt_at + 0xC0000000\<rparr> \<and> (cs s', ss s', ds s', tr s') = (8, 0x10, 0x10, 0x28)
    \<and> (\<forall>e\<in>{c, d, c3, d3}. seg_present e \<and> seg_base e = 0 \<and> seg_limit e = 0xFFFFFFFF)
    \<and> map seg_kind [c, d, c3, d3, t] = [Code_segment, Data_segment, Code_segment, Data_segment, System_segment]
    \<and> map seg_dpl [c, d, c3, d3] = [0, 0, 3, 3] \<and> \<not> seg_present n
    \<and> seg_present t \<and> seg_base t = tss_at \<and> seg_limit t = (tss_at + 103) AND 0xFFFFF \<and> 103 \<le> seg_limit t
    \<and> ss0 (task_state s') = 0x10"
proof -
  let ?t = "gdt_gate tss_at (tss_at + 103) 0xe9 0"
  obtain s' where s': "boot_segments gdt_at tss_at s = Some s'" "early_gdt s' =
      [gdt_gate 0 0 0 0, gdt_gate 0 0xFFFFFFFF 0x9A 0xCF, gdt_gate 0 0xFFFFFFFF 0x92 0xCF, gdt_gate 0 0xFFFFFFFF 0xFA 0xCF,
       gdt_gate 0 0xFFFFFFFF 0xF2 0xCF, ?t]"
    "gdtr s' = \<lparr>gp_limit = 47, gp_base = gdt_at + 0xC0000000\<rparr>" "(cs s', ss s', ds s', tr s') = (8, 0x10, 0x10, 0x28)" "ss0 (task_state s') = 0x10"
    using boot_segments_table[OF assms(1), of gdt_at tss_at] unfolding add.commute[of 103] by blast
  have "\<not> bit (granularity ?t) 7" unfolding gdt_gate_def field_masks by (auto simp: bit_simps)
  then have "seg_limit ?t = (tss_at + 103) AND 0xFFFFF" using gate_fields(2) by (simp add: seg_limit_def)
  then have t: "seg_limit ?t = (tss_at + 103) AND 0xFFFFF \<and> 103 \<le> seg_limit ?t" using tss_limit_covers[OF assms(2)] by simp
  have a: "access (gdt_gate b l acc g) = acc" for b l acc g by (simp add: gdt_gate_def)
  show ?thesis
    by (intro exI conjI; (rule s')?) (use t flat_gate gate_fields(1)[of tss_at] in \<open>auto simp: seg_present_def seg_kind_def seg_dpl_def a\<close>)
qed

definition example_segments :: segments where
  "example_segments =
     (let z = \<lparr>limit_low = 0, base_low = 0, base_middle = 0, access = 0, granularity = 0, base_high = 0\<rparr>;
          p = \<lparr>gp_limit = 0, gp_base = 0\<rparr>
      in \<lparr>early_gdt = replicate 6 z, gp = p, gdtr = p, cs = 0, ds = 0, es = 0, fs = 0, gs = 0, ss = 0, tr = 0,
          task_state = \<lparr>prev_tss = 0, esp0 = 0, ss0 = 0, esp1 = 0, ss1 = 0, esp2 = 0, ss2 = 0, tss_cr3 = 0, eip = 0,
            eflags = 0, eax = 0, ecx = 0, edx = 0, ebx = 0, esp = 0, ebp = 0, esi = 0, edi = 0, tss_es = 0, tss_cs = 0,
            tss_ss = 0, tss_ds = 0, tss_fs = 0, tss_gs = 0, ldt = 0, trap = 0, iomap_base = 0\<rparr>\<rparr>)"

theorem boot_segments_flat_witness:
  "\<exists>s'. boot_segments 0x102000 0xC0115000 example_segments = Some s' \<and> seg_limit (early_gdt s' ! 5) = 0x15067"
proof -
  have "length (early_gdt example_segments) = 6" "4096 dvd unat (0xC0115000 :: u32)"
    by (simp_all add: example_segments_def Let_def)
  from boot_segments_flat[OF this, of "0x102000"] show ?thesis by fastforce
qed

end
