(* ===== verification/Device.thy ===== *)
theory Device
  imports Prelude
begin

text \<open>
  The device registry of \<^verbatim>\<open>src/kernel/dev/device.c\<close>: an array of pointers to devices (0 is
  \<open>NULL\<close>) and a counter.
\<close>

section \<open>Definitions\<close>

definition MAX_DEVICES :: nat where "MAX_DEVICES = 50"

record device_registry =
  devices_ptrs :: "u32 list"
  registered_devices :: u32

fun fill_empty_places :: "u32 \<Rightarrow> u32 list \<Rightarrow> u32 list" where
  "fill_empty_places dev [] = []"
| "fill_empty_places dev (p # ps) = (if p = 0 then dev else p) # fill_empty_places dev ps"

definition register_device :: "u32 \<Rightarrow> device_registry \<Rightarrow> bool \<times> device_registry" where
  "register_device dev s =
     (if dev = 0 \<or> registered_devices s = of_nat MAX_DEVICES then (False, s)
      else (False, s\<lparr>devices_ptrs := fill_empty_places dev (devices_ptrs s),
                     registered_devices := registered_devices s + 1\<rparr>))"

fun clear_first :: "u32 \<Rightarrow> u32 list \<Rightarrow> u32 list option" where
  "clear_first dev [] = None"
| "clear_first dev (p # ps) = (if p = dev then Some (0 # ps) else map_option ((#) p) (clear_first dev ps))"

definition unregister_device :: "u32 \<Rightarrow> device_registry \<Rightarrow> bool \<times> device_registry" where
  "unregister_device dev s =
     (if dev = 0 then (False, s)
      else case clear_first dev (devices_ptrs s) of
             Some ps \<Rightarrow> (True, s\<lparr>devices_ptrs := ps, registered_devices := registered_devices s - 1\<rparr>)
           | None \<Rightarrow> (False, s))"

section \<open>Behaviour\<close>

lemma fill_empty_places_map: "fill_empty_places dev ps = map (\<lambda>p. if p = 0 then dev else p) ps"
  by (induction ps) simp_all

lemma clear_first_append: "dev \<notin> set xs \<Longrightarrow> clear_first dev (xs @ dev # ys) = Some (xs @ 0 # ys)"
  by (induction xs) auto

lemma clear_first_None: "clear_first dev ps = None \<longleftrightarrow> dev \<notin> set ps"
  by (induction ps) auto

text \<open>The loop of \<open>register_device\<close> does not stop at the first empty place: one device takes all
  of them, the function reports failure, and the next device finds no place.\<close>

lemma register_device_takes_all:
  assumes "dev \<noteq> 0" "registered_devices s \<noteq> of_nat MAX_DEVICES" "register_device dev s = (r, s')"
  shows "\<not> r \<and> 0 \<notin> set (devices_ptrs s') \<and> registered_devices s' = registered_devices s + 1
    \<and> (\<forall>other. devices_ptrs (snd (register_device other s')) = devices_ptrs s')"
  using assms by (auto simp: register_device_def fill_empty_places_map)

text \<open>A first device of an empty registry has to be unregistered fifty times.\<close>

lemma unregister_after_register:
  assumes "dev \<noteq> 0" "devices_ptrs s = replicate MAX_DEVICES 0" "registered_devices s = 0"
  shows "\<exists>s1 s2. register_device dev s = (False, s1) \<and> unregister_device dev s1 = (True, s2)
    \<and> devices_ptrs s2 = 0 # replicate 49 dev \<and> registered_devices s2 = 0"
proof -
  have m: "replicate MAX_DEVICES dev = dev # replicate 49 dev"
    by (simp add: MAX_DEVICES_def) (metis Suc_numeral add_One replicate_Suc semiring_norm(5) semiring_norm(8))
  have "(of_nat MAX_DEVICES :: u32) \<noteq> 0" by (simp add: MAX_DEVICES_def)
  then show ?thesis using assms by (auto simp: register_device_def fill_empty_places_map unregister_device_def m)
qed

end
