(* ===== verification/PagedBytes.thy ===== *)
theory PagedBytes
  imports HeapSound LibcString
begin

text \<open>
  Bytes of paged memory, and the functions of \<^verbatim>\<open>src/libc/memory.c\<close> and
  \<^verbatim>\<open>src/libc/string.c\<close> that the file systems and the loader call on them. The byte at an
  address is a part of the aligned double word around it, so bytes and double words are two
  views of the same memory. A byte that is not mapped ends the function with \<open>None\<close>, like
  every other page fault. The laws of a byte memory are proved once, in the locale of the
  kernel's words, for every invariant that writes keep.
\<close>

section \<open>Definitions\<close>

definition word_of :: "u32 \<Rightarrow> u32" where
  "word_of a = a AND NOT 3"

definition byte_index :: "u32 \<Rightarrow> nat" where
  "byte_index a = unat (a AND 3)"

definition get_byte :: "u32 \<Rightarrow> nat \<Rightarrow> byte" where
  "get_byte w k = ucast (drop_bit (8 * k) w)"

definition set_byte :: "u32 \<Rightarrow> nat \<Rightarrow> byte \<Rightarrow> u32" where
  "set_byte w k b = (w AND NOT (push_bit (8 * k) 0xFF)) OR push_bit (8 * k) (ucast b)"

definition rd8 :: "vm \<Rightarrow> u32 \<Rightarrow> byte option" where
  "rd8 v a = map_option (\<lambda>w. get_byte w (byte_index a)) (vread v (word_of a))"

definition wr8 :: "vm \<Rightarrow> u32 \<Rightarrow> byte \<Rightarrow> vm option" where
  "wr8 v a b = do {
     w \<leftarrow> vread v (word_of a);
     vwrite v (word_of a) (set_byte w (byte_index a) b)
   }"

text \<open>Stores and loads of several bytes at any address, little-endian.\<close>

definition wr16 :: "vm \<Rightarrow> u32 \<Rightarrow> u16 \<Rightarrow> vm option" where
  "wr16 v a w = do { v1 \<leftarrow> wr8 v a (ucast w); wr8 v1 (a + 1) (ucast (drop_bit 8 w)) }"

definition rd16 :: "vm \<Rightarrow> u32 \<Rightarrow> u16 option" where
  "rd16 v a = do { l \<leftarrow> rd8 v a; h \<leftarrow> rd8 v (a + 1); Some (ucast l OR push_bit 8 (ucast h)) }"

definition rd32 :: "vm \<Rightarrow> u32 \<Rightarrow> u32 option" where
  "rd32 v a = do { l \<leftarrow> rd16 v a; h \<leftarrow> rd16 v (a + 2); Some (ucast l OR push_bit 16 (ucast h)) }"

subsection \<open>Memory functions\<close>

definition paged_memcpy :: "vm \<Rightarrow> u32 \<Rightarrow> u32 \<Rightarrow> u32 \<Rightarrow> vm option" where
  "paged_memcpy v dst src num =
     for_range (\<lambda>i v. do { b \<leftarrow> rd8 v (src + i); wr8 v (dst + i) b }) 0 num v"

definition paged_memset :: "vm \<Rightarrow> byte \<Rightarrow> u32 \<Rightarrow> u32 \<Rightarrow> vm option" where
  "paged_memset v val addr len = for_range (\<lambda>i v. wr8 v (addr + i) val) 0 len v"

subsection \<open>String functions\<close>

partial_function (option) paged_strlen_loop :: "vm \<Rightarrow> u32 \<Rightarrow> u32 \<Rightarrow> u32 option" where
  "paged_strlen_loop v str counter = do {
     c \<leftarrow> rd8 v str;
     if c \<noteq> 0 then paged_strlen_loop v (str + 1) (counter + 1) else Some counter
   }"

definition paged_strlen :: "vm \<Rightarrow> u32 \<Rightarrow> u32 option" where
  "paged_strlen v str = paged_strlen_loop v str 0"

text \<open>The tests after the loop read both characters again.\<close>

partial_function (option) paged_strcmp :: "vm \<Rightarrow> u32 \<Rightarrow> u32 \<Rightarrow> int option" where
  "paged_strcmp v str1 str2 = do {
     c1 \<leftarrow> rd8 v str1;
     c2 \<leftarrow> rd8 v str2;
     if c1 \<noteq> 0 \<and> c2 \<noteq> 0
     then if c1 \<noteq> c2 then Some (sint c1 - sint c2) else paged_strcmp v (str1 + 1) (str2 + 1)
     else if c2 \<noteq> 0 then Some (- 1)
     else if c1 \<noteq> 0 then Some 1
     else Some 0
   }"

definition paged_strncmp :: "vm \<Rightarrow> u32 \<Rightarrow> u32 \<Rightarrow> u32 \<Rightarrow> (int \<times> vm) option" where
  "paged_strncmp v str1 str2 max_length = do {
     v1 \<leftarrow> wr8 v (str1 + (max_length - 1)) 0;
     v2 \<leftarrow> wr8 v1 (str2 + (max_length - 1)) 0;
     r \<leftarrow> paged_strcmp v2 str1 str2;
     Some (r, v2)
   }"

partial_function (option) paged_strstr_loop :: "vm \<Rightarrow> u32 \<Rightarrow> u32 \<Rightarrow> u32 \<Rightarrow> u32 \<Rightarrow> u32 option" where
  "paged_strstr_loop v haystack needle needle_iter substr = do {
     h \<leftarrow> rd8 v haystack;
     if h = 0 then Some substr
     else do {
       n \<leftarrow> rd8 v needle;
       if n = 0 then Some substr
       else do {
         c \<leftarrow> rd8 v needle_iter;
         if c = h
         then paged_strstr_loop v haystack needle (needle_iter + 1) (if substr = 0 then haystack else substr)
         else paged_strstr_loop v haystack needle needle 0
       }
     }
   }"

definition paged_strstr :: "vm \<Rightarrow> u32 \<Rightarrow> u32 \<Rightarrow> u32 option" where
  "paged_strstr v haystack needle =
     (if haystack = 0 \<or> needle = 0 then Some 0 else paged_strstr_loop v haystack needle needle 0)"

section \<open>Bytes of a double word\<close>

lemma get_set_byte: "j < 4 \<Longrightarrow> k < 4 \<Longrightarrow> get_byte (set_byte w k b) j = (if j = k then b else get_byte w j)"
proof -
  assume jk: "j < 4" "k < 4"
  have m: "(0xFF :: u32) = mask 8" by (simp add: mask_eq_exp_minus_1)
  show ?thesis
  proof (cases "j = k")
    case True
    then show ?thesis using jk unfolding get_byte_def set_byte_def m
      by (intro bit_word_eqI) (auto simp: bit_simps)
  next
    case False
    then consider "j + 1 \<le> k" | "k + 1 \<le> j" by linarith
    then show ?thesis using jk False unfolding get_byte_def set_byte_def m
      by cases (intro bit_word_eqI; auto simp: bit_simps dest: bit_imp_le_length)+
  qed
qed

lemma word_of_bytes:
  fixes w w' :: u32
  assumes "\<And>k. k < 4 \<Longrightarrow> get_byte w k = get_byte w' k"
  shows "w = w'"
proof (rule bit_word_eqI)
  fix n assume n: "n < LENGTH(32)"
  then have "n div 8 < 4" by simp
  from assms[OF this] have "bit (get_byte w (n div 8)) (n mod 8) = bit (get_byte w' (n div 8)) (n mod 8)" by simp
  then show "bit w n = bit w' n" using n by (simp add: get_byte_def bit_simps)
qed

lemma byte_index_mod: "byte_index a = unat a mod 4"
proof -
  have m: "(3 :: u32) = mask 2" by (simp add: mask_eq_exp_minus_1)
  have "a AND 3 = a mod 4" unfolding m take_bit_eq_mask[symmetric] by (simp add: take_bit_eq_mod)
  then show ?thesis by (simp add: byte_index_def unat_mod)
qed

lemma byte_index_less [simp]: "byte_index a < 4"
  by (simp add: byte_index_mod)

lemma unat_word_of: "unat (word_of a) = 4 * (unat a div 4)"
proof -
  have m: "(3 :: u32) = mask 2" by (simp add: mask_eq_exp_minus_1)
  have "word_of a = push_bit 2 (drop_bit 2 a)" unfolding word_of_def m
  proof (rule bit_word_eqI)
    fix n assume "n < LENGTH(32)"
    moreover have "2 \<le> n \<Longrightarrow> Suc (Suc (n - 2)) = n" by simp
    ultimately show "bit (a AND NOT (mask 2)) n = bit (push_bit 2 (drop_bit 2 a)) n" by (auto simp: bit_simps not_less)
  qed
  moreover have "unat a div 4 * 4 \<le> unat a" by simp
  then have "unat a div 4 * 4 < 2 ^ 32" using unsigned_less[of a, where ?'a = nat] by simp
  ultimately show ?thesis by (simp add: push_bit_eq_mult drop_bit_eq_div unat_word_ariths unat_div)
qed

lemma word_of_split: "word_of a + of_nat (byte_index a) = a"
proof -
  have "unat a = 4 * (unat a div 4) + unat a mod 4" by simp
  then have "unat a = unat (word_of a) + byte_index a" by (simp only: unat_word_of byte_index_mod)
  from arg_cong[OF this, of "of_nat :: nat \<Rightarrow> u32"] show ?thesis by simp
qed

lemma byte_eqI: "word_of a = word_of b \<Longrightarrow> byte_index a = byte_index b \<Longrightarrow> a = b"
  by (metis word_of_split)

lemma word_of_eq_iff: "word_of a = a \<longleftrightarrow> 4 dvd unat a"
  by (simp add: word_unat_eq_iff unat_word_of) (metis dvd_mult_div_cancel dvd_triv_left)

lemma word_of_idem [simp]: "word_of (word_of a) = word_of a"
  by (simp add: word_of_eq_iff unat_word_of)

lemma word_of_add:
  assumes "word_of a = a" "k < 4"
  shows "word_of (a + of_nat k) = a" "byte_index (a + of_nat k) = k"
proof -
  from assms(1) obtain q where q: "unat a = 4 * q" by (auto simp: word_of_eq_iff)
  then have "4 * q < 2 ^ 32" using unsigned_less[of a, where ?'a = nat] by simp
  then have "4 * q + k < 2 ^ 32" using assms(2) by simp
  then have u: "unat (a + of_nat k) = 4 * q + k" using assms(2) q by (simp add: unat_word_ariths unat_of_nat)
  then show "byte_index (a + of_nat k) = k" using assms(2) by (simp add: byte_index_mod)
  have "unat (word_of (a + of_nat k)) = unat a" using assms(2) q u by (simp add: unat_word_of)
  then show "word_of (a + of_nat k) = a" by (simp only: word_unat_eq_iff)
qed

text \<open>The bytes of a set of double words, and the double word as its four bytes.\<close>

definition bytes_of :: "u32 set \<Rightarrow> u32 set" where
  "bytes_of W = {a. word_of a \<in> W}"

lemma bytes_of_iff [simp]: "a \<in> bytes_of W \<longleftrightarrow> word_of a \<in> W"
  by (simp add: bytes_of_def)

lemma rd8_word: "word_of w = w \<Longrightarrow> k < 4 \<Longrightarrow> rd8 v (w + of_nat k) = map_option (\<lambda>x. get_byte x k) (vread v w)"
  by (simp add: rd8_def word_of_add)

lemma vread_bytes:
  assumes "word_of w = w" "vread v w = Some x" "vread v' w = Some y" "\<And>k. k < 4 \<Longrightarrow> rd8 v' (w + of_nat k) = rd8 v (w + of_nat k)"
  shows "vread v' w = vread v w"
  using assms rd8_word[OF assms(1)] by (auto intro!: word_of_bytes)

section \<open>Bytes in a window of the kernel\<close>

lemma span_mono: "k \<le> n \<Longrightarrow> span a k \<subseteq> span a n"
  by auto

lemma span_0 [simp]: "span a 0 = {}"
  by (simp add: span_def)

context kernel_words
begin

lemma rd8_good: "good W v \<Longrightarrow> a \<in> bytes_of W \<Longrightarrow> \<exists>b. rd8 v a = Some b"
  using rd_good[of W v "word_of a"] by (auto simp: rd8_def)

lemma wr8_good:
  assumes "good W v" "a \<in> bytes_of W"
  obtains v' where "wr8 v a b = Some v'" "good W v'" "rd8 v' a = Some b"
    "\<And>c. c \<in> bytes_of W \<Longrightarrow> c \<noteq> a \<Longrightarrow> rd8 v' c = rd8 v c"
    "\<And>w. w \<in> W \<Longrightarrow> w \<noteq> word_of a \<Longrightarrow> vread v' w = vread v w"
proof -
  have a: "word_of a \<in> W" using assms(2) by simp
  obtain x where x: "vread v (word_of a) = Some x" using rd_good[OF assms(1) a] by blast
  obtain v' where v': "vwrite v (word_of a) (set_byte x (byte_index a) b) = Some v'" "good W v'"
    "vread v' (word_of a) = Some (set_byte x (byte_index a) b)" "\<And>w. w \<in> W \<Longrightarrow> w \<noteq> word_of a \<Longrightarrow> vread v' w = vread v w"
    using wr_word[OF assms(1) a] by blast
  have "wr8 v a b = Some v'" using x v'(1) by (simp add: wr8_def)
  moreover have "rd8 v' a = Some b" using v'(3) by (simp add: rd8_def get_set_byte)
  moreover have "rd8 v' c = rd8 v c" if "c \<in> bytes_of W" "c \<noteq> a" for c
  proof (cases "word_of c = word_of a")
    case True
    then have "byte_index c \<noteq> byte_index a" using byte_eqI that(2) by blast
    then show ?thesis using True x v'(3) by (simp add: rd8_def get_set_byte)
  qed (use that(1) v'(4) in \<open>simp add: rd8_def\<close>)
  ultimately show thesis using that v'(2,4) by blast
qed

text \<open>A forward copy between regions that do not overlap.\<close>

lemma paged_memcpy_copies:
  assumes good: "good W v" and src: "span src (unat n) \<subseteq> bytes_of W" and dst: "span dst (unat n) \<subseteq> bytes_of W"
    and apart: "span src (unat n) \<inter> span dst (unat n) = {}"
  obtains v' where "paged_memcpy v dst src n = Some v'" "good W v'"
    "\<And>i. i < unat n \<Longrightarrow> rd8 v' (dst + of_nat i) = rd8 v (src + of_nat i)"
    "\<And>c. c \<in> bytes_of W \<Longrightarrow> c \<notin> span dst (unat n) \<Longrightarrow> rd8 v' c = rd8 v c"
proof -
  let ?I = "\<lambda>k v'. good W v' \<and> (\<forall>i<k. rd8 v' (dst + of_nat i) = rd8 v (src + of_nat i))
    \<and> (\<forall>c\<in>bytes_of W. c \<notin> span dst k \<longrightarrow> rd8 v' c = rd8 v c)"
  let ?body = "\<lambda>i v. do { b \<leftarrow> rd8 v (src + i); wr8 v (dst + i) b }"
  have n: "unat n < 2 ^ 32" using unsigned_less[of n, where ?'a = nat] by simp
  have "\<exists>v'. for_range ?body 0 (0 + of_nat (unat n)) v = Some v' \<and> ?I (unat n) v'"
  proof (rule for_range_rule)
    fix k v1 assume k: "k < unat n" and I: "?I k v1"
    have s: "src + of_nat k \<in> span src (unat n)" and d: "dst + of_nat k \<in> span dst (unat n)"
      using k n by (simp_all add: unat_of_nat)
    then have "src + of_nat k \<notin> span dst k" using apart span_mono[of k "unat n" dst] k by (meson disjoint_iff less_imp_le subsetD)
    then have b: "rd8 v1 (src + of_nat k) = rd8 v (src + of_nat k)" using I src s by blast
    obtain b where b': "rd8 v (src + of_nat k) = Some b" using rd8_good[OF good] src s by blast
    obtain v2 where v2: "wr8 v1 (dst + of_nat k) b = Some v2" "good W v2" "rd8 v2 (dst + of_nat k) = Some b"
      "\<And>c. c \<in> bytes_of W \<Longrightarrow> c \<noteq> dst + of_nat k \<Longrightarrow> rd8 v2 c = rd8 v1 c"
      using wr8_good[OF conjunct1[OF I] subsetD[OF dst d], of b] by blast
    have "rd8 v2 (dst + of_nat i) = rd8 v (src + of_nat i)" if "i < Suc k" for i
    proof (cases "i = k")
      case False
      then have i: "i < k" using that by simp
      then have "dst + of_nat i \<in> span dst (unat n)" using k n by (simp add: unat_of_nat)
      then have "dst + of_nat i \<in> bytes_of W" using dst by blast
      moreover have "of_nat i \<noteq> (of_nat k :: u32)" using i k n by (auto simp: word_unat_eq_iff unat_of_nat)
      ultimately show ?thesis using v2(4)[of "dst + of_nat i"] I i by simp
    qed (use v2(3) b' in simp)
    moreover have "rd8 v2 c = rd8 v c" if "c \<in> bytes_of W" "c \<notin> span dst (Suc k)" for c
    proof -
      have "c \<noteq> dst + of_nat k" "c \<notin> span dst k" using that(2) k n by (auto simp: unat_of_nat)
      then show ?thesis using v2(4)[OF that(1)] I that(1) by simp
    qed
    ultimately show "\<exists>v2. ?body (0 + of_nat k) v1 = Some v2 \<and> ?I (Suc k) v2"
      using b b' v2(1,2) by (intro exI[of _ v2]) simp
  qed (use n good in simp_all)
  then obtain v' where "paged_memcpy v dst src n = Some v'" "?I (unat n) v'" by (auto simp: paged_memcpy_def)
  then show thesis using that by blast
qed

lemma paged_memset_fills:
  assumes good: "good W v" and dst: "span dst (unat n) \<subseteq> bytes_of W"
  obtains v' where "paged_memset v b dst n = Some v'" "good W v'"
    "\<And>c. c \<in> span dst (unat n) \<Longrightarrow> rd8 v' c = Some b"
    "\<And>c. c \<in> bytes_of W \<Longrightarrow> c \<notin> span dst (unat n) \<Longrightarrow> rd8 v' c = rd8 v c"
proof -
  let ?I = "\<lambda>k v'. good W v' \<and> (\<forall>c\<in>span dst k. rd8 v' c = Some b)
    \<and> (\<forall>c\<in>bytes_of W. c \<notin> span dst k \<longrightarrow> rd8 v' c = rd8 v c)"
  have n: "unat n < 2 ^ 32" using unsigned_less[of n, where ?'a = nat] by simp
  have "\<exists>v'. for_range (\<lambda>i v. wr8 v (dst + i) b) 0 (0 + of_nat (unat n)) v = Some v' \<and> ?I (unat n) v'"
  proof (rule for_range_rule)
    fix k v1 assume k: "k < unat n" and I: "?I k v1"
    have d: "dst + of_nat k \<in> span dst (unat n)" using k n by (simp add: unat_of_nat)
    obtain v2 where v2: "wr8 v1 (dst + of_nat k) b = Some v2" "good W v2" "rd8 v2 (dst + of_nat k) = Some b"
      "\<And>c. c \<in> bytes_of W \<Longrightarrow> c \<noteq> dst + of_nat k \<Longrightarrow> rd8 v2 c = rd8 v1 c"
      using wr8_good[OF conjunct1[OF I] subsetD[OF dst d], of b] by blast
    have "rd8 v2 c = Some b" if "c \<in> span dst (Suc k)" for c
    proof (cases "c = dst + of_nat k")
      case False
      have c: "c \<in> span dst (unat n)" using that k by simp
      have "unat (c - dst) \<noteq> k"
      proof
        assume "unat (c - dst) = k"
        from arg_cong[OF this, of "of_nat :: nat \<Rightarrow> u32"] have "c - dst = of_nat k" by simp
        then show False using False by (simp add: algebra_simps)
      qed
      then have "c \<in> span dst k" using that by simp
      then show ?thesis using v2(4)[of c] False I c dst by (metis subsetD)
    qed (simp add: v2(3))
    moreover have "rd8 v2 c = rd8 v c" if "c \<in> bytes_of W" "c \<notin> span dst (Suc k)" for c
    proof -
      have "c \<noteq> dst + of_nat k" "c \<notin> span dst k" using that(2) k n by (auto simp: unat_of_nat)
      then show ?thesis using v2(4)[OF that(1)] I that(1) by simp
    qed
    ultimately show "\<exists>v2. wr8 v1 (dst + (0 + of_nat k)) b = Some v2 \<and> ?I (Suc k) v2"
      using v2(1,2) by (intro exI[of _ v2]) simp
  qed (use n good in simp_all)
  then obtain v' where "paged_memset v b dst n = Some v'" "?I (unat n) v'" by (auto simp: paged_memset_def)
  then show thesis using that by blast
qed

text \<open>Double words away from the bytes that changed.\<close>

lemma words_kept:
  assumes "good W v" "good W v'" "\<And>c. c \<in> bytes_of W \<Longrightarrow> c \<notin> S \<Longrightarrow> rd8 v' c = rd8 v c"
    and "w \<in> W" "word_of w = w" "span w 4 \<inter> S = {}"
  shows "vread v' w = vread v w"
proof -
  obtain x y where "vread v w = Some x" "vread v' w = Some y" using rd_good assms(1,2,4) by blast
  moreover have "rd8 v' (w + of_nat k) = rd8 v (w + of_nat k)" if k: "k < 4" for k
  proof (rule assms(3))
    show "w + of_nat k \<in> bytes_of W" using assms(4,5) k by (simp add: word_of_add)
    have "w + of_nat k \<in> span w 4" using k by (simp add: unat_of_nat)
    then show "w + of_nat k \<notin> S" using assms(6) by blast
  qed
  ultimately show ?thesis using vread_bytes[OF assms(5)] by blast
qed

end

section \<open>Strings in paged memory\<close>

text \<open>A string at an address: its characters, none of them zero, and the terminator.\<close>

definition paged_cstr :: "vm \<Rightarrow> u32 \<Rightarrow> byte list \<Rightarrow> bool" where
  "paged_cstr v a xs \<longleftrightarrow> 0 \<notin> set xs \<and> (\<forall>i<length xs. rd8 v (a + of_nat i) = Some (xs ! i)) \<and> rd8 v (a + of_nat (length xs)) = Some 0"

lemma paged_cstr_Nil [simp]: "paged_cstr v a [] \<longleftrightarrow> rd8 v a = Some 0"
  by (simp add: paged_cstr_def)

lemma paged_cstr_Cons [simp]: "paged_cstr v a (x # xs) \<longleftrightarrow> x \<noteq> 0 \<and> rd8 v a = Some x \<and> paged_cstr v (a + 1) xs"
proof -
  have "(\<forall>i<Suc n. P i) \<longleftrightarrow> P 0 \<and> (\<forall>i<n. P (Suc i))" for P n by (metis less_Suc_eq_0_disj)
  then show ?thesis unfolding paged_cstr_def by (auto simp: add.assoc)
qed

lemma paged_cstr_cong:
  assumes "\<And>i. i \<le> length xs \<Longrightarrow> rd8 v' (a + of_nat i) = rd8 v (a + of_nat i)"
  shows "paged_cstr v' a xs = paged_cstr v a xs"
  using assms by (simp add: paged_cstr_def)

lemma paged_strlen_loop_cstr: "paged_cstr v a xs \<Longrightarrow> paged_strlen_loop v a n = Some (n + of_nat (length xs))"
  by (induction xs arbitrary: a n) (subst paged_strlen_loop.simps, simp add: add.assoc)+

lemma paged_strlen_cstr: "paged_cstr v a xs \<Longrightarrow> paged_strlen v a = Some (of_nat (length xs))"
  by (simp add: paged_strlen_def paged_strlen_loop_cstr)

lemma paged_strcmp_zero_iff:
  assumes "paged_cstr v a xs" "paged_cstr v b ys"
  shows "\<exists>r. paged_strcmp v a b = Some r \<and> (r = 0 \<longleftrightarrow> xs = ys)"
  using assms
proof (induction xs arbitrary: a b ys)
  case Nil
  then show ?case by (cases ys) (subst paged_strcmp.simps, simp)+
next
  case (Cons x xs)
  show ?case
  proof (cases ys)
    case Nil
    then show ?thesis using Cons.prems by (subst paged_strcmp.simps) simp
  next
    case ys: (Cons y ys')
    have "sint x - sint y = 0 \<longleftrightarrow> x = y" by (simp add: sint_eq_iff_byte)
    then show ?thesis using Cons.IH[of "a + 1" "b + 1" ys'] Cons.prems ys
      by (subst paged_strcmp.simps) auto
  qed
qed

section \<open>Words of a region\<close>

definition words_from :: "u32 \<Rightarrow> nat \<Rightarrow> u32 set" where
  "words_from p k = (\<lambda>i. p + 4 * of_nat i) ` {..<k}"

lemma word_of_step: "word_of p = p \<Longrightarrow> word_of (p + 4 * of_nat i) = p + 4 * of_nat i"
proof -
  assume "word_of p = p"
  then have "4 dvd unat p" by (simp add: word_of_eq_iff)
  then have "4 dvd (unat p + unat (4 * of_nat i :: u32)) mod 2 ^ 32" by (simp add: dvd_mod unat_word_ariths)
  then show ?thesis by (simp add: word_of_eq_iff unat_word_ariths)
qed

lemma word_of_in_words_from:
  assumes "word_of p = p" "c \<in> span p (4 * k)"
  shows "word_of c \<in> words_from p k"
proof -
  let ?m = "unat (c - p)"
  have "c = p + of_nat ?m" by simp
  also have "\<dots> = p + of_nat (4 * (?m div 4) + ?m mod 4)" by (simp only: mult_div_mod_eq)
  finally have c: "c = p + 4 * of_nat (?m div 4) + of_nat (?m mod 4)"
    by (simp only: of_nat_add of_nat_mult add.assoc) simp
  have "word_of c = p + 4 * of_nat (?m div 4)"
    using word_of_add(1)[OF word_of_step[OF assms(1)], of "?m mod 4" "?m div 4"] by (subst c) simp
  moreover have "?m div 4 < k" using assms(2) by simp
  ultimately show ?thesis by (auto simp: words_from_def)
qed

lemma span_bytes_of: "word_of p = p \<Longrightarrow> n \<le> 4 * k \<Longrightarrow> words_from p k \<subseteq> W \<Longrightarrow> span p n \<subseteq> bytes_of W"
proof
  fix c assume "word_of p = p" "n \<le> 4 * k" "words_from p k \<subseteq> W" "c \<in> span p n"
  moreover from this have "c \<in> span p (4 * k)" by simp
  ultimately show "c \<in> bytes_of W" using word_of_in_words_from[of p c k] by auto
qed

lemma field_word: "i < k \<Longrightarrow> words_from p k \<subseteq> W \<Longrightarrow> p + 4 * of_nat i \<in> W"
  by (auto simp: words_from_def)

lemma words_from_iff: "i < 2 ^ 30 \<Longrightarrow> k \<le> 2 ^ 30 \<Longrightarrow> p + 4 * of_nat i \<in> words_from p k \<longleftrightarrow> i < k"
proof -
  assume i: "i < 2 ^ 30" and k: "k \<le> 2 ^ 30"
  have inj: "4 * of_nat i = (4 * of_nat j :: u32) \<longleftrightarrow> i = j" if "j < 2 ^ 30" for j
    using i that by (auto simp: word_unat_eq_iff unat_word_ariths unat_of_nat)
  show ?thesis using inj k by (auto simp: words_from_def)
qed

lemma words_from_mono: "j \<le> k \<Longrightarrow> words_from p j \<subseteq> words_from p k"
  by (auto simp: words_from_def)

lemma rd8_kept: "vread v' (word_of c) = vread v (word_of c) \<Longrightarrow> rd8 v' c = rd8 v c"
  by (simp add: rd8_def)

lemma word_of_span_word: "word_of w = w \<Longrightarrow> c \<in> span w 4 \<Longrightarrow> word_of c = w"
  using word_of_in_words_from[of w c 1] by (auto simp: words_from_def)

lemma span_inside: "unat offset + n \<le> m \<Longrightarrow> span (a + offset) n \<subseteq> span a m"
proof
  fix x assume m: "unat offset + n \<le> m" and "x \<in> span (a + offset) n"
  then have x: "unat (x - a - offset) < n" by (simp add: diff_diff_eq)
  have "unat (x - a) = unat (x - a - offset + offset)" by simp
  also have "\<dots> \<le> unat (x - a - offset) + unat offset" by (simp only: unat_word_ariths) simp
  finally show "x \<in> span a m" using x m by simp
qed

text \<open>A copy into a region of whole words keeps the words outside it.\<close>

context kernel_words
begin

lemma paged_memcpy_into:
  assumes good: "good W v" and p: "word_of p = p" "unat n \<le> 4 * k" "words_from p k \<subseteq> W"
    and src: "span src (unat n) \<subseteq> bytes_of (W - words_from p k)"
  obtains v' where "paged_memcpy v p src n = Some v'" "good W v'"
    "\<And>i. i < unat n \<Longrightarrow> rd8 v' (p + of_nat i) = rd8 v (src + of_nat i)"
    "\<And>w. w \<in> W \<Longrightarrow> word_of w = w \<Longrightarrow> w \<notin> words_from p k \<Longrightarrow> vread v' w = vread v w"
proof -
  have inside: "word_of c \<in> words_from p k" if "c \<in> span p (unat n)" for c
    using that p(2) by (intro word_of_in_words_from[OF p(1)]) simp
  have "span src (unat n) \<subseteq> bytes_of W" "span src (unat n) \<inter> span p (unat n) = {}" using src inside by fastforce+
  with span_bytes_of[OF p] obtain v' where v': "paged_memcpy v p src n = Some v'" "good W v'"
    "\<And>i. i < unat n \<Longrightarrow> rd8 v' (p + of_nat i) = rd8 v (src + of_nat i)"
    "\<And>c. c \<in> bytes_of W \<Longrightarrow> c \<notin> span p (unat n) \<Longrightarrow> rd8 v' c = rd8 v c"
    using paged_memcpy_copies[OF good] by metis
  have "vread v' w = vread v w" if w: "w \<in> W" "word_of w = w" "w \<notin> words_from p k" for w
    using words_kept[OF good v'(2,4) w(1,2)] inside word_of_span_word[OF w(2)] w(3) by blast
  with v'(1-3) that show thesis by blast
qed

end

end
