(* ===== verification/HeapBlocks.thy ===== *)
theory HeapBlocks
  imports KMalloc PagedBytes
begin

text \<open>
  The interface between the heap allocator and the components that keep their structures on the
  heap: a heap with room for a block, the words an allocation writes, and what a client of
  \<open>kmalloc\<close> gets.
\<close>

text \<open>The heap has a first block with more than \<open>units\<close> units, so that \<open>kmalloc\<close> cuts the new
  block, with its header, off its end; the words concerned, the first \<open>k\<close> of the block among
  them, lie apart from the free list.\<close>

definition heap_room :: "linker_symbols \<Rightarrow> kernel_mm \<Rightarrow> u32 set \<Rightarrow> (u32 \<times> u32) list \<Rightarrow> u32 \<Rightarrow> u32 \<Rightarrow> (u32 \<times> u32) list \<Rightarrow> u32 \<Rightarrow> nat \<Rightarrow> bool" where
  "heap_room ls st W xs b n ys units k \<longleftrightarrow>
     (let a = b + 8 * (n - units); F = set (blocks_info ls # cells 0 4 (xs @ (b, n) # ys))
      in heap_sound ls st W \<and> free_list_at ls (vmem st) (xs @ (b, n) # ys)
         \<and> distinct (blocks_info ls # cells 0 4 (xs @ (b, n) # ys)) \<and> F \<subseteq> W
         \<and> (\<forall>x\<in>set xs. snd x < units) \<and> units < n
         \<and> {a - 8, a - 4} \<subseteq> W - F \<and> words_from a k \<subseteq> W - (F \<union> {a - 8, a - 4})
         \<and> a \<noteq> 0 \<and> word_of a = a \<and> (\<forall>w\<in>F. word_of w = w))"

text \<open>The words that such an allocation writes: the header and the size of the block it cuts.\<close>

definition heap_writes :: "u32 \<Rightarrow> u32 \<Rightarrow> u32 \<Rightarrow> u32 set" where
  "heap_writes b n units = {b + 8 * (n - units) - 8, b + 8 * (n - units) - 4, b + 4}"

lemma kmalloc_room:
  assumes room: "heap_room ls st W xs b n ys units k" and req: "(req + 8 - 1) div 8 = units"
  defines "a \<equiv> b + 8 * (n - units)"
  obtains v' where "kmalloc ls junk st req = Some (a, st\<lparr>vmem := v'\<rparr>)" "heap_sound ls (st\<lparr>vmem := v'\<rparr>) W"
    "free_list_at ls v' (xs @ (b, n - units) # ys)"
    "vread v' (a - 8) = Some 0" "vread v' (a - 4) = Some units"
    "\<And>w. w \<in> W \<Longrightarrow> w \<notin> heap_writes b n units \<Longrightarrow> vread v' w = vread (vmem st) w"
proof -
  let ?F = "set (blocks_info ls # cells 0 4 (xs @ (b, n) # ys))"
  have r: "heap_sound ls st W" "free_list_at ls (vmem st) (xs @ (b, n) # ys)"
    "distinct (blocks_info ls # cells 0 4 (xs @ (b, n) # ys))" "?F \<subseteq> W" "\<forall>x\<in>set xs. snd x < units" "units < n"
    "{b + 8 * (n - units) - 8, b + 8 * (n - units) - 4} \<subseteq> W - ?F"
    using room unfolding heap_room_def Let_def by blast+
  show thesis using kmalloc_splits[OF r(1-5) req r(6,7), where junk = junk] that unfolding a_def heap_writes_def by blast
qed

lemma heap_roomD:
  assumes "heap_room ls st W xs b n ys units k"
  shows "words_from (b + 8 * (n - units)) k \<subseteq> W - heap_writes b n units" "b + 8 * (n - units) \<noteq> 0"
    "word_of (b + 8 * (n - units)) = b + 8 * (n - units)"
    "\<And>w. w \<in> set (blocks_info ls # cells 0 4 (xs @ (b, n) # ys)) \<Longrightarrow>
       w \<in> W \<and> word_of w = w \<and> w \<notin> words_from (b + 8 * (n - units)) k"
  using assms by (auto simp: heap_room_def heap_writes_def Let_def)

section \<open>The first page of the heap\<close>

text \<open>Parts of the page that concrete instances use.\<close>

lemma page_word: "word_of a = a \<Longrightarrow> 0xC0800000 \<le> a \<Longrightarrow> a < 0xC0801000 \<Longrightarrow> a \<in> heap_words 0 1"
proof -
  assume a: "word_of a = a" "0xC0800000 \<le> a" "a < 0xC0801000"
  let ?j = "unat (a - 0xC0800000) div 4"
  have u: "unat (a - 0xC0800000) = unat a - 0xC0800000" "unat a < 0xC0801000" "0xC0800000 \<le> unat a"
    using a(2,3) by (simp_all add: unat_sub word_le_nat_alt word_less_nat_alt)
  moreover have "4 dvd unat a" using a(1) by (simp add: word_of_eq_iff)
  ultimately have d: "4 dvd unat (a - 0xC0800000)" by (simp add: dvd_diff_nat)
  have "?j < 1024" using u by simp
  moreover have "(4 * of_nat ?j :: u32) = of_nat (4 * ?j)" by simp
  then have "0xC0800000 + 4 * of_nat ?j = a" using d by (simp del: of_nat_mult)
  ultimately show ?thesis using first_page_words[of ?j] by simp
qed

text \<open>The double words from one address to another.\<close>

definition words_between :: "u32 \<Rightarrow> u32 \<Rightarrow> u32 set" where
  "words_between lo hi = {w. word_of w = w \<and> lo \<le> w \<and> w < hi}"

lemma words_between_iff: "w \<in> words_between lo hi \<longleftrightarrow> word_of w = w \<and> lo \<le> w \<and> w < hi"
  by (simp add: words_between_def)

lemma words_between_page: "words_between 0xC0800000 0xC0801000 \<subseteq> first_heap_page"
  using page_word by (auto simp: words_between_def)

lemma words_between_mono: "lo \<le> lo' \<Longrightarrow> hi' \<le> hi \<Longrightarrow> words_between lo' hi' \<subseteq> words_between lo hi"
  by (auto simp: words_between_def)

lemma words_between_apart: "hi \<le> lo' \<Longrightarrow> words_between lo hi \<inter> words_between lo' hi' = {}"
  by (auto simp: words_between_def)

lemma span_bounds:
  assumes "c \<in> span a n" "unat a + n \<le> unat hi"
  shows "a \<le> c" "c < hi"
proof -
  have "unat c = unat a + unat (c - a)"
  proof -
    have "unat a + unat (c - a) < 2 ^ 32" using assms unsigned_less[of hi, where ?'a = nat] by simp
    then have "unat (a + (c - a)) = unat a + unat (c - a)" by (simp only: unat_word_ariths) simp
    then show ?thesis by simp
  qed
  then show "a \<le> c" "c < hi" using assms by (simp_all add: word_le_nat_alt word_less_nat_alt)
qed

lemma span_between:
  assumes "word_of lo = lo" "lo \<le> a" "unat a + n \<le> unat hi"
  shows "span a n \<subseteq> bytes_of (words_between lo hi)"
proof
  fix c assume "c \<in> span a n"
  with assms(2,3) have c: "lo \<le> c" "c < hi" using span_bounds order.trans by blast+
  obtain q where q: "unat lo = 4 * q" using assms(1) by (auto simp: word_of_eq_iff)
  have "unat (word_of c) = 4 * (unat c div 4)" by (rule unat_word_of)
  moreover have "4 * q \<le> unat c" using c(1) q by (simp add: word_le_nat_alt)
  then have "4 * q \<le> 4 * (unat c div 4)" by simp
  ultimately have "lo \<le> word_of c" "word_of c < hi" using c(2) q by (simp_all add: word_le_nat_alt word_less_nat_alt)
  then show "c \<in> bytes_of (words_between lo hi)" by (simp add: words_between_iff)
qed

lemma words_from_between:
  assumes "word_of a = a" "unat a + 4 * k \<le> unat hi"
  shows "words_from a k \<subseteq> words_between a hi"
proof
  fix w assume "w \<in> words_from a k"
  then obtain i where i: "w = a + 4 * of_nat i" "i < k" by (auto simp: words_from_def)
  have "4 * k < 2 ^ 32" using assms(2) unsigned_less[of hi, where ?'a = nat] by simp
  then have "unat (4 * of_nat i :: u32) < 4 * k" using i(2) by (simp add: unat_word_ariths unat_of_nat)
  then have "w \<in> span a (4 * k)" by (simp add: i(1))
  from span_bounds[OF this assms(2)] word_of_step[OF assms(1), of i] show "w \<in> words_between a hi"
    by (simp add: words_between_iff i(1))
qed

end
