(* ===== verification/Ata.thy ===== *)
theory Ata
  imports HeapBlocks
begin

text \<open>
  The disk driver, \<^verbatim>\<open>src/kernel/drivers/ata/ata.c\<close>. The I/O ports are an argument, a record of
  what reading and writing a port does to the state \<open>'s\<close> of the hardware, so that the driver is
  the same definition for every machine; \<open>channel\<close> below is an ATA channel as such a state.
  A pointer to a device is \<open>None\<close> for \<open>NULL\<close>; the static arrays are lists, and a
  pointer into one is an index.
\<close>

section \<open>Definitions\<close>

subsection \<open>Ports\<close>

record 's port_io =
  in8 :: "u16 \<Rightarrow> 's \<Rightarrow> byte \<times> 's"
  in16 :: "u16 \<Rightarrow> 's \<Rightarrow> u16 \<times> 's"
  out8 :: "u16 \<Rightarrow> byte \<Rightarrow> 's \<Rightarrow> 's"
  out16 :: "u16 \<Rightarrow> u16 \<Rightarrow> 's \<Rightarrow> 's"

definition port_in :: "'s port_io \<Rightarrow> u32 \<Rightarrow> 's \<Rightarrow> byte \<times> 's" where
  "port_in io port s = in8 io (ucast port) s"

definition port_out :: "'s port_io \<Rightarrow> u32 \<Rightarrow> byte \<Rightarrow> 's \<Rightarrow> 's" where
  "port_out io port val s = out8 io (ucast port) val s"

definition port_in_word :: "'s port_io \<Rightarrow> u32 \<Rightarrow> 's \<Rightarrow> u16 \<times> 's" where
  "port_in_word io port s = in16 io (ucast port) s"

definition port_out_word :: "'s port_io \<Rightarrow> u32 \<Rightarrow> u16 \<Rightarrow> 's \<Rightarrow> 's" where
  "port_out_word io port val s = out16 io (ucast port) val s"

subsection \<open>Constants\<close>

definition ATA_DATA_PORT :: u32 where "ATA_DATA_PORT = 0x0"
definition ATA_SECTOR_COUNT_PORT :: u32 where "ATA_SECTOR_COUNT_PORT = 0x2"
definition ATA_LBA_LOW_PORT :: u32 where "ATA_LBA_LOW_PORT = 0x3"
definition ATA_LBA_MID_PORT :: u32 where "ATA_LBA_MID_PORT = 0x4"
definition ATA_LBA_HIGH_PORT :: u32 where "ATA_LBA_HIGH_PORT = 0x5"
definition ATA_DRIVE_PORT :: u32 where "ATA_DRIVE_PORT = 0x6"
definition ATA_COMMAND_PORT :: u32 where "ATA_COMMAND_PORT = 0x7"
definition ATA_STATUS_PORT :: u32 where "ATA_STATUS_PORT = 0x7"
definition ALTERNATIVE_CONTROL_PORT :: u32 where "ALTERNATIVE_CONTROL_PORT = 0x206"
definition MAX_ATA_DRIVES :: nat where "MAX_ATA_DRIVES = 4"
definition DEFAULT_SECTOR_SIZE :: u32 where "DEFAULT_SECTOR_SIZE = 512"
definition IDENTIFY_BUFFER_SIZE :: nat where "IDENTIFY_BUFFER_SIZE = 256"

lemmas ata_ports = ATA_DATA_PORT_def ATA_SECTOR_COUNT_PORT_def ATA_LBA_LOW_PORT_def ATA_LBA_MID_PORT_def ATA_LBA_HIGH_PORT_def
  ATA_DRIVE_PORT_def ATA_COMMAND_PORT_def ATA_STATUS_PORT_def ALTERNATIVE_CONTROL_PORT_def

datatype device_status_t = DEVICE_BUSY | DEVICE_READY | DEVICE_FAULT | DEVICE_SEEK_COMPLETE | DEVICE_DATA_READY | DEVICE_ERROR

primrec device_status_value :: "device_status_t \<Rightarrow> byte" where
  "device_status_value DEVICE_BUSY = 0x80"
| "device_status_value DEVICE_READY = 0x40"
| "device_status_value DEVICE_FAULT = 0x20"
| "device_status_value DEVICE_SEEK_COMPLETE = 0x10"
| "device_status_value DEVICE_DATA_READY = 0x08"
| "device_status_value DEVICE_ERROR = 0x01"

datatype ata_command_t = ATA_CMD_READ_PIO | ATA_CMD_READ_PIO_EXT | ATA_CMD_READ_DMA | ATA_CMD_READ_DMA_EXT
  | ATA_CMD_WRITE_PIO | ATA_CMD_WRITE_PIO_EXT | ATA_CMD_WRITE_DMA | ATA_CMD_WRITE_DMA_EXT
  | ATA_CMD_CACHE_FLUSH | ATA_CMD_CACHE_FLUSH_EXT | ATA_CMD_PACKET | ATA_CMD_IDENTIFY_PACKET | ATA_CMD_IDENTIFY

primrec ata_command_value :: "ata_command_t \<Rightarrow> byte" where
  "ata_command_value ATA_CMD_READ_PIO = 0x20"
| "ata_command_value ATA_CMD_READ_PIO_EXT = 0x24"
| "ata_command_value ATA_CMD_READ_DMA = 0xC8"
| "ata_command_value ATA_CMD_READ_DMA_EXT = 0x25"
| "ata_command_value ATA_CMD_WRITE_PIO = 0x30"
| "ata_command_value ATA_CMD_WRITE_PIO_EXT = 0x34"
| "ata_command_value ATA_CMD_WRITE_DMA = 0xCA"
| "ata_command_value ATA_CMD_WRITE_DMA_EXT = 0x35"
| "ata_command_value ATA_CMD_CACHE_FLUSH = 0xE7"
| "ata_command_value ATA_CMD_CACHE_FLUSH_EXT = 0xEA"
| "ata_command_value ATA_CMD_PACKET = 0xA0"
| "ata_command_value ATA_CMD_IDENTIFY_PACKET = 0xA1"
| "ata_command_value ATA_CMD_IDENTIFY = 0xEC"

datatype device_type_t = ATA | ATAPI | SATA

subsection \<open>State\<close>

record ata_device =
  ata_base :: u32
  device_type :: device_type_t
  ata_signature :: u16
  ata_features :: u16
  command_supported :: u32
  ata_sector_size :: u32
  drive_size :: u32
  ata_model :: "byte list"
  device_exists :: bool
  is_lba48 :: bool
  is_slave :: bool

record block_device =
  device_name :: string
  device_write :: u32
  device_read :: u32
  device_specific :: "nat option"
  device_size :: u32
  device_sector_size :: u32

record ata_state =
  ata_devices :: "ata_device list"
  block_devices :: "block_device list"
  root_device :: "nat option"

text \<open>The state before \<open>ata_init\<close>: static memory is zero.\<close>

definition ata_zero :: ata_device where
  "ata_zero = \<lparr>ata_base = 0, device_type = ATA, ata_signature = 0, ata_features = 0, command_supported = 0, ata_sector_size = 0,
     drive_size = 0, ata_model = replicate 41 0, device_exists = False, is_lba48 = False, is_slave = False\<rparr>"

definition ata_start :: ata_state where
  "ata_start = \<lparr>ata_devices = replicate MAX_ATA_DRIVES ata_zero,
     block_devices = replicate MAX_ATA_DRIVES \<lparr>device_name = [], device_write = 0, device_read = 0, device_specific = None,
       device_size = 0, device_sector_size = 0\<rparr>,
     root_device = None\<rparr>"

subsection \<open>Identifying the drives\<close>

definition ata_sleep :: "'s port_io \<Rightarrow> ata_device option \<Rightarrow> 's \<Rightarrow> 's option" where
  "ata_sleep io device s = do {
     d \<leftarrow> device;
     let s1 = snd (port_in io (ata_base d + ALTERNATIVE_CONTROL_PORT) s);
     let s2 = snd (port_in io (ata_base d + ALTERNATIVE_CONTROL_PORT) s1);
     let s3 = snd (port_in io (ata_base d + ALTERNATIVE_CONTROL_PORT) s2);
     Some (snd (port_in io (ata_base d + ALTERNATIVE_CONTROL_PORT) s3))
   }"

definition ata_select_device :: "'s port_io \<Rightarrow> ata_device option \<Rightarrow> 's \<Rightarrow> 's option" where
  "ata_select_device io device s = do {
     d \<leftarrow> device;
     ata_sleep io device (port_out io (ata_base d + ATA_DRIVE_PORT) (if is_slave d then 0xB0 else 0xA0) s)
   }"

definition ata_identify :: "'s port_io \<Rightarrow> bool \<Rightarrow> ata_device option \<Rightarrow> 's \<Rightarrow> (bool \<times> 's) option" where
  "ata_identify io is_atapi device s = do {
     d \<leftarrow> device;
     let s1 = port_out io (ata_base d + ATA_SECTOR_COUNT_PORT) 0 s;
     let s2 = port_out io (ata_base d + ATA_LBA_LOW_PORT) 0 s1;
     let s3 = port_out io (ata_base d + ATA_LBA_MID_PORT) 0 s2;
     let s4 = port_out io (ata_base d + ATA_LBA_HIGH_PORT) 0 s3;
     s5 \<leftarrow> ata_sleep io device s4;
     let s6 = port_out io (ata_base d + ATA_COMMAND_PORT)
                (ata_command_value (if is_atapi then ATA_CMD_IDENTIFY_PACKET else ATA_CMD_IDENTIFY)) s5;
     s7 \<leftarrow> ata_sleep io device s6;
     let (status, s8) = port_in io (ata_base d + ATA_STATUS_PORT) s7;
     Some (status \<noteq> 0, s8)
   }"

primrec ata_poll_loop :: "'s port_io \<Rightarrow> ata_device \<Rightarrow> nat \<Rightarrow> byte \<Rightarrow> 's \<Rightarrow> byte \<times> 's" where
  "ata_poll_loop io d 0 status s = (status, s)"
| "ata_poll_loop io d (Suc n) status s =
     (let (status', s') = port_in io (ata_base d + ATA_STATUS_PORT) s in ata_poll_loop io d n status' s')"

definition ata_poll :: "'s port_io \<Rightarrow> ata_device option \<Rightarrow> 's \<Rightarrow> (byte \<times> 's) option" where
  "ata_poll io device s = do { d \<leftarrow> device; Some (ata_poll_loop io d 4 0 s) }"

definition extract_identify_buffer :: "ata_device \<Rightarrow> u16 list \<Rightarrow> bool \<times> ata_device" where
  "extract_identify_buffer device identify_buffer =
     (if identify_buffer ! 0 = 0 then (False, device\<lparr>device_exists := False\<rparr>)
      else (True, device\<lparr>ata_signature := identify_buffer ! 0, ata_features := identify_buffer ! 0x31,
              command_supported := ucast (identify_buffer ! 0x52) OR push_bit 16 (ucast (identify_buffer ! 0x53)),
              is_lba48 := False,
              drive_size := (push_bit 16 (0 OR ucast (identify_buffer ! 0x3d)) OR ucast (identify_buffer ! 0x3c)) * ata_sector_size device\<rparr>))"

text \<open>The loop that fills the identify buffer.\<close>

primrec read_words :: "'s port_io \<Rightarrow> ata_device \<Rightarrow> nat \<Rightarrow> 's \<Rightarrow> u16 list \<times> 's" where
  "read_words io d 0 s = ([], s)"
| "read_words io d (Suc n) s =
     (let (w, s1) = port_in_word io (ata_base d + ATA_DATA_PORT) s; (ws, s2) = read_words io d n s1 in (w # ws, s2))"

definition device_type_name :: "device_type_t \<Rightarrow> string" where
  "device_type_name t = (if t = ATA then ''ATA'' else if t = ATAPI then ''ATAPI'' else ''SATA'')"

text \<open>One turn of the loop of \<open>ata_init\<close>; \<open>read_at\<close> and \<open>write_at\<close> are the addresses of
  \<open>ata_read\<close> and \<open>ata_write\<close>.\<close>

definition ata_probe :: "'s port_io \<Rightarrow> u32 \<Rightarrow> u32 \<Rightarrow> nat \<Rightarrow> ata_state \<times> 's \<Rightarrow> (ata_state \<times> 's) option" where
  "ata_probe io read_at write_at i = (\<lambda>(st, s). do {
     let d = (ata_devices st ! i)\<lparr>is_slave := odd i\<rparr>;
     s1 \<leftarrow> ata_select_device io (Some d) s;
     (found, s2) \<leftarrow> ata_identify io False (Some d) s1;
     if \<not> found then Some (st\<lparr>ata_devices := (ata_devices st)[i := d]\<rparr>, s2)
     else do {
       let d1 = d\<lparr>device_exists := True\<rparr>;
       let (type1, s3) = port_in io (ata_base d1 + ATA_LBA_MID_PORT) s2;
       let (type2, s4) = port_in io (ata_base d1 + ATA_LBA_HIGH_PORT) s3;
       (d2, s5) \<leftarrow>
         (if type1 = 0x14 \<and> type2 = 0x15 then do {
            (_, s5) \<leftarrow> ata_identify io True (Some d1) s4;
            Some (d1\<lparr>device_type := ATAPI\<rparr>, s5)
          }
          else if type1 = 0x3c \<and> type2 = 0xc3 then Some (d1\<lparr>device_type := SATA\<rparr>, s4)
          else Some (d1\<lparr>device_type := ATA, ata_sector_size := DEFAULT_SECTOR_SIZE\<rparr>, s4));
       let (identify_buffer, s6) = read_words io d2 IDENTIFY_BUFFER_SIZE s5;
       let (ok, d3) = extract_identify_buffer d2 identify_buffer;
       let st1 = st\<lparr>ata_devices := (ata_devices st)[i := d3]\<rparr>;
       if \<not> ok then Some (st1, s6)
       else Some (st1\<lparr>block_devices := (block_devices st1)[i :=
                        \<lparr>device_name = device_type_name (device_type d3), device_write = write_at, device_read = read_at,
                         device_specific = Some i, device_size = drive_size d3, device_sector_size = ata_sector_size d3\<rparr>],
                      root_device := (if root_device st1 = None then Some i else root_device st1)\<rparr>, s6)
     }
   })"

definition ata_init :: "'s port_io \<Rightarrow> u32 \<Rightarrow> u32 \<Rightarrow> ata_state \<Rightarrow> 's \<Rightarrow> (ata_state \<times> 's) option" where
  "ata_init io read_at write_at st s =
     (let ds = ata_devices st;
          ds1 = ds[0 := (ds ! 0)\<lparr>ata_base := 0x1F0\<rparr>]; ds2 = ds1[2 := (ds1 ! 2)\<lparr>ata_base := 0x170\<rparr>];
          ds3 = ds2[0 := (ds2 ! 0)\<lparr>ata_base := ata_base (ds2 ! 0)\<rparr>]; ds4 = ds3[1 := (ds3 ! 1)\<lparr>ata_base := ata_base (ds3 ! 0)\<rparr>];
          ds5 = ds4[2 := (ds4 ! 2)\<lparr>ata_base := ata_base (ds4 ! 2)\<rparr>]; ds6 = ds5[3 := (ds5 ! 3)\<lparr>ata_base := ata_base (ds5 ! 2)\<rparr>]
      in for_range (\<lambda>i. ata_probe io read_at write_at (unat i)) 0 (of_nat MAX_ATA_DRIVES) (st\<lparr>ata_devices := ds6\<rparr>, s))"

subsection \<open>Reading and writing sectors\<close>

partial_function (option) busy_loop :: "'s port_io \<Rightarrow> ata_device \<Rightarrow> 's \<Rightarrow> 's option" where
  "busy_loop io d s = (case port_in io (ata_base d + ATA_STATUS_PORT) s of (status, s1) \<Rightarrow>
     if status AND device_status_value DEVICE_BUSY \<noteq> 0 then busy_loop io d s1 else Some s1)"

definition ata_block_if_busy :: "'s port_io \<Rightarrow> ata_device option \<Rightarrow> 's \<Rightarrow> 's option" where
  "ata_block_if_busy io device s = do { d \<leftarrow> device; busy_loop io d s }"

partial_function (option) status_loop :: "'s port_io \<Rightarrow> ata_device \<Rightarrow> byte \<Rightarrow> 's \<Rightarrow> 's option" where
  "status_loop io d wanted s = (case port_in io (ata_base d + ATA_STATUS_PORT) s of (status, s1) \<Rightarrow>
     if status AND wanted = 0 then status_loop io d wanted s1 else Some s1)"

definition ata_wait_for_status :: "'s port_io \<Rightarrow> ata_device option \<Rightarrow> device_status_t \<Rightarrow> 's \<Rightarrow> 's option" where
  "ata_wait_for_status io device status s = do { d \<leftarrow> device; status_loop io d (device_status_value status) s }"

definition ata_pio28_pre_stages :: "'s port_io \<Rightarrow> ata_device option \<Rightarrow> u32 \<Rightarrow> byte \<Rightarrow> 's \<Rightarrow> 's option" where
  "ata_pio28_pre_stages io device sector sector_count s = do {
     d \<leftarrow> device;
     let dev_type = (if is_slave d then 0xF0 else 0xE0 :: byte);
     let s1 = port_out io (ata_base d + ATA_DRIVE_PORT) (ucast (ucast dev_type OR (drop_bit 24 sector AND 0x0F))) s;
     let s2 = port_out io (ata_base d + ATA_SECTOR_COUNT_PORT) sector_count s1;
     let s3 = port_out io (ata_base d + ATA_LBA_LOW_PORT) (ucast sector) s2;
     let s4 = port_out io (ata_base d + ATA_LBA_MID_PORT) (ucast (drop_bit 8 sector)) s3;
     Some (port_out io (ata_base d + ATA_LBA_HIGH_PORT) (ucast (drop_bit 16 sector)) s4)
   }"

definition ata_pio28_read ::
  "'s port_io \<Rightarrow> ata_device option \<Rightarrow> u32 \<Rightarrow> u32 \<Rightarrow> byte \<Rightarrow> vm \<times> 's \<Rightarrow> (vm \<times> 's) option" where
  "ata_pio28_read io device buffer sector sector_count = (\<lambda>(v, s). do {
     d \<leftarrow> device;
     if \<not> device_exists d \<or> buffer = 0 \<or> sector < 0 \<or> sector_count < 0 then None
     else do {
       s1 \<leftarrow> ata_pio28_pre_stages io device sector sector_count s;
       let s2 = port_out io (ata_base d + ATA_COMMAND_PORT) (ata_command_value ATA_CMD_READ_PIO) s1;
       s3 \<leftarrow> ata_wait_for_status io device DEVICE_READY s2;
       s4 \<leftarrow> ata_wait_for_status io device DEVICE_DATA_READY s3;
       for_range (\<lambda>i vs. do {
         (v1, s1) \<leftarrow> for_range (\<lambda>j (v, s). case port_in_word io (ata_base d + ATA_DATA_PORT) s of (w, s1) \<Rightarrow> do {
             v1 \<leftarrow> wr16 v (buffer + 2 * (j + DEFAULT_SECTOR_SIZE div 2 * i)) w;
             Some (v1, s1) }) 0 (DEFAULT_SECTOR_SIZE div 2) vs;
         s2 \<leftarrow> ata_sleep io device s1;
         Some (v1, s2) }) 0 (ucast sector_count) (v, s4)
     }
   })"

definition ata_pio28_write ::
  "'s port_io \<Rightarrow> ata_device option \<Rightarrow> u32 \<Rightarrow> u32 \<Rightarrow> byte \<Rightarrow> vm \<Rightarrow> 's \<Rightarrow> 's option" where
  "ata_pio28_write io device buffer sector sector_count v s = do {
     d \<leftarrow> device;
     if \<not> device_exists d \<or> buffer = 0 \<or> sector < 0 \<or> sector_count < 0 then None
     else do {
       s1 \<leftarrow> ata_pio28_pre_stages io device sector sector_count s;
       let s2 = port_out io (ata_base d + ATA_COMMAND_PORT) (ata_command_value ATA_CMD_WRITE_PIO) s1;
       s3 \<leftarrow> ata_wait_for_status io device DEVICE_READY s2;
       s4 \<leftarrow> ata_wait_for_status io device DEVICE_DATA_READY s3;
       for_range (\<lambda>i s. do {
         s1 \<leftarrow> for_range (\<lambda>j s. do {
             w \<leftarrow> rd16 v (buffer + 2 * (j + DEFAULT_SECTOR_SIZE div 2 * i));
             ata_sleep io device (port_out_word io (ata_base d + ATA_DATA_PORT) w s) }) 0 (DEFAULT_SECTOR_SIZE div 2) s;
         ata_sleep io device s1 }) 0 (ucast sector_count) s4
     }
   }"

definition block_ata_device :: "ata_state \<Rightarrow> block_device \<Rightarrow> ata_device option" where
  "block_ata_device st dev = map_option (\<lambda>i. ata_devices st ! i) (device_specific dev)"

definition ata_read :: "'s port_io \<Rightarrow> ata_state \<Rightarrow> block_device \<Rightarrow> u32 \<Rightarrow> u32 \<Rightarrow> u32 \<Rightarrow> vm \<times> 's \<Rightarrow> (vm \<times> 's) option" where
  "ata_read io st dev buf begin_sector num_sectors = (\<lambda>(v, s). do {
     s1 \<leftarrow> ata_block_if_busy io (block_ata_device st dev) s;
     ata_pio28_read io (block_ata_device st dev) buf begin_sector (ucast num_sectors) (v, s1)
   })"

definition ata_write :: "'s port_io \<Rightarrow> ata_state \<Rightarrow> block_device \<Rightarrow> u32 \<Rightarrow> u32 \<Rightarrow> u32 \<Rightarrow> vm \<Rightarrow> 's \<Rightarrow> 's option" where
  "ata_write io st dev buf begin_sector num_sectors v s = do {
     s1 \<leftarrow> ata_block_if_busy io (block_ata_device st dev) s;
     ata_pio28_write io (block_ata_device st dev) buf begin_sector (ucast num_sectors) v s1
   }"

end
