(* ===== verification/AtaChannel.thy ===== *)
theory AtaChannel
  imports Ata
begin

text \<open>
  An ATA channel with its two drives as a state machine behind the ports, and what the driver of
  the theory \<open>Ata\<close> does on it: finding the drives, reading and writing sectors.
\<close>

section \<open>An ATA channel\<close>

text \<open>The hardware behind the ports of one channel: two drives, of which bit 4 of the drive register
  selects one, the task registers, and a transfer in progress. A drive is there when it has an
  identity. How long a drive is busy is not bounded: after a command for \<open>latency\<close> reads of the
  status, after each sector but the last for \<open>gap\<close> of them; the reads of the status are the clock of
  the model, and the driver uses them as its delay. While the drive is busy the data port is not to
  be used; what is read there then is \<open>stale\<close>, any word, and what is written is lost.\<close>

datatype transfer = Idle | To_host "u16 list" | From_host nat nat

record channel =
  medium :: "bool \<Rightarrow> nat \<Rightarrow> u16"
  identity :: "bool \<Rightarrow> u16 list"
  drive_reg :: byte
  count_reg :: byte
  lba_low_reg :: byte
  lba_mid_reg :: byte
  lba_high_reg :: byte
  transfer :: transfer
  busy :: nat
  latency :: nat
  gap :: nat
  stale :: u16

definition selected :: "channel \<Rightarrow> bool" where
  "selected c = bit (drive_reg c) 4"

definition lba :: "channel \<Rightarrow> nat" where
  "lba c = unat (lba_low_reg c) + 2 ^ 8 * unat (lba_mid_reg c) + 2 ^ 16 * unat (lba_high_reg c) + 2 ^ 24 * (unat (drive_reg c) mod 16)"

definition count :: "channel \<Rightarrow> nat" where
  "count c = (if count_reg c = 0 then 256 else unat (count_reg c))"

definition status :: "channel \<Rightarrow> byte" where
  "status c = (if identity c (selected c) = [] then 0 else if busy c > 0 then 0x80 else if transfer c = Idle then 0x50 else 0x58)"

definition channel_in :: "u16 \<Rightarrow> channel \<Rightarrow> byte \<times> channel" where
  "channel_in off c =
     (if off = 7 \<or> off = 0x206 then (status c, c\<lparr>busy := busy c - 1\<rparr>)
      else (if off = 4 then lba_mid_reg c else if off = 5 then lba_high_reg c else 0xFF, c))"

definition channel_command :: "byte \<Rightarrow> channel \<Rightarrow> channel" where
  "channel_command cmd c =
     (if identity c (selected c) = [] then c
      else if cmd = 0x20 then
        c\<lparr>transfer := To_host (map (medium c (selected c)) [256 * lba c ..< 256 * (lba c + count c)]), busy := latency c\<rparr>
      else if cmd = 0x30 then c\<lparr>transfer := From_host (256 * lba c) (256 * count c), busy := latency c\<rparr>
      else if cmd = 0xEC then c\<lparr>transfer := To_host (identity c (selected c)), lba_mid_reg := 0, lba_high_reg := 0, busy := latency c\<rparr>
      else c)"

definition channel_out :: "u16 \<Rightarrow> byte \<Rightarrow> channel \<Rightarrow> channel" where
  "channel_out off val c =
     (if off = 2 then c\<lparr>count_reg := val\<rparr> else if off = 3 then c\<lparr>lba_low_reg := val\<rparr>
      else if off = 4 then c\<lparr>lba_mid_reg := val\<rparr> else if off = 5 then c\<lparr>lba_high_reg := val\<rparr>
      else if off = 6 then c\<lparr>drive_reg := val\<rparr> else if off = 7 then channel_command val c else c)"

definition between :: "nat \<Rightarrow> channel \<Rightarrow> nat" where
  "between left c = (if left > 0 \<and> left mod 256 = 0 then gap c else 0)"

definition channel_in_word :: "u16 \<Rightarrow> channel \<Rightarrow> u16 \<times> channel" where
  "channel_in_word off c =
     (if off \<noteq> 0 then (0xFFFF, c)
      else case transfer c of
        To_host (w # ws) \<Rightarrow> if busy c = 0
          then (w, c\<lparr>transfer := (if ws = [] then Idle else To_host ws), busy := between (length ws) c\<rparr>) else (stale c, c)
      | _ \<Rightarrow> (stale c, c))"

definition channel_out_word :: "u16 \<Rightarrow> u16 \<Rightarrow> channel \<Rightarrow> channel" where
  "channel_out_word off w c = (case transfer c of
     From_host p (Suc n) \<Rightarrow> if off = 0 \<and> busy c = 0
       then c\<lparr>medium := (medium c)(selected c := (medium c (selected c))(p := w)),
              transfer := (if n = 0 then Idle else From_host (p + 1) n), busy := between n c\<rparr> else c
   | _ \<Rightarrow> c)"

definition channel_io :: "u16 \<Rightarrow> channel port_io" where
  "channel_io base = \<lparr>in8 = \<lambda>port. channel_in (port - base), in16 = \<lambda>port. channel_in_word (port - base),
     out8 = \<lambda>port. channel_out (port - base), out16 = \<lambda>port. channel_out_word (port - base)\<rparr>"

lemma channel_ports:
  "port_in (channel_io (ucast b)) (b + off) c = channel_in (ucast off) c"
  "port_out (channel_io (ucast b)) (b + off) x c = channel_out (ucast off) x c"
  "port_in_word (channel_io (ucast b)) (b + off) c = channel_in_word (ucast off) c"
  "port_out_word (channel_io (ucast b)) (b + off) w c = channel_out_word (ucast off) w c"
proof -
  have "(ucast (b + off) :: u16) = ucast b + ucast off"
    by (simp only: word_unat_eq_iff unsigned_ucast_eq unat_word_ariths take_bit_eq_mod len_num0 len_num1 len_bit0 len_bit1) (simp add: mod_mod_cancel mod_add_eq)
  then have "(ucast (b + off) :: u16) - ucast b = ucast off" by simp
  then show "port_in (channel_io (ucast b)) (b + off) c = channel_in (ucast off) c"
    "port_out (channel_io (ucast b)) (b + off) x c = channel_out (ucast off) x c"
    "port_in_word (channel_io (ucast b)) (b + off) c = channel_in_word (ucast off) c"
    "port_out_word (channel_io (ucast b)) (b + off) w c = channel_out_word (ucast off) w c"
    by (simp_all add: channel_io_def port_in_def port_out_def port_in_word_def port_out_word_def)
qed

text \<open>What the steps of the driver do to a channel.\<close>

lemma ata_sleep_channel: "ata_sleep (channel_io (ucast (ata_base d))) (Some d) c = Some (c\<lparr>busy := busy c - 4\<rparr>)"
  by (simp add: ata_sleep_def channel_ports ALTERNATIVE_CONTROL_PORT_def channel_in_def)

lemma busy_loop_channel: "busy_loop (channel_io (ucast (ata_base d))) d c = Some (c\<lparr>busy := if identity c (selected c) = [] then busy c - 1 else 0\<rparr>)"
proof (induction "busy c" arbitrary: c)
  case 0
  then show ?case by (subst busy_loop.simps) (simp add: channel_ports ATA_STATUS_PORT_def channel_in_def status_def)
next
  case (Suc n)
  let ?c = "c\<lparr>busy := busy c - 1\<rparr>"
  have "busy_loop (channel_io (ucast (ata_base d))) d ?c = Some (?c\<lparr>busy := if identity ?c (selected ?c) = [] then busy ?c - 1 else 0\<rparr>)"
    using Suc.hyps(2) by (intro Suc.hyps(1)) simp
  then show ?case using Suc.hyps(2) by (subst busy_loop.simps) (simp add: channel_ports ATA_STATUS_PORT_def channel_in_def status_def selected_def)
qed

lemma status_loop_channel:
  assumes "identity c (selected c) \<noteq> []" "wanted = 0x40 \<or> wanted = 0x08 \<and> transfer c \<noteq> Idle"
  shows "status_loop (channel_io (ucast (ata_base d))) d wanted c = Some (c\<lparr>busy := 0\<rparr>)"
  using assms
proof (induction "busy c" arbitrary: c)
  case 0
  then show ?case by (subst status_loop.simps) (auto simp: channel_ports ATA_STATUS_PORT_def channel_in_def status_def)
next
  case (Suc n)
  let ?c = "c\<lparr>busy := busy c - 1\<rparr>"
  have "status_loop (channel_io (ucast (ata_base d))) d wanted ?c = Some (?c\<lparr>busy := 0\<rparr>)"
    using Suc.hyps(2) Suc.prems by (intro Suc.hyps(1)) (auto simp: selected_def)
  then show ?case using Suc.hyps(2) Suc.prems by (subst status_loop.simps) (auto simp: channel_ports ATA_STATUS_PORT_def channel_in_def status_def)
qed

text \<open>The registers hold the low 28 bits of the sector number.\<close>

lemma drive_bits:
  defines "r s x \<equiv> ucast (ucast (if s then 0xF0 else 0xE0 :: byte) OR (drop_bit 24 (x :: u32) AND 0x0F)) :: byte"
  shows "bit (r s x) 4 = s" "unat (r s x) mod 16 = unat x div 2 ^ 24 mod 16"
proof -
  show "bit (r s x) 4 = s" by (simp add: r_def bit_simps)
  have "take_bit 4 (r s x) = ucast (take_bit 4 (drop_bit 24 x))"
  proof (rule bit_word_eqI)
    fix m assume m: "m < LENGTH(8)"
    have "\<not> bit (0xF0 :: byte) m" "\<not> bit (0xE0 :: byte) m" "bit (0x0F :: u32) m" if "m < 4"
      using that by (auto simp: less_Suc_eq eval_nat_numeral)
    then show "bit (take_bit 4 (r s x)) m \<longleftrightarrow> bit (ucast (take_bit 4 (drop_bit 24 x)) :: byte) m"
      using m by (cases "m < 4") (simp_all add: r_def bit_simps)
  qed
  then have "unat (take_bit 4 (r s x)) = unat (ucast (take_bit 4 (drop_bit 24 x)) :: byte)" by simp
  moreover have "unat (take_bit 4 (r s x)) = unat (r s x) mod 16" by (simp only: unsigned_take_bit_eq) (simp only: take_bit_eq_mod, simp)
  moreover have "unat (take_bit 4 (drop_bit 24 x)) = unat x div 2 ^ 24 mod 16"
    using unsigned_less[of x, where ?'a = nat]
    by (simp only: unsigned_take_bit_eq unsigned_drop_bit_eq) (simp add: take_bit_eq_mod drop_bit_eq_div)
  ultimately show "unat (r s x) mod 16 = unat x div 2 ^ 24 mod 16" by (simp add: unsigned_ucast_eq take_bit_eq_mod)
qed

lemma lba28_parts:
  "x mod 2 ^ 8 + 2 ^ 8 * (x div 2 ^ 8 mod 2 ^ 8) + 2 ^ 16 * (x div 2 ^ 16 mod 2 ^ 8) + 2 ^ 24 * (x div 2 ^ 24 mod 16) = x mod 2 ^ 28"
  for x :: nat
proof -
  have "x mod (2 ^ 8 * 2 ^ 8) = 2 ^ 8 * (x div 2 ^ 8 mod 2 ^ 8) + x mod 2 ^ 8" by (rule mod_mult2_eq)
  moreover have "x mod (2 ^ 16 * 2 ^ 8) = 2 ^ 16 * (x div 2 ^ 16 mod 2 ^ 8) + x mod 2 ^ 16" by (rule mod_mult2_eq)
  moreover have "x mod (2 ^ 24 * 16) = 2 ^ 24 * (x div 2 ^ 24 mod 16) + x mod 2 ^ 24" by (rule mod_mult2_eq)
  ultimately show ?thesis by simp
qed

lemma pre_stages_channel:
  obtains c' where "ata_pio28_pre_stages (channel_io (ucast (ata_base d))) (Some d) sector n c = Some c'"
    "selected c' = is_slave d" "lba c' = unat sector mod 2 ^ 28" "count c' = (if n = 0 then 256 else unat n)"
    "medium c' = medium c" "identity c' = identity c" "latency c' = latency c" "gap c' = gap c" "stale c' = stale c"
proof -
  let ?r = "ucast (ucast (if is_slave d then 0xF0 else 0xE0 :: byte) OR (drop_bit 24 sector AND 0x0F)) :: byte"
  let ?c = "c\<lparr>drive_reg := ?r, count_reg := n, lba_low_reg := ucast sector, lba_mid_reg := ucast (drop_bit 8 sector),
    lba_high_reg := ucast (drop_bit 16 sector)\<rparr>"
  have regs: "drive_reg ?c = ?r" "lba_low_reg ?c = ucast sector" "lba_mid_reg ?c = ucast (drop_bit 8 sector)" "lba_high_reg ?c = ucast (drop_bit 16 sector)"
    by simp_all
  have bytes: "unat (ucast sector :: byte) = unat sector mod 2 ^ 8" "unat (ucast (drop_bit 8 sector) :: byte) = unat sector div 2 ^ 8 mod 2 ^ 8"
    "unat (ucast (drop_bit 16 sector) :: byte) = unat sector div 2 ^ 16 mod 2 ^ 8"
    by (simp_all add: unsigned_ucast_eq take_bit_eq_mod drop_bit_eq_div unat_div_distrib)
  have "selected ?c = is_slave d" unfolding selected_def regs by (rule drive_bits)
  moreover have "lba ?c = unat sector mod 2 ^ 28" unfolding lba_def regs bytes drive_bits by (rule lba28_parts)
  moreover have "ata_pio28_pre_stages (channel_io (ucast (ata_base d))) (Some d) sector n c = Some ?c"
    by (simp add: ata_pio28_pre_stages_def Let_def channel_ports ata_ports channel_out_def)
  ultimately show thesis by (intro that[of ?c]) (simp_all add: count_def)
qed

section \<open>Words in a buffer\<close>

lemma word16_bytes: "ucast (ucast w :: byte) OR push_bit 8 (ucast (ucast (drop_bit 8 w) :: byte)) = (w :: u16)"
proof (rule bit_word_eqI)
  fix m assume "m < LENGTH(16)"
  then show "bit (ucast (ucast w :: byte) OR push_bit 8 (ucast (ucast (drop_bit 8 w) :: byte)) :: u16) m \<longleftrightarrow> bit w m"
    by (cases "m < 8") (auto simp: bit_simps)
qed

definition words_stored :: "vm \<Rightarrow> u32 \<Rightarrow> u16 list \<Rightarrow> bool" where
  "words_stored v buffer ws \<longleftrightarrow> (\<forall>m<length ws. rd16 v (buffer + 2 * of_nat m) = Some (ws ! m))"

lemma buffer_bytes:
  assumes "m < n" "2 * n < 2 ^ 32"
  shows "buffer + 2 * of_nat m \<in> span buffer (2 * n)" "buffer + 2 * of_nat m + 1 \<in> span buffer (2 * n)"
    "k < n \<Longrightarrow> m \<noteq> k \<Longrightarrow> {buffer + 2 * of_nat m, buffer + 2 * of_nat m + 1} \<inter> {buffer + 2 * of_nat k, buffer + 2 * of_nat k + 1} = {}"
proof -
  have u: "unat (2 * of_nat j :: u32) = 2 * j" "unat (2 * of_nat j + 1 :: u32) = 2 * j + 1" if "j < n" for j
    using that assms(2) by (simp_all add: unat_word_ariths unat_of_nat)
  show "buffer + 2 * of_nat m \<in> span buffer (2 * n)" "buffer + 2 * of_nat m + 1 \<in> span buffer (2 * n)"
    using u[OF assms(1)] assms(1) by (simp_all add: add.assoc)
  assume k: "k < n" "m \<noteq> k"
  have "2 * of_nat m \<noteq> (2 * of_nat k :: u32)" "2 * of_nat m + 1 \<noteq> (2 * of_nat k :: u32)" "2 * of_nat m \<noteq> (2 * of_nat k + 1 :: u32)"
    using u[OF assms(1)] u[OF k(1)] k(2) by (simp_all only: word_unat_eq_iff)
  then show "{buffer + 2 * of_nat m, buffer + 2 * of_nat m + 1} \<inter> {buffer + 2 * of_nat k, buffer + 2 * of_nat k + 1} = {}"
    by (auto simp: add.assoc)
qed

context kernel_words
begin

lemma wr8_frame:
  assumes "good W v" "a \<in> bytes_of W"
  shows "\<exists>v'. wr8 v a b = Some v' \<and> good W v' \<and> rd8 v' a = Some b \<and> (\<forall>c\<in>bytes_of W. c \<noteq> a \<longrightarrow> rd8 v' c = rd8 v c)"
proof (rule wr8_good[OF assms, of b])
  fix v' assume v': "wr8 v a b = Some v'" "good W v'" "rd8 v' a = Some b" "\<And>c. c \<in> bytes_of W \<Longrightarrow> c \<noteq> a \<Longrightarrow> rd8 v' c = rd8 v c"
  have "\<forall>c\<in>bytes_of W. c \<noteq> a \<longrightarrow> rd8 v' c = rd8 v c" using v'(4) by (intro ballI impI)
  with v'(1-3) show ?thesis by (intro exI[of _ v'] conjI)
qed

lemma wr16_good:
  assumes "good W v" "a \<in> bytes_of W" "a + 1 \<in> bytes_of W"
  shows "\<exists>v'. wr16 v a w = Some v' \<and> good W v' \<and> rd16 v' a = Some w \<and> (\<forall>c\<in>bytes_of W. c \<notin> {a, a + 1} \<longrightarrow> rd8 v' c = rd8 v c)"
proof -
  obtain v1 where v1: "wr8 v a (ucast w) = Some v1" "good W v1" "rd8 v1 a = Some (ucast w)"
    "\<forall>c\<in>bytes_of W. c \<noteq> a \<longrightarrow> rd8 v1 c = rd8 v c" using wr8_frame[OF assms(1,2), of "ucast w"] by (elim exE conjE)
  obtain v2 where v2: "wr8 v1 (a + 1) (ucast (drop_bit 8 w)) = Some v2" "good W v2" "rd8 v2 (a + 1) = Some (ucast (drop_bit 8 w))"
    "\<forall>c\<in>bytes_of W. c \<noteq> a + 1 \<longrightarrow> rd8 v2 c = rd8 v1 c"
    using wr8_frame[OF v1(2) assms(3), of "ucast (drop_bit 8 w)"] by (elim exE conjE)
  have "rd8 v2 a = Some (ucast w)" using bspec[OF v2(4) assms(2)] v1(3) by simp
  then have "rd16 v2 a = Some w" using v2(3) unfolding rd16_def by (simp only: Option.bind.bind_lunit word16_bytes)
  moreover have "rd8 v2 c = rd8 v c" if "c \<in> bytes_of W" "c \<notin> {a, a + 1}" for c
    using bspec[OF v2(4) that(1)] bspec[OF v1(4) that(1)] that(2) by simp
  moreover have "wr16 v a w = Some v2" using v1(1) v2(1) by (simp add: wr16_def)
  ultimately show ?thesis using v2(2) by blast
qed

lemma store_word:
  assumes "good W v" "words_stored v buffer (take k ws)" "k < length ws" "2 * length ws < 2 ^ 32" "span buffer (2 * length ws) \<subseteq> bytes_of W"
  shows "\<exists>v'. wr16 v (buffer + 2 * of_nat k) (ws ! k) = Some v' \<and> good W v' \<and> words_stored v' buffer (take (Suc k) ws)
    \<and> (\<forall>c\<in>bytes_of W. c \<notin> span buffer (2 * length ws) \<longrightarrow> rd8 v' c = rd8 v c)"
proof -
  let ?a = "\<lambda>m. buffer + 2 * of_nat m :: u32"
  have in': "?a m \<in> span buffer (2 * length ws)" "?a m + 1 \<in> span buffer (2 * length ws)" if "m < length ws" for m
    using buffer_bytes(1,2)[OF that assms(4)] .
  then have inW: "?a m \<in> bytes_of W" "?a m + 1 \<in> bytes_of W" if "m < length ws" for m using in'[OF that] assms(5) by (simp_all only: subset_iff)
  obtain v' where v': "wr16 v (?a k) (ws ! k) = Some v'" "good W v'" "rd16 v' (?a k) = Some (ws ! k)"
    "\<forall>c\<in>bytes_of W. c \<notin> {?a k, ?a k + 1} \<longrightarrow> rd8 v' c = rd8 v c" using wr16_good[OF assms(1) inW[OF assms(3)]] by blast
  have "rd16 v' (?a m) = Some (take (Suc k) ws ! m)" if m: "m < length (take (Suc k) ws)" for m
  proof (cases "m = k")
    case False
    then have lt: "m < k" "m < length ws" using m by simp_all
    have "?a m \<notin> {?a k, ?a k + 1}" "?a m + 1 \<notin> {?a k, ?a k + 1}"
      using buffer_bytes(3)[OF lt(2) assms(4,3) False, of buffer] by blast+
    then have "rd8 v' (?a m) = rd8 v (?a m)" "rd8 v' (?a m + 1) = rd8 v (?a m + 1)" using bspec[OF v'(4) inW(1)[OF lt(2)]] bspec[OF v'(4) inW(2)[OF lt(2)]] by simp_all
    then show ?thesis using assms(2,3) lt by (simp add: rd16_def words_stored_def)
  qed (use v'(3) assms(3) in simp)
  moreover have "rd8 v' c = rd8 v c" if "c \<in> bytes_of W" "c \<notin> span buffer (2 * length ws)" for c
  proof -
    have "c \<notin> {?a k, ?a k + 1}" using that(2) in'[OF assms(3)] by blast
    then show ?thesis using bspec[OF v'(4) that(1)] by simp
  qed
  ultimately show ?thesis using v'(1,2) by (intro exI[of _ v']) (simp add: words_stored_def)
qed

end

section \<open>Transfers\<close>

definition host_rest :: "u16 list \<Rightarrow> nat \<Rightarrow> transfer" where
  "host_rest ws k = (if k < length ws then To_host (drop k ws) else Idle)"

lemma channel_in_word_next:
  assumes "transfer c = host_rest ws k" "k < length ws" "busy c = 0"
  shows "channel_in_word 0 c = (ws ! k, c\<lparr>transfer := host_rest ws (Suc k), busy := between (length ws - Suc k) c\<rparr>)"
proof -
  have "drop k ws = ws ! k # drop (Suc k) ws" using Cons_nth_drop_Suc[OF assms(2)] by simp
  then show ?thesis using assms by (simp add: channel_in_word_def host_rest_def)
qed

lemma data_port [simp]:
  "port_in_word (channel_io (ucast b)) (b + ATA_DATA_PORT) c = channel_in_word 0 c"
  "port_out_word (channel_io (ucast b)) (b + ATA_DATA_PORT) w c = channel_out_word 0 w c"
  by (simp_all only: channel_ports) (simp_all add: ATA_DATA_PORT_def)

lemma between_inside: "j < 256 \<Longrightarrow> j \<noteq> 0 \<Longrightarrow> i < n \<Longrightarrow> between (256 * n - (256 * i + j)) c = 0"
proof -
  assume j: "j < 256" "j \<noteq> 0" "i < n"
  define q r where "q = n - i - 1" and "r = 256 - j"
  have "256 * n - (256 * i + j) = 256 * q + r" "0 < r" "r < 256" using j by (simp_all add: q_def r_def algebra_simps)
  then show ?thesis by (simp add: between_def)
qed

context kernel_words
begin

lemma read_sectors:
  assumes good: "good W v" and c: "transfer c = host_rest ws 0" "busy c = 0" "n = 1 \<or> gap c \<le> 4"
    and n: "length ws = 256 * n" "n < 256" and buf: "span buffer (512 * n) \<subseteq> bytes_of W"
  shows "\<exists>v'. for_range (\<lambda>i vs. do {
         (v1, s1) \<leftarrow> for_range (\<lambda>j (v, s). case port_in_word (channel_io (ucast (ata_base d))) (ata_base d + ATA_DATA_PORT) s of (w, s1) \<Rightarrow> do {
             v1 \<leftarrow> wr16 v (buffer + 2 * (j + DEFAULT_SECTOR_SIZE div 2 * i)) w;
             Some (v1, s1) }) 0 (DEFAULT_SECTOR_SIZE div 2) vs;
         s2 \<leftarrow> ata_sleep (channel_io (ucast (ata_base d))) (Some d) s1;
         Some (v1, s2) }) 0 (of_nat n) (v, c) = Some (v', c\<lparr>transfer := Idle\<rparr>)
    \<and> good W v' \<and> words_stored v' buffer ws \<and> (\<forall>c\<in>bytes_of W. c \<notin> span buffer (512 * n) \<longrightarrow> rd8 v' c = rd8 v c)"
proof -
  define I where "I k b vs \<longleftrightarrow> (\<exists>v'. vs = (v', c\<lparr>transfer := host_rest ws k, busy := b\<rparr>) \<and> good W v' \<and> words_stored v' buffer (take k ws)
    \<and> (\<forall>c\<in>bytes_of W. c \<notin> span buffer (512 * n) \<longrightarrow> rd8 v' c = rd8 v c))" for k b vs
  have len: "2 * length ws = 512 * n" "2 * length ws < 2 ^ 32" using n by simp_all
  have word: "\<exists>vs'. (case vs of (v, s) \<Rightarrow> case port_in_word (channel_io (ucast (ata_base d))) (ata_base d + ATA_DATA_PORT) s of (w, s1) \<Rightarrow> do {
      v1 \<leftarrow> wr16 v (buffer + 2 * of_nat k) w; Some (v1, s1) }) = Some vs' \<and> I (Suc k) (between (length ws - Suc k) c) vs'"
    if I: "I k 0 vs" and k: "k < length ws" for k vs
  proof -
    obtain u where u: "vs = (u, c\<lparr>transfer := host_rest ws k, busy := 0\<rparr>)" "good W u" "words_stored u buffer (take k ws)"
      "\<forall>c\<in>bytes_of W. c \<notin> span buffer (512 * n) \<longrightarrow> rd8 u c = rd8 v c" using I unfolding I_def by blast
    obtain u' where u': "wr16 u (buffer + 2 * of_nat k) (ws ! k) = Some u'" "good W u'" "words_stored u' buffer (take (Suc k) ws)"
      "\<forall>c\<in>bytes_of W. c \<notin> span buffer (512 * n) \<longrightarrow> rd8 u' c = rd8 u c"
      using store_word[OF u(2,3) k len(2)] buf unfolding len(1) by blast
    have b: "between l (c\<lparr>transfer := t, busy := m\<rparr>) = between l c" for l t m by (simp add: between_def)
    have "channel_in_word 0 (c\<lparr>transfer := host_rest ws k, busy := 0\<rparr>)
      = (ws ! k, c\<lparr>transfer := host_rest ws (Suc k), busy := between (length ws - Suc k) c\<rparr>)"
      using channel_in_word_next[OF _ k, of "c\<lparr>transfer := host_rest ws k, busy := 0\<rparr>"] by (simp add: b)
    then show ?thesis using u' u(4) by (simp add: u(1) I_def)
  qed
  let ?body = "\<lambda>i j vs. case vs of (v, s) \<Rightarrow> case port_in_word (channel_io (ucast (ata_base d))) (ata_base d + ATA_DATA_PORT) s of (w, s1) \<Rightarrow> do {
      v1 \<leftarrow> wr16 v (buffer + 2 * (j + DEFAULT_SECTOR_SIZE div 2 * i)) w; Some (v1, s1) }"
  have sector: "\<exists>vs'. for_range (?body (of_nat i)) 0 (0 + of_nat 256) vs = Some vs'
      \<and> I (256 * i + 256) (if (256 :: nat) = 256 then between (length ws - (256 * i + 256)) c else 0) vs'" if I: "I (256 * i) 0 vs" and i: "i < n" for i vs
  proof (rule for_range_rule[where I = "\<lambda>j. I (256 * i + j) (if j = 256 then between (length ws - (256 * i + 256)) c else 0)"])
    show "I (256 * i + 0) (if (0 :: nat) = 256 then between (length ws - (256 * i + 256)) c else 0) vs" using I by simp
    fix j vs assume j: "j < 256" "I (256 * i + j) (if j = 256 then between (length ws - (256 * i + 256)) c else 0) vs"
    have a: "buffer + 2 * (0 + of_nat j + DEFAULT_SECTOR_SIZE div 2 * of_nat i) = buffer + 2 * of_nat (256 * i + j)"
      by (simp add: DEFAULT_SECTOR_SIZE_def)
    have "between (length ws - Suc (256 * i + j)) c = (if Suc j = 256 then between (length ws - (256 * i + 256)) c else 0)"
      using between_inside[of "Suc j" i n c] j(1) i n(1) by (cases "Suc j = 256") (simp_all add: add.commute)
    then show "\<exists>vs'. ?body (of_nat i) (0 + of_nat j) vs = Some vs'
        \<and> I (256 * i + Suc j) (if Suc j = 256 then between (length ws - (256 * i + 256)) c else 0) vs'"
      unfolding a using word[of "256 * i + j" vs] j i n(1) by simp
  qed simp
  have sleep: "between (length ws - (256 * i + 256)) c - 4 = 0" if "i < n" for i using c(3) that n(1) by (auto simp: between_def)
  have "\<exists>vs'. for_range (\<lambda>i vs. do {
      (v1, s1) \<leftarrow> for_range (?body i) 0 (DEFAULT_SECTOR_SIZE div 2) vs;
      s2 \<leftarrow> ata_sleep (channel_io (ucast (ata_base d))) (Some d) s1;
      Some (v1, s2) }) 0 (0 + of_nat n) (v, c) = Some vs' \<and> I (256 * n) 0 vs'"
  proof (rule for_range_rule[where I = "\<lambda>i. I (256 * i) 0"])
    show "I (256 * 0) 0 (v, c)" using good c by (simp add: I_def words_stored_def)
    fix i vs assume i: "i < n" "I (256 * i) 0 vs"
    have d: "(0 :: u32) + of_nat 256 = DEFAULT_SECTOR_SIZE div 2" by (simp add: DEFAULT_SECTOR_SIZE_def)
    obtain vs' where vs': "for_range (?body (of_nat i)) 0 (DEFAULT_SECTOR_SIZE div 2) vs = Some vs'" "I (256 * i + 256) (between (length ws - (256 * i + 256)) c) vs'"
      using sector[OF i(2,1)] unfolding d by auto
    then obtain u where "vs' = (u, c\<lparr>transfer := host_rest ws (256 * i + 256), busy := between (length ws - (256 * i + 256)) c\<rparr>)"
      "good W u \<and> words_stored u buffer (take (256 * i + 256) ws) \<and> (\<forall>c\<in>bytes_of W. c \<notin> span buffer (512 * n) \<longrightarrow> rd8 u c = rd8 v c)"
      unfolding I_def by blast
    then show "\<exists>vs'. (do { (v1, s1) \<leftarrow> for_range (?body (0 + of_nat i)) 0 (DEFAULT_SECTOR_SIZE div 2) vs;
        s2 \<leftarrow> ata_sleep (channel_io (ucast (ata_base d))) (Some d) s1; Some (v1, s2) }) = Some vs' \<and> I (256 * Suc i) 0 vs'"
      using vs'(1) sleep[OF i(1)] by (simp add: ata_sleep_channel I_def add.commute)
  qed (use n in simp)
  then show ?thesis using n(1) c(2) by (auto simp: I_def host_rest_def)
qed

text \<open>With a drive that needs longer between sectors than the driver waits: the loop still ends,
  and the first word of the second sector is a stale one.\<close>

lemma store_next:
  assumes "good W v" "words_stored v buffer us" "length us < N" "2 * N < 2 ^ 32" "span buffer (2 * N) \<subseteq> bytes_of W"
  shows "\<exists>v'. wr16 v (buffer + 2 * of_nat (length us)) w = Some v' \<and> good W v' \<and> words_stored v' buffer (us @ [w])
    \<and> (\<forall>c\<in>bytes_of W. c \<notin> span buffer (2 * N) \<longrightarrow> rd8 v' c = rd8 v c)"
proof -
  let ?ws = "us @ w # replicate (N - length us - 1) 0"
  have l: "length ?ws = N" "?ws ! length us = w" "take (length us) ?ws = us" "take (Suc (length us)) ?ws = us @ [w]" "length us < length ?ws"
    using assms(3) by simp_all
  show ?thesis using store_word[of W v buffer "length us" ?ws] assms l by (simp only:)
qed

lemma read_sectors_slow:
  assumes good: "good W v" and c: "transfer c = host_rest ws 0" "busy c = 0"
    and n: "length ws = 256 * n" "n < 256" "1 < n" "4 < gap c" and buf: "span buffer (512 * n) \<subseteq> bytes_of W"
  shows "\<exists>v' c' us. for_range (\<lambda>i vs. do {
         (v1, s1) \<leftarrow> for_range (\<lambda>j (v, s). case port_in_word (channel_io (ucast (ata_base d))) (ata_base d + ATA_DATA_PORT) s of (w, s1) \<Rightarrow> do {
             v1 \<leftarrow> wr16 v (buffer + 2 * (j + DEFAULT_SECTOR_SIZE div 2 * i)) w;
             Some (v1, s1) }) 0 (DEFAULT_SECTOR_SIZE div 2) vs;
         s2 \<leftarrow> ata_sleep (channel_io (ucast (ata_base d))) (Some d) s1;
         Some (v1, s2) }) 0 (of_nat n) (v, c) = Some (v', c')
    \<and> good W v' \<and> length us = 256 * n \<and> words_stored v' buffer us \<and> (\<forall>c\<in>bytes_of W. c \<notin> span buffer (512 * n) \<longrightarrow> rd8 v' c = rd8 v c)
    \<and> medium c' = medium c \<and> take 256 us = take 256 ws \<and> us ! 256 = stale c"
proof -
  let ?body = "\<lambda>i j vs. case vs of (v, s) \<Rightarrow> case port_in_word (channel_io (ucast (ata_base d))) (ata_base d + ATA_DATA_PORT) s of (w, s1) \<Rightarrow> do {
      v1 \<leftarrow> wr16 v (buffer + 2 * (j + DEFAULT_SECTOR_SIZE div 2 * i)) w; Some (v1, s1) }"
  define stage where "stage k s us \<longleftrightarrow> medium s = medium c \<and> length us = k
     \<and> (if k < 256 then us = take k ws \<and> s = c\<lparr>transfer := host_rest ws k, busy := 0\<rparr>
        else take 256 us = take 256 ws \<and> (if k = 256 then busy s > 4 \<and> stale s = stale c else us ! 256 = stale c))"
    for k s and us :: "u16 list"
  define rested where "rested k s us \<longleftrightarrow> medium s = medium c \<and> length us = k \<and> take 256 us = take 256 ws
     \<and> (if k = 256 then busy s > 0 \<and> stale s = stale c else us ! 256 = stale c)" for k and s :: channel and us :: "u16 list"
  define I where "I P vs \<longleftrightarrow> (\<exists>u s us. vs = (u, s) \<and> good W u \<and> words_stored u buffer us \<and> P s us
     \<and> (\<forall>c\<in>bytes_of W. c \<notin> span buffer (512 * n) \<longrightarrow> rd8 u c = rd8 v c))" for P and vs :: "vm \<times> channel"
  have N: "2 * (256 * n) < 2 ^ 32" "span buffer (2 * (256 * n)) \<subseteq> bytes_of W" using n buf by simp_all
  have word: "\<exists>vs'. ?body (of_nat i) (of_nat j) vs = Some vs' \<and> I Q vs'"
    if I: "I P vs" and k: "256 * i + j < 256 * n"
      and PQ: "\<And>s us. P s us \<Longrightarrow> length us = 256 * i + j \<and> Q (snd (channel_in_word 0 s)) (us @ [fst (channel_in_word 0 s)])" for P Q i j vs
  proof -
    obtain u s us where u: "vs = (u, s)" "good W u" "words_stored u buffer us" "P s us"
      "\<forall>c\<in>bytes_of W. c \<notin> span buffer (512 * n) \<longrightarrow> rd8 u c = rd8 v c" using I unfolding I_def by blast
    note pq = PQ[OF u(4)]
    let ?w = "fst (channel_in_word 0 s)"
    obtain u' where u': "wr16 u (buffer + 2 * of_nat (length us)) ?w = Some u'" "good W u'" "words_stored u' buffer (us @ [?w])"
      "\<forall>c\<in>bytes_of W. c \<notin> span buffer (2 * (256 * n)) \<longrightarrow> rd8 u' c = rd8 u c"
      using store_next[OF u(2,3) _ N, of ?w] pq k by auto
    have a: "buffer + 2 * (of_nat j + DEFAULT_SECTOR_SIZE div 2 * of_nat i) = buffer + 2 * of_nat (length us)"
      using pq by (simp add: DEFAULT_SECTOR_SIZE_def)
    have "?body (of_nat i) (of_nat j) vs = Some (u', snd (channel_in_word 0 s))"
      unfolding u(1) a using u'(1) by (simp add: case_prod_beta)
    moreover have "\<forall>c\<in>bytes_of W. c \<notin> span buffer (512 * n) \<longrightarrow> rd8 u' c = rd8 v c" using u'(4) u(5) by (simp add: mult.assoc[symmetric])
    ultimately show ?thesis using u'(2,3) pq unfolding I_def by blast
  qed
  have len: "256 < length ws" "length ws - 256 = 256 * (n - 1)" using n by (simp_all add: diff_mult_distrib2)
  have first: "\<exists>vs'. for_range (?body (of_nat 0)) 0 (0 + of_nat 256) vs = Some vs' \<and> I (stage 256) vs'" if "I (stage 0) vs" for vs
  proof (rule for_range_rule[where I = "\<lambda>j. I (stage j)", OF _ that])
    fix j vs assume j: "j < 256" "I (stage j) vs"
    have "length us = 256 * 0 + j \<and> stage (Suc j) (snd (channel_in_word 0 s)) (us @ [fst (channel_in_word 0 s)])" if "stage j s us" for s us
    proof -
      have lt: "j < length ws" using len(1) j(1) by simp
      have s: "us = take j ws" "s = c\<lparr>transfer := host_rest ws j, busy := 0\<rparr>" "medium s = medium c" "length us = j"
        using that j(1) lt by (simp_all add: stage_def)
      have b: "between l (c\<lparr>transfer := t, busy := m\<rparr>) = between l c" for l t m by (simp add: between_def)
      have r: "channel_in_word 0 s = (ws ! j, c\<lparr>transfer := host_rest ws (Suc j), busy := between (length ws - Suc j) c\<rparr>)"
        unfolding s(2) using channel_in_word_next[OF _ lt, of "c\<lparr>transfer := host_rest ws j, busy := 0\<rparr>"] by (simp add: b)
      have t: "us @ [ws ! j] = take (Suc j) ws" using lt s(1) by (simp add: take_Suc_conv_app_nth)
      show ?thesis
      proof (cases "Suc j = 256")
        case True
        have "between (length ws - 256) c = gap c" using len n(3) by (simp add: between_def)
        then show ?thesis using r t True n(4) s(4) len(1) by (simp add: stage_def)
      next
        case False
        have "between (length ws - Suc j) c = 0" using between_inside[of "Suc j" 0 n c] False j(1) n(1,3) by simp
        then show ?thesis using r t False j(1) s(4) lt by (simp add: stage_def)
      qed
    qed
    then show "\<exists>vs'. ?body (of_nat 0) (0 + of_nat j) vs = Some vs' \<and> I (stage (Suc j)) vs'"
      using word[OF j(2), of 0 j "stage (Suc j)"] j(1) n(3) by simp
  qed simp
  have later: "\<exists>vs'. for_range (?body (of_nat i)) 0 (0 + of_nat 256) vs = Some vs' \<and> I (rested (256 * i + 256)) vs'"
    if i: "0 < i" "i < n" and vs: "I (rested (256 * i)) vs" for i vs
  proof (rule for_range_rule[where I = "\<lambda>j. I (rested (256 * i + j))"])
    fix j vs assume j: "j < 256" "I (rested (256 * i + j)) vs"
    have "length us = 256 * i + j \<and> rested (256 * i + Suc j) (snd (channel_in_word 0 s)) (us @ [fst (channel_in_word 0 s)])"
      if "rested (256 * i + j) s us" for s us
    proof -
      have s: "medium s = medium c" "length us = 256 * i + j" "take 256 us = take 256 ws"
        "if 256 * i + j = 256 then busy s > 0 \<and> stale s = stale c else us ! 256 = stale c" using that by (simp_all add: rested_def)
      have m: "medium (snd (channel_in_word 0 s)) = medium c" using s(1) by (simp add: channel_in_word_def split: transfer.split list.split)
      have ge: "256 \<le> length us" using i(1) s(2) by simp
      have w: "(us @ [fst (channel_in_word 0 s)]) ! 256 = stale c"
      proof (cases "256 * i + j = 256")
        case True
        then have "fst (channel_in_word 0 s) = stale c" using s(4) by (simp add: channel_in_word_def split: transfer.split list.split)
        then show ?thesis using True s(2) by (simp add: nth_append)
      next
        case False
        then show ?thesis using s(2,4) ge by (simp add: nth_append)
      qed
      have "256 * i + Suc j \<noteq> 256" using i(1) by simp
      then show ?thesis using s(2,3) m w ge by (simp add: rested_def)
    qed
    moreover have "256 * i + j < 256 * n" using i(2) j(1) by simp
    ultimately show "\<exists>vs'. ?body (of_nat i) (0 + of_nat j) vs = Some vs' \<and> I (rested (256 * i + Suc j)) vs'"
      using word[OF j(2), of i j "rested (256 * i + Suc j)"] by simp
  qed (use vs in simp_all)
  have "\<exists>vs'. for_range (\<lambda>i vs. do {
      (v1, s1) \<leftarrow> for_range (?body i) 0 (DEFAULT_SECTOR_SIZE div 2) vs;
      s2 \<leftarrow> ata_sleep (channel_io (ucast (ata_base d))) (Some d) s1;
      Some (v1, s2) }) 0 (0 + of_nat n) (v, c) = Some vs' \<and> (if n = 0 then I (stage 0) vs' else I (rested (256 * n)) vs')"
  proof (rule for_range_rule[where I = "\<lambda>i vs. if i = 0 then I (stage 0) vs else I (rested (256 * i)) vs"])
    have "c = c\<lparr>transfer := host_rest ws 0, busy := 0\<rparr>" using c by simp
    then have "stage 0 c []" by (simp add: stage_def)
    moreover have "words_stored v buffer []" by (simp add: words_stored_def)
    ultimately show "if (0 :: nat) = 0 then I (stage 0) (v, c) else I (rested (256 * 0)) (v, c)" using good by (auto simp: I_def)
    fix i vs assume i: "i < n" "if i = 0 then I (stage 0) vs else I (rested (256 * i)) vs"
    have d: "(0 :: u32) + of_nat 256 = DEFAULT_SECTOR_SIZE div 2" by (simp add: DEFAULT_SECTOR_SIZE_def)
    have rest: "I (rested (256 * Suc i)) (u, s\<lparr>busy := busy s - 4\<rparr>)"
      if "if i = 0 then I (stage 256) (u, s) else I (rested (256 * i + 256)) (u, s)" for u s
    proof (cases "i = 0")
      case True
      then show ?thesis using that by (auto simp: I_def stage_def rested_def)
    next
      case False
      then show ?thesis using that by (auto simp: I_def rested_def add.commute)
    qed
    obtain vs' where vs': "for_range (?body (of_nat i)) 0 (DEFAULT_SECTOR_SIZE div 2) vs = Some vs'"
      "if i = 0 then I (stage 256) vs' else I (rested (256 * i + 256)) vs'"
    proof (cases "i = 0")
      case True
      then show thesis using that first[of vs] i(2) unfolding d by auto
    next
      case False
      then show thesis using that later[of i vs] i unfolding d by auto
    qed
    obtain u s where us: "vs' = (u, s)" by (cases vs')
    show "\<exists>vs'. (do { (v1, s1) \<leftarrow> for_range (?body (0 + of_nat i)) 0 (DEFAULT_SECTOR_SIZE div 2) vs;
        s2 \<leftarrow> ata_sleep (channel_io (ucast (ata_base d))) (Some d) s1; Some (v1, s2) }) = Some vs'
        \<and> (if Suc i = 0 then I (stage 0) vs' else I (rested (256 * Suc i)) vs')"
      using vs'(1) rest[OF vs'(2)[unfolded us]] by (simp add: us ata_sleep_channel)
  qed (use n in simp)
  then obtain vs' where run: "for_range (\<lambda>i vs. do {
      (v1, s1) \<leftarrow> for_range (?body i) 0 (DEFAULT_SECTOR_SIZE div 2) vs;
      s2 \<leftarrow> ata_sleep (channel_io (ucast (ata_base d))) (Some d) s1;
      Some (v1, s2) }) 0 (of_nat n) (v, c) = Some vs'" and I: "I (rested (256 * n)) vs'" using n(3) by auto
  from I n(3) show ?thesis unfolding I_def rested_def run by auto
qed

end

text \<open>The channel after \<open>k\<close> of the words \<open>ws\<close> have been written from word \<open>p\<close> on.\<close>

definition written :: "channel \<Rightarrow> nat \<Rightarrow> u16 list \<Rightarrow> nat \<Rightarrow> channel" where
  "written c p ws k = c\<lparr>medium := (medium c)(selected c := (\<lambda>q. if p \<le> q \<and> q < p + k then ws ! (q - p) else medium c (selected c) q)),
     transfer := (if k < length ws then From_host (p + k) (length ws - k) else Idle), busy := 0\<rparr>"

lemma channel_out_word_next:
  assumes "k < length ws" "length ws = 256 \<or> gap c \<le> 4"
  shows "(channel_out_word 0 (ws ! k) (written c p ws k))\<lparr>busy := busy (channel_out_word 0 (ws ! k) (written c p ws k)) - 4\<rparr> = written c p ws (Suc k)"
proof -
  obtain m where m: "length ws - k = Suc m" "Suc m = length ws - k" using assms(1) by (cases "length ws - k") simp_all
  have "m < 256 \<or> gap c \<le> 4" using assms m(1) by auto
  then have "between m (written c p ws k) - 4 = 0" by (auto simp: between_def written_def)
  moreover have "m = 0 \<longleftrightarrow> \<not> Suc k < length ws" "m = length ws - Suc k" using m(2) assms(1) by arith+
  moreover have "((medium c)(selected c := (\<lambda>q. if p \<le> q \<and> q < p + k then ws ! (q - p) else medium c (selected c) q)(p + k := ws ! k)))
    = (medium c)(selected c := (\<lambda>q. if p \<le> q \<and> q < p + Suc k then ws ! (q - p) else medium c (selected c) q))"
    by (auto simp: fun_eq_iff less_Suc_eq)
  ultimately show ?thesis using assms m(1) by (simp add: channel_out_word_def written_def selected_def)
qed

lemma write_sectors:
  assumes ws: "words_stored v buffer ws" "length ws = 256 * n" "n < 256" and c: "transfer c = From_host p (256 * n)" "busy c = 0" "n = 1 \<or> gap c \<le> 4" "0 < n"
  shows "for_range (\<lambda>i s. do {
         s1 \<leftarrow> for_range (\<lambda>j s. do {
             w \<leftarrow> rd16 v (buffer + 2 * (j + DEFAULT_SECTOR_SIZE div 2 * i));
             ata_sleep (channel_io (ucast (ata_base d))) (Some d) (port_out_word (channel_io (ucast (ata_base d))) (ata_base d + ATA_DATA_PORT) w s)
           }) 0 (DEFAULT_SECTOR_SIZE div 2) s;
         ata_sleep (channel_io (ucast (ata_base d))) (Some d) s1 }) 0 (of_nat n) c = Some (written c p ws (256 * n))"
proof -
  let ?body = "\<lambda>i j s. do { w \<leftarrow> rd16 v (buffer + 2 * (j + DEFAULT_SECTOR_SIZE div 2 * i));
     ata_sleep (channel_io (ucast (ata_base d))) (Some d) (port_out_word (channel_io (ucast (ata_base d))) (ata_base d + ATA_DATA_PORT) w s) }"
  have g: "length ws = 256 \<or> gap c \<le> 4" using c(3) ws(2) by auto
  have sector: "for_range (?body (of_nat i)) 0 (0 + of_nat 256) (written c p ws (256 * i)) = Some (written c p ws (256 * Suc i))" if i: "i < n" for i
  proof -
    have "\<exists>s'. for_range (?body (of_nat i)) 0 (0 + of_nat 256) (written c p ws (256 * i)) = Some s' \<and> s' = written c p ws (256 * i + 256)"
    proof (rule for_range_rule[where I = "\<lambda>j s. s = written c p ws (256 * i + j)"])
      fix j s assume j: "j < 256" "s = written c p ws (256 * i + j)"
      have a: "buffer + 2 * (0 + of_nat j + DEFAULT_SECTOR_SIZE div 2 * of_nat i) = buffer + 2 * of_nat (256 * i + j)"
        by (simp add: DEFAULT_SECTOR_SIZE_def)
      have k: "256 * i + j < length ws" using i j(1) ws(2) by simp
      then have "rd16 v (buffer + 2 * of_nat (256 * i + j)) = Some (ws ! (256 * i + j))" using ws(1) unfolding words_stored_def by blast
      then have "?body (of_nat i) (0 + of_nat j) s = Some (written c p ws (Suc (256 * i + j)))"
        unfolding a by (simp add: j(2) ata_sleep_channel channel_out_word_next[OF k g] del: of_nat_add of_nat_mult)
      then show "\<exists>s'. ?body (of_nat i) (0 + of_nat j) s = Some s' \<and> s' = written c p ws (256 * i + Suc j)" by simp
    qed simp_all
    then show ?thesis by (simp add: add.commute)
  qed
  have "(\<lambda>q. if p \<le> q \<and> q < p + 0 then ws ! (q - p) else medium c (selected c) q) = medium c (selected c)" by (rule ext) auto
  then have start: "c = written c p ws 0" using c ws(2) by (simp add: written_def)
  have "\<exists>s'. for_range (\<lambda>i s. do { s1 \<leftarrow> for_range (?body i) 0 (DEFAULT_SECTOR_SIZE div 2) s;
      ata_sleep (channel_io (ucast (ata_base d))) (Some d) s1 }) 0 (0 + of_nat n) c = Some s' \<and> s' = written c p ws (256 * n)"
  proof (rule for_range_rule[where I = "\<lambda>i s. s = written c p ws (256 * i)"])
    fix i s assume i: "i < n" "s = written c p ws (256 * i)"
    have d: "(0 :: u32) + of_nat 256 = DEFAULT_SECTOR_SIZE div 2" by (simp add: DEFAULT_SECTOR_SIZE_def)
    have "(written c p ws k)\<lparr>busy := busy (written c p ws k) - 4\<rparr> = written c p ws k" for k by (simp add: written_def)
    then show "\<exists>s'. (do { s1 \<leftarrow> for_range (?body (0 + of_nat i)) 0 (DEFAULT_SECTOR_SIZE div 2) s;
        ata_sleep (channel_io (ucast (ata_base d))) (Some d) s1 }) = Some s' \<and> s' = written c p ws (256 * Suc i)"
      using sector[OF i(1)] unfolding d i(2) by (simp add: ata_sleep_channel)
  qed (use ws(3) start in simp_all)
  then show ?thesis by simp
qed

section \<open>Commands\<close>

lemma command_stages:
  assumes d: "identity c (is_slave d) \<noteq> []" and cmd: "cmd = ATA_CMD_READ_PIO \<or> cmd = ATA_CMD_WRITE_PIO"
  defines "io \<equiv> channel_io (ucast (ata_base d))"
  obtains c1 c2 c3 c4 where "ata_pio28_pre_stages io (Some d) sector n c = Some c1"
    "port_out io (ata_base d + ATA_COMMAND_PORT) (ata_command_value cmd) c1 = c2"
    "ata_wait_for_status io (Some d) DEVICE_READY c2 = Some c3" "ata_wait_for_status io (Some d) DEVICE_DATA_READY c3 = Some c4"
    "selected c4 = is_slave d" "lba c4 = unat sector mod 2 ^ 28" "count c4 = (if n = 0 then 256 else unat n)" "busy c4 = 0"
    "medium c4 = medium c" "identity c4 = identity c" "latency c4 = latency c" "gap c4 = gap c" "stale c4 = stale c"
    "transfer c4 = (if cmd = ATA_CMD_READ_PIO then To_host (map (medium c (is_slave d)) [256 * lba c4 ..< 256 * (lba c4 + count c4)])
       else From_host (256 * lba c4) (256 * count c4))"
proof -
  obtain c1 where c1: "ata_pio28_pre_stages io (Some d) sector n c = Some c1" "selected c1 = is_slave d" "lba c1 = unat sector mod 2 ^ 28"
    "count c1 = (if n = 0 then 256 else unat n)" "medium c1 = medium c" "identity c1 = identity c" "latency c1 = latency c" "gap c1 = gap c" "stale c1 = stale c"
    unfolding io_def by (rule pre_stages_channel[of d sector n c])
  let ?t = "if cmd = ATA_CMD_READ_PIO then To_host (map (medium c (is_slave d)) [256 * lba c1 ..< 256 * (lba c1 + count c1)])
     else From_host (256 * lba c1) (256 * count c1)"
  let ?c2 = "c1\<lparr>transfer := ?t, busy := latency c\<rparr>"
  have "port_out io (ata_base d + ATA_COMMAND_PORT) x c1 = channel_command x c1" for x
    by (simp add: io_def channel_ports ATA_COMMAND_PORT_def channel_out_def)
  then have c2: "port_out io (ata_base d + ATA_COMMAND_PORT) (ata_command_value cmd) c1 = ?c2"
    using cmd d c1(2,5-7) by (elim disjE) (simp_all add: channel_command_def)
  let ?c4 = "?c2\<lparr>busy := 0\<rparr>"
  have sel: "selected (c1\<lparr>transfer := t, busy := b\<rparr>) = is_slave d" "lba (c1\<lparr>transfer := t, busy := b\<rparr>) = lba c1"
    "count (c1\<lparr>transfer := t, busy := b\<rparr>) = count c1" for t b using c1(2) by (simp_all add: selected_def lba_def count_def)
  have "ata_wait_for_status io (Some d) DEVICE_READY ?c2 = Some ?c4" "ata_wait_for_status io (Some d) DEVICE_DATA_READY ?c4 = Some ?c4"
    using d c1(6) sel(1)[where t = ?t] cmd unfolding io_def ata_wait_for_status_def by (simp_all add: status_loop_channel)
  then show thesis using c1 c2 sel by (intro that[of c1 ?c2 ?c4 ?c4]) simp_all
qed

lemma count_byte:
  assumes "0 < n" "n < 256"
  shows "unat (of_nat n :: byte) = n" "(of_nat n :: byte) \<noteq> 0" "(ucast (of_nat n :: byte) :: u32) = of_nat n"
proof -
  show u: "unat (of_nat n :: byte) = n" using assms by (simp add: unat_of_nat)
  then show "(of_nat n :: byte) \<noteq> 0" using assms(1) by auto
  have "unat (ucast (of_nat n :: byte) :: u32) = unat (of_nat n :: u32)"
    unfolding unsigned_ucast_eq u using assms by (simp add: unat_of_nat take_bit_eq_mod)
  then show "(ucast (of_nat n :: byte) :: u32) = of_nat n" by (simp only: word_unat_eq_iff)
qed

context kernel_words
begin

lemma ata_pio28_read_sectors:
  fixes sector :: u32
  assumes good: "good W v" and d: "device_exists d" "identity c (is_slave d) \<noteq> []" and n: "0 < n" "n < 256"
    and buf: "buffer \<noteq> 0" "span buffer (512 * n) \<subseteq> bytes_of W"
  defines "ws \<equiv> map (medium c (is_slave d)) [256 * (unat sector mod 2 ^ 28) ..< 256 * (unat sector mod 2 ^ 28 + n)]"
  shows "\<exists>v' c' us. ata_pio28_read (channel_io (ucast (ata_base d))) (Some d) buffer sector (of_nat n) (v, c) = Some (v', c')
    \<and> good W v' \<and> length us = 256 * n \<and> words_stored v' buffer us \<and> (\<forall>a\<in>bytes_of W. a \<notin> span buffer (512 * n) \<longrightarrow> rd8 v' a = rd8 v a)
    \<and> medium c' = medium c \<and> take 256 us = take 256 ws
    \<and> (if n = 1 \<or> gap c \<le> 4 then us = ws \<and> transfer c' = Idle else us ! 256 = stale c)"
proof -
  let ?io = "channel_io (ucast (ata_base d))"
  note un = count_byte[OF n]
  obtain c1 c2 c3 c4 where s: "ata_pio28_pre_stages ?io (Some d) sector (of_nat n) c = Some c1"
    "port_out ?io (ata_base d + ATA_COMMAND_PORT) (ata_command_value ATA_CMD_READ_PIO) c1 = c2"
    "ata_wait_for_status ?io (Some d) DEVICE_READY c2 = Some c3" "ata_wait_for_status ?io (Some d) DEVICE_DATA_READY c3 = Some c4"
    "selected c4 = is_slave d" "lba c4 = unat sector mod 2 ^ 28" "count c4 = (if (of_nat n :: byte) = 0 then 256 else unat (of_nat n :: byte))" "busy c4 = 0"
    "medium c4 = medium c" "identity c4 = identity c" "latency c4 = latency c" "gap c4 = gap c" "stale c4 = stale c"
    "transfer c4 = (if ATA_CMD_READ_PIO = ATA_CMD_READ_PIO then To_host (map (medium c (is_slave d)) [256 * lba c4 ..< 256 * (lba c4 + count c4)])
       else From_host (256 * lba c4) (256 * count c4))"
    by (rule command_stages[OF d(2), of ATA_CMD_READ_PIO sector "of_nat n"]) simp
  have t: "transfer c4 = To_host ws" using s(14) unfolding s(6,7) un(1) using un(2) by (simp add: ws_def)
  have len: "length ws = 256 * n" by (simp add: ws_def algebra_simps)
  have h: "transfer c4 = host_rest ws 0" using t n len by (simp add: host_rest_def)
  show ?thesis
  proof (cases "n = 1 \<or> gap c \<le> 4")
    case True
    from read_sectors[OF good h s(8) _ len n(2) buf(2), of d] True s(12)
    obtain v' where "ata_pio28_read ?io (Some d) buffer sector (of_nat n) (v, c) = Some (v', c4\<lparr>transfer := Idle\<rparr>)"
      "good W v'" "words_stored v' buffer ws" "\<forall>a\<in>bytes_of W. a \<notin> span buffer (512 * n) \<longrightarrow> rd8 v' a = rd8 v a"
      using s(1-4) d(1) buf(1) un(3) by (auto simp: ata_pio28_read_def)
    then show ?thesis using s(9) len True by (intro exI[of _ v'] exI[of _ "c4\<lparr>transfer := Idle\<rparr>"] exI[of _ ws]) simp
  next
    case False
    then have g: "1 < n" "4 < gap c4" using n(1) s(12) by auto
    from read_sectors_slow[OF good h s(8) len n(2) g buf(2), of d]
    obtain v' c' us where "ata_pio28_read ?io (Some d) buffer sector (of_nat n) (v, c) = Some (v', c')"
      "good W v'" "length us = 256 * n" "words_stored v' buffer us" "\<forall>a\<in>bytes_of W. a \<notin> span buffer (512 * n) \<longrightarrow> rd8 v' a = rd8 v a"
      "medium c' = medium c4" "take 256 us = take 256 ws" "us ! 256 = stale c4"
      using s(1-4) d(1) buf(1) un(3) by (auto simp: ata_pio28_read_def)
    then show ?thesis using s(9,13) False by (intro exI[of _ v'] exI[of _ c'] exI[of _ us]) simp
  qed
qed

end

lemma ata_pio28_write_sectors:
  fixes sector :: u32
  assumes ws: "words_stored v buffer ws" "length ws = 256 * n" and d: "device_exists d" "identity c (is_slave d) \<noteq> []"
    "n = 1 \<or> gap c \<le> 4" and n: "0 < n" "n < 256" and buf: "buffer \<noteq> 0"
  defines "p \<equiv> 256 * (unat sector mod 2 ^ 28)"
  shows "\<exists>c'. ata_pio28_write (channel_io (ucast (ata_base d))) (Some d) buffer sector (of_nat n) v c = Some c'
    \<and> (\<forall>s q. medium c' s q = (if s = is_slave d \<and> p \<le> q \<and> q < p + 256 * n then ws ! (q - p) else medium c s q))
    \<and> identity c' = identity c \<and> gap c' = gap c \<and> transfer c' = Idle"
proof -
  let ?io = "channel_io (ucast (ata_base d))"
  note un = count_byte[OF n]
  obtain c1 c2 c3 c4 where s: "ata_pio28_pre_stages ?io (Some d) sector (of_nat n) c = Some c1"
    "port_out ?io (ata_base d + ATA_COMMAND_PORT) (ata_command_value ATA_CMD_WRITE_PIO) c1 = c2"
    "ata_wait_for_status ?io (Some d) DEVICE_READY c2 = Some c3" "ata_wait_for_status ?io (Some d) DEVICE_DATA_READY c3 = Some c4"
    "selected c4 = is_slave d" "lba c4 = unat sector mod 2 ^ 28" "count c4 = (if (of_nat n :: byte) = 0 then 256 else unat (of_nat n :: byte))" "busy c4 = 0"
    "medium c4 = medium c" "identity c4 = identity c" "latency c4 = latency c" "gap c4 = gap c" "stale c4 = stale c"
    "transfer c4 = (if ATA_CMD_WRITE_PIO = ATA_CMD_READ_PIO then To_host (map (medium c (is_slave d)) [256 * lba c4 ..< 256 * (lba c4 + count c4)])
       else From_host (256 * lba c4) (256 * count c4))"
    by (rule command_stages[OF d(2), of ATA_CMD_WRITE_PIO sector "of_nat n"]) simp
  have t: "transfer c4 = From_host p (256 * n)" using s(14) unfolding s(6,7) un(1) using un(2) by (simp add: p_def)
  have g: "n = 1 \<or> gap c4 \<le> 4" using s(12) d(3) by simp
  have "ata_pio28_write ?io (Some d) buffer sector (of_nat n) v c = Some (written c4 p ws (256 * n))"
    using s(1-4) d(1) buf(1) un(3) write_sectors[OF ws n(2) t s(8) g n(1), of d] by (simp add: ata_pio28_write_def)
  then show ?thesis using s(5,9,10,12) ws(2) by (intro exI[of _ "written c4 p ws (256 * n)"]) (auto simp: written_def)
qed

section \<open>Through the block device\<close>

lemma ata_block_channel:
  "ata_block_if_busy (channel_io (ucast (ata_base d))) (Some d) c
    = Some (c\<lparr>busy := if identity c (selected c) = [] then busy c - 1 else 0\<rparr>)"
  by (simp add: ata_block_if_busy_def busy_loop_channel)

lemma count_cut: "n < 256 \<Longrightarrow> ucast (of_nat n :: u32) = (of_nat n :: byte)"
  by (simp only: word_unat_eq_iff unsigned_ucast_eq) (simp add: unat_of_nat take_bit_eq_mod)

text \<open>C9: reading \<open>n\<close> sectors, from 1 to 255 and below sector number \<open>2 ^ 28\<close>, from a drive that is
  there, into a buffer in mapped memory. The read always returns, changes nothing outside the
  buffer and nothing on the drive, and puts the first sector into the buffer. All sectors arrive
  when there is one only or when the drive is ready for the next one within four reads of the
  status. The code does not wait for the drive between sectors: with a slower one the first word
  of the second sector is what the data port gives while the drive is busy.\<close>

theorem ata_read_correct:
  assumes w: "data_window W v" and d: "block_ata_device st dev = Some d" "device_exists d" "identity c (is_slave d) \<noteq> []"
    and n: "0 < n" "n < 256" "unat sector + n \<le> 2 ^ 28" and buf: "buffer \<noteq> 0" "span buffer (512 * n) \<subseteq> bytes_of W"
  shows "\<exists>v' c'. ata_read (channel_io (ucast (ata_base d))) st dev buffer sector (of_nat n) (v, c) = Some (v', c') \<and> data_window W v'
    \<and> (\<forall>k<256. rd16 v' (buffer + 2 * of_nat k) = Some (medium c (is_slave d) (256 * unat sector + k)))
    \<and> (if n = 1 \<or> gap c \<le> 4
       then (\<forall>k<256 * n. rd16 v' (buffer + 2 * of_nat k) = Some (medium c (is_slave d) (256 * unat sector + k))) \<and> transfer c' = Idle
       else rd16 v' (buffer + 512) = Some (stale c))
    \<and> (\<forall>a\<in>bytes_of W. a \<notin> span buffer (512 * n) \<longrightarrow> rd8 v' a = rd8 v a) \<and> medium c' = medium c"
proof -
  let ?c = "c\<lparr>busy := if identity c (selected c) = [] then busy c - 1 else 0\<rparr>"
    and ?ws = "map (medium c (is_slave d)) [256 * unat sector ..< 256 * (unat sector + n)]"
  have sec: "unat sector mod 2 ^ 28 = unat sector" using n by simp
  note cut = count_cut[OF n(2)]
  have id: "identity ?c (is_slave d) \<noteq> []" using d(3) by simp
  obtain v' c' us where r: "ata_pio28_read (channel_io (ucast (ata_base d))) (Some d) buffer sector (of_nat n) (v, ?c) = Some (v', c')"
    "data_window W v'" "length us = 256 * n" "words_stored v' buffer us" "\<forall>a\<in>bytes_of W. a \<notin> span buffer (512 * n) \<longrightarrow> rd8 v' a = rd8 v a"
    "medium c' = medium ?c" "take 256 us = take 256 (map (medium ?c (is_slave d)) [256 * unat sector ..< 256 * (unat sector + n)])"
    "if n = 1 \<or> gap ?c \<le> 4 then us = map (medium ?c (is_slave d)) [256 * unat sector ..< 256 * (unat sector + n)] \<and> transfer c' = Idle
     else us ! 256 = stale ?c"
    using window.ata_pio28_read_sectors[OF w d(2) id n(1,2) buf, of sector] unfolding sec by (elim exE conjE)
  have word: "?ws ! k = medium c (is_slave d) (256 * unat sector + k)" if "k < 256 * n" for k using that by simp
  have first: "us ! k = ?ws ! k" if "k < 256" for k
  proof -
    have "take 256 us ! k = take 256 ?ws ! k" using r(7) by simp
    then show ?thesis using that by simp
  qed
  have st: "rd16 v' (buffer + 2 * of_nat k) = Some (us ! k)" if "k < 256 * n" for k using r(3,4) that by (simp add: words_stored_def)
  have "rd16 v' (buffer + 2 * of_nat k) = Some (medium c (is_slave d) (256 * unat sector + k))" if "k < 256" for k
    using st[of k] first[OF that] word[of k] that n(1) by simp
  moreover have "if n = 1 \<or> gap c \<le> 4
       then (\<forall>k<256 * n. rd16 v' (buffer + 2 * of_nat k) = Some (medium c (is_slave d) (256 * unat sector + k))) \<and> transfer c' = Idle
       else rd16 v' (buffer + 512) = Some (stale c)"
  proof (cases "n = 1 \<or> gap c \<le> 4")
    case True
    then have "us = ?ws" "transfer c' = Idle" using r(8) by simp_all
    then show ?thesis using True st word by simp
  next
    case False
    then show ?thesis using r(8) st[of 256] n(1) by simp
  qed
  ultimately show ?thesis using r(1,2,5,6) d(1) by (intro exI[of _ v'] exI[of _ c']) (simp add: ata_read_def ata_block_channel cut)
qed

text \<open>C14: sectors that are written come back: 1 to 255 sectors below sector number \<open>2 ^ 28\<close>, one
  only or on a drive that is ready for the next one within four reads of the status. After
  \<open>ata_write\<close> of the words in a buffer, an \<open>ata_read\<close> of the same sectors puts the same words into
  another buffer, and the write has changed no other sector of either drive.\<close>

theorem ata_write_read:
  assumes w: "data_window W v" and d: "block_ata_device st dev = Some d" "device_exists d" "identity c (is_slave d) \<noteq> []" "n = 1 \<or> gap c \<le> 4"
    and n: "0 < n" "n < 256" "unat sector + n \<le> 2 ^ 28"
    and ws: "length ws = 256 * n" "\<forall>k<256 * n. rd16 v (source + 2 * of_nat k) = Some (ws ! k)"
    and buf: "source \<noteq> 0" "buffer \<noteq> 0" "span buffer (512 * n) \<subseteq> bytes_of W"
  shows "\<exists>c1 v' c2. ata_write (channel_io (ucast (ata_base d))) st dev source sector (of_nat n) v c = Some c1
    \<and> (\<forall>s q. s \<noteq> is_slave d \<or> q < 256 * unat sector \<or> 256 * (unat sector + n) \<le> q \<longrightarrow> medium c1 s q = medium c s q)
    \<and> ata_read (channel_io (ucast (ata_base d))) st dev buffer sector (of_nat n) (v, c1) = Some (v', c2)
    \<and> (\<forall>k<256 * n. rd16 v' (buffer + 2 * of_nat k) = Some (ws ! k))"
proof -
  let ?io = "channel_io (ucast (ata_base d))" and ?c = "c\<lparr>busy := if identity c (selected c) = [] then busy c - 1 else 0\<rparr>"
  have sec: "unat sector mod 2 ^ 28 = unat sector" using n by simp
  have stored: "words_stored v source ws" using ws by (simp add: words_stored_def)
  have id: "identity ?c (is_slave d) \<noteq> []" "n = 1 \<or> gap ?c \<le> 4" using d(3,4) by simp_all
  obtain c1 where c1: "ata_pio28_write ?io (Some d) source sector (of_nat n) v ?c = Some c1"
    "\<forall>s q. medium c1 s q = (if s = is_slave d \<and> 256 * unat sector \<le> q \<and> q < 256 * unat sector + 256 * n
       then ws ! (q - 256 * unat sector) else medium c s q)" "identity c1 = identity c" "gap c1 = gap c"
    using ata_pio28_write_sectors[OF stored ws(1) d(2) id n(1,2) buf(1), of sector] unfolding sec by auto
  let ?c1 = "c1\<lparr>busy := if identity c1 (selected c1) = [] then busy c1 - 1 else 0\<rparr>"
  have id1: "identity ?c1 (is_slave d) \<noteq> []" "n = 1 \<or> gap ?c1 \<le> 4" using d(3,4) c1(3,4) by simp_all
  obtain v' c2 us where "ata_pio28_read ?io (Some d) buffer sector (of_nat n) (v, ?c1) = Some (v', c2)" "words_stored v' buffer us"
    "if n = 1 \<or> gap ?c1 \<le> 4 then us = map (medium ?c1 (is_slave d)) [256 * unat sector ..< 256 * (unat sector + n)] \<and> transfer c2 = Idle
     else us ! 256 = stale ?c1"
    using window.ata_pio28_read_sectors[OF w d(2) id1(1) n(1,2) buf(2,3), of sector] unfolding sec by (elim exE conjE)
  with id1(2) have r: "ata_pio28_read ?io (Some d) buffer sector (of_nat n) (v, ?c1) = Some (v', c2)"
    "words_stored v' buffer (map (medium c1 (is_slave d)) [256 * unat sector ..< 256 * (unat sector + n)])" by simp_all
  have "rd16 v' (buffer + 2 * of_nat k) = Some (ws ! k)" if "k < 256 * n" for k
    using r(2) that c1(2) by (simp add: words_stored_def)
  moreover have "medium c1 s q = medium c s q" if "s \<noteq> is_slave d \<or> q < 256 * unat sector \<or> 256 * (unat sector + n) \<le> q" for s q
    using that c1(2) by auto
  moreover have "ata_write ?io st dev source sector (of_nat n) v c = Some c1"
    using c1(1) d(1) by (simp add: ata_write_def ata_block_channel count_cut[OF n(2)])
  moreover have "ata_read ?io st dev buffer sector (of_nat n) (v, c1) = Some (v', c2)"
    using r(1) d(1) by (simp add: ata_read_def ata_block_channel count_cut[OF n(2)])
  ultimately show ?thesis by blast
qed

text \<open>C30: the number of sectors is cut to eight bits, and the drive takes 0 for 256. A read of 256
  sectors returns without having touched the buffer, and leaves the drive with all of them still
  to be fetched.\<close>

theorem ata_read_256_sectors:
  assumes "block_ata_device st dev = Some d" "device_exists d" "identity c (is_slave d) \<noteq> []" "buffer \<noteq> 0"
  shows "\<exists>c' ws. ata_read (channel_io (ucast (ata_base d))) st dev buffer sector 256 (v, c) = Some (v, c')
    \<and> transfer c' = To_host ws \<and> length ws = 256 * 256"
proof -
  let ?io = "channel_io (ucast (ata_base d))"
  obtain e where e: "ata_block_if_busy ?io (Some d) c = Some e" "identity e = identity c" by (simp add: ata_block_channel)
  then have d: "identity e (is_slave d) \<noteq> []" using assms(3) by simp
  obtain c1 c2 c3 c4 where s: "ata_pio28_pre_stages ?io (Some d) sector 0 e = Some c1"
    "port_out ?io (ata_base d + ATA_COMMAND_PORT) (ata_command_value ATA_CMD_READ_PIO) c1 = c2"
    "ata_wait_for_status ?io (Some d) DEVICE_READY c2 = Some c3" "ata_wait_for_status ?io (Some d) DEVICE_DATA_READY c3 = Some c4"
    "selected c4 = is_slave d" "lba c4 = unat sector mod 2 ^ 28" "count c4 = (if (0 :: byte) = 0 then 256 else unat (0 :: byte))" "busy c4 = 0"
    "medium c4 = medium e" "identity c4 = identity e" "latency c4 = latency e" "gap c4 = gap e" "stale c4 = stale e"
    "transfer c4 = (if ATA_CMD_READ_PIO = ATA_CMD_READ_PIO then To_host (map (medium e (is_slave d)) [256 * lba c4 ..< 256 * (lba c4 + count c4)])
       else From_host (256 * lba c4) (256 * count c4))"
    by (rule command_stages[OF d, of ATA_CMD_READ_PIO sector 0]) simp
  have "ucast (256 :: u32) = (0 :: byte)" by simp
  moreover have "ata_pio28_read ?io (Some d) buffer sector 0 (v, e) = Some (v, c4)"
    using s(1-4) assms(2,4) by (simp add: ata_pio28_read_def)
  ultimately have "ata_read ?io st dev buffer sector 256 (v, c) = Some (v, c4)"
    using e(1) assms(1) unfolding ata_read_def by (simp only: prod.case Option.bind.bind_lunit)
  then show ?thesis using s(7,14) by (intro exI[of _ c4]) simp
qed

section \<open>Finding the drives\<close>

lemma read_words_next:
  assumes "transfer c = host_rest ws k" "k < length ws" "busy c = 0"
  shows "read_words (channel_io (ucast (ata_base d))) d (Suc n) c
    = (let (us, c') = read_words (channel_io (ucast (ata_base d))) d n
         (c\<lparr>transfer := host_rest ws (Suc k), busy := between (length ws - Suc k) c\<rparr>) in (ws ! k # us, c'))"
  using channel_in_word_next[OF assms] by simp

lemma read_words_channel:
  assumes "length ws = k + n" "transfer c = host_rest ws k" "busy c = 0" "length ws = 256"
  shows "read_words (channel_io (ucast (ata_base d))) d n c = (drop k ws, c\<lparr>transfer := if n = 0 then transfer c else Idle\<rparr>)"
  using assms
proof (induction n arbitrary: k c)
  case (Suc n)
  have k: "k < length ws" using Suc.prems(1) by simp
  let ?c = "c\<lparr>transfer := host_rest ws (Suc k), busy := between (length ws - Suc k) c\<rparr>"
  have "length ws - Suc k = n" "n < 256" using Suc.prems(1,4) by simp_all
  then have b: "between (length ws - Suc k) c = 0" by (simp only:) (simp add: between_def)
  have c: "?c\<lparr>transfer := Idle\<rparr> = c\<lparr>transfer := Idle\<rparr>" using b Suc.prems(3) by simp
  have n: "length ws = Suc k + n" using Suc.prems(1) by simp
  have "read_words (channel_io (ucast (ata_base d))) d n ?c = (drop (Suc k) ws, ?c\<lparr>transfer := if n = 0 then transfer ?c else Idle\<rparr>)"
    by (rule Suc.IH[OF n _ _ Suc.prems(4)]) (simp_all add: b)
  moreover have "n = 0 \<Longrightarrow> host_rest ws (Suc k) = Idle" using n by (simp add: host_rest_def)
  then have "?c\<lparr>transfer := if n = 0 then transfer ?c else Idle\<rparr> = ?c\<lparr>transfer := Idle\<rparr>" by simp
  ultimately have "read_words (channel_io (ucast (ata_base d))) d (Suc n) c = (ws ! k # drop (Suc k) ws, c\<lparr>transfer := Idle\<rparr>)"
    unfolding read_words_next[OF Suc.prems(2) k Suc.prems(3)] c by (simp only: Let_def prod.case)
  then show ?case using Cons_nth_drop_Suc[OF k] by simp
qed simp

lemma read_words_floating:
  assumes "\<And>s. port_in_word io (ata_base d + ATA_DATA_PORT) s = (0xFFFF, s)"
  shows "read_words io d n s = (replicate n 0xFFFF, s)"
  using assms by (induction n) simp_all

lemma ata_identify_channel:
  "ata_identify (channel_io (ucast (ata_base d))) False (Some d) c =
     (let c1 = c\<lparr>count_reg := 0, lba_low_reg := 0, lba_mid_reg := 0, lba_high_reg := 0\<rparr>
      in if identity c (selected c) = [] then Some (False, c1\<lparr>busy := busy c - 9\<rparr>)
         else Some (True, c1\<lparr>transfer := To_host (identity c (selected c)), busy := latency c - 5\<rparr>))"
proof -
  let ?io = "channel_io (ucast (ata_base d))" and ?c1 = "c\<lparr>count_reg := 0, lba_low_reg := 0, lba_mid_reg := 0, lba_high_reg := 0\<rparr>"
  have regs: "port_out ?io (ata_base d + ATA_LBA_HIGH_PORT) 0 (port_out ?io (ata_base d + ATA_LBA_MID_PORT) 0 (port_out ?io (ata_base d + ATA_LBA_LOW_PORT) 0
      (port_out ?io (ata_base d + ATA_SECTOR_COUNT_PORT) 0 c))) = ?c1"
    by (simp add: channel_ports ata_ports channel_out_def)
  have cmd: "port_out ?io (ata_base d + ATA_COMMAND_PORT) 0xEC x = channel_command 0xEC x" for x
    by (simp add: channel_ports ATA_COMMAND_PORT_def channel_out_def)
  have st: "port_in ?io (ata_base d + ATA_STATUS_PORT) x = (status x, x\<lparr>busy := busy x - 1\<rparr>)" for x
    by (simp add: channel_ports ATA_STATUS_PORT_def channel_in_def)
  have sel: "selected (?c1\<lparr>busy := b\<rparr>) = selected c" "selected (?c1\<lparr>transfer := t, busy := b\<rparr>) = selected c" for t b
    by (simp_all add: selected_def)
  show ?thesis
  proof (cases "identity c (selected c) = []")
    case True
    then show ?thesis using sel by (simp add: ata_identify_def Let_def regs ata_sleep_channel cmd st channel_command_def status_def)
  next
    case False
    have "channel_command 0xEC (?c1\<lparr>busy := busy c - 4\<rparr>) = ?c1\<lparr>transfer := To_host (identity c (selected c)), busy := latency c\<rparr>"
      using False sel by (simp add: channel_command_def)
    moreover have "status (?c1\<lparr>transfer := To_host (identity c (selected c)), busy := b\<rparr>) \<noteq> 0" for b
      using False sel by (simp add: status_def)
    ultimately show ?thesis using False by (simp add: ata_identify_def Let_def regs ata_sleep_channel cmd st)
  qed
qed

lemma read_words_busy:
  assumes "0 < busy c"
  shows "read_words (channel_io (ucast (ata_base d))) d n c = (replicate n (stale c), c)"
proof -
  have "channel_in_word 0 c = (stale c, c)" using assms by (simp add: channel_in_word_def split: transfer.split list.split)
  then show ?thesis by (induction n) simp_all
qed

text \<open>The words that the driver takes for the identity of a drive: it looks at the status once
  after four reads of it, and does not wait.\<close>

definition identity_read :: "channel \<Rightarrow> bool \<Rightarrow> u16 list" where
  "identity_read c s = (if latency c \<le> 5 then identity c s else replicate 256 (stale c))"

text \<open>A drive on the channel: it is selected, sends its identity, and is registered if the first
  word read is not zero.\<close>

lemma probe_present:
  assumes d: "d = (ata_devices st ! i)\<lparr>is_slave := odd i\<rparr>" and c: "length (identity c (odd i)) = 256"
  defines "d3 \<equiv> snd (extract_identify_buffer (d\<lparr>device_exists := True, device_type := ATA, ata_sector_size := DEFAULT_SECTOR_SIZE\<rparr>) (identity_read c (odd i)))"
  shows "\<exists>c'. ata_probe (channel_io (ucast (ata_base d))) read_at write_at i (st, c) = Some
      (if identity_read c (odd i) ! 0 = 0 then st\<lparr>ata_devices := (ata_devices st)[i := d3]\<rparr>
       else st\<lparr>ata_devices := (ata_devices st)[i := d3],
          block_devices := (block_devices st)[i := \<lparr>device_name = ''ATA'', device_write = write_at, device_read = read_at,
             device_specific = Some i, device_size = drive_size d3, device_sector_size = 512\<rparr>],
          root_device := (if root_device st = None then Some i else root_device st)\<rparr>, c')
    \<and> identity c' = identity c"
proof -
  let ?io = "channel_io (ucast (ata_base d))" and ?id = "identity c (odd i)" and ?ws = "identity_read c (odd i)"
  have slave: "is_slave d = odd i" using d(1) by simp
  have ne: "?id \<noteq> []" using c by auto
  define c1 where "c1 = c\<lparr>drive_reg := (if odd i then 0xB0 else 0xA0), busy := busy c - 4\<rparr>"
  have s1: "ata_select_device ?io (Some d) c = Some c1"
    using slave by (simp add: ata_select_device_def channel_ports ATA_DRIVE_PORT_def channel_out_def ata_sleep_channel c1_def)
  have k1: "selected c1 = odd i" "identity c1 = identity c" "latency c1 = latency c" "stale c1 = stale c" by (simp_all add: selected_def c1_def bit_simps)
  define c2 where "c2 = c1\<lparr>count_reg := 0, lba_low_reg := 0, lba_mid_reg := 0, lba_high_reg := 0, transfer := To_host ?id, busy := latency c - 5\<rparr>"
  have s2: "ata_identify ?io False (Some d) c1 = Some (True, c2)"
    using ne k1 by (simp add: ata_identify_channel c2_def Let_def)
  have k2: "identity c2 = identity c" "transfer c2 = host_rest ?id 0" "busy c2 = latency c - 5" "stale c2 = stale c"
    "lba_mid_reg c2 = 0" "lba_high_reg c2 = 0" using k1 c(1) by (simp_all add: c2_def host_rest_def)
  let ?d2 = "d\<lparr>device_exists := True, device_type := ATA, ata_sector_size := DEFAULT_SECTOR_SIZE\<rparr>"
  have s3: "port_in ?io (ata_base d + ATA_LBA_MID_PORT) c2 = (0, c2)" "port_in ?io (ata_base d + ATA_LBA_HIGH_PORT) c2 = (0, c2)"
    using k2 by (simp_all add: channel_ports ata_ports channel_in_def)
  obtain c3 where s4: "read_words ?io ?d2 256 c2 = (?ws, c3)" "identity c3 = identity c"
  proof (cases "latency c \<le> 5")
    case True
    then show thesis using that[of "c2\<lparr>transfer := Idle\<rparr>"] read_words_channel[of ?id 0 256 c2 ?d2] k2 c by (simp add: identity_read_def)
  next
    case False
    then show thesis using that[of c2] read_words_busy[of c2 ?d2 256] k2 by (simp add: identity_read_def)
  qed
  have s5: "extract_identify_buffer ?d2 ?ws = (?ws ! 0 \<noteq> 0, d3)" "?ws ! 0 \<noteq> 0 \<Longrightarrow> device_type d3 = ATA \<and> ata_sector_size d3 = 512"
    by (simp_all add: d3_def extract_identify_buffer_def DEFAULT_SECTOR_SIZE_def)
  have id: "IDENTIFY_BUFFER_SIZE = 256" by (simp add: IDENTIFY_BUFFER_SIZE_def)
  show ?thesis
  proof (cases "?ws ! 0 = 0")
    case True
    then show ?thesis using s4(2) s5(1)
      by (intro exI[of _ c3]) (simp add: ata_probe_def d[symmetric] s1 s2 s3 s4(1) id Let_def)
  next
    case False
    then show ?thesis using s4(2) s5(1) s5(2)[OF False]
      by (intro exI[of _ c3]) (simp add: ata_probe_def d[symmetric] s1 s2 s3 s4(1) id device_type_name_def Let_def)
  qed
qed

lemma probe_absent:
  assumes d: "d = (ata_devices st ! i)\<lparr>is_slave := odd i\<rparr>" and c: "identity c (odd i) = []"
  shows "\<exists>c'. ata_probe (channel_io (ucast (ata_base d))) read_at write_at i (st, c) = Some (st\<lparr>ata_devices := (ata_devices st)[i := d]\<rparr>, c')
    \<and> identity c' = identity c"
proof -
  let ?io = "channel_io (ucast (ata_base d))"
  have slave: "is_slave d = odd i" using d(1) by simp
  define c1 where "c1 = c\<lparr>drive_reg := (if odd i then 0xB0 else 0xA0), busy := busy c - 4\<rparr>"
  have s1: "ata_select_device ?io (Some d) c = Some c1"
    using slave by (simp add: ata_select_device_def channel_ports ATA_DRIVE_PORT_def channel_out_def ata_sleep_channel c1_def)
  have k1: "selected c1 = odd i" "identity c1 = identity c" "latency c1 = latency c" by (simp_all add: selected_def c1_def bit_simps)
  show ?thesis using c k1 by (simp add: ata_probe_def d[symmetric] s1 ata_identify_channel Let_def)
qed

text \<open>A channel without drives: the bus floats, every read gives ones.\<close>

lemma probe_floating:
  assumes d: "d = (ata_devices st ! i)\<lparr>is_slave := odd i\<rparr>"
    and io: "\<And>off s. off \<in> {0, 4, 5, 7, 0x206} \<Longrightarrow> in8 io (ucast (ata_base d + off)) s = (0xFF, s)"
      "\<And>off x s. off \<in> {2, 3, 4, 5, 6, 7} \<Longrightarrow> out8 io (ucast (ata_base d + off)) x s = s"
      "\<And>s. in16 io (ucast (ata_base d)) s = (0xFFFF, s)"
  defines "d3 \<equiv> snd (extract_identify_buffer (d\<lparr>device_exists := True, device_type := ATA, ata_sector_size := DEFAULT_SECTOR_SIZE\<rparr>) (replicate IDENTIFY_BUFFER_SIZE 0xFFFF))"
  shows "ata_probe io read_at write_at i (st, s) = Some
      (st\<lparr>ata_devices := (ata_devices st)[i := d3],
          block_devices := (block_devices st)[i := \<lparr>device_name = ''ATA'', device_write = write_at, device_read = read_at,
             device_specific = Some i, device_size = drive_size d3, device_sector_size = 512\<rparr>],
          root_device := (if root_device st = None then Some i else root_device st)\<rparr>, s)"
proof -
  let ?d2 = "d\<lparr>device_exists := True, device_type := ATA, ata_sector_size := DEFAULT_SECTOR_SIZE\<rparr>"
  have p: "port_in io (ata_base d + off) x = (0xFF, x)" if "off \<in> {0, 4, 5, 7, 0x206}" for off x using io(1)[OF that] by (simp add: port_in_def)
  have q: "port_out io (ata_base d + off) b x = x" if "off \<in> {2, 3, 4, 5, 6, 7}" for off b x using io(2)[OF that] by (simp add: port_out_def)
  have sl: "ata_sleep io (Some d) x = Some x" for x by (simp add: ata_sleep_def p ALTERNATIVE_CONTROL_PORT_def Let_def)
  have "ata_select_device io (Some d) x = Some x" for x by (simp add: ata_select_device_def q sl ATA_DRIVE_PORT_def)
  moreover have "ata_identify io False (Some d) x = Some (True, x)" for x
    by (simp add: ata_identify_def Let_def q p sl ata_ports)
  moreover have "port_in io (ata_base d + ATA_LBA_MID_PORT) x = (0xFF, x)" "port_in io (ata_base d + ATA_LBA_HIGH_PORT) x = (0xFF, x)" for x
    by (simp_all add: p ata_ports)
  moreover have "read_words io ?d2 IDENTIFY_BUFFER_SIZE x = (replicate IDENTIFY_BUFFER_SIZE 0xFFFF, x)" for x
    using io(3) by (intro read_words_floating) (simp add: port_in_word_def ATA_DATA_PORT_def)
  moreover have "replicate IDENTIFY_BUFFER_SIZE 0xFFFF ! 0 = (0xFFFF :: u16)" by (rule nth_replicate) (simp add: IDENTIFY_BUFFER_SIZE_def)
  then have "extract_identify_buffer ?d2 (replicate IDENTIFY_BUFFER_SIZE 0xFFFF) = (True, d3)" "device_type d3 = ATA" "ata_sector_size d3 = 512"
    by (simp_all add: d3_def extract_identify_buffer_def DEFAULT_SECTOR_SIZE_def)
  ultimately show ?thesis
    by (simp add: ata_probe_def d[symmetric] device_type_name_def Let_def)
qed

lemma for_range_four: "for_range body 0 (of_nat MAX_ATA_DRIVES) s = do { s1 \<leftarrow> body 0 s; s2 \<leftarrow> body 1 s1; s3 \<leftarrow> body 2 s2; body 3 s3 }"
proof -
  have step: "i < 4 \<Longrightarrow> for_range body i 4 x = do { y \<leftarrow> body i x; for_range body (i + 1) 4 y }" for i x by (subst for_range.simps) simp
  have "for_range body 4 4 x = Some x" for x by simp
  then show ?thesis by (simp add: MAX_ATA_DRIVES_def step cong: Option.bind_cong)
qed

lemma two_words: "unat (push_bit 16 (ucast h) OR ucast l :: u32) = 2 ^ 16 * unat (h :: u16) + unat (l :: u16)"
proof -
  have "push_bit 16 (ucast h) OR ucast l = push_bit 16 (ucast h) + (ucast l :: u32)"
    by (rule disjunctive_add[symmetric]) (auto simp: bit_simps dest: bit_imp_le_length)
  moreover have "unat (push_bit 16 (ucast h) :: u32) = 2 ^ 16 * unat h" "unat (ucast l :: u32) = unat l"
    using unsigned_less[of h, where ?'a = nat] unsigned_less[of l, where ?'a = nat]
    by (simp_all add: push_bit_eq_mult unat_word_ariths unsigned_ucast_eq take_bit_eq_mod)
  ultimately show ?thesis using unsigned_less[of h, where ?'a = nat] unsigned_less[of l, where ?'a = nat]
    by (simp add: unat_word_ariths)
qed

lemma empty_channel:
  "off \<in> {0, 4, 5, 7, 0x206} \<Longrightarrow> in8 (channel_io 0x1F0) (ucast (0x170 + off :: u32)) s = (0xFF, s)"
  "off \<in> {2, 3, 4, 5, 6, 7} \<Longrightarrow> out8 (channel_io 0x1F0) (ucast (0x170 + off :: u32)) x s = s"
  "in16 (channel_io 0x1F0) 0x170 s = (0xFFFF, s)"
proof -
  show "off \<in> {0, 4, 5, 7, 0x206} \<Longrightarrow> in8 (channel_io 0x1F0) (ucast (0x170 + off :: u32)) s = (0xFF, s)"
    by (elim insertE emptyE) (simp_all add: channel_in_def channel_io_def)
  show "off \<in> {2, 3, 4, 5, 6, 7} \<Longrightarrow> out8 (channel_io 0x1F0) (ucast (0x170 + off :: u32)) x s = s"
    by (elim insertE emptyE) (simp_all add: channel_out_def channel_io_def)
  show "in16 (channel_io 0x1F0) 0x170 s = (0xFFFF, s)"
    by (simp add: channel_io_def channel_in_word_def)
qed

lemma probe_empty:
  assumes d: "d = (ata_devices st ! i)\<lparr>is_slave := odd i\<rparr>" and b: "ata_base d = 0x170"
    and d3: "d3 = snd (extract_identify_buffer (d\<lparr>device_exists := True, device_type := ATA, ata_sector_size := DEFAULT_SECTOR_SIZE\<rparr>) (replicate IDENTIFY_BUFFER_SIZE 0xFFFF))"
  shows "ata_probe (channel_io 0x1F0) read_at write_at i (st, s) = Some
      (st\<lparr>ata_devices := (ata_devices st)[i := d3],
          block_devices := (block_devices st)[i := \<lparr>device_name = ''ATA'', device_write = write_at, device_read = read_at,
             device_specific = Some i, device_size = drive_size d3, device_sector_size = 512\<rparr>],
          root_device := (if root_device st = None then Some i else root_device st)\<rparr>, s)"
  unfolding d3
proof (rule probe_floating[OF d])
  show "in16 (channel_io 0x1F0) (ucast (ata_base d)) s = (0xFFFF, s)" for s unfolding b using empty_channel(3) by simp
qed (unfold b, (rule empty_channel, assumption)+)

text \<open>C25: with a disk as master of the first channel and nothing on the second, whose bus floats,
  \<open>ata_init\<close> registers the disk and chooses it as root device, with a size in bytes that is cut
  to 32 bits, if the first word it reads is not zero. What it reads is the identity of the disk when
  that is ready within five reads of the status, and otherwise 256 times the word that the data
  port gives while the disk is busy: a zero there, and the disk is left out and a root device
  chosen that does not exist. In any case it registers two disks that are not there, because it takes
  the ones of the floating bus for the identity of a drive.\<close>

theorem ata_init_drives:
  assumes c: "length (identity c False) = 256" "identity c True = []"
  defines "ws \<equiv> (if latency c \<le> 5 then identity c False else replicate 256 (stale c))"
  shows "\<exists>st c'. ata_init (channel_io 0x1F0) read_at write_at ata_start c = Some (st, c')
    \<and> (if ws ! 0 \<noteq> 0
       then root_device st = Some 0 \<and> map device_exists (ata_devices st) = [True, False, True, True]
         \<and> map device_specific (block_devices st) = [Some 0, None, Some 2, Some 3]
         \<and> unat (device_size (block_devices st ! 0)) = 512 * (2 ^ 16 * unat (ws ! 0x3d) + unat (ws ! 0x3c)) mod 2 ^ 32
       else root_device st = Some 2 \<and> map device_exists (ata_devices st) = [False, False, True, True]
         \<and> map device_specific (block_devices st) = [None, None, Some 2, Some 3])
    \<and> device_size (block_devices st ! 2) = 0xFFFFFE00 \<and> device_size (block_devices st ! 3) = 0xFFFFFE00"
proof -
  let ?ch = "\<lambda>b. ata_zero\<lparr>ata_base := b\<rparr>" and ?ones = "replicate IDENTIFY_BUFFER_SIZE (0xFFFF :: u16)"
  let ?none = "\<lparr>device_name = [], device_write = 0, device_read = 0, device_specific = None, device_size = 0, device_sector_size = 0\<rparr>"
  let ?found = "\<lambda>b s ws. snd (extract_identify_buffer (?ch b\<lparr>is_slave := s, device_exists := True, device_type := ATA, ata_sector_size := DEFAULT_SECTOR_SIZE\<rparr>) ws)"
  let ?dev = "\<lambda>i d. \<lparr>device_name = ''ATA'', device_write = write_at, device_read = read_at, device_specific = Some i,
    device_size = drive_size d, device_sector_size = 512\<rparr>"
  let ?io = "channel_io 0x1F0"
  let ?st0 = "\<lparr>ata_devices = [?ch 0x1F0, ?ch 0x1F0, ?ch 0x170, ?ch 0x170], block_devices = [?none, ?none, ?none, ?none], root_device = None\<rparr>"
  have ws: "ws = identity_read c False" by (simp add: ws_def identity_read_def)
  define D0 where "D0 = ?found 0x1F0 False ws"
  define D2 where "D2 = ?found 0x170 False ?ones"
  define D3 where "D3 = ?found 0x170 True ?ones"
  have lists: "ata_devices ata_start = [ata_zero, ata_zero, ata_zero, ata_zero]" "block_devices ata_start = [?none, ?none, ?none, ?none]"
    "root_device ata_start = None" by (simp_all add: ata_start_def MAX_ATA_DRIVES_def numeral_eq_Suc)
  then have start: "ata_start = \<lparr>ata_devices = [ata_zero, ata_zero, ata_zero, ata_zero], block_devices = [?none, ?none, ?none, ?none], root_device = None\<rparr>" by simp
  have u: "unat (0 :: u32) = 0" "unat (1 :: u32) = 1" "unat (2 :: u32) = 2" "unat (3 :: u32) = 3" by simp_all
  have init: "ata_init ?io read_at write_at ata_start c = do { s1 \<leftarrow> ata_probe ?io read_at write_at 0 (?st0, c); s2 \<leftarrow> ata_probe ?io read_at write_at 1 s1;
      s3 \<leftarrow> ata_probe ?io read_at write_at 2 s2; ata_probe ?io read_at write_at 3 s3 }"
    unfolding ata_init_def Let_def for_range_four start u by (simp add: numeral_2_eq_2 numeral_3_eq_3)
  let ?b0 = "if ws ! 0 = 0 then ?none else ?dev 0 D0" and ?r0 = "if ws ! 0 = 0 then None else Some 0"
    and ?r2 = "if ws ! 0 = 0 then Some 2 else Some 0"
  let ?st1 = "\<lparr>ata_devices = [D0, ?ch 0x1F0, ?ch 0x170, ?ch 0x170], block_devices = [?b0, ?none, ?none, ?none], root_device = ?r0\<rparr>"
  have "\<exists>c1. ata_probe ?io read_at write_at 0 (?st0, c) = Some (?st1, c1) \<and> identity c1 = identity c"
    using probe_present[where d = "?ch 0x1F0\<lparr>is_slave := False\<rparr>" and st = ?st0 and i = 0 and c = c and read_at = read_at and write_at = write_at] c
    by (cases "ws ! 0 = 0") (simp_all add: D0_def ws)
  then obtain c1 where p0: "ata_probe ?io read_at write_at 0 (?st0, c) = Some (?st1, c1)" "identity c1 = identity c" by blast
  let ?st2 = "\<lparr>ata_devices = [D0, ?ch 0x1F0\<lparr>is_slave := True\<rparr>, ?ch 0x170, ?ch 0x170], block_devices = [?b0, ?none, ?none, ?none], root_device = ?r0\<rparr>"
  have "\<exists>c2. ata_probe ?io read_at write_at 1 (?st1, c1) = Some (?st2, c2)"
    using probe_absent[where d = "?ch 0x1F0\<lparr>is_slave := True\<rparr>" and st = ?st1 and i = 1 and c = c1 and read_at = read_at and write_at = write_at] c p0(2) by auto
  then obtain c2 where p1: "ata_probe ?io read_at write_at 1 (?st1, c1) = Some (?st2, c2)" by blast
  let ?st3 = "\<lparr>ata_devices = [D0, ?ch 0x1F0\<lparr>is_slave := True\<rparr>, D2, ?ch 0x170], block_devices = [?b0, ?none, ?dev 2 D2, ?none], root_device = ?r2\<rparr>"
  let ?st4 = "\<lparr>ata_devices = [D0, ?ch 0x1F0\<lparr>is_slave := True\<rparr>, D2, D3], block_devices = [?b0, ?none, ?dev 2 D2, ?dev 3 D3], root_device = ?r2\<rparr>"
  have p2: "ata_probe ?io read_at write_at 2 (?st2, c2) = Some (?st3, c2)"
    using probe_empty[where d = "?ch 0x170\<lparr>is_slave := False\<rparr>" and st = ?st2 and i = 2, OF _ _ D2_def] by (simp add: numeral_2_eq_2)
  have p3: "ata_probe ?io read_at write_at 3 (?st3, c2) = Some (?st4, c2)"
    using probe_empty[where d = "?ch 0x170\<lparr>is_slave := True\<rparr>" and st = ?st3 and i = 3, OF _ _ D3_def] by (simp add: numeral_3_eq_3)
  have run: "ata_init ?io read_at write_at ata_start c = Some (?st4, c2)" unfolding init using p0(1) p1 p2 p3 by simp
  have one: "?ones ! k = 0xFFFF" if "k < 256" for k using that by - (rule nth_replicate, simp add: IDENTIFY_BUFFER_SIZE_def)
  have ex: "device_exists D0 \<longleftrightarrow> ws ! 0 \<noteq> 0" "device_exists D2" "device_exists D3"
    using one[of 0] by (simp_all add: D0_def D2_def D3_def extract_identify_buffer_def)
  have size: "unat (drive_size D0) = 512 * (2 ^ 16 * unat (ws ! 0x3d) + unat (ws ! 0x3c)) mod 2 ^ 32" if "ws ! 0 \<noteq> 0"
    using that by (simp add: D0_def extract_identify_buffer_def DEFAULT_SECTOR_SIZE_def unat_word_ariths two_words mult.commute)
  have ones: "drive_size D2 = 0xFFFFFE00" "drive_size D3 = 0xFFFFFE00"
    using one[of 0] one[of 60] one[of 61] by (simp_all add: D2_def D3_def extract_identify_buffer_def DEFAULT_SECTOR_SIZE_def)
  show ?thesis
  proof (cases "ws ! 0 = 0")
    case True
    then show ?thesis using ex ones by (intro exI[of _ ?st4] exI[of _ c2]) (simp add: run ata_zero_def)
  next
    case False
    then show ?thesis using ex ones size[OF False] by (intro exI[of _ ?st4] exI[of _ c2]) (simp add: run ata_zero_def)
  qed
qed

section \<open>Instances\<close>

text \<open>A disk as master, whose word \<open>q\<close> is \<open>q\<close>, that needs three polls for a command and four between
  sectors, and the driver's state for it.\<close>

definition sample_channel :: channel where
  "sample_channel = \<lparr>medium = \<lambda>s q. of_nat q, identity = \<lambda>s. if s then [] else 0x40 # replicate 255 0x10, drive_reg = 0, count_reg = 0,
     lba_low_reg = 0, lba_mid_reg = 0, lba_high_reg = 0, transfer = Idle, busy = 2, latency = 3, gap = 4, stale = 0x5050\<rparr>"

definition sample_drive :: ata_device where
  "sample_drive = ata_zero\<lparr>ata_base := 0x1F0, ata_sector_size := 512, device_exists := True\<rparr>"

definition sample_disks :: ata_state where
  "sample_disks = ata_start\<lparr>ata_devices := [sample_drive, ata_zero, ata_zero, ata_zero], root_device := Some 0\<rparr>"

definition sample_block_device :: block_device where
  "sample_block_device = \<lparr>device_name = ''ATA'', device_write = 0x5000, device_read = 0x4000, device_specific = Some 0,
     device_size = 0x200000, device_sector_size = 512\<rparr>"

lemma sample_disk_facts:
  "block_ata_device sample_disks sample_block_device = Some sample_drive" "device_exists sample_drive"
  "identity sample_channel (is_slave sample_drive) \<noteq> []" "gap sample_channel \<le> 4" "ucast (ata_base sample_drive) = (0x1F0 :: u16)"
  by (simp_all add: block_ata_device_def sample_disks_def sample_block_device_def sample_drive_def sample_channel_def ata_zero_def)

lemma sample_window:
  obtains v where "data_window first_heap_page v" "span 0xC0800000 (512 * 2) \<subseteq> bytes_of first_heap_page"
proof (rule grown_heap)
  fix st assume "heap_sound example_linker st first_heap_page"
  then have "data_window first_heap_page (vmem st)" by (rule heap_soundD(2))
  moreover have "span 0xC0800000 (512 * 2) \<subseteq> bytes_of (words_between 0xC0800000 0xC0801000)" by (rule span_between) (simp_all add: word_of_def)
  then have "span 0xC0800000 (512 * 2) \<subseteq> bytes_of first_heap_page" using words_between_page unfolding bytes_of_def by blast
  ultimately show thesis by (rule that)
qed

theorem ata_read_correct_witness:
  "\<exists>v v' c'. ata_read (channel_io 0x1F0) sample_disks sample_block_device 0xC0800000 5 2 (v, sample_channel) = Some (v', c')
    \<and> rd16 v' 0xC0800202 = Some 0x601"
proof (rule sample_window)
  fix v assume v: "data_window first_heap_page v" "span 0xC0800000 (512 * 2) \<subseteq> bytes_of first_heap_page"
  obtain v' c' where r: "ata_read (channel_io 0x1F0) sample_disks sample_block_device 0xC0800000 5 2 (v, sample_channel) = Some (v', c')"
    "\<forall>k<256 * 2. rd16 v' (0xC0800000 + 2 * of_nat k) = Some (medium sample_channel (is_slave sample_drive) (256 * unat (5 :: u32) + k))"
    using ata_read_correct[OF v(1) sample_disk_facts(1-3), of 2 5 "0xC0800000"] v(2) sample_disk_facts(4) unfolding sample_disk_facts(5) by auto
  have "rd16 v' (0xC0800000 + 2 * of_nat 257) = Some (medium sample_channel (is_slave sample_drive) (256 * unat (5 :: u32) + 257))"
    by (rule r(2)[rule_format]) simp
  then show ?thesis using r(1) by (auto simp: sample_channel_def)
qed

theorem ata_write_read_witness:
  "\<exists>v c1 v' c2. ata_write (channel_io 0x1F0) sample_disks sample_block_device 0xC0800000 7 1 v sample_channel = Some c1
    \<and> ata_read (channel_io 0x1F0) sample_disks sample_block_device 0xC0800200 7 1 (v, c1) = Some (v', c2)
    \<and> rd16 v' 0xC0800202 = rd16 v 0xC0800002"
proof (rule sample_window)
  fix v assume v: "data_window first_heap_page v" "span 0xC0800000 (512 * 2) \<subseteq> bytes_of first_heap_page"
  have "span 0xC0800200 (512 * 1) \<subseteq> span 0xC0800000 (512 * 2)" using span_inside[of "0x200" "512 * 1" "512 * 2" "0xC0800000"] by simp
  then have b: "span 0xC0800200 (512 * 1) \<subseteq> bytes_of first_heap_page" using v(2) by blast
  define ws where "ws = map (\<lambda>k. the (rd16 v (0xC0800000 + 2 * of_nat k))) [0..<256 * 1]"
  have "\<exists>x. rd16 v (0xC0800000 + 2 * of_nat k) = Some x" if "k < 256" for k
  proof -
    have "{0xC0800000 + 2 * of_nat k, 0xC0800000 + 2 * of_nat k + 1} \<subseteq> span 0xC0800000 (2 * 512)" using buffer_bytes(1,2)[of k 512 "0xC0800000"] that by simp
    then have "{0xC0800000 + 2 * of_nat k, 0xC0800000 + 2 * of_nat k + 1} \<subseteq> bytes_of first_heap_page" using v(2) by (simp only: mult.commute)
    then show ?thesis using window.rd8_good[OF v(1)] unfolding rd16_def by (metis Option.bind.bind_lunit insert_subset)
  qed
  then have ws: "length ws = 256 * 1" "\<forall>k<256 * 1. rd16 v (0xC0800000 + 2 * of_nat k) = Some (ws ! k)" by (auto simp: ws_def)
  obtain c1 v' c2 where r: "ata_write (channel_io 0x1F0) sample_disks sample_block_device 0xC0800000 7 1 v sample_channel = Some c1"
    "ata_read (channel_io 0x1F0) sample_disks sample_block_device 0xC0800200 7 1 (v, c1) = Some (v', c2)"
    "\<forall>k<256 * 1. rd16 v' (0xC0800200 + 2 * of_nat k) = Some (ws ! k)"
    using ata_write_read[OF v(1) sample_disk_facts(1-3) disjI2[OF sample_disk_facts(4)] _ _ _ ws _ _ b, of 7] unfolding sample_disk_facts(5) by auto
  have "rd16 v' 0xC0800202 = rd16 v 0xC0800002" using r(3)[rule_format, of 1] ws(2)[rule_format, of 1] by simp
  then show ?thesis using r(1,2) by blast
qed

theorem ata_read_256_sectors_witness:
  "\<forall>v. \<exists>c' ws. ata_read (channel_io 0x1F0) sample_disks sample_block_device 0xC0800000 0 256 (v, sample_channel) = Some (v, c')
    \<and> transfer c' = To_host ws \<and> length ws = 65536"
proof
  fix v
  show "\<exists>c' ws. ata_read (channel_io 0x1F0) sample_disks sample_block_device 0xC0800000 0 256 (v, sample_channel) = Some (v, c')
    \<and> transfer c' = To_host ws \<and> length ws = 65536"
    using ata_read_256_sectors[OF sample_disk_facts(1-3), of "0xC0800000" 0 v] unfolding sample_disk_facts(5) by simp
qed

theorem ata_init_drives_witness:
  "\<exists>st c'. ata_init (channel_io 0x1F0) 0x4000 0x5000 ata_start sample_channel = Some (st, c') \<and> root_device st = Some 0
    \<and> device_size (block_devices st ! 0) = 0x20002000"
proof -
  have c: "length (identity sample_channel False) = 256" "identity sample_channel True = []"
    and l: "latency sample_channel \<le> 5" and z: "identity sample_channel False ! 0 \<noteq> 0"
    by (simp_all add: sample_channel_def)
  have "replicate 255 (0x10 :: u16) ! k = 0x10" if "k < 255" for k using that by (rule nth_replicate)
  then have i: "identity sample_channel False ! 0x3d = 0x10" "identity sample_channel False ! 0x3c = 0x10"
    by (simp_all add: sample_channel_def nth_Cons')
  obtain st c' where st: "ata_init (channel_io 0x1F0) 0x4000 0x5000 ata_start sample_channel = Some (st, c')" "root_device st = Some 0"
    "unat (device_size (block_devices st ! 0)) = 512 * (2 ^ 16 * unat (0x10 :: u16) + unat (0x10 :: u16)) mod 2 ^ 32"
    using ata_init_drives[OF c, of "0x4000" "0x5000"] unfolding if_P[OF l] if_P[OF z] i by blast
  from st(3) have "device_size (block_devices st ! 0) = 0x20002000" by (simp add: word_unat_eq_iff)
  with st(1,2) show ?thesis by blast
qed

end
