(* ===== verification/Initrd.thy ===== *)
theory Initrd
  imports HeapBlocks
begin

text \<open>
  The initial ramdisk, \<^verbatim>\<open>src/kernel/fs/initrd.c\<close>, and the structures of
  \<^verbatim>\<open>src/include/fs/vfs.h\<close> it fills. A structure is its bytes in paged memory: a field is an
  offset from the address of the structure, as the i386 compiler lays it out. The ramdisk is a
  memory image, a count, that many inodes of 28 bytes, then the contents of the files.
\<close>

section \<open>Definitions\<close>

subsection \<open>Structures\<close>

datatype fs_node_field =
  node_name | permissions | uid | gid | node_flags | node_inode | node_size | node_fs_specific | node_fs | node_ptr

primrec fs_node_offset :: "fs_node_field \<Rightarrow> u32" where
  "fs_node_offset node_name = 0"
| "fs_node_offset permissions = 128"
| "fs_node_offset uid = 132"
| "fs_node_offset gid = 136"
| "fs_node_offset node_flags = 140"
| "fs_node_offset node_inode = 144"
| "fs_node_offset node_size = 148"
| "fs_node_offset node_fs_specific = 152"
| "fs_node_offset node_fs = 156"
| "fs_node_offset node_ptr = 160"

definition sizeof_fs_node :: u32 where "sizeof_fs_node = 164"

datatype file_system_field =
  fs_name | fs_device | fs_specific | partition_begin_offset | partition_end_offset | fs_read | fs_write | fs_open | fs_close | fs_readdir

primrec file_system_offset :: "file_system_field \<Rightarrow> u32" where
  "file_system_offset fs_name = 0"
| "file_system_offset fs_device = 20"
| "file_system_offset fs_specific = 24"
| "file_system_offset partition_begin_offset = 28"
| "file_system_offset partition_end_offset = 32"
| "file_system_offset fs_read = 36"
| "file_system_offset fs_write = 40"
| "file_system_offset fs_open = 44"
| "file_system_offset fs_close = 48"
| "file_system_offset fs_readdir = 52"

datatype initrd_inode_field = offset_from_start | inode_size | inode_name

primrec initrd_inode_offset :: "initrd_inode_field \<Rightarrow> u32" where
  "initrd_inode_offset offset_from_start = 0"
| "initrd_inode_offset inode_size = 4"
| "initrd_inode_offset inode_name = 8"

definition sizeof_initrd_inode :: u32 where "sizeof_initrd_inode = 28"

subsection \<open>Operations\<close>

partial_function (option) initrd_search_loop :: "vm \<Rightarrow> u32 \<Rightarrow> u32 \<Rightarrow> u32 \<Rightarrow> u32 \<Rightarrow> u32 option" where
  "initrd_search_loop v inode_table_start number_of_inodes name i =
     (if i < number_of_inodes then do {
        r \<leftarrow> paged_strcmp v (inode_table_start + i * sizeof_initrd_inode + initrd_inode_offset inode_name) name;
        if r = 0 then Some (inode_table_start + i * sizeof_initrd_inode)
        else initrd_search_loop v inode_table_start number_of_inodes name (i + 1)
      } else Some 0)"

definition initrd_search_inode_table :: "vm \<Rightarrow> u32 \<Rightarrow> u32 \<Rightarrow> u32 \<Rightarrow> u32 option" where
  "initrd_search_inode_table v inode_table_start number_of_inodes name =
     initrd_search_loop v inode_table_start number_of_inodes name 0"

definition initrd_open ::
  "linker_symbols \<Rightarrow> (nat \<Rightarrow> int) \<Rightarrow> kernel_mm \<Rightarrow> u32 \<Rightarrow> u32 \<Rightarrow> (u32 \<times> kernel_mm) option" where
  "initrd_open ls junk st fs path =
     (if fs = 0 \<or> path = 0 then Some (0, st)
      else do {
        c \<leftarrow> rd8 (vmem st) path;
        initrd_start_addr \<leftarrow> vread (vmem st) (fs + file_system_offset partition_begin_offset);
        number_of_inodes \<leftarrow> vread (vmem st) initrd_start_addr;
        requested_inode \<leftarrow> initrd_search_inode_table (vmem st) (initrd_start_addr + 4) number_of_inodes
                             (if c = 0x2F then path + 1 else path);
        if requested_inode = 0 then Some (0, st)
        else do {
          (fs_node, st1) \<leftarrow> kmalloc ls junk st sizeof_fs_node;
          if fs_node = 0 then Some (0, st1)
          else do {
            l \<leftarrow> paged_strlen (vmem st1) (requested_inode + initrd_inode_offset inode_name);
            v1 \<leftarrow> paged_memcpy (vmem st1) (fs_node + fs_node_offset node_name)
                    (requested_inode + initrd_inode_offset inode_name) (l + 1);
            n \<leftarrow> vread v1 initrd_start_addr;
            offset \<leftarrow> vread v1 (requested_inode + initrd_inode_offset offset_from_start);
            v2 \<leftarrow> vwrite v1 (fs_node + fs_node_offset node_fs_specific)
                    (initrd_start_addr + 4 + n * sizeof_initrd_inode + offset);
            sz \<leftarrow> vread v2 (requested_inode + initrd_inode_offset inode_size);
            v3 \<leftarrow> vwrite v2 (fs_node + fs_node_offset node_size) sz;
            v4 \<leftarrow> vwrite v3 (fs_node + fs_node_offset node_fs) fs;
            Some (fs_node, st1\<lparr>vmem := v4\<rparr>)
          }
        }
      })"

definition initrd_close :: "linker_symbols \<Rightarrow> vm \<Rightarrow> u32 \<Rightarrow> vm option" where
  "initrd_close ls v node = (if node \<noteq> 0 then kfree ls v node else Some v)"

text \<open>All quantities are unsigned: \<open>offset < 0\<close> never holds, and the sum wraps at 32 bits.\<close>

definition initrd_read :: "vm \<Rightarrow> u32 \<Rightarrow> u32 \<Rightarrow> u32 \<Rightarrow> u32 \<Rightarrow> (u32 \<times> vm) option" where
  "initrd_read v node offset len buffer =
     (if node = 0 \<or> len \<le> 0 \<or> buffer = 0 then Some (0, v)
      else do {
        sz \<leftarrow> vread v (node + fs_node_offset node_size);
        if sz < offset + len then Some (0, v)
        else do {
          file_address \<leftarrow> vread v (node + fs_node_offset node_fs_specific);
          v1 \<leftarrow> paged_memcpy v buffer (file_address + offset) len;
          Some (len, v1)
        }
      })"

section \<open>Reading\<close>

context kernel_words
begin

lemma initrd_read_copies:
  assumes w: "good W v" and node: "node \<noteq> 0" "buffer \<noteq> 0" "0 < len"
    and f: "vread v (node + fs_node_offset node_size) = Some sz" "vread v (node + fs_node_offset node_fs_specific) = Some file"
    and range: "offset + len \<le> sz"
    and b: "span (file + offset) (unat len) \<subseteq> bytes_of W" "span buffer (unat len) \<subseteq> bytes_of W"
      "span (file + offset) (unat len) \<inter> span buffer (unat len) = {}"
  shows "\<exists>v'. initrd_read v node offset len buffer = Some (len, v') \<and> good W v'
    \<and> (\<forall>i<unat len. rd8 v' (buffer + of_nat i) = rd8 v (file + offset + of_nat i))
    \<and> (\<forall>c\<in>bytes_of W. c \<notin> span buffer (unat len) \<longrightarrow> rd8 v' c = rd8 v c)"
proof -
  obtain v' where "paged_memcpy v buffer (file + offset) len = Some v'" "good W v'"
    "\<And>i. i < unat len \<Longrightarrow> rd8 v' (buffer + of_nat i) = rd8 v (file + offset + of_nat i)"
    "\<And>c. c \<in> bytes_of W \<Longrightarrow> c \<notin> span buffer (unat len) \<Longrightarrow> rd8 v' c = rd8 v c"
    using paged_memcpy_copies[OF w b] by metis
  then show ?thesis using node f range by (intro exI[of _ v']) (auto simp: initrd_read_def not_less)
qed

end

text \<open>C19: \<open>initrd_read\<close> for every offset and length. Without a node or a buffer, with length 0, or
  when the sum of offset and length, taken modulo 2^32, exceeds the size, it returns 0 and changes
  nothing. Otherwise it returns the length, and the buffer holds the bytes from the file's address
  plus the offset on; nothing else changes. When the sum does not wrap these are bytes of the
  file. When it wraps, an offset close to 2^32 passes the test, and the read starts that much
  below 2^32 before the file.\<close>

theorem initrd_read_correct:
  assumes w: "data_window W v"
    and f: "vread v (node + fs_node_offset node_size) = Some sz" "vread v (node + fs_node_offset node_fs_specific) = Some file"
  shows "if node = 0 \<or> buffer = 0 \<or> len = 0 \<or> unat sz < (unat offset + unat len) mod 2 ^ 32
      then initrd_read v node offset len buffer = Some (0, v)
      else (span (file + offset) (unat len) \<subseteq> bytes_of W \<and> span buffer (unat len) \<subseteq> bytes_of W
            \<and> span (file + offset) (unat len) \<inter> span buffer (unat len) = {}
          \<longrightarrow> (\<exists>v'. initrd_read v node offset len buffer = Some (len, v') \<and> data_window W v'
            \<and> (\<forall>i<unat len. rd8 v' (buffer + of_nat i) = rd8 v (file + offset + of_nat i))
            \<and> (\<forall>c\<in>bytes_of W. c \<notin> span buffer (unat len) \<longrightarrow> rd8 v' c = rd8 v c)))
        \<and> (if unat offset + unat len < 2 ^ 32 then span (file + offset) (unat len) \<subseteq> span file (unat sz)
           else file + offset = file - of_nat (2 ^ 32 - unat offset) \<and> 2 ^ 32 - unat offset \<le> unat len)"
proof (cases "node = 0 \<or> buffer = 0 \<or> len = 0 \<or> unat sz < (unat offset + unat len) mod 2 ^ 32")
  case True
  then show ?thesis using f by (auto simp: initrd_read_def word_less_nat_alt unat_word_ariths)
next
  case False
  then have n: "node \<noteq> 0" "buffer \<noteq> 0" "0 < len" and le: "offset + len \<le> sz"
    by (auto simp: word_le_nat_alt word_neq_0_conv unat_word_ariths)
  have "of_nat (2 ^ 32 - unat offset) = - offset"
    using unsigned_less[of offset, where ?'a = nat] by (simp add: of_nat_diff)
  then have "file + offset = file - of_nat (2 ^ 32 - unat offset)" by simp
  moreover have "span (file + offset) (unat len) \<subseteq> span file (unat sz)" if "unat offset + unat len < 2 ^ 32"
    using False that by (intro span_inside) simp
  moreover note window.initrd_read_copies[OF w n f le]
  ultimately show ?thesis using False by auto
qed

section \<open>The image\<close>

text \<open>A file of the image: its name, its offset and its size.\<close>

type_synonym initrd_file = "byte list \<times> u32 \<times> u32"

definition inode_at :: "vm \<Rightarrow> u32 \<Rightarrow> initrd_file \<Rightarrow> bool" where
  "inode_at v a f \<longleftrightarrow> length (fst f) < 20 \<and> paged_cstr v (a + initrd_inode_offset inode_name) (fst f)
     \<and> vread v (a + initrd_inode_offset offset_from_start) = Some (fst (snd f))
     \<and> vread v (a + initrd_inode_offset inode_size) = Some (snd (snd f))"

definition initrd_image :: "vm \<Rightarrow> u32 \<Rightarrow> initrd_file list \<Rightarrow> bool" where
  "initrd_image v start files \<longleftrightarrow> 4 + 28 * length files < 2 ^ 32 \<and> vread v start = Some (of_nat (length files))
     \<and> (\<forall>i<length files. inode_at v (start + 4 + of_nat i * sizeof_initrd_inode) (files ! i))"

lemma initrd_imageD:
  assumes "initrd_image v start files"
  shows "vread v start = Some (of_nat (length files))" "4 + 28 * length files < 2 ^ 32"
    "\<And>i. i < length files \<Longrightarrow> inode_at v (start + 4 + of_nat i * sizeof_initrd_inode) (files ! i)"
  using assms by (auto simp: initrd_image_def)

lemma initrd_search_step:
  assumes im: "initrd_image v start files" and name: "paged_cstr v name xs" and i: "i < length files"
  shows "initrd_search_loop v (start + 4) (of_nat (length files)) name (of_nat i) =
    (if fst (files ! i) = xs then Some (start + 4 + of_nat i * sizeof_initrd_inode)
     else initrd_search_loop v (start + 4) (of_nat (length files)) name (of_nat (Suc i)))"
proof -
  have "(of_nat i :: u32) < of_nat (length files)" using i initrd_imageD(2)[OF im] by (simp add: word_less_nat_alt unat_of_nat)
  moreover obtain r where "paged_strcmp v (start + 4 + of_nat i * sizeof_initrd_inode + initrd_inode_offset inode_name) name = Some r"
    "r = 0 \<longleftrightarrow> fst (files ! i) = xs"
    using paged_strcmp_zero_iff[OF _ name] initrd_imageD(3)[OF im i] unfolding inode_at_def by blast
  ultimately show ?thesis by (subst initrd_search_loop.simps) (simp add: add.commute)
qed

lemma initrd_search_skip:
  assumes im: "initrd_image v start files" and name: "paged_cstr v name xs"
    and "i \<le> length files" "\<And>j. j < i \<Longrightarrow> fst (files ! j) \<noteq> xs"
  shows "initrd_search_inode_table v (start + 4) (of_nat (length files)) name
    = initrd_search_loop v (start + 4) (of_nat (length files)) name (of_nat i)"
  using assms(3,4)
proof (induction i)
  case (Suc i)
  then show ?case using initrd_search_step[OF im name, of i] by simp
qed (simp add: initrd_search_inode_table_def)

lemma initrd_search_found:
  assumes "initrd_image v start files" "paged_cstr v name xs" "i < length files" "fst (files ! i) = xs"
    and "\<And>j. j < i \<Longrightarrow> fst (files ! j) \<noteq> xs"
  shows "initrd_search_inode_table v (start + 4) (of_nat (length files)) name = Some (start + 4 + of_nat i * sizeof_initrd_inode)"
  using initrd_search_skip[OF assms(1,2), of i] initrd_search_step[OF assms(1-3)] assms(3-5) by simp

lemma initrd_search_absent:
  assumes "initrd_image v start files" "paged_cstr v name xs" "xs \<notin> fst ` set files"
  shows "initrd_search_inode_table v (start + 4) (of_nat (length files)) name = Some 0"
proof -
  have "fst (files ! j) \<noteq> xs" if "j < length files" for j using assms(3) that by force
  then have "initrd_search_inode_table v (start + 4) (of_nat (length files)) name
    = initrd_search_loop v (start + 4) (of_nat (length files)) name (of_nat (length files))"
    using initrd_search_skip[OF assms(1,2), of "length files"] by simp
  then show ?thesis by (subst (asm) initrd_search_loop.simps) simp
qed

section \<open>Opening\<close>

text \<open>What \<open>initrd_open\<close> leaves in the node it returns.\<close>

definition initrd_node :: "vm \<Rightarrow> u32 \<Rightarrow> u32 \<Rightarrow> u32 \<Rightarrow> nat \<Rightarrow> initrd_file \<Rightarrow> bool" where
  "initrd_node v p fs start n f \<longleftrightarrow> paged_cstr v (p + fs_node_offset node_name) (fst f)
     \<and> vread v (p + fs_node_offset node_fs_specific) = Some (start + 4 + of_nat n * sizeof_initrd_inode + fst (snd f))
     \<and> vread v (p + fs_node_offset node_size) = Some (snd (snd f)) \<and> vread v (p + fs_node_offset node_fs) = Some fs"

lemma image_words:
  assumes "word_of start = start" "span start (4 + 28 * k) \<subseteq> bytes_of K" "4 + 28 * k < 2 ^ 32" "i < k"
  shows "start \<in> K" "start + 4 + of_nat i * sizeof_initrd_inode \<in> K" "start + 4 + of_nat i * sizeof_initrd_inode + 4 \<in> K"
    "span (start + 4 + of_nat i * sizeof_initrd_inode + 8) 20 \<subseteq> bytes_of K"
proof -
  let ?q = "start + 4 + of_nat i * sizeof_initrd_inode"
  have q: "?q = start + 4 * of_nat (1 + 7 * i)" "?q + 4 = start + 4 * of_nat (2 + 7 * i)"
    by (simp_all add: sizeof_initrd_inode_def)
  have i: "unat (4 * of_nat (1 + 7 * i) :: u32) = 4 + 28 * i" "unat (4 * of_nat (2 + 7 * i) :: u32) = 8 + 28 * i"
    "unat (4 * of_nat (3 + 7 * i) :: u32) = 12 + 28 * i"
    using assms(3,4) by (simp_all add: unat_word_ariths unat_of_nat)
  have mem: "start + 4 * of_nat j \<in> K" if "unat (4 * of_nat j :: u32) < 4 + 28 * k" for j
  proof -
    have "start + 4 * of_nat j \<in> bytes_of K" using that assms(2) by (auto simp del: bytes_of_iff)
    then show ?thesis using word_of_step[OF assms(1), of j] by simp
  qed
  show "start \<in> K" using mem[of 0] by simp
  show "?q \<in> K" "?q + 4 \<in> K" using mem[of "1 + 7 * i"] mem[of "2 + 7 * i"] i assms(4) unfolding q by (simp_all add: add.left_commute)
  have "?q + 8 = start + 4 * of_nat (3 + 7 * i)" by (simp add: sizeof_initrd_inode_def)
  then have "span (?q + 8) 20 \<subseteq> span start (4 + 28 * k)" using i(3) assms(4) by (simp only:) (rule span_inside, simp)
  then show "span (?q + 8) 20 \<subseteq> bytes_of K" using assms(2) by blast
qed

lemma inode_at_cong:
  assumes "\<And>w. w \<in> K \<Longrightarrow> vread v' w = vread v w" "q \<in> K" "q + 4 \<in> K" "span (q + 8) 20 \<subseteq> bytes_of K" "inode_at v q f"
  shows "inode_at v' q f"
proof -
  have "rd8 v' (q + 8 + of_nat i) = rd8 v (q + 8 + of_nat i)" if "i \<le> length (fst f)" for i
  proof (intro rd8_kept assms(1))
    have "q + 8 + of_nat i \<in> span (q + 8) 20" using that assms(5) by (simp add: inode_at_def unat_of_nat)
    then have "q + 8 + of_nat i \<in> bytes_of K" using assms(4) by blast
    then show "word_of (q + 8 + of_nat i) \<in> K" by simp
  qed
  then have "paged_cstr v' (q + 8) (fst f) = paged_cstr v (q + 8) (fst f)" by (rule paged_cstr_cong)
  then show ?thesis using assms(1)[OF assms(2)] assms(1)[OF assms(3)] assms(5) by (simp add: inode_at_def)
qed

text \<open>Filling the node, in the order of the code.\<close>

lemma fill_node:
  assumes sound: "heap_sound ls (st\<lparr>vmem := v\<rparr>) W" and p: "word_of p = p" "words_from p 40 \<subseteq> W"
    and K: "K \<subseteq> W - words_from p 40" "\<forall>w\<in>K. word_of w = w"
    and inode: "inode_at v q f" "q \<in> K" "q + 4 \<in> K" "span (q + 8) 20 \<subseteq> bytes_of K"
  obtains v1 v2 v3 v4 where "paged_memcpy v (p + fs_node_offset node_name) (q + initrd_inode_offset inode_name) (of_nat (length (fst f)) + 1) = Some v1"
    "\<forall>w\<in>K. vread v1 w = vread v w"
    "vwrite v1 (p + fs_node_offset node_fs_specific) x = Some v2" "vread v2 (q + 4) = vread v (q + 4)"
    "vwrite v2 (p + fs_node_offset node_size) y = Some v3" "vwrite v3 (p + fs_node_offset node_fs) z = Some v4"
    "heap_sound ls (st\<lparr>vmem := v4\<rparr>) W" "paged_cstr v4 (p + fs_node_offset node_name) (fst f)"
    "vread v4 (p + fs_node_offset node_fs_specific) = Some x" "vread v4 (p + fs_node_offset node_size) = Some y"
    "vread v4 (p + fs_node_offset node_fs) = Some z" "\<forall>w\<in>W. word_of w = w \<longrightarrow> w \<notin> words_from p 40 \<longrightarrow> vread v4 w = vread v w"
proof -
  let ?l = "of_nat (length (fst f)) + 1 :: u32"
  have l: "unat ?l = length (fst f) + 1" "length (fst f) < 20" using inode(1) by (simp_all add: inode_at_def unat_word_ariths unat_of_nat)
  have fields: "p + 148 \<in> words_from p 40" "p + 152 \<in> words_from p 40" "p + 156 \<in> words_from p 40"
    using words_from_iff[of 37 40 p] words_from_iff[of 38 40 p] words_from_iff[of 39 40 p] by simp_all
  have "span (q + 8) (unat ?l) \<subseteq> span (q + 8) 20" using l by (intro span_mono) simp
  then have src: "span (q + 8) (unat ?l) \<subseteq> bytes_of (W - words_from p 40)" using inode(4) K(1) by fastforce
  have "unat ?l \<le> 4 * 40" using l by simp
  then obtain v1 where v1: "paged_memcpy v p (q + 8) ?l = Some v1" "heap_sound ls (st\<lparr>vmem := v1\<rparr>) W"
    "\<And>i. i < unat ?l \<Longrightarrow> rd8 v1 (p + of_nat i) = rd8 v (q + 8 + of_nat i)"
    "\<And>w. w \<in> W \<Longrightarrow> word_of w = w \<Longrightarrow> w \<notin> words_from p 40 \<Longrightarrow> vread v1 w = vread v w"
    using heap.paged_memcpy_into[OF sound p(1) _ p(2) src] by metis
  obtain v2 where v2: "vwrite v1 (p + 152) x = Some v2" "heap_sound ls (st\<lparr>vmem := v2\<rparr>) W" "vread v2 (p + 152) = Some x"
    "\<And>w. w \<in> W \<Longrightarrow> w \<noteq> p + 152 \<Longrightarrow> vread v2 w = vread v1 w" using heap.wr_word[OF v1(2)] fields(2) p(2) by blast
  obtain v3 where v3: "vwrite v2 (p + 148) y = Some v3" "heap_sound ls (st\<lparr>vmem := v3\<rparr>) W" "vread v3 (p + 148) = Some y"
    "\<And>w. w \<in> W \<Longrightarrow> w \<noteq> p + 148 \<Longrightarrow> vread v3 w = vread v2 w" using heap.wr_word[OF v2(2)] fields(1) p(2) by blast
  obtain v4 where v4: "vwrite v3 (p + 156) z = Some v4" "heap_sound ls (st\<lparr>vmem := v4\<rparr>) W" "vread v4 (p + 156) = Some z"
    "\<And>w. w \<in> W \<Longrightarrow> w \<noteq> p + 156 \<Longrightarrow> vread v4 w = vread v3 w" using heap.wr_word[OF v3(2)] fields(3) p(2) by blast
  have W: "p + 148 \<in> W" "p + 152 \<in> W" "p + 156 \<in> W" using fields p(2) by blast+
  have keep: "vread v4 w = vread v1 w" if "w \<in> W" "w \<notin> {p + 148, p + 152, p + 156}" for w using that v2(4) v3(4) v4(4) by simp
  have name: "rd8 v4 (p + of_nat i) = rd8 v (q + 8 + of_nat i)" if "i \<le> length (fst f)" for i
  proof -
    have "p + of_nat i \<in> span p (4 * 5)" using that l by (simp add: unat_of_nat)
    then have "word_of (p + of_nat i) \<in> words_from p 5" by (rule word_of_in_words_from[OF p(1)])
    moreover have "words_from p 5 \<subseteq> words_from p 40" by (rule words_from_mono) simp
    moreover have "words_from p 5 \<inter> {p + 148, p + 152, p + 156} = {}"
      using words_from_iff[of 37 5 p] words_from_iff[of 38 5 p] words_from_iff[of 39 5 p] by simp
    ultimately have "rd8 v4 (p + of_nat i) = rd8 v1 (p + of_nat i)" using keep p(2) by (intro rd8_kept) blast
    then show ?thesis using v1(3) that l(1) by simp
  qed
  have "paged_cstr v (q + 8) (fst f)" using inode(1) by (simp add: inode_at_def)
  then have cstr: "paged_cstr v4 p (fst f)" using name by (simp add: paged_cstr_def)
  have keepK: "w \<in> W" "word_of w = w" "w \<notin> words_from p 40" if "w \<in> K" for w using that K by auto
  have q4: "vread v2 (q + 4) = vread v (q + 4)"
    using v2(4)[OF keepK(1)[OF inode(3)]] v1(4)[OF keepK[OF inode(3)]] keepK(3)[OF inode(3)] fields(2) by metis
  have "vread v4 w = vread v w" if "w \<in> W" "word_of w = w" "w \<notin> words_from p 40" for w
    using that keep[of w] v1(4)[of w] fields by auto
  then show thesis
  proof (intro that[of v1 v2 v3 v4] ballI impI)
  qed (use v1 v2 v3 v4 cstr q4 W keepK in simp_all)
qed

text \<open>The name a path asks for: one leading separator is skipped.\<close>

definition requested_name :: "byte list \<Rightarrow> byte list" where
  "requested_name cs = (if cs \<noteq> [] \<and> hd cs = 0x2F then tl cs else cs)"

lemma requested_name_at:
  assumes "paged_cstr v path cs"
  shows "\<exists>c. rd8 v path = Some c \<and> paged_cstr v (if c = 0x2F then path + 1 else path) (requested_name cs)"
  using assms by (cases cs) (auto simp: requested_name_def)

lemma initrd_open_missing:
  assumes "initrd_image (vmem st) start files" "vread (vmem st) (fs + file_system_offset partition_begin_offset) = Some start"
    and "paged_cstr (vmem st) path cs" "requested_name cs \<notin> fst ` set files"
  shows "initrd_open ls junk st fs path = Some (0, st)"
proof -
  obtain c where "rd8 (vmem st) path = Some c" "paged_cstr (vmem st) (if c = 0x2F then path + 1 else path) (requested_name cs)"
    using requested_name_at[OF assms(3)] by blast
  then show ?thesis using initrd_search_absent[OF assms(1) _ assms(4)] initrd_imageD(1)[OF assms(1)] assms(2)
    by (simp add: initrd_open_def)
qed

lemma initrd_open_found:
  assumes room: "heap_room ls st W xs b n ys 21 40" and im: "initrd_image (vmem st) start files" "word_of start = start"
    and fs: "fs \<noteq> 0" "vread (vmem st) (fs + file_system_offset partition_begin_offset) = Some start"
    and path: "path \<noteq> 0" "paged_cstr (vmem st) path cs"
    and i: "i < length files" "fst (files ! i) = requested_name cs" "\<And>j. j < i \<Longrightarrow> fst (files ! j) \<noteq> requested_name cs"
      "start + 4 + of_nat i * sizeof_initrd_inode \<noteq> 0"
    and K: "K \<subseteq> W - (heap_writes b n 21 \<union> words_from (b + 8 * (n - 21)) 40)" "\<forall>w\<in>K. word_of w = w"
      "span start (4 + 28 * length files) \<subseteq> bytes_of K"
  defines "p \<equiv> b + 8 * (n - 21)"
  shows "\<exists>v'. initrd_open ls junk st fs path = Some (p, st\<lparr>vmem := v'\<rparr>) \<and> heap_sound ls (st\<lparr>vmem := v'\<rparr>) W
    \<and> free_list_at ls v' (xs @ (b, n - 21) # ys) \<and> initrd_node v' p fs start (length files) (files ! i)
    \<and> (\<forall>w\<in>K. vread v' w = vread (vmem st) w)"
proof -
  let ?q = "start + 4 + of_nat i * sizeof_initrd_inode" and ?f = "files ! i" and ?N = "words_from p 40"
  note d = initrd_imageD[OF im(1)]
  note q = image_words[OF im(2) K(3) d(2) i(1)]
  have rm: "?N \<subseteq> W - heap_writes b n 21" "p \<noteq> 0" "word_of p = p" using heap_roomD[OF room] by (simp_all add: p_def)
  obtain v0 where v0: "kmalloc ls junk st sizeof_fs_node = Some (p, st\<lparr>vmem := v0\<rparr>)" "heap_sound ls (st\<lparr>vmem := v0\<rparr>) W"
    "free_list_at ls v0 (xs @ (b, n - 21) # ys)" "\<And>w. w \<in> W \<Longrightarrow> w \<notin> heap_writes b n 21 \<Longrightarrow> vread v0 w = vread (vmem st) w"
    using kmalloc_room[OF room, of sizeof_fs_node junk] unfolding p_def by (auto simp: sizeof_fs_node_def)
  have keep0: "vread v0 w = vread (vmem st) w" if "w \<in> K" for w using v0(4)[of w] K(1) that by blast
  have in0: "inode_at v0 ?q ?f" using inode_at_cong[OF keep0 q(2-4) d(3)[OF i(1)]] .
  have KN: "K \<subseteq> W - ?N" and NW: "?N \<subseteq> W" using K(1) rm(1) by (auto simp: p_def)
  let ?x = "start + 4 + of_nat (length files) * sizeof_initrd_inode + fst (snd ?f)"
  obtain v1 v2 v3 v4 where v: "paged_memcpy v0 (p + fs_node_offset node_name) (?q + initrd_inode_offset inode_name) (of_nat (length (fst ?f)) + 1) = Some v1"
    "\<forall>w\<in>K. vread v1 w = vread v0 w"
    "vwrite v1 (p + fs_node_offset node_fs_specific) ?x = Some v2" "vread v2 (?q + 4) = vread v0 (?q + 4)"
    "vwrite v2 (p + fs_node_offset node_size) (snd (snd ?f)) = Some v3" "vwrite v3 (p + fs_node_offset node_fs) fs = Some v4"
    "heap_sound ls (st\<lparr>vmem := v4\<rparr>) W" "paged_cstr v4 (p + fs_node_offset node_name) (fst ?f)"
    "vread v4 (p + fs_node_offset node_fs_specific) = Some ?x" "vread v4 (p + fs_node_offset node_size) = Some (snd (snd ?f))"
    "vread v4 (p + fs_node_offset node_fs) = Some fs" "\<forall>w\<in>W. word_of w = w \<longrightarrow> w \<notin> ?N \<longrightarrow> vread v4 w = vread v0 w"
    by (rule fill_node[OF v0(2) rm(3) NW KN K(2) in0 q(2-4), where x = ?x and y = "snd (snd ?f)" and z = fs]) (erule (11) that)
  obtain c where c: "rd8 (vmem st) path = Some c" "paged_cstr (vmem st) (if c = 0x2F then path + 1 else path) (requested_name cs)"
    using requested_name_at[OF path(2)] by blast
  have reads: "vread v1 start = Some (of_nat (length files))" "vread v1 ?q = Some (fst (snd ?f))" "vread v2 (?q + 4) = Some (snd (snd ?f))"
    "paged_strlen v0 (?q + 8) = Some (of_nat (length (fst ?f)))"
    using bspec[OF v(2) q(1)] bspec[OF v(2) q(2)] v(4) keep0[OF q(1)] in0 d(1) by (simp_all add: inode_at_def paged_strlen_cstr)
  have "initrd_open ls junk st fs path = Some (p, st\<lparr>vmem := v4\<rparr>)"
    using c fs path(1) d(1) initrd_search_found[OF im(1) c(2) i(1-3)] i(4) v0(1) rm(2) v(1,3,5,6) reads
    by (simp add: initrd_open_def)
  moreover have "free_list_at ls v4 (xs @ (b, n - 21) # ys)"
  proof -
    have "vread v4 w = vread v0 w" if "w \<in> set (blocks_info ls # cells 0 4 (xs @ (b, n - 21) # ys))" for w
      using bspec[OF v(12), of w] heap_roomD(4)[OF room, of w] that by (simp add: p_def)
    then show ?thesis using v0(3) linked_cong[of "blocks_info ls" 0 4 "xs @ (b, n - 21) # ys" "vread v4" "vread v0"] by blast
  qed
  moreover have "\<forall>w\<in>K. vread v4 w = vread (vmem st) w" using v(12) keep0 KN K(2) by fastforce
  ultimately show ?thesis using v(7-11) by (intro exI[of _ v4]) (simp add: initrd_node_def)
qed

section \<open>A disk with one file\<close>

text \<open>For concrete instances: in the first page of the heap, behind one free block, a ramdisk with
  the file \<open>a\<close> of four bytes at 0xC0800400, its \<open>file_system_t\<close> at 0xC0800300 and the root
  mount point at 0xC0800140; the path \<open>/a\<close> at 0xC0800500, the mode \<open>r\<close> at 0xC0800510,
  \<open>rb+\<close> at 0xC0800520 and the mode strings from 0xC0800600 on; at 0xC0800800 the node of the open file and at
  0xC0800900 the file.\<close>

definition disk_words :: "(u32 \<times> u32) list" where
  "disk_words = [(0xC0120000, 0xC0800000), (0xC0800000, 0), (0xC0800004, 511),
     (0xC080026C, 0xC0800300), (0xC0800270, 0), (0xC0800274, 0),
     (0xC080031C, 0xC0800400), (0xC0800324, 0x1000), (0xC080032C, 0x2000), (0xC0800330, 0x3000),
     (0xC0800400, 1), (0xC0800404, 0), (0xC0800408, 4), (0xC080040C, 0x61), (0xC0800420, 0x464C457F),
     (0xC0800500, 0x612F), (0xC0800504, 0x2F), (0xC0800510, 0x72), (0xC0800520, 0x2B6272),
     (0xC0800600, 0x62720072), (0xC0800604, 0x77007700), (0xC0800608, 0x610062), (0xC080060C, 0x72006261), (0xC0800610, 0x6272002B),
     (0xC0800614, 0x2B72002B), (0xC0800618, 0x2B770062), (0xC080061C, 0x2B627700), (0xC0800620, 0x622B7700), (0xC0800624, 0x2B6100),
     (0xC0800628, 0x2B6261), (0xC080062C, 0x622B61),
     (0xC0800894, 4), (0xC0800898, 0xC0800420), (0xC080089C, 0xC0800300),
     (0xC0800904, 0), (0xC0800908, 0xC0800800)]"

lemma disk_words_in: "fst ` set disk_words \<subseteq> first_heap_page" "distinct (map fst disk_words)"
proof -
  have "x \<in> first_heap_page" if "x \<in> fst ` set disk_words" for x
    using that unfolding disk_words_def by (auto simp del: One_nat_def intro!: page_word simp: word_of_def)
  then show "fst ` set disk_words \<subseteq> first_heap_page" by blast
  show "distinct (map fst disk_words)" by (simp add: disk_words_def)
qed

lemma sample_disk:
  obtains st where "heap_sound example_linker st first_heap_page" "free_list_at example_linker (vmem st) [(0xC0800000, 511)]"
    "\<forall>(a, x)\<in>set disk_words. vread (vmem st) a = Some x"
proof (rule grown_heap)
  fix st assume "heap_sound example_linker st first_heap_page"
  then have s: "heap_sound example_linker (st\<lparr>vmem := vmem st\<rparr>) first_heap_page" by simp
  obtain v where v: "heap_sound example_linker (st\<lparr>vmem := v\<rparr>) first_heap_page" "\<forall>(a, x)\<in>set disk_words. vread v a = Some x"
    using heap.write_all[OF s disk_words_in(2,1)] by blast
  have "free_list_at example_linker v [(0xC0800000, 511)]"
    using v(2) by (simp add: linked_def booted_head_cell disk_words_def)
  with v that[of "st\<lparr>vmem := v\<rparr>"] show thesis by simp
qed

text \<open>Single bytes of the sample.\<close>

lemma rd8_word_at: "vread v w = Some x \<Longrightarrow> word_of a = w \<Longrightarrow> rd8 v a = Some (get_byte x (byte_index a))"
  by (simp add: rd8_def)

lemma disk_bytes:
  assumes "\<forall>(a, x)\<in>set disk_words. vread v a = Some x"
  shows "paged_cstr v 0xC0800500 [0x2F, 0x61]" "paged_cstr v 0xC0800504 [0x2F]" "paged_cstr v 0xC0800510 [0x72]"
    "initrd_image v 0xC0800400 [([0x61], 0, 4)]"
    "rd8 v 0xC0800420 = Some 0x7F" "rd8 v 0xC0800421 = Some 0x45" "rd8 v 0xC0800422 = Some 0x4C" "rd8 v 0xC0800423 = Some 0x46"
proof -
  have w: "vread v 0xC0800500 = Some 0x612F" "vread v 0xC0800504 = Some 0x2F" "vread v 0xC0800510 = Some 0x72" "vread v 0xC080040C = Some 0x61"
    "vread v 0xC0800420 = Some 0x464C457F" "vread v 0xC0800400 = Some 1" "vread v 0xC0800404 = Some 0" "vread v 0xC0800408 = Some 4"
    using assms by (simp_all add: disk_words_def)
  show "paged_cstr v 0xC0800500 [0x2F, 0x61]" "paged_cstr v 0xC0800504 [0x2F]" "paged_cstr v 0xC0800510 [0x72]"
    using w(1-3) by (simp_all add: rd8_def word_of_def byte_index_def get_byte_def drop_bit_eq_div)
  show "rd8 v 0xC0800420 = Some 0x7F" "rd8 v 0xC0800421 = Some 0x45" "rd8 v 0xC0800422 = Some 0x4C" "rd8 v 0xC0800423 = Some 0x46"
    using w(5) by (simp_all add: rd8_def word_of_def byte_index_def get_byte_def drop_bit_eq_div)
  show "initrd_image v 0xC0800400 [([0x61], 0, 4)]"
    using w(4,6-8) by (simp add: initrd_image_def inode_at_def rd8_def word_of_def byte_index_def get_byte_def drop_bit_eq_div)
qed

theorem initrd_read_correct_witness:
  "\<exists>v v'. data_window first_heap_page v \<and> vread v (0xC0800800 + fs_node_offset node_size) = Some 4
    \<and> initrd_read v 0xC0800800 1 3 0xC0800700 = Some (3, v')
    \<and> rd8 v' 0xC0800700 = Some 0x45 \<and> initrd_read v 0xC0800800 2 3 0xC0800700 = Some (0, v)"
proof (rule sample_disk)
  fix st assume st: "heap_sound example_linker st first_heap_page" "\<forall>(a, x)\<in>set disk_words. vread (vmem st) a = Some x"
  let ?v = "vmem st"
  have w: "data_window first_heap_page ?v" by (rule heap_soundD(2)[OF st(1)])
  have f: "vread ?v (0xC0800800 + fs_node_offset node_size) = Some 4" "vread ?v (0xC0800800 + fs_node_offset node_fs_specific) = Some 0xC0800420"
    using st(2) by (simp_all add: disk_words_def)
  have "span 0xC0800420 4 \<subseteq> bytes_of (words_between 0xC0800000 0xC0800700)" "span 0xC0800700 3 \<subseteq> bytes_of (words_between 0xC0800700 0xC0801000)"
    by (intro span_between; simp add: word_of_def)+
  moreover have "words_between 0xC0800000 0xC0800700 \<inter> words_between 0xC0800700 0xC0801000 = {}" by (rule words_between_apart) simp
  moreover have "words_between 0xC0800000 0xC0800700 \<subseteq> first_heap_page" "words_between 0xC0800700 0xC0801000 \<subseteq> first_heap_page"
    by (rule order.trans[OF words_between_mono words_between_page]; simp)+
  ultimately have s: "span 0xC0800420 4 \<subseteq> bytes_of first_heap_page" "span 0xC0800700 3 \<subseteq> bytes_of first_heap_page" "span 0xC0800420 4 \<inter> span 0xC0800700 3 = {}"
    unfolding bytes_of_def by blast+
  have "span (0xC0800420 + 1) 3 \<subseteq> span 0xC0800420 4" using span_inside[of 1 3 4 "0xC0800420"] by simp
  moreover have u: "unat (3 :: u32) = 3" by simp
  ultimately have s1: "span (0xC0800420 + 1) (unat (3 :: u32)) \<subseteq> bytes_of first_heap_page" "span (0xC0800420 + 1) (unat (3 :: u32)) \<inter> span 0xC0800700 (unat (3 :: u32)) = {}"
    "span 0xC0800700 (unat (3 :: u32)) \<subseteq> bytes_of first_heap_page" using s unfolding u by blast+
  have c: "\<not> ((0xC0800800 :: u32) = 0 \<or> (0xC0800700 :: u32) = 0 \<or> (3 :: u32) = 0 \<or> unat (4 :: u32) < (unat (1 :: u32) + unat (3 :: u32)) mod 2 ^ 32)" by simp
  have "\<exists>v'. initrd_read ?v 0xC0800800 1 3 0xC0800700 = Some (3, v') \<and> rd8 v' (0xC0800700 + of_nat 0) = rd8 ?v (0xC0800420 + 1 + of_nat 0)"
    using initrd_read_correct[OF w f, of "0xC0800700" 3 1] s1 unfolding if_not_P[OF c] by fastforce
  then obtain v' where "initrd_read ?v 0xC0800800 1 3 0xC0800700 = Some (3, v')" "rd8 v' 0xC0800700 = rd8 ?v 0xC0800421" by auto
  moreover have "initrd_read ?v 0xC0800800 2 3 0xC0800700 = Some (0, ?v)" using initrd_read_correct[OF w f, of "0xC0800700" 3 2] by simp
  ultimately show ?thesis using w f(1) disk_bytes(6)[OF st(2)] by (intro exI[of _ ?v] exI[of _ v']) simp
qed

end
