(* ===== verification/ListDS.thy ===== *)
theory ListDS
  imports KMalloc
begin

text \<open>
  The linked list of \<^verbatim>\<open>src/kernel/data_structures/list.c\<close>. A \<open>node_t\<close> has its element
  at offset 0 and its link at offset 4, a \<open>list_t\<close> its head at offset 0 and the iterator at
  offset 4; both are words of paged memory, and nodes come from \<open>kmalloc\<close>. Walks are partial
  functions. \<open>initialize_list\<close> and \<open>free_list\<close> end without a \<open>return\<close>: the value a
  caller of the first sees is a parameter, no caller looks at the second.
\<close>

section \<open>Definitions\<close>

definition initialize_list :: "bool \<Rightarrow> vm \<Rightarrow> u32 \<Rightarrow> (bool \<times> vm) option" where
  "initialize_list left_over v list_head =
     (if list_head = 0 then Some (False, v)
      else do {
        v1 \<leftarrow> vwrite v list_head 0;
        head \<leftarrow> vread v1 list_head;
        v2 \<leftarrow> vwrite v1 (list_head + 4) head;
        Some (left_over, v2)
      })"

partial_function (option) list_end :: "vm \<Rightarrow> u32 \<Rightarrow> u32 option" where
  "list_end v node = do {
     n \<leftarrow> vread v node;
     if n \<noteq> 0 then list_end v (n + 4) else Some node
   }"

definition add_element ::
  "linker_symbols \<Rightarrow> (nat \<Rightarrow> int) \<Rightarrow> kernel_mm \<Rightarrow> u32 \<Rightarrow> u32 \<Rightarrow> (bool \<times> kernel_mm) option" where
  "add_element ls junk st list_head element =
     (if list_head = 0 then Some (False, st)
      else do {
        node \<leftarrow> list_end (vmem st) list_head;
        (p, st1) \<leftarrow> kmalloc ls junk st 8;
        v1 \<leftarrow> vwrite (vmem st1) node p;
        n1 \<leftarrow> vread v1 node;
        v2 \<leftarrow> vwrite v1 (n1 + 4) 0;
        n2 \<leftarrow> vread v2 node;
        v3 \<leftarrow> vwrite v2 n2 element;
        v4 \<leftarrow> (if node = list_head
               then do { n3 \<leftarrow> vread v3 node; vwrite v3 (list_head + 4) n3 } else Some v3);
        Some (True, st1\<lparr>vmem := v4\<rparr>)
      })"

partial_function (option) pop_loop ::
  "linker_symbols \<Rightarrow> vm \<Rightarrow> u32 \<Rightarrow> u32 \<Rightarrow> u32 \<Rightarrow> int \<Rightarrow> (u32 \<times> vm) option" where
  "pop_loop ls v list_head node_ptr node element_index =
     (if node = 0 then Some (0, v)
      else if element_index = 0 then do {
        next_node \<leftarrow> vread v (node + 4);
        v1 \<leftarrow> vwrite v node_ptr next_node;
        element \<leftarrow> vread v1 node;
        v2 \<leftarrow> kfree ls v1 node;
        head \<leftarrow> vread v2 list_head;
        v3 \<leftarrow> vwrite v2 (list_head + 4) head;
        Some (element, v3)
      } else do {
        next_node \<leftarrow> vread v (node + 4);
        pop_loop ls v list_head (node + 4) next_node (element_index - 1)
      })"

definition pop_element :: "linker_symbols \<Rightarrow> vm \<Rightarrow> u32 \<Rightarrow> int \<Rightarrow> (u32 \<times> vm) option" where
  "pop_element ls v list_head element_index =
     (if list_head = 0 \<or> element_index < 0 then Some (0, v)
      else do { node \<leftarrow> vread v list_head; pop_loop ls v list_head list_head node element_index })"

partial_function (option) remove_loop :: "vm \<Rightarrow> u32 \<Rightarrow> u32 \<Rightarrow> u32 \<Rightarrow> (bool \<times> vm) option" where
  "remove_loop v node_ptr node element =
     (if node = 0 then Some (False, v)
      else do {
        e \<leftarrow> vread v node;
        next_node \<leftarrow> vread v (node + 4);
        if e = element then do { v1 \<leftarrow> vwrite v node_ptr next_node; Some (True, v1) }
        else remove_loop v (node + 4) next_node element
      })"

definition remove_element :: "vm \<Rightarrow> u32 \<Rightarrow> u32 \<Rightarrow> (bool \<times> vm) option" where
  "remove_element v list_head element =
     do { node \<leftarrow> vread v list_head; remove_loop v list_head node element }"

partial_function (option) size_loop :: "vm \<Rightarrow> u32 \<Rightarrow> u32 \<Rightarrow> u32 option" where
  "size_loop v node counter =
     (if node = 0 then Some counter
      else do { next_node \<leftarrow> vread v (node + 4); size_loop v next_node (counter + 1) })"

definition list_size :: "vm \<Rightarrow> u32 \<Rightarrow> u32 option" where
  "list_size v list_head =
     (if list_head = 0 then Some 0
      else do { node \<leftarrow> vread v list_head; size_loop v node 0 })"

definition list_is_empty :: "vm \<Rightarrow> u32 \<Rightarrow> bool option" where
  "list_is_empty v list_head =
     (if list_head \<noteq> 0 then do { head \<leftarrow> vread v list_head; Some (head = 0) } else Some False)"

definition iter_list :: "vm \<Rightarrow> u32 \<Rightarrow> (u32 \<times> vm) option" where
  "iter_list v list_head = do {
     iter_node \<leftarrow> vread v (list_head + 4);
     if iter_node = 0 then do {
       head \<leftarrow> vread v list_head;
       v1 \<leftarrow> vwrite v (list_head + 4) head;
       Some (0, v1)
     } else do {
       element \<leftarrow> vread v iter_node;
       next_node \<leftarrow> vread v (iter_node + 4);
       v1 \<leftarrow> vwrite v (list_head + 4) next_node;
       Some (element, v1)
     }
   }"

partial_function (option) free_nodes :: "linker_symbols \<Rightarrow> vm \<Rightarrow> u32 \<Rightarrow> vm option" where
  "free_nodes ls v node =
     (if node = 0 then Some v
      else do { tmp \<leftarrow> vread v (node + 4); v1 \<leftarrow> kfree ls v node; free_nodes ls v1 tmp })"

definition free_list :: "linker_symbols \<Rightarrow> vm \<Rightarrow> u32 \<Rightarrow> vm option" where
  "free_list ls v list_head = do { node \<leftarrow> vread v list_head; free_nodes ls v node }"

text \<open>A client that calls \<open>iter_list\<close> a number of times.\<close>

primrec iter_times :: "nat \<Rightarrow> vm \<Rightarrow> u32 \<Rightarrow> (u32 list \<times> vm) option" where
  "iter_times 0 v l = Some ([], v)"
| "iter_times (Suc k) v l = do { (e, v1) \<leftarrow> iter_list v l; (es, v2) \<leftarrow> iter_times k v1 l; Some (e # es, v2) }"

section \<open>Walks\<close>

text \<open>The nodes of a list with their elements.\<close>

abbreviation list_at :: "vm \<Rightarrow> u32 \<Rightarrow> (u32 \<times> u32) list \<Rightarrow> bool" where
  "list_at v \<equiv> linked (vread v) 4 0"

lemma list_end_linked: "list_at v h ns \<Longrightarrow> list_end v h = Some (link_cell 4 h ns)"
proof (induction ns arbitrary: h)
  case Nil
  then show ?case by (subst list_end.simps) simp
next
  case (Cons n ns)
  then show ?case by (subst list_end.simps) (simp add: linked_Cons link_cell_Cons)
qed

lemma size_loop_seg: "seg (vread v) 4 0 p ns 0 \<Longrightarrow> size_loop v p c = Some (c + of_nat (length ns))"
proof (induction ns arbitrary: p c)
  case Nil
  then show ?case by (subst size_loop.simps) simp
next
  case (Cons n ns)
  then show ?case by (subst size_loop.simps) (auto simp: add.assoc)
qed

lemma pop_loop_skip:
  assumes "list_at v h (xs @ ys)" "vread v h = Some p" "0 \<le> i"
  shows "\<exists>q. vread v (link_cell 4 h xs) = Some q
    \<and> pop_loop ls v l h p (i + int (length xs)) = pop_loop ls v l (link_cell 4 h xs) q i"
  using assms
proof (induction xs arbitrary: h p)
  case (Cons x xs)
  then obtain r where r: "p = fst x" "p \<noteq> 0" "vread v (fst x + 4) = Some r" "list_at v (fst x + 4) (xs @ ys)"
    by (auto simp: linked_Cons linked_def)
  then have "pop_loop ls v l h p (i + int (length (x # xs))) = pop_loop ls v l (fst x + 4) r (i + int (length xs))"
    using Cons.prems(3) by (subst pop_loop.simps) (simp add: algebra_simps)
  with Cons.IH[OF r(4,3)] Cons.prems(3) show ?case by (simp add: link_cell_Cons)
qed simp

lemma remove_loop_skip:
  assumes "list_at v h (xs @ ys)" "vread v h = Some p" "element \<notin> snd ` set xs"
  shows "\<exists>q. vread v (link_cell 4 h xs) = Some q
    \<and> remove_loop v h p element = remove_loop v (link_cell 4 h xs) q element"
  using assms
proof (induction xs arbitrary: h p)
  case (Cons x xs)
  then obtain r where r: "p = fst x" "p \<noteq> 0" "vread v (fst x) = Some (snd x)" "vread v (fst x + 4) = Some r"
    "list_at v (fst x + 4) (xs @ ys)" by (auto simp: linked_Cons linked_def)
  then have "remove_loop v h p element = remove_loop v (fst x + 4) r element"
    using Cons.prems(3) by (subst remove_loop.simps) auto
  with Cons.IH[OF r(5,4)] Cons.prems(3) show ?case by (simp add: link_cell_Cons)
qed simp

section \<open>Operations on the nodes\<close>

context kernel_words
begin

lemma remove_first:
  assumes "good W v" "list_at v l (xs @ n # ys)" "distinct (l # cells 4 0 (xs @ n # ys))"
    and "set (l # cells 4 0 (xs @ n # ys)) \<subseteq> W" and e: "snd n = element" "element \<notin> snd ` set xs"
  obtains v' where "remove_element v l element = Some (True, v')" "good W v'" "list_at v' l (xs @ ys)"
    "\<And>b. b \<in> W \<Longrightarrow> b \<noteq> link_cell 4 l xs \<Longrightarrow> vread v' b = vread v b"
proof -
  obtain p where p: "vread v l = Some p" using assms(2) by (auto simp: linked_def)
  from linked_append[OF assms(2)] obtain q where q: "vread v (link_cell 4 l xs) = Some (fst n)" "fst n \<noteq> 0"
    "vread v (fst n) = Some element" "vread v (fst n + 4) = Some q" using e(1) by (auto simp: linked_Cons linked_def)
  obtain v' where v': "vwrite v (link_cell 4 l xs) q = Some v'" "good W v'" "list_at v' l (xs @ ys)"
    "\<And>b. b \<in> W \<Longrightarrow> b \<noteq> link_cell 4 l xs \<Longrightarrow> vread v' b = vread v b"
    using unlink_node[OF assms(1-4) q(4)] by blast
  have "remove_element v l element = remove_loop v (link_cell 4 l xs) (fst n) element"
    using remove_loop_skip[OF assms(2) p e(2)] q(1) p by (auto simp: remove_element_def)
  also have "\<dots> = Some (True, v')" using q(2-4) v'(1) by (subst remove_loop.simps) simp
  finally show thesis using that v'(2-4) by blast
qed

text \<open>Linking a fresh node in at the end, then filling it.\<close>

lemma append_fresh:
  assumes "good W v" "list_at v l ns" "distinct (l # cells 4 0 (ns @ [(p, e)]))"
    and W: "set (l # cells 4 0 (ns @ [(p, e)])) \<subseteq> W" and "p \<noteq> 0"
  obtains v1 v2 v3 where "vwrite v (link_cell 4 l ns) p = Some v1" "vread v1 (link_cell 4 l ns) = Some p"
    "vwrite v1 (p + 4) 0 = Some v2" "vread v2 (link_cell 4 l ns) = Some p" "vwrite v2 p e = Some v3"
    "vread v3 (link_cell 4 l ns) = Some p" "good W v3" "list_at v3 l (ns @ [(p, e)])"
    "\<And>b. b \<in> W \<Longrightarrow> b \<notin> {link_cell 4 l ns, p, p + 4} \<Longrightarrow> vread v3 b = vread v b"
proof -
  let ?l = "link_cell 4 l ns"
  have p: "p + 0 \<in> W" using W by simp
  obtain x where x: "vread v (p + 0) = Some x" using rd_good[OF assms(1) p] by blast
  have d: "distinct (l # cells 4 0 (ns @ [(p, x)]))" "set (l # cells 4 0 (ns @ [(p, x)])) \<subseteq> W" using assms(3) W by simp_all
  obtain v1 v2 where v: "vwrite v ?l p = Some v1" "vread v1 ?l = Some p" "vwrite v1 (p + 4) 0 = Some v2" "good W v2"
    "list_at v2 l (ns @ [(p, x)])" "vread v2 ?l = Some p" "\<And>b. b \<in> W \<Longrightarrow> b \<noteq> ?l \<Longrightarrow> b \<noteq> p + 4 \<Longrightarrow> vread v2 b = vread v b"
    using append_node[OF assms(1,2) d assms(5) x] by blast
  have l: "?l \<in> W" "?l \<noteq> p" using link_cell_in[of 4 l ns 0] W assms(3) by auto
  obtain v3 where v3: "vwrite v2 (fst (p, x) + 0) e = Some v3" "good W v3" "list_at v3 l (ns @ (fst (p, x), e) # [])"
    "\<And>b. b \<in> W \<Longrightarrow> b \<noteq> fst (p, x) + 0 \<Longrightarrow> vread v3 b = vread v2 b"
    using set_value[OF v(4,5) d, where y = e] by blast
  show thesis using that[OF v(1-3,6)] v3 v(6,7) l by simp
qed

end

lemma list_size_counts: "list_at v l ns \<Longrightarrow> list_size v l = Some (if l = 0 then 0 else of_nat (length ns))"
  using size_loop_seg[where c = 0] by (auto simp: linked_def list_size_def)

lemma list_is_empty_iff: "list_at v l ns \<Longrightarrow> l \<noteq> 0 \<Longrightarrow> list_is_empty v l = Some (ns = [])"
  by (cases ns) (auto simp: linked_def list_is_empty_def)

lemma pop_element_start:
  assumes "list_at v l (xs @ ys)" "l \<noteq> 0"
  shows "\<exists>q. vread v (link_cell 4 l xs) = Some q
    \<and> pop_element ls v l (int (length xs)) = pop_loop ls v l (link_cell 4 l xs) q 0"
proof -
  obtain p where p: "vread v l = Some p" using assms(1) by (auto simp: linked_def)
  then show ?thesis using pop_loop_skip[OF assms(1) p, of 0 ls l] assms(2) by (simp add: pop_element_def)
qed

context kernel_words
begin

lemma pop_node:
  assumes good: "good W v" and l: "list_at v l (xs @ (p, e) # ys)" "l \<noteq> 0"
    and fl: "free_list_at ls v bs" and block: "vread v (p - 4) = Some n" "p \<noteq> 8"
    and apart: "distinct (l # (l + 4) # cells 4 0 (xs @ (p, e) # ys) @ blocks_info ls # cells 0 4 bs @ [p - 8, p - 4])"
    and W: "set (l # (l + 4) # cells 4 0 (xs @ (p, e) # ys) @ blocks_info ls # cells 0 4 bs @ [p - 8, p - 4]) \<subseteq> W"
  obtains v' where "pop_element ls v l (int (length xs)) = Some (e, v')" "good W v'" "list_at v' l (xs @ ys)"
    "free_list_at ls v' (bs @ [(p - 8, n)])" "vread v' (l + 4) = vread v' l"
    "\<And>w. w \<in> W \<Longrightarrow> w \<notin> {link_cell 4 l xs, l + 4, link_cell 0 (blocks_info ls) bs, p - 8} \<Longrightarrow> vread v' w = vread v w"
proof -
  let ?l = "link_cell 4 l xs" and ?L = "set (l # cells 4 0 (xs @ (p, e) # ys))" and ?F = "set (blocks_info ls # cells 0 4 (bs @ [(p - 8, n)]))"
  have L: "w \<in> W \<and> w \<noteq> l + 4 \<and> w \<notin> ?F" if "w \<in> ?L" for w using that apart W by auto
  have F: "w \<in> W \<and> w \<noteq> l + 4 \<and> w \<notin> ?L" if "w \<in> ?F" for w using that apart W by auto
  have dL: "distinct (l # cells 4 0 (xs @ (p, e) # ys))" "?L \<subseteq> W" and dF: "distinct (blocks_info ls # cells 0 4 (bs @ [(p - 8, n)]))" "?F \<subseteq> W"
    and l4: "l + 4 \<in> W" using apart W by auto
  from linked_append[OF l(1)] obtain q where q: "vread v ?l = Some p" "p \<noteq> 0" "vread v p = Some e" "vread v (fst (p, e) + 4) = Some q"
    by (auto simp: linked_Cons linked_def)
  obtain v1 where v1: "vwrite v ?l q = Some v1" "good W v1" "list_at v1 l (xs @ ys)" "\<And>w. w \<in> W \<Longrightarrow> w \<noteq> ?l \<Longrightarrow> vread v1 w = vread v w"
    using unlink_node[OF good l(1) dL q(4)] by blast
  have lin: "?l \<in> ?L" and pin: "p \<in> ?L" "?l \<noteq> p" using link_cell_in[of 4 l xs 0] dL(1) by auto
  have F1: "vread v1 w = vread v w" if "w \<in> ?F" for w
  proof (rule v1(4))
    show "w \<in> W" "w \<noteq> ?l" using F[OF that] lin by metis+
  qed
  have "vread v1 a = vread v a" if "a \<in> set (blocks_info ls # cells 0 4 bs)" for a using F1[of a] that by auto
  then have f1: "free_list_at ls v1 bs" using fl linked_cong[of "blocks_info ls" 0 4 bs "vread v1" "vread v"] by blast
  have n1: "vread v1 (p - 8 + 4) = Some n" using F1[of "p - 8 + 4"] block(1) by simp
  have e1: "vread v1 p = Some e" using v1(4)[of p] L[OF pin(1)] pin(2) q(3) by metis
  obtain v2 where v2: "kfree ls v1 p = Some v2" "good W v2" "free_list_at ls v2 (bs @ [(p - 8, n)])"
    "\<And>w. w \<in> W \<Longrightarrow> w \<noteq> link_cell 0 (blocks_info ls) bs \<Longrightarrow> w \<noteq> p - 8 \<Longrightarrow> vread v2 w = vread v1 w"
    using kfree_linked[OF v1(2) f1 n1 block(2) dF] by blast
  have fin: "link_cell 0 (blocks_info ls) bs \<in> ?F" "p - 8 \<in> ?F" using link_cell_in[of 0 "blocks_info ls" bs 4] by auto
  have L2: "vread v2 w = vread v1 w" if "w \<in> ?L" for w
  proof (rule v2(4))
    show "w \<in> W" "w \<noteq> link_cell 0 (blocks_info ls) bs" "w \<noteq> p - 8" using L[OF that] fin by metis+
  qed
  have sub: "set (l # cells 4 0 (xs @ ys)) \<subseteq> ?L" by auto
  have "vread v2 w = vread v1 w" if "w \<in> set (l # cells 4 0 (xs @ ys))" for w using L2[of w] sub that by blast
  then have l2: "list_at v2 l (xs @ ys)" using v1(3) linked_cong[of l 4 0 "xs @ ys" "vread v2" "vread v1"] by blast
  obtain h where h: "vread v2 l = Some h" using l2 by (auto simp: linked_def)
  obtain v3 where v3: "vwrite v2 (l + 4) h = Some v3" "good W v3" "vread v3 (l + 4) = Some h"
    "\<And>w. w \<in> W \<Longrightarrow> w \<noteq> l + 4 \<Longrightarrow> vread v3 w = vread v2 w" using wr_word[OF v2(2) l4] by blast
  have "vread v3 w = vread v2 w" if "w \<in> set (l # cells 4 0 (xs @ ys))" for w using v3(4)[of w] L[of w] sub that by blast
  then have "list_at v3 l (xs @ ys)" using l2 linked_cong[of l 4 0 "xs @ ys" "vread v3" "vread v2"] by blast
  moreover have "free_list_at ls v3 (bs @ [(p - 8, n)])"
  proof -
    have "vread v3 w = vread v2 w" if "w \<in> ?F" for w using v3(4)[of w] F[OF that] by blast
    then show ?thesis using v2(3) linked_cong[of "blocks_info ls" 0 4 "bs @ [(p - 8, n)]" "vread v3" "vread v2"] by blast
  qed
  moreover have "vread v3 l = Some h" using v3(4)[of l] L[of l] h by simp
  moreover have "pop_element ls v l (int (length xs)) = Some (e, v3)"
    using pop_element_start[OF l, of ls] q v1(1) e1 v2(1) h v3(1) by (auto simp: pop_loop.simps[of _ _ _ _ p])
  moreover have "vread v3 w = vread v w" if "w \<in> W" "w \<notin> {?l, l + 4, link_cell 0 (blocks_info ls) bs, p - 8}" for w
    using that v1(4)[of w] v2(4)[of w] v3(4)[of w] by simp
  ultimately show thesis using that[of v3] v3(2,3) by metis
qed

end

lemma pop_element_absent:
  assumes "list_at v l ns" "l \<noteq> 0" "i < 0 \<or> int (length ns) \<le> i"
  shows "pop_element ls v l i = Some (0, v)"
proof (cases "i < 0")
  case False
  have nil: "list_at v l (ns @ [])" using assms(1) by simp
  then obtain h where h: "vread v l = Some h" by (auto simp: linked_def)
  from linked_append[OF nil] have "vread v (link_cell 4 l ns) = Some 0" by simp
  then show ?thesis
    using pop_loop_skip[OF nil h, of "i - int (length ns)" ls l] assms(2,3) False h
    by (auto simp: pop_element_def pop_loop.simps[of _ _ _ _ 0])
qed (simp add: pop_element_def)

context kernel_words
begin

lemma iter_rest:
  assumes "good W v" "list_at v l (xs @ ys)" "vread v (l + 4) = vread v (link_cell 4 l xs)"
    and "distinct (l # (l + 4) # cells 4 0 (xs @ ys))" "set (l # (l + 4) # cells 4 0 (xs @ ys)) \<subseteq> W"
  shows "\<exists>v'. iter_times (Suc (length ys)) v l = Some (map snd ys @ [0], v') \<and> good W v'
    \<and> list_at v' l (xs @ ys) \<and> vread v' (l + 4) = vread v' l"
  using assms
proof (induction ys arbitrary: xs v)
  case Nil
  have i: "vread v (l + 4) = Some 0" using linked_append[OF Nil.prems(2)] Nil.prems(3) by simp
  obtain h where h: "vread v l = Some h" using Nil.prems(2) by (auto simp: linked_def)
  have "l + 4 \<in> W" using Nil.prems(5) by simp
  then obtain v' where v': "vwrite v (l + 4) h = Some v'" "good W v'" "vread v' (l + 4) = Some h"
    "\<And>w. w \<in> W \<Longrightarrow> w \<noteq> l + 4 \<Longrightarrow> vread v' w = vread v w" using wr_word[OF Nil.prems(1)] by blast
  have same: "vread v' w = vread v w" if "w \<in> set (l # cells 4 0 (xs @ []))" for w
    using v'(4)[of w] Nil.prems(4,5) that by auto
  then have "list_at v' l (xs @ [])" using Nil.prems(2) linked_cong[of l 4 0 "xs @ []" "vread v'" "vread v"] by blast
  then show ?case using i h v'(1-3) same[of l] by (simp add: iter_list_def)
next
  case (Cons y ys)
  from linked_append[OF Cons.prems(2)] obtain q where q: "vread v (link_cell 4 l xs) = Some (fst y)" "fst y \<noteq> 0"
    "vread v (fst y) = Some (snd y)" "vread v (fst y + 4) = Some q" by (auto simp: linked_Cons linked_def)
  have "l + 4 \<in> W" using Cons.prems(5) by simp
  then obtain v1 where v1: "vwrite v (l + 4) q = Some v1" "good W v1" "vread v1 (l + 4) = Some q"
    "\<And>w. w \<in> W \<Longrightarrow> w \<noteq> l + 4 \<Longrightarrow> vread v1 w = vread v w" using wr_word[OF Cons.prems(1)] by blast
  have same: "vread v1 w = vread v w" if "w \<in> set (l # cells 4 0 (xs @ y # ys))" for w
    using v1(4)[of w] Cons.prems(4,5) that by auto
  then have "list_at v1 l (xs @ y # ys)" using Cons.prems(2) linked_cong[of l 4 0 "xs @ y # ys" "vread v1" "vread v"] by blast
  then have "list_at v1 l ((xs @ [y]) @ ys)" by simp
  moreover have "vread v1 (l + 4) = vread v1 (link_cell 4 l (xs @ [y]))" using v1(3) same[of "fst y + 4"] q(4) by simp
  ultimately obtain v' where "iter_times (Suc (length ys)) v1 l = Some (map snd ys @ [0], v')" "good W v'"
      "list_at v' l ((xs @ [y]) @ ys)" "vread v' (l + 4) = vread v' l"
    using Cons.IH[OF v1(2), of "xs @ [y]"] Cons.prems(4,5) by (auto simp del: iter_times.simps)
  moreover have "iter_list v l = Some (snd y, v1)" using q Cons.prems(3) v1(1) by (simp add: iter_list_def)
  ultimately show ?case using iter_times.simps(2)[of "Suc (length ys)" v l] by (simp del: iter_times.simps)
qed

end

section \<open>Properties\<close>

lemma same_words:
  assumes "\<And>w. w \<in> W \<Longrightarrow> w \<notin> D \<Longrightarrow> vread v' w = vread v w" "set (h # cells lk vl ns) \<subseteq> W" "set (h # cells lk vl ns) \<inter> D = {}"
  shows "linked (vread v') lk vl h ns = linked (vread v) lk vl h ns"
  using assms by (intro linked_cong) blast

lemma add_element_appends:
  fixes b n :: u32
  defines "p \<equiv> b + 8 * (n - 1)"
  assumes sound: "heap_sound ls st W" and l: "list_at (vmem st) l ns" "l \<noteq> 0"
    and fl: "free_list_at ls (vmem st) (xs @ (b, n) # ys)" "\<forall>x\<in>set xs. snd x = 0" "1 < n"
    and p: "p \<noteq> 0"
    and apart: "distinct (l # (l + 4) # cells 4 0 ns @ blocks_info ls # cells 0 4 (xs @ (b, n) # ys) @ [p - 8, p - 4, p, p + 4])"
    and W: "set (l # (l + 4) # cells 4 0 ns @ blocks_info ls # cells 0 4 (xs @ (b, n) # ys) @ [p - 8, p - 4, p, p + 4]) \<subseteq> W"
  shows "\<exists>st'. add_element ls junk st l element = Some (True, st') \<and> heap_sound ls st' W
    \<and> list_at (vmem st') l (ns @ [(p, element)]) \<and> free_list_at ls (vmem st') (xs @ (b, n - 1) # ys)
    \<and> vread (vmem st') (l + 4) = (if ns = [] then Some p else vread (vmem st) (l + 4))
    \<and> vread (vmem st') (p - 4) = Some 1
    \<and> (\<forall>w\<in>W. w \<notin> {p - 8, p - 4, b + 4, link_cell 4 l ns, p, p + 4, l + 4} \<longrightarrow> vread (vmem st') w = vread (vmem st) w)"
proof -
  let ?l = "link_cell 4 l ns"
  have small: "\<forall>x\<in>set xs. snd x < (1 :: u32)" and units: "(8 + 8 - 1) div 8 = (1 :: u32)" using fl(2) by simp_all
  have F: "distinct (blocks_info ls # cells 0 4 (xs @ (b, n) # ys))" "set (blocks_info ls # cells 0 4 (xs @ (b, n) # ys)) \<subseteq> W"
    using apart W by auto
  have hd: "{b + 8 * (n - 1) - 8, b + 8 * (n - 1) - 4} \<subseteq> W - set (blocks_info ls # cells 0 4 (xs @ (b, n) # ys))"
    using apart W unfolding p_def[symmetric] by auto
  obtain v0 where v0: "kmalloc ls junk st 8 = Some (p, st\<lparr>vmem := v0\<rparr>)" "heap_sound ls (st\<lparr>vmem := v0\<rparr>) W"
    "free_list_at ls v0 (xs @ (b, n - 1) # ys)" "vread v0 (p - 4) = Some 1"
    "\<And>w. w \<in> W \<Longrightarrow> w \<notin> {p - 8, p - 4, b + 4} \<Longrightarrow> vread v0 w = vread (vmem st) w"
    using kmalloc_splits[OF sound fl(1) F small units fl(3) hd] unfolding p_def by blast
  have l0: "list_at v0 l ns" using l(1) same_words[where v = "vmem st" and v' = v0 and W = W and D = "{p - 8, p - 4, b + 4}" and h = l and lk = 4 and vl = 0 and ns = ns, OF v0(5)] W apart by auto
  have C: "distinct (l # cells 4 0 (ns @ [(p, element)]))" "set (l # cells 4 0 (ns @ [(p, element)])) \<subseteq> W" using apart W by auto
  obtain v1 v2 v3 where v: "vwrite v0 ?l p = Some v1" "vread v1 ?l = Some p" "vwrite v1 (p + 4) 0 = Some v2" "vread v2 ?l = Some p"
    "vwrite v2 p element = Some v3" "vread v3 ?l = Some p" "heap_sound ls (st\<lparr>vmem := v3\<rparr>) W" "list_at v3 l (ns @ [(p, element)])"
    "\<And>w. w \<in> W \<Longrightarrow> w \<notin> {?l, p, p + 4} \<Longrightarrow> vread v3 w = vread v0 w"
    using heap.append_fresh[OF v0(2) l0 C p] by blast
  note lin = link_cell_in[of 4 l ns 0]
  have dj: "set (l # cells 4 0 ns) \<inter> set (blocks_info ls # cells 0 4 (xs @ (b, n) # ys)) = {}" using apart by auto
  have link: "?l \<notin> set (blocks_info ls # cells 0 4 (xs @ (b, n) # ys))" using lin dj by (meson disjoint_iff)
  have "l + 4 \<notin> set (l # cells 4 0 ns)" using apart by simp
  then have link4: "?l \<noteq> l + 4" by (metis lin)
  have "p - 4 \<notin> set (l # cells 4 0 ns)" using apart by auto
  then have "?l \<noteq> p - 4" by (metis lin)
  then have h3: "vread v3 (p - 4) = Some 1" using v(9)[of "p - 4"] v0(4) W apart by auto
  have f3: "free_list_at ls v3 (xs @ (b, n - 1) # ys)"
    using v0(3) same_words[where v = v0 and v' = v3 and W = W and D = "{?l, p, p + 4}" and h = "blocks_info ls" and lk = 0 and vl = 4
        and ns = "xs @ (b, n - 1) # ys", OF v(9)] W apart link by auto
  have i3: "vread v3 (l + 4) = vread (vmem st) (l + 4)"
    using v(9)[of "l + 4"] v0(5)[of "l + 4"] W apart link4 by auto
  have start: "add_element ls junk st l element = do {
      v4 \<leftarrow> (if ?l = l then do { n3 \<leftarrow> vread v3 ?l; vwrite v3 (l + 4) n3 } else Some v3);
      Some (True, st\<lparr>vmem := v4\<rparr>) }"
    using l(2) list_end_linked[OF l(1)] v0(1) v(1-5) by (simp add: add_element_def)
  have fr: "vread v3 w = vread (vmem st) w" if "w \<in> W" "w \<notin> {p - 8, p - 4, b + 4, ?l, p, p + 4, l + 4}" for w
    using that v(9)[of w] v0(5)[of w] by simp
  show ?thesis
  proof (cases "ns = []")
    case False
    then have "?l \<noteq> l" using apart by (cases ns rule: rev_cases) auto
    then show ?thesis using start v(7,8) f3 i3 fr h3 False by simp
  next
    case True
    have "l + 4 \<in> W" using W by simp
    then obtain v4 where v4: "vwrite v3 (l + 4) p = Some v4" "heap_sound ls (st\<lparr>vmem := v4\<rparr>) W" "vread v4 (l + 4) = Some p"
      "\<And>w. w \<in> W \<Longrightarrow> w \<noteq> l + 4 \<Longrightarrow> vread v4 w = vread v3 w" using heap.wr_word[OF v(7)] by blast
    have "list_at v4 l (ns @ [(p, element)]) = list_at v3 l (ns @ [(p, element)])"
      "free_list_at ls v4 (xs @ (b, n - 1) # ys) = free_list_at ls v3 (xs @ (b, n - 1) # ys)"
      by (rule linked_cong; rule v4(4); use W apart in auto)+
    moreover have "vread v4 w = vread (vmem st) w" if "w \<in> W" "w \<notin> {p - 8, p - 4, b + 4, ?l, p, p + 4, l + 4}" for w
      using that v4(4)[of w] fr[of w] by simp
    moreover have "vread v4 (p - 4) = Some 1" using v4(4)[of "p - 4"] h3 W apart by auto
    ultimately show ?thesis using start True v(6,8) v4(1-3) f3 by simp
  qed
qed

text \<open>C22: with a free block of more than one unit at hand, \<open>add_element\<close> appends the element
  at the end of the list, in a node taken from the heap; the iterator is set when the list was
  empty. The list and the free list stay apart.\<close>

theorem add_element_correct:
  fixes b n :: u32
  defines "p \<equiv> b + 8 * (n - 1)"
  assumes sound: "heap_sound ls st W" and l: "list_at (vmem st) l ns" "l \<noteq> 0"
    and fl: "free_list_at ls (vmem st) (xs @ (b, n) # ys)" "\<forall>x\<in>set xs. snd x = 0" "1 < n"
    and p: "p \<noteq> 0"
    and apart: "distinct (l # (l + 4) # cells 4 0 ns @ blocks_info ls # cells 0 4 (xs @ (b, n) # ys) @ [p - 8, p - 4, p, p + 4])"
    and W: "set (l # (l + 4) # cells 4 0 ns @ blocks_info ls # cells 0 4 (xs @ (b, n) # ys) @ [p - 8, p - 4, p, p + 4]) \<subseteq> W"
  shows "\<exists>st'. add_element ls junk st l element = Some (True, st') \<and> heap_sound ls st' W
    \<and> list_at (vmem st') l (ns @ [(p, element)]) \<and> free_list_at ls (vmem st') (xs @ (b, n - 1) # ys)
    \<and> vread (vmem st') (l + 4) = (if ns = [] then Some p else vread (vmem st) (l + 4))"
  using add_element_appends[OF sound l fl p[unfolded p_def] apart[unfolded p_def] W[unfolded p_def], of junk element]
  unfolding p_def by blast

text \<open>C23: \<open>pop_element\<close> returns the element at the index, cuts its node out of the list, gives
  the node's block back to the heap and restarts the iterator at the head; past the end of the
  list and for a negative index it returns \<open>NULL\<close> and changes nothing.\<close>

theorem pop_element_correct:
  assumes sound: "heap_sound ls st W" and l: "list_at (vmem st) l (xs @ (p, e) # ys)" "l \<noteq> 0"
    and fl: "free_list_at ls (vmem st) bs" and block: "vread (vmem st) (p - 4) = Some n" "p \<noteq> 8"
    and apart: "distinct (l # (l + 4) # cells 4 0 (xs @ (p, e) # ys) @ blocks_info ls # cells 0 4 bs @ [p - 8, p - 4])"
    and W: "set (l # (l + 4) # cells 4 0 (xs @ (p, e) # ys) @ blocks_info ls # cells 0 4 bs @ [p - 8, p - 4]) \<subseteq> W"
  shows "(\<exists>v'. pop_element ls (vmem st) l (int (length xs)) = Some (e, v') \<and> heap_sound ls (st\<lparr>vmem := v'\<rparr>) W
      \<and> list_at v' l (xs @ ys) \<and> free_list_at ls v' (bs @ [(p - 8, n)]) \<and> vread v' (l + 4) = vread v' l)
    \<and> (\<forall>i. i < 0 \<or> int (length (xs @ (p, e) # ys)) \<le> i \<longrightarrow> pop_element ls (vmem st) l i = Some (0, vmem st))"
proof (intro conjI allI impI)
  have s: "heap_sound ls (st\<lparr>vmem := vmem st\<rparr>) W" using sound by simp
  show "\<exists>v'. pop_element ls (vmem st) l (int (length xs)) = Some (e, v') \<and> heap_sound ls (st\<lparr>vmem := v'\<rparr>) W
      \<and> list_at v' l (xs @ ys) \<and> free_list_at ls v' (bs @ [(p - 8, n)]) \<and> vread v' (l + 4) = vread v' l"
    by (rule heap.pop_node[OF s l fl block apart W]) blast
  show "pop_element ls (vmem st) l i = Some (0, vmem st)" if "i < 0 \<or> int (length (xs @ (p, e) # ys)) \<le> i" for i
    using pop_element_absent[OF l] that by blast
qed

text \<open>C37: an iteration that starts at the head returns the elements of the list in order, then
  \<open>NULL\<close>, leaves the list as it was and the iterator at the head, ready for the next one.\<close>

theorem iter_list_returns_elements:
  assumes sound: "heap_sound ls st W" and l: "list_at (vmem st) l ns" and head: "vread (vmem st) (l + 4) = vread (vmem st) l"
    and apart: "distinct (l # (l + 4) # cells 4 0 ns)" "set (l # (l + 4) # cells 4 0 ns) \<subseteq> W"
  shows "\<exists>v'. iter_times (Suc (length ns)) (vmem st) l = Some (map snd ns @ [0], v')
    \<and> heap_sound ls (st\<lparr>vmem := v'\<rparr>) W \<and> list_at v' l ns \<and> vread v' (l + 4) = vread v' l"
  using heap.iter_rest[where xs = "[]" and ys = ns and v = "vmem st" and st = st] assms by (simp del: iter_times.simps)

text \<open>\<open>remove_element\<close> cuts the first node with the given element out of the list and
  answers true. It writes the one link word only, so the iterator keeps pointing at the node if
  it did before, and the node's block does not come back to the heap. Without such an element it
  answers false and changes nothing.\<close>

theorem remove_element_correct:
  assumes sound: "heap_sound ls st W" and l: "list_at (vmem st) l (xs @ (p, e) # ys)" and first: "e \<notin> snd ` set xs"
    and apart: "distinct (l # cells 4 0 (xs @ (p, e) # ys))" "set (l # cells 4 0 (xs @ (p, e) # ys)) \<subseteq> W"
  shows "(\<exists>v'. remove_element (vmem st) l e = Some (True, v') \<and> heap_sound ls (st\<lparr>vmem := v'\<rparr>) W \<and> list_at v' l (xs @ ys)
      \<and> (\<forall>w\<in>W. w \<noteq> link_cell 4 l xs \<longrightarrow> vread v' w = vread (vmem st) w))
    \<and> (\<forall>x. x \<notin> snd ` set (xs @ (p, e) # ys) \<longrightarrow> remove_element (vmem st) l x = Some (False, vmem st))"
proof (intro conjI allI impI)
  have s: "heap_sound ls (st\<lparr>vmem := vmem st\<rparr>) W" using sound by simp
  show "\<exists>v'. remove_element (vmem st) l e = Some (True, v') \<and> heap_sound ls (st\<lparr>vmem := v'\<rparr>) W \<and> list_at v' l (xs @ ys)
      \<and> (\<forall>w\<in>W. w \<noteq> link_cell 4 l xs \<longrightarrow> vread v' w = vread (vmem st) w)"
    by (rule heap.remove_first[OF s l apart snd_conv first]) blast
  show "remove_element (vmem st) l x = Some (False, vmem st)" if x: "x \<notin> snd ` set (xs @ (p, e) # ys)" for x
  proof -
    have nil: "list_at (vmem st) l ((xs @ (p, e) # ys) @ [])" using l by simp
    obtain h where h: "vread (vmem st) l = Some h" using l by (auto simp: linked_def)
    from linked_append[OF nil] have "vread (vmem st) (link_cell 4 l (xs @ (p, e) # ys)) = Some 0" by simp
    then show ?thesis using remove_loop_skip[OF nil h x] h
      by (auto simp: remove_element_def remove_loop.simps[of _ _ 0])
  qed
qed

section \<open>Witnesses\<close>

lemma sample_words:
  "0xC0800000 \<in> heap_words 0 1" "0xC0800004 \<in> heap_words 0 1" "0xC0800200 \<in> heap_words 0 1" "0xC0800204 \<in> heap_words 0 1"
  "0xC0800300 \<in> heap_words 0 1" "0xC0800304 \<in> heap_words 0 1" "0xC0800308 \<in> heap_words 0 1" "0xC080030C \<in> heap_words 0 1"
  "0xC0800FE8 \<in> heap_words 0 1" "0xC0800FEC \<in> heap_words 0 1" "0xC0800FF0 \<in> heap_words 0 1" "0xC0800FF4 \<in> heap_words 0 1"
  using first_page_words[of 0] first_page_words[of 1] first_page_words[of 128] first_page_words[of 129]
    first_page_words[of 192] first_page_words[of 193] first_page_words[of 194] first_page_words[of 195]
    first_page_words[of 1018] first_page_words[of 1019] first_page_words[of 1020] first_page_words[of 1021] by simp_all

text \<open>A list of one element in the page the heap got first, with its descriptor at 0xC0800200,
  beside one free block.\<close>

lemma sample_list:
  obtains st where "heap_sound example_linker st first_heap_page" "free_list_at example_linker (vmem st) [(0xC0800000, 511)]"
    "list_at (vmem st) 0xC0800200 [(0xC0800308, 7)]" "vread (vmem st) 0xC0800204 = Some 0xC0800308" "vread (vmem st) 0xC0800304 = Some 1"
proof (rule grown_heap)
  let ?ps = "[(0xC0120000, 0xC0800000), (0xC0800000, 0), (0xC0800004, 511), (0xC0800200, 0xC0800308), (0xC0800204, 0xC0800308),
    (0xC0800304, 1), (0xC0800308, 7), (0xC080030C, 0)] :: (u32 \<times> u32) list"
  fix st assume "heap_sound example_linker st first_heap_page"
  then have s': "heap_sound example_linker (st\<lparr>vmem := vmem st\<rparr>) first_heap_page" by simp
  obtain v where "heap_sound example_linker (st\<lparr>vmem := v\<rparr>) first_heap_page" "\<forall>(a, x)\<in>set ?ps. vread v a = Some x"
    using heap.write_all[OF s', of ?ps] sample_words by auto
  then show thesis using that[of "st\<lparr>vmem := v\<rparr>"] by (simp add: linked_def booted_head_cell)
qed

lemma sample_empty_list:
  obtains st where "heap_sound example_linker st first_heap_page" "free_list_at example_linker (vmem st) [(0xC0800000, 511)]"
    "list_at (vmem st) 0xC0800200 []"
proof (rule grown_heap)
  let ?ps = "[(0xC0120000, 0xC0800000), (0xC0800000, 0), (0xC0800004, 511), (0xC0800200, 0)] :: (u32 \<times> u32) list"
  fix st assume "heap_sound example_linker st first_heap_page"
  then have s': "heap_sound example_linker (st\<lparr>vmem := vmem st\<rparr>) first_heap_page" by simp
  obtain v where "heap_sound example_linker (st\<lparr>vmem := v\<rparr>) first_heap_page" "\<forall>(a, x)\<in>set ?ps. vread v a = Some x"
    using heap.write_all[OF s', of ?ps] sample_words by auto
  then show thesis using that[of "st\<lparr>vmem := v\<rparr>"] by (simp add: linked_def booted_head_cell)
qed

theorem add_element_correct_witness:
  "\<exists>st st'. list_at (vmem st) 0xC0800200 [] \<and> add_element example_linker (\<lambda>_. 0) st 0xC0800200 7 = Some (True, st')
     \<and> list_at (vmem st') 0xC0800200 [(0xC0800FF0, 7)]"
proof (rule sample_empty_list)
  fix st assume s: "heap_sound example_linker st first_heap_page" "free_list_at example_linker (vmem st) [(0xC0800000, 511)]"
    "list_at (vmem st) 0xC0800200 []"
  then have fl: "free_list_at example_linker (vmem st) ([] @ (0xC0800000, 511) # [])" by simp
  have "\<exists>st'. add_element example_linker (\<lambda>_. 0) st 0xC0800200 7 = Some (True, st') \<and> list_at (vmem st') 0xC0800200 ([] @ [(0xC0800FF0, 7)])"
    using add_element_correct[OF s(1,3) _ fl, where junk = "\<lambda>_. 0" and element = 7] sample_words by (simp add: booted_head_cell) blast
  then show ?thesis using s(3) by auto
qed

theorem pop_element_correct_witness:
  "\<exists>st v'. list_at (vmem (st :: kernel_mm)) 0xC0800200 [(0xC0800308, 7)] \<and> pop_element example_linker (vmem st) 0xC0800200 0 = Some (7, v')
     \<and> list_at v' 0xC0800200 [] \<and> free_list_at example_linker v' [(0xC0800000, 511), (0xC0800300, 1)]"
proof (rule sample_list)
  fix st assume s: "heap_sound example_linker st first_heap_page" "free_list_at example_linker (vmem st) [(0xC0800000, 511)]"
    "list_at (vmem st) 0xC0800200 [(0xC0800308, 7)]" "vread (vmem st) 0xC0800304 = Some 1"
  then have l: "list_at (vmem st) 0xC0800200 ([] @ (0xC0800308, 7) # [])" by simp
  have "\<exists>v'. pop_element example_linker (vmem st) 0xC0800200 0 = Some (7, v')
     \<and> list_at v' 0xC0800200 [] \<and> free_list_at example_linker v' [(0xC0800000, 511), (0xC0800300, 1)]"
    using pop_element_correct[OF s(1) l _ s(2), of 1] s(4) sample_words by (simp add: booted_head_cell) blast
  then show ?thesis using s(3) by blast
qed

theorem iter_list_returns_elements_witness:
  "\<exists>st v'. list_at (vmem (st :: kernel_mm)) 0xC0800200 [(0xC0800308, 7)] \<and> iter_times (Suc 1) (vmem st) 0xC0800200 = Some ([7, 0], v')"
proof (rule sample_list)
  fix st assume s: "heap_sound example_linker st first_heap_page" "list_at (vmem st) 0xC0800200 [(0xC0800308, 7)]"
    "vread (vmem st) 0xC0800204 = Some 0xC0800308"
  then have "\<exists>v'. iter_times (Suc 1) (vmem st) 0xC0800200 = Some ([7, 0], v')"
    using iter_list_returns_elements[OF s(1,2)] sample_words by (auto simp: linked_def simp del: iter_times.simps)
  then show ?thesis using s(2) by blast
qed

theorem remove_element_correct_witness:
  "\<exists>st v'. list_at (vmem (st :: kernel_mm)) 0xC0800200 [(0xC0800308, 7)] \<and> remove_element (vmem st) 0xC0800200 7 = Some (True, v')
     \<and> list_at v' 0xC0800200 [] \<and> vread v' 0xC0800204 = Some 0xC0800308"
proof (rule sample_list)
  fix st assume s: "heap_sound example_linker st first_heap_page" "list_at (vmem st) 0xC0800200 [(0xC0800308, 7)]"
    "vread (vmem st) 0xC0800204 = Some 0xC0800308"
  then have l: "list_at (vmem st) 0xC0800200 ([] @ (0xC0800308, 7) # [])" by simp
  have "\<exists>v'. remove_element (vmem st) 0xC0800200 7 = Some (True, v') \<and> list_at v' 0xC0800200 [] \<and> vread v' 0xC0800204 = Some 0xC0800308"
    using remove_element_correct[OF s(1) l] s(3) sample_words by (auto simp: link_cell_def)
  then show ?thesis using s(2) by blast
qed

end
