(* ===== verification/Vfs.thy ===== *)
theory Vfs
  imports Initrd ListDS
begin

text \<open>
  The virtual file system, \<^verbatim>\<open>src/kernel/fs/vfs.c\<close>. Its two static pointers are a record, the
  structures they reach are bytes of paged memory. Function pointers of a \<open>file_system_t\<close> hold
  the addresses the linker gave the functions of the ramdisk, the only file system there is: a
  call through any other address has no defined behaviour and is \<open>None\<close>. String literals and
  the local list of \<open>vfs_open\<close> are at addresses the compiler chooses, arguments here, and the
  value of a function that ends without a \<open>return\<close> is the argument \<open>left_over\<close>.
\<close>

section \<open>Definitions\<close>

datatype mount_point_field = mount_path | mounted_fs | children

primrec mount_point_offset :: "mount_point_field \<Rightarrow> u32" where
  "mount_point_offset mount_path = 0"
| "mount_point_offset mounted_fs = 300"
| "mount_point_offset children = 304"

definition sizeof_mount_point :: u32 where "sizeof_mount_point = 312"

record vfs_state =
  mount_points :: u32
  root_mount_point :: u32

record fs_functions =
  initrd_read_at :: u32
  initrd_open_at :: u32
  initrd_close_at :: u32

definition vfs_init ::
  "linker_symbols \<Rightarrow> (nat \<Rightarrow> int) \<Rightarrow> bool \<Rightarrow> u32 \<Rightarrow> kernel_mm \<Rightarrow> (vfs_state \<times> kernel_mm) option" where
  "vfs_init ls junk left_over slash st = do {
     (mp, st1) \<leftarrow> kmalloc ls junk st sizeof_mount_point;
     if mp = 0 then None
     else do {
       v1 \<leftarrow> paged_memcpy (vmem st1) (mp + mount_point_offset mount_path) slash 2;
       v2 \<leftarrow> vwrite v1 (mp + mount_point_offset mounted_fs) 0;
       (initialized, v3) \<leftarrow> initialize_list left_over v2 (mp + mount_point_offset children);
       if \<not> initialized then None
       else Some (\<lparr>mount_points = mp, root_mount_point = mp\<rparr>, st1\<lparr>vmem := v3\<rparr>)
     }
   }"

definition vfs_mount :: "error_code_t \<Rightarrow> u32 \<Rightarrow> vfs_state \<Rightarrow> vm \<Rightarrow> u32 \<Rightarrow> u32 \<Rightarrow> (error_code_t \<times> vm) option" where
  "vfs_mount left_over slash vs v path fs =
     (if path = 0 \<or> fs = 0 then Some (INVALID_ARGUMENT, v)
      else do {
        r \<leftarrow> paged_strcmp v path slash;
        if r = 0 then do {
          fread \<leftarrow> vread v (fs + file_system_offset fs_read);
          fopen \<leftarrow> (if fread \<noteq> 0 then vread v (fs + file_system_offset fs_open) else Some 0);
          fclose \<leftarrow> (if fopen \<noteq> 0 then vread v (fs + file_system_offset fs_close) else Some 0);
          if fclose \<noteq> 0 then do {
            v1 \<leftarrow> vwrite v (root_mount_point vs + mount_point_offset mounted_fs) fs;
            Some (SUCCESS, v1)
          } else Some (FAILURE, v)
        } else do {
          root \<leftarrow> vread v (root_mount_point vs + mount_point_offset mounted_fs);
          if root = 0 then Some (NO_SUCH_DIRECTORY, v) else Some (left_over, v)
        }
      })"

partial_function (option) path_depth_loop :: "vm \<Rightarrow> u32 \<Rightarrow> u32 \<Rightarrow> u32 option" where
  "path_depth_loop v path counter = do {
     c \<leftarrow> rd8 v path;
     if c \<noteq> 0 then path_depth_loop v (path + 1) (if c = 0x2F then counter + 1 else counter) else Some counter
   }"

definition path_depth :: "vm \<Rightarrow> u32 \<Rightarrow> u32 option" where
  "path_depth v path = (if path = 0 then Some (- 1) else path_depth_loop v path 0)"

definition alloc_mount_point ::
  "linker_symbols \<Rightarrow> (nat \<Rightarrow> int) \<Rightarrow> kernel_mm \<Rightarrow> u32 \<Rightarrow> u32 \<Rightarrow> (u32 \<times> kernel_mm) option" where
  "alloc_mount_point ls junk st path fs = do {
     (mount_point, st1) \<leftarrow> kmalloc ls junk st sizeof_mount_point;
     if mount_point = 0 then Some (0, st1)
     else do {
       l \<leftarrow> paged_strlen (vmem st1) path;
       v1 \<leftarrow> paged_memcpy (vmem st1) (mount_point + mount_point_offset mount_path) path (l + 1);
       v2 \<leftarrow> vwrite v1 (mount_point + mount_point_offset mounted_fs) fs;
       Some (mount_point, st1\<lparr>vmem := v2\<rparr>)
     }
   }"

text \<open>The inner loop of \<open>vfs_open\<close>; false when it leaves through \<open>goto clean_up\<close>.\<close>

partial_function (option) vfs_children_loop ::
  "linker_symbols \<Rightarrow> (nat \<Rightarrow> int) \<Rightarrow> vfs_state \<Rightarrow> u32 \<Rightarrow> u32 \<Rightarrow> kernel_mm \<Rightarrow> (bool \<times> kernel_mm) option" where
  "vfs_children_loop ls junk vs tree_nodes path st = do {
     (child, v1) \<leftarrow> iter_list (vmem st) (mount_points vs + mount_point_offset children);
     if child = 0 then Some (True, st\<lparr>vmem := v1\<rparr>)
     else do {
       specific_path \<leftarrow> paged_strstr v1 path (child + mount_point_offset mount_path);
       if specific_path = 0 then vfs_children_loop ls junk vs tree_nodes path (st\<lparr>vmem := v1\<rparr>)
       else do {
         l \<leftarrow> paged_strlen v1 (child + mount_point_offset mount_path);
         (added, st2) \<leftarrow> add_element ls junk (st\<lparr>vmem := v1\<rparr>) tree_nodes (mount_points vs);
         if added then vfs_children_loop ls junk vs tree_nodes path st2 else Some (False, st2)
       }
     }
   }"

partial_function (option) vfs_walk ::
  "linker_symbols \<Rightarrow> (nat \<Rightarrow> int) \<Rightarrow> vfs_state \<Rightarrow> u32 \<Rightarrow> u32 \<Rightarrow> kernel_mm \<Rightarrow> (u32 \<times> kernel_mm) option" where
  "vfs_walk ls junk vs tree_nodes path st = do {
     (current, v1) \<leftarrow> pop_element ls (vmem st) tree_nodes 0;
     (go_on, st2) \<leftarrow> (if current \<noteq> 0 then vfs_children_loop ls junk vs tree_nodes path (st\<lparr>vmem := v1\<rparr>)
                     else Some (True, st\<lparr>vmem := v1\<rparr>));
     if \<not> go_on then Some (current, st2)
     else do {
       empty \<leftarrow> list_is_empty (vmem st2) tree_nodes;
       if empty then Some (current, st2) else vfs_walk ls junk vs tree_nodes path st2
     }
   }"

definition vfs_open ::
  "linker_symbols \<Rightarrow> fs_functions \<Rightarrow> (nat \<Rightarrow> int) \<Rightarrow> bool \<Rightarrow> u32 \<Rightarrow> vfs_state \<Rightarrow> kernel_mm \<Rightarrow> u32 \<Rightarrow> (u32 \<times> kernel_mm) option" where
  "vfs_open ls fns junk left_over tree_nodes vs st path = do {
     (initialized, v1) \<leftarrow> initialize_list left_over (vmem st) tree_nodes;
     (current, st2) \<leftarrow>
       (if \<not> initialized then Some (0, st\<lparr>vmem := v1\<rparr>)
        else do {
          (added, st1) \<leftarrow> add_element ls junk (st\<lparr>vmem := v1\<rparr>) tree_nodes (mount_points vs);
          if \<not> added then Some (0, st1) else vfs_walk ls junk vs tree_nodes path st1
        });
     v3 \<leftarrow> free_list ls (vmem st2) tree_nodes;
     if current \<noteq> 0 then do {
       fs \<leftarrow> vread v3 (current + mount_point_offset mounted_fs);
       f \<leftarrow> vread v3 (fs + file_system_offset fs_open);
       if f = initrd_open_at fns then initrd_open ls junk (st2\<lparr>vmem := v3\<rparr>) fs path else None
     } else Some (0, st2\<lparr>vmem := v3\<rparr>)
   }"

definition vfs_unmount :: "kernel_mm \<Rightarrow> u32 \<Rightarrow> kernel_mm" where
  "vfs_unmount st fs = st"

definition vfs_read :: "fs_functions \<Rightarrow> vm \<Rightarrow> u32 \<Rightarrow> u32 \<Rightarrow> u32 \<Rightarrow> u32 \<Rightarrow> (u32 \<times> vm) option" where
  "vfs_read fns v node offset len buffer =
     (if node = 0 then Some (0, v)
      else do {
        fs \<leftarrow> vread v (node + fs_node_offset node_fs);
        f \<leftarrow> vread v (fs + file_system_offset fs_read);
        if f = initrd_read_at fns then initrd_read v node offset len buffer else None
      })"

definition vfs_write :: "u32 \<Rightarrow> vm \<Rightarrow> u32 \<Rightarrow> u32 \<Rightarrow> u32 \<Rightarrow> u32 \<Rightarrow> u32 \<times> vm" where
  "vfs_write left_over v node offset len buffer = (left_over, v)"

definition vfs_close :: "linker_symbols \<Rightarrow> fs_functions \<Rightarrow> vm \<Rightarrow> u32 \<Rightarrow> vm option" where
  "vfs_close ls fns v node = do {
     fs \<leftarrow> vread v (node + fs_node_offset node_fs);
     f \<leftarrow> vread v (fs + file_system_offset fs_close);
     if f = initrd_close_at fns then initrd_close ls v node else None
   }"

section \<open>Opening through the mount table\<close>

text \<open>Room for an open: the first free block is large enough for the list node, the file node
  and the file, which all come from its end, \<open>e\<close>; the free list, the local list \<open>tree\<close>, the
  root mount point and the words \<open>K\<close> to keep lie apart.\<close>

definition open_room ::
  "linker_symbols \<Rightarrow> kernel_mm \<Rightarrow> u32 set \<Rightarrow> u32 \<Rightarrow> u32 \<Rightarrow> (u32 \<times> u32) list \<Rightarrow> u32 \<Rightarrow> u32 \<Rightarrow> u32 set \<Rightarrow> bool" where
  "open_room ls st W b n ys tree mp K \<longleftrightarrow>
     (let e = b + 8 * (n - 25); F = blocks_info ls # cells 0 4 ((b, n) # ys); S = F @ [tree, tree + 4, mp + 304, mp + 308]
      in heap_sound ls st W \<and> free_list_at ls (vmem st) ((b, n) # ys) \<and> distinct S \<and> set S \<subseteq> W \<and> 25 < n
         \<and> words_from e 50 \<subseteq> W - (set S \<union> K) \<and> K \<subseteq> W - set S \<and> word_of e = e \<and> (\<forall>w\<in>set S \<union> K. word_of w = w)
         \<and> 0 \<notin> words_from e 50 \<and> e + 192 \<noteq> 8 \<and> tree \<noteq> 0 \<and> mp \<noteq> 0)"

lemma block_end: "b + 8 * (n - of_nat k) = b + 8 * (n - 25) + 8 * (25 - of_nat k :: u32)"
  by (simp add: algebra_simps)

lemma open_roomD:
  assumes "open_room ls st W b n ys tree mp K"
  defines "e \<equiv> b + 8 * (n - 25)"
  shows "heap_sound ls st W" "free_list_at ls (vmem st) ((b, n) # ys)"
    "distinct (blocks_info ls # cells 0 4 ((b, n) # ys) @ [tree, tree + 4, mp + 304, mp + 308])"
    "set (blocks_info ls # cells 0 4 ((b, n) # ys) @ [tree, tree + 4, mp + 304, mp + 308]) \<subseteq> W" "25 < n"
    "words_from e 50 \<subseteq> W - (set (blocks_info ls # cells 0 4 ((b, n) # ys) @ [tree, tree + 4, mp + 304, mp + 308]) \<union> K)"
    "K \<subseteq> W - set (blocks_info ls # cells 0 4 ((b, n) # ys) @ [tree, tree + 4, mp + 304, mp + 308])" "word_of e = e"
    "\<forall>w\<in>set (blocks_info ls # cells 0 4 ((b, n) # ys) @ [tree, tree + 4, mp + 304, mp + 308]) \<union> K. word_of w = w"
    "0 \<notin> words_from e 50" "e + 192 \<noteq> 8" "tree \<noteq> 0" "mp \<noteq> 0"
  using assms(1) unfolding open_room_def Let_def e_def append_Cons by blast+

lemma end_words:
  "i < 50 \<Longrightarrow> e + 4 * of_nat i \<in> words_from e 50"
  by (auto simp: words_from_def)

lemma node_words: "e + 184 \<in> words_from e 50" "e + 188 \<in> words_from e 50" "e + 192 \<in> words_from e 50" "e + 196 \<in> words_from e 50"
  using end_words[of 46 e] end_words[of 47 e] end_words[of 48 e] end_words[of 49 e] by simp_all

text \<open>The local list with the root mount point as its only element.\<close>

lemma tree_with_root:
  assumes room: "open_room ls st W b n ys tree mp K"
  defines "e \<equiv> b + 8 * (n - 25)"
  obtains v1 st1 where "initialize_list True (vmem st) tree = Some (True, v1)"
    "add_element ls junk (st\<lparr>vmem := v1\<rparr>) tree mp = Some (True, st1)" "heap_sound ls st1 W"
    "list_at (vmem st1) tree [(e + 192, mp)]" "free_list_at ls (vmem st1) ((b, n - 1) # ys)"
    "vread (vmem st1) (e + 188) = Some 1"
    "\<forall>w\<in>W. w \<notin> {tree, tree + 4, b + 4} \<union> words_from e 50 \<longrightarrow> vread (vmem st1) w = vread (vmem st) w"
proof -
  note r = open_roomD[OF room, folded e_def]
  have W: "tree \<in> W" "tree + 4 \<in> W" using r(4) by auto
  have s: "heap_sound ls (st\<lparr>vmem := vmem st\<rparr>) W" using r(1) by simp
  obtain v0 where v0: "vwrite (vmem st) tree 0 = Some v0" "heap_sound ls (st\<lparr>vmem := v0\<rparr>) W" "vread v0 tree = Some 0"
    "\<And>w. w \<in> W \<Longrightarrow> w \<noteq> tree \<Longrightarrow> vread v0 w = vread (vmem st) w" using heap.wr_word[OF s W(1)] by blast
  obtain v1 where v1: "vwrite v0 (tree + 4) 0 = Some v1" "heap_sound ls (st\<lparr>vmem := v1\<rparr>) W" "vread v1 (tree + 4) = Some 0"
    "\<And>w. w \<in> W \<Longrightarrow> w \<noteq> tree + 4 \<Longrightarrow> vread v1 w = vread v0 w" using heap.wr_word[OF v0(2) W(2)] by blast
  have init: "initialize_list True (vmem st) tree = Some (True, v1)"
    using r(12) v0(1,3) v1(1) by (simp add: initialize_list_def)
  have l1: "list_at (vmem (st\<lparr>vmem := v1\<rparr>)) tree []" using v1(4)[of tree] v0(3) W(1) by simp
  have "vread v1 w = vread (vmem st) w" if "w \<in> set (blocks_info ls # cells 0 4 ((b, n) # ys))" for w
  proof -
    have "w \<in> W" "w \<noteq> tree" "w \<noteq> tree + 4" using r(3,4) that by auto
    then show ?thesis using v0(4)[of w] v1(4)[of w] by simp
  qed
  then have f1: "free_list_at ls (vmem (st\<lparr>vmem := v1\<rparr>)) ([] @ (b, n) # ys)"
    using r(2) linked_cong[of "blocks_info ls" 0 4 "(b, n) # ys" "vread v1" "vread (vmem st)"] by simp
  have p: "b + 8 * (n - 1) = e + 192" "e + 192 - 8 = e + 184" "e + 192 - 4 = e + 188" "e + 192 + 4 = e + 196"
    by (simp_all add: e_def algebra_simps)
  have nw: "{e + 184, e + 188, e + 192, e + 196} \<subseteq> W - set (blocks_info ls # cells 0 4 ((b, n) # ys) @ [tree, tree + 4])"
    using r(6) node_words[of e] by auto
  have one: "1 < n" using r(5) by (rule order.strict_trans[rotated]) simp
  have nz: "b + 8 * (n - 1) \<noteq> 0" using node_words(3)[of e] r(10) unfolding p(1) by metis
  have ap: "distinct (tree # (tree + 4) # cells 4 0 [] @ blocks_info ls # cells 0 4 ([] @ (b, n) # ys)
      @ [b + 8 * (n - 1) - 8, b + 8 * (n - 1) - 4, b + 8 * (n - 1), b + 8 * (n - 1) + 4])"
    "set (tree # (tree + 4) # cells 4 0 [] @ blocks_info ls # cells 0 4 ([] @ (b, n) # ys)
      @ [b + 8 * (n - 1) - 8, b + 8 * (n - 1) - 4, b + 8 * (n - 1), b + 8 * (n - 1) + 4]) \<subseteq> W"
    unfolding p using r(3,4) nw by auto
  obtain st1 where st1: "add_element ls junk (st\<lparr>vmem := v1\<rparr>) tree mp = Some (True, st1)" "heap_sound ls st1 W"
    "list_at (vmem st1) tree ([] @ [(b + 8 * (n - 1), mp)])" "free_list_at ls (vmem st1) ([] @ (b, n - 1) # ys)"
    "vread (vmem st1) (b + 8 * (n - 1) - 4) = Some 1"
    "\<forall>w\<in>W. w \<notin> {b + 8 * (n - 1) - 8, b + 8 * (n - 1) - 4, b + 4, link_cell 4 tree [], b + 8 * (n - 1), b + 8 * (n - 1) + 4, tree + 4}
       \<longrightarrow> vread (vmem st1) w = vread (vmem (st\<lparr>vmem := v1\<rparr>)) w"
    using add_element_appends[OF v1(2) l1 r(12) f1 _ one nz ap, of junk mp] by auto
  have "vread (vmem st1) w = vread (vmem st) w" if "w \<in> W" "w \<notin> {tree, tree + 4, b + 4} \<union> words_from e 50" for w
  proof -
    have "w \<notin> {e + 184, e + 188, b + 4, link_cell 4 tree [], e + 192, e + 196, tree + 4}"
      using that node_words[of e] by auto
    then show ?thesis using st1(6) that v0(4)[of w] v1(4)[of w] unfolding p by simp
  qed
  then show thesis using that[OF init st1(1,2)] st1(3-5) unfolding p by simp
qed

text \<open>The walk: with no mount point below the root it ends after one round, and the node of the
  local list is back on the free list.\<close>

lemma vfs_walk_root:
  assumes room: "open_room ls st W b n ys tree mp K" and vs: "mount_points vs = mp"
    and children: "vread (vmem st) (mp + 304) = Some 0" "vread (vmem st) (mp + 308) = Some 0"
  defines "e \<equiv> b + 8 * (n - 25)"
  obtains v1 st1 v where "initialize_list True (vmem st) tree = Some (True, v1)"
    "add_element ls junk (st\<lparr>vmem := v1\<rparr>) tree mp = Some (True, st1)"
    "vfs_walk ls junk vs tree path st1 = Some (mp, st1\<lparr>vmem := v\<rparr>)" "free_list ls v tree = Some v"
    "heap_sound ls (st1\<lparr>vmem := v\<rparr>) W" "free_list_at ls v ((b, n - 1) # ys @ [(e + 184, 1)])"
    "\<forall>w\<in>W. w \<notin> set (blocks_info ls # cells 0 4 ((b, n) # ys) @ [tree, tree + 4, mp + 304, mp + 308]) \<union> words_from e 50
       \<longrightarrow> vread v w = vread (vmem st) w"
    "vread v (mp + 304) = Some 0" "vread v (mp + 308) = Some 0"
proof -
  note r = open_roomD[OF room, folded e_def]
  let ?S = "set (blocks_info ls # cells 0 4 ((b, n) # ys) @ [tree, tree + 4, mp + 304, mp + 308])"
  let ?F = "blocks_info ls # cells 0 4 ((b, n - 1) # ys)" and ?k = "link_cell 0 (blocks_info ls) ((b, n - 1) # ys)"
  obtain v1 st1 where t: "initialize_list True (vmem st) tree = Some (True, v1)"
    "add_element ls junk (st\<lparr>vmem := v1\<rparr>) tree mp = Some (True, st1)" "heap_sound ls st1 W"
    "list_at (vmem st1) tree [(e + 192, mp)]" "free_list_at ls (vmem st1) ((b, n - 1) # ys)" "vread (vmem st1) (e + 188) = Some 1"
    "\<forall>w\<in>W. w \<notin> {tree, tree + 4, b + 4} \<union> words_from e 50 \<longrightarrow> vread (vmem st1) w = vread (vmem st) w"
    by (rule tree_with_root[OF room, of junk, folded e_def])
  have s1: "heap_sound ls (st1\<lparr>vmem := vmem st1\<rparr>) W" using t(3) by simp
  have p: "e + 192 - 8 = e + 184" "e + 192 - 4 = e + 188" "e + 192 + 4 = e + 196" "e + 192 + 0 = e + 192" by simp_all
  have nw: "{e + 184, e + 188, e + 192, e + 196} \<subseteq> W - ?S" using r(6) node_words[of e] by auto
  have l: "list_at (vmem st1) tree ([] @ (e + 192, mp) # [])" using t(4) by simp
  have hd: "vread (vmem st1) (e + 192 - 4) = Some 1" using t(6) unfolding p(2)[symmetric] .
  have ap: "distinct (tree # (tree + 4) # cells 4 0 ([] @ (e + 192, mp) # []) @ ?F @ [e + 192 - 8, e + 192 - 4])"
    "set (tree # (tree + 4) # cells 4 0 ([] @ (e + 192, mp) # []) @ ?F @ [e + 192 - 8, e + 192 - 4]) \<subseteq> W"
    unfolding p append_Nil cells_simps fst_conv using r(3,4) nw by auto
  obtain v2 where v2: "pop_element ls (vmem st1) tree (int (length ([] :: (u32 \<times> u32) list))) = Some (mp, v2)"
    "heap_sound ls (st1\<lparr>vmem := v2\<rparr>) W" "list_at v2 tree ([] @ [])"
    "free_list_at ls v2 (((b, n - 1) # ys) @ [(e + 192 - 8, 1)])"
    "\<And>w. w \<in> W \<Longrightarrow> w \<notin> {link_cell 4 tree [], tree + 4, ?k, e + 192 - 8} \<Longrightarrow> vread v2 w = vread (vmem st1) w"
    using heap.pop_node[OF s1 l r(12) t(5) hd r(11) ap[unfolded append_Cons]] by metis
  have kS: "?k \<in> set ?F" by (rule link_cell_in)
  have m: "mp + 304 \<in> W" "mp + 308 \<in> W" "mp + 304 \<noteq> ?k" "mp + 308 \<noteq> ?k" "mp + 304 \<notin> words_from e 50" "mp + 308 \<notin> words_from e 50"
    using r(3,4,6) kS by auto
  have ne: "mp + 304 \<notin> {tree, tree + 4, b + 4}" "mp + 308 \<notin> {tree, tree + 4, b + 4}" using r(3) by auto
  have mne: "mp + 304 \<noteq> e + 184" "mp + 308 \<noteq> e + 184" using m(5,6) node_words(1)[of e] by metis+
  have c: "vread v2 (mp + 304) = Some 0" "vread v2 (mp + 308) = Some 0"
    using v2(5)[OF m(1)] v2(5)[OF m(2)] t(7) children m ne mne unfolding p by simp_all
  obtain v where v: "vwrite v2 (mp + 308) 0 = Some v" "heap_sound ls (st1\<lparr>vmem := v\<rparr>) W"
    "\<And>w. w \<in> W \<Longrightarrow> w \<noteq> mp + 308 \<Longrightarrow> vread v w = vread v2 w" "vread v (mp + 308) = Some 0" using heap.wr_word[OF v2(2) m(2)] by blast
  have m4: "mp + 304 + 4 = mp + 308" by simp
  have iter: "iter_list v2 (mp + 304) = Some (0, v)" using c v(1) m4 unfolding iter_list_def by (simp only: m4) simp
  have tr: "vread v tree = Some 0" using v(3)[of tree] v2(3) r(3,4) by auto
  have walk: "vfs_walk ls junk vs tree path st1 = Some (mp, st1\<lparr>vmem := v\<rparr>)"
    using v2(1) iter r(12,13) tr vs
    by (subst vfs_walk.simps) (simp add: vfs_children_loop.simps[of ls junk vs] list_is_empty_def)
  have fl: "free_list ls v tree = Some v" using tr by (simp add: free_list_def free_nodes.simps[of ls v 0])
  have "vread v w = vread v2 w" if "w \<in> set (blocks_info ls # cells 0 4 ((b, n - 1) # ys @ [(e + 184, 1)]))" for w
  proof -
    have "w \<in> W" "w \<noteq> mp + 308" using that r(3,4) nw m(6) by (auto simp: add.commute[of 188 e])
    then show ?thesis by (rule v(3))
  qed
  then have f: "free_list_at ls v ((b, n - 1) # ys @ [(e + 184, 1)])"
    using v2(4) linked_cong[of "blocks_info ls" 0 4 "(b, n - 1) # ys @ [(e + 184, 1)]" "vread v" "vread v2"] unfolding p by simp
  have "vread v w = vread (vmem st) w" if "w \<in> W" "w \<notin> ?S \<union> words_from e 50" for w
  proof -
    have "w \<notin> {link_cell 4 tree [], tree + 4, ?k, e + 192 - 8}" "w \<noteq> mp + 308" "w \<notin> {tree, tree + 4, b + 4} \<union> words_from e 50"
      using that kS node_words(1)[of e] unfolding p by auto
    then show ?thesis using v(3)[OF that(1)] v2(5)[OF that(1)] t(7) that(1) by simp
  qed
  moreover have "vread v (mp + 304) = Some 0" using v(3)[OF m(1)] c(1) by simp
  ultimately show thesis using that[OF t(1,2) walk fl v(2) f] v(4) by blast
qed

lemma region_part: "words_from (e + 4 * of_nat j) k \<subseteq> words_from e (j + k)"
proof
  fix w assume "w \<in> words_from (e + 4 * of_nat j) k"
  then obtain i where "i < k" "w = e + 4 * of_nat j + 4 * of_nat i" by (auto simp: words_from_def)
  then have "w = e + 4 * of_nat (j + i)" "j + i < j + k" by (simp_all add: algebra_simps)
  then show "w \<in> words_from e (j + k)" unfolding words_from_def by blast
qed

lemma room_after_walk:
  assumes room: "open_room ls st W b n ys tree mp K"
  defines "e \<equiv> b + 8 * (n - 25)"
  assumes s: "heap_sound ls st' W" "free_list_at ls (vmem st') ((b, n - 1) # ys @ [(e + 184, 1)])"
  shows "heap_room ls st' W [] b (n - 1) (ys @ [(e + 184, 1)]) 21 40" "b + 8 * (n - 1 - 21) = e + 24"
    "heap_writes b (n - 1) 21 \<union> words_from (e + 24) 40 \<subseteq> insert (b + 4) (words_from e 50)"
proof -
  note r = open_roomD[OF room, folded e_def]
  show a: "b + 8 * (n - 1 - 21) = e + 24" by (simp add: e_def algebra_simps)
  let ?S = "set (blocks_info ls # cells 0 4 ((b, n) # ys) @ [tree, tree + 4, mp + 304, mp + 308])"
  let ?F = "blocks_info ls # cells 0 4 ([] @ (b, n - 1) # ys @ [(e + 184, 1)])"
  have F: "set ?F = set (blocks_info ls # cells 0 4 ((b, n) # ys)) \<union> {e + 184, e + 188}" by (auto simp: add.commute[of 188 e])
  have nw: "{e + 184, e + 188} \<subseteq> W - ?S" using r(6) node_words[of e] by auto
  have hd: "e + 24 - 8 = e + 16" "e + 24 - 4 = e + 20" by simp_all
  have idx: "i < 50 \<Longrightarrow> e + 4 * of_nat i \<in> words_from e j \<longleftrightarrow> i < j" if "j \<le> 50" for i j using words_from_iff[of i j e] that by simp
  have hw: "e + 16 \<in> words_from e 50" "e + 20 \<in> words_from e 50" "e + 16 \<in> words_from e 46" "e + 20 \<in> words_from e 46"
    using end_words[of 4 e] end_words[of 5 e] idx[of 46 4] idx[of 46 5] by simp_all
  have d46: "e + 184 \<notin> words_from e 46" "e + 188 \<notin> words_from e 46" using idx[of 46 46] idx[of 46 47] by simp_all
  have blk: "words_from (e + 24) 40 \<subseteq> words_from e 46" using region_part[of e 6 40] by simp
  have w46: "words_from e 46 \<subseteq> words_from e 50" by (rule words_from_mono) simp
  have d24: "e + 16 \<notin> words_from (e + 24) 40" "e + 20 \<notin> words_from (e + 24) 40"
  proof -
    have "(4294967312 :: u32) = 16" "(4294967316 :: u32) = 20" by simp_all
    then have w: "e + 24 + 4 * of_nat 1073741822 = e + 16" "e + 24 + 4 * of_nat 1073741823 = e + 20" by simp_all
    then show "e + 16 \<notin> words_from (e + 24) 40" "e + 20 \<notin> words_from (e + 24) 40"
      using words_from_iff[of 1073741822 40 "e + 24", unfolded w(1)] words_from_iff[of 1073741823 40 "e + 24", unfolded w(2)] by simp_all
  qed
  have W46: "words_from e 46 \<subseteq> W - set ?F" using w46 r(6) d46 unfolding F by auto
  show "heap_writes b (n - 1) 21 \<union> words_from (e + 24) 40 \<subseteq> insert (b + 4) (words_from e 50)"
    unfolding heap_writes_def a hd using hw(1,2) blk w46 by blast
  have u: "21 < n - 1" using r(5) by (simp add: word_less_nat_alt unat_sub_if' word_le_nat_alt)
  have al: "word_of (e + 24) = e + 24" "word_of (e + 184) = e + 184" "word_of (e + 188) = e + 188"
    using word_of_step[OF r(8), of 6] word_of_step[OF r(8), of 46] word_of_step[OF r(8), of 47] by simp_all
  have "e + 24 \<noteq> 0" using end_words[of 6 e] r(10) by auto
  moreover have "distinct ?F" using r(3) nw by (auto simp: add.commute[of 188 e])
  moreover have "set ?F \<subseteq> W" "\<forall>w\<in>set ?F. word_of w = w" using r(4,9) nw al unfolding F by auto
  moreover have "{e + 16, e + 20} \<subseteq> W - set ?F" using hw(3,4) W46 by blast
  moreover have "words_from (e + 24) 40 \<subseteq> W - (set ?F \<union> {e + 16, e + 20})" using blk W46 d24 by blast
  ultimately show "heap_room ls st' W [] b (n - 1) (ys @ [(e + 184, 1)]) 21 40"
    unfolding heap_room_def Let_def a hd using s u al(1) by simp
qed

lemma initrd_image_cong:
  assumes "\<And>w. w \<in> K \<Longrightarrow> vread v' w = vread v w" "word_of start = start" "span start (4 + 28 * length files) \<subseteq> bytes_of K"
    and im: "initrd_image v start files"
  shows "initrd_image v' start files"
proof -
  note d = initrd_imageD[OF im]
  have "start \<in> span start (4 + 28 * length files)" by simp
  then have "start \<in> bytes_of K" using assms(3) by blast
  then have "start \<in> K" using assms(2) by simp
  moreover have "inode_at v' (start + 4 + of_nat i * sizeof_initrd_inode) (files ! i)" if "i < length files" for i
    using image_words[OF assms(2,3) d(2) that] by (intro inode_at_cong[OF assms(1) _ _ _ d(3)[OF that]])
  ultimately show ?thesis using assms(1) d by (simp add: initrd_image_def)
qed

lemma paged_cstr_kept:
  assumes "\<And>w. w \<in> K \<Longrightarrow> vread v' w = vread v w" "span a (Suc (length xs)) \<subseteq> bytes_of K" "length xs < 2 ^ 32 - 1" "paged_cstr v a xs"
  shows "paged_cstr v' a xs"
proof -
  have "rd8 v' (a + of_nat i) = rd8 v (a + of_nat i)" if "i \<le> length xs" for i
  proof (intro rd8_kept assms(1))
    have "a + of_nat i \<in> span a (Suc (length xs))" using that assms(3) by (intro of_nat_in_span) simp_all
    then show "word_of (a + of_nat i) \<in> K" using assms(2) bytes_of_iff by blast
  qed
  from paged_cstr_cong[of xs v' a v, OF this] assms(4) show ?thesis by simp
qed

text \<open>The ramdisk is mounted at the root and nothing below it.\<close>

definition root_mounted :: "fs_functions \<Rightarrow> vm \<Rightarrow> vfs_state \<Rightarrow> u32 \<Rightarrow> u32 \<Rightarrow> initrd_file list \<Rightarrow> u32 set \<Rightarrow> bool" where
  "root_mounted fns v vs fs start files K \<longleftrightarrow> fs \<noteq> 0 \<and> word_of start = start \<and> initrd_image v start files
     \<and> vread v (mount_points vs + mount_point_offset mounted_fs) = Some fs
     \<and> vread v (mount_points vs + mount_point_offset children) = Some 0 \<and> vread v (mount_points vs + 308) = Some 0
     \<and> vread v (fs + file_system_offset partition_begin_offset) = Some start
     \<and> vread v (fs + file_system_offset fs_open) = Some (initrd_open_at fns)
     \<and> vread v (fs + file_system_offset fs_read) = Some (initrd_read_at fns)
     \<and> {mount_points vs + mount_point_offset mounted_fs, fs + file_system_offset partition_begin_offset, fs + file_system_offset fs_open,
        fs + file_system_offset fs_read} \<subseteq> K
     \<and> span start (4 + 28 * length files) \<subseteq> bytes_of K"

lemma vfs_open_reaches_root:
  assumes room: "open_room ls st W b n ys tree (mount_points vs) K" and root: "root_mounted fns (vmem st) vs fs start files K"
    and path: "path \<noteq> 0" "paged_cstr (vmem st) path cs" "length cs < 2 ^ 31" "span path (Suc (length cs)) \<subseteq> bytes_of K"
  obtains st2 where "heap_sound ls st2 W" "free_list_at ls (vmem st2) ((b, n - 1) # ys @ [(b + 8 * (n - 25) + 184, 1)])"
    "\<forall>w\<in>K. vread (vmem st2) w = vread (vmem st) w" "root_mounted fns (vmem st2) vs fs start files K" 
    "vfs_open ls fns junk True tree vs st path = initrd_open ls junk st2 fs path" "paged_cstr (vmem st2) path cs"
proof -
  let ?mp = "mount_points vs"
  note rm = root[unfolded root_mounted_def mount_point_offset.simps file_system_offset.simps]
  note r = open_roomD[OF room]
  have c: "vread (vmem st) (?mp + 304) = Some 0" "vread (vmem st) (?mp + 308) = Some 0" using rm by simp_all
  obtain v1 st1 v where w: "initialize_list True (vmem st) tree = Some (True, v1)"
    "add_element ls junk (st\<lparr>vmem := v1\<rparr>) tree ?mp = Some (True, st1)"
    "vfs_walk ls junk vs tree path st1 = Some (?mp, st1\<lparr>vmem := v\<rparr>)" "free_list ls v tree = Some v"
    "heap_sound ls (st1\<lparr>vmem := v\<rparr>) W" "free_list_at ls v ((b, n - 1) # ys @ [(b + 8 * (n - 25) + 184, 1)])"
    "\<forall>w\<in>W. w \<notin> set (blocks_info ls # cells 0 4 ((b, n) # ys) @ [tree, tree + 4, ?mp + 304, ?mp + 308]) \<union> words_from (b + 8 * (n - 25)) 50
       \<longrightarrow> vread v w = vread (vmem st) w" "vread v (?mp + 304) = Some 0" "vread v (?mp + 308) = Some 0"
    by (rule vfs_walk_root[OF room refl c, of junk path])
  have K: "vread v w = vread (vmem st) w" if k: "w \<in> K" for w
  proof -
    have "w \<in> W" "w \<notin> set (blocks_info ls # cells 0 4 ((b, n) # ys) @ [tree, tree + 4, ?mp + 304, ?mp + 308])"
      "w \<notin> words_from (b + 8 * (n - 25)) 50" using k r(6,7) by blast+
    then show ?thesis using w(7) by blast
  qed
  have im: "initrd_image v start files" using rm by (intro initrd_image_cong[OF K]) blast+
  have cs: "paged_cstr v path cs" using path by (intro paged_cstr_kept[OF K]) simp_all
  have mounted: "root_mounted fns v vs fs start files K"
    using rm im w(8,9) K by (simp add: root_mounted_def)
  then have "vfs_open ls fns junk True tree vs st path = initrd_open ls junk (st1\<lparr>vmem := v\<rparr>) fs path"
    using w(1-4) r(13) by (simp add: vfs_open_def root_mounted_def)
  then show thesis using that[of "st1\<lparr>vmem := v\<rparr>"] w(5,6) K mounted cs by simp
qed

lemma vfs_open_found:
  assumes room: "open_room ls st W b n ys tree (mount_points vs) K" and root: "root_mounted fns (vmem st) vs fs start files K"
    and path: "path \<noteq> 0" "paged_cstr (vmem st) path cs" "length cs < 2 ^ 31" "span path (Suc (length cs)) \<subseteq> bytes_of K"
    and i: "i < length files" "fst (files ! i) = requested_name cs" "\<And>j. j < i \<Longrightarrow> fst (files ! j) \<noteq> requested_name cs"
      "start + 4 + of_nat i * sizeof_initrd_inode \<noteq> 0"
  defines "e \<equiv> b + 8 * (n - 25)"
  shows "\<exists>st'. vfs_open ls fns junk True tree vs st path = Some (e + 24, st') \<and> heap_sound ls st' W
    \<and> free_list_at ls (vmem st') ((b, n - 22) # ys @ [(e + 184, 1)])
    \<and> initrd_node (vmem st') (e + 24) fs start (length files) (files ! i)
    \<and> (\<forall>w\<in>K. vread (vmem st') w = vread (vmem st) w)"
proof -
  note r = open_roomD[OF room, folded e_def]
  obtain st2 where st2: "heap_sound ls st2 W" "free_list_at ls (vmem st2) ((b, n - 1) # ys @ [(e + 184, 1)])"
    "\<forall>w\<in>K. vread (vmem st2) w = vread (vmem st) w" "root_mounted fns (vmem st2) vs fs start files K"
    "vfs_open ls fns junk True tree vs st path = initrd_open ls junk st2 fs path" "paged_cstr (vmem st2) path cs"
    by (rule vfs_open_reaches_root[OF room root path, of junk, folded e_def])
  have im: "initrd_image (vmem st2) start files" "word_of start = start" "fs \<noteq> 0"
    "vread (vmem st2) (fs + file_system_offset partition_begin_offset) = Some start"
    and sp: "span start (4 + 28 * length files) \<subseteq> bytes_of K" using st2(4) unfolding root_mounted_def by blast+
  note hr = room_after_walk[OF room st2(1), folded e_def, OF st2(2)]
  have K: "K \<subseteq> W - (heap_writes b (n - 1) 21 \<union> words_from (b + 8 * (n - 1 - 21)) 40)" "\<forall>w\<in>K. word_of w = w"
    using r(6,7,9) hr(3) unfolding hr(2) by auto
  have n22: "n - 1 - 21 = n - 22" and a22: "b + 8 * (n - 22) = e + 24" by (simp_all add: e_def algebra_simps)
  obtain v' where "initrd_open ls junk st2 fs path = Some (e + 24, st2\<lparr>vmem := v'\<rparr>)" "heap_sound ls (st2\<lparr>vmem := v'\<rparr>) W"
    "free_list_at ls v' ([] @ (b, n - 22) # (ys @ [(e + 184, 1)]))" "initrd_node v' (e + 24) fs start (length files) (files ! i)"
    "\<forall>w\<in>K. vread v' w = vread (vmem st2) w"
    using initrd_open_found[OF hr(1) im path(1) st2(6) i K sp, of junk] unfolding n22 a22 by auto
  then show ?thesis using st2(3,5) by (intro exI[of _ "st2\<lparr>vmem := v'\<rparr>"]) simp
qed

lemma vfs_open_missing:
  assumes room: "open_room ls st W b n ys tree (mount_points vs) K" and root: "root_mounted fns (vmem st) vs fs start files K"
    and path: "path \<noteq> 0" "paged_cstr (vmem st) path cs" "length cs < 2 ^ 31" "span path (Suc (length cs)) \<subseteq> bytes_of K"
    and "requested_name cs \<notin> fst ` set files"
  shows "\<exists>st'. vfs_open ls fns junk True tree vs st path = Some (0, st') \<and> heap_sound ls st' W
    \<and> (\<forall>w\<in>K. vread (vmem st') w = vread (vmem st) w)"
proof -
  obtain st2 where st2: "heap_sound ls st2 W" "\<forall>w\<in>K. vread (vmem st2) w = vread (vmem st) w" "root_mounted fns (vmem st2) vs fs start files K"
    "vfs_open ls fns junk True tree vs st path = initrd_open ls junk st2 fs path" "paged_cstr (vmem st2) path cs"
    by (rule vfs_open_reaches_root[OF room root path, of junk]) (erule (4) that)
  then show ?thesis using initrd_open_missing[OF _ _ st2(5) assms(7), where fs = fs and start = start and junk = junk and ls = ls]
    by (auto simp: root_mounted_def)
qed

section \<open>Properties\<close>

text \<open>C8: with the ramdisk mounted at the root and nothing below it, \<open>vfs_open\<close> returns a node of
  the first file whose name the path asks for, with its name, size, file system and the address
  of its contents, and \<open>NULL\<close> when there is none; the mounted image is left as it was. When
  \<open>initialize_list\<close>, which has no \<open>return\<close>, happens to leave 0, no file can be opened.\<close>

theorem vfs_open_correct:
  assumes "open_room ls st W b n ys tree (mount_points vs) K" "root_mounted fns (vmem st) vs fs start files K"
    and "path \<noteq> 0" "paged_cstr (vmem st) path cs" "length cs < 2 ^ 31" "span path (Suc (length cs)) \<subseteq> bytes_of K"
    and "\<forall>i<length files. start + 4 + of_nat i * sizeof_initrd_inode \<noteq> 0"
  shows "(\<forall>i<length files. fst (files ! i) = requested_name cs \<longrightarrow> requested_name cs \<notin> fst ` set (take i files) \<longrightarrow>
      (\<exists>node st'. vfs_open ls fns junk True tree vs st path = Some (node, st') \<and> node \<noteq> 0
         \<and> initrd_node (vmem st') node fs start (length files) (files ! i) \<and> (\<forall>w\<in>K. vread (vmem st') w = vread (vmem st) w)))
    \<and> (requested_name cs \<notin> fst ` set files \<longrightarrow>
      (\<exists>st'. vfs_open ls fns junk True tree vs st path = Some (0, st') \<and> (\<forall>w\<in>K. vread (vmem st') w = vread (vmem st) w)))
    \<and> (\<exists>st'. vfs_open ls fns junk False tree vs st path = Some (0, st'))"
proof (intro conjI allI impI)
  fix i assume i: "i < length files" "fst (files ! i) = requested_name cs" "requested_name cs \<notin> fst ` set (take i files)"
  have "fst (files ! j) \<noteq> requested_name cs" if "j < i" for j
  proof -
    have "files ! j \<in> set (take i files)" using that i(1) by (auto simp: in_set_conv_nth intro!: exI[of _ j])
    then show ?thesis using i(3) by force
  qed
  moreover have "b + 8 * (n - 25) + 24 \<noteq> 0"
    using open_roomD(10)[OF assms(1)] end_words[of 6 "b + 8 * (n - 25)"] by auto
  ultimately show "\<exists>node st'. vfs_open ls fns junk True tree vs st path = Some (node, st') \<and> node \<noteq> 0
      \<and> initrd_node (vmem st') node fs start (length files) (files ! i) \<and> (\<forall>w\<in>K. vread (vmem st') w = vread (vmem st) w)"
    using vfs_open_found[OF assms(1-6) i(1,2), of junk] assms(7) i(1) by blast
next
  assume "requested_name cs \<notin> fst ` set files"
  then show "\<exists>st'. vfs_open ls fns junk True tree vs st path = Some (0, st') \<and> (\<forall>w\<in>K. vread (vmem st') w = vread (vmem st) w)"
    using vfs_open_missing[OF assms(1-6)] by blast
next
  note r = open_roomD[OF assms(1)]
  have W: "tree \<in> W" "tree + 4 \<in> W" using r(4) by auto
  have s: "heap_sound ls (st\<lparr>vmem := vmem st\<rparr>) W" using r(1) by simp
  obtain v0 where v0: "vwrite (vmem st) tree 0 = Some v0" "heap_sound ls (st\<lparr>vmem := v0\<rparr>) W" "vread v0 tree = Some 0"
    using heap.wr_word[OF s W(1)] by blast
  obtain v1 where "vwrite v0 (tree + 4) 0 = Some v1" "\<And>w. w \<in> W \<Longrightarrow> w \<noteq> tree + 4 \<Longrightarrow> vread v1 w = vread v0 w"
    using heap.wr_word[OF v0(2) W(2)] by blast
  then have "vread v1 tree = Some 0" "initialize_list False (vmem st) tree = Some (False, v1)"
    using v0 W(1) r(12) by (simp_all add: initialize_list_def)
  then show "\<exists>st'. vfs_open ls fns junk False tree vs st path = Some (0, st')"
    by (simp add: vfs_open_def free_list_def free_nodes.simps[of ls v1 0])
qed

text \<open>C27: \<open>vfs_mount\<close> at the root stores a file system that can read, open and close, and refuses
  one that cannot; without a root it refuses every other path. With a root mounted, a mount at
  another path changes nothing and returns whatever is left over.\<close>

theorem vfs_mount_correct:
  assumes "heap_sound ls st W" "root_mount_point vs + mount_point_offset mounted_fs \<in> W"
    and "paged_cstr (vmem st) path cs" "paged_cstr (vmem st) slash [0x2F]" "path \<noteq> 0" "fs \<noteq> 0"
    and f: "vread (vmem st) (fs + file_system_offset fs_read) = Some fread" "vread (vmem st) (fs + file_system_offset fs_open) = Some fopen"
      "vread (vmem st) (fs + file_system_offset fs_close) = Some fclose"
    and root: "vread (vmem st) (root_mount_point vs + mount_point_offset mounted_fs) = Some old"
  shows "if cs = [0x2F] \<and> fread \<noteq> 0 \<and> fopen \<noteq> 0 \<and> fclose \<noteq> 0
    then \<exists>v'. vfs_mount left_over slash vs (vmem st) path fs = Some (SUCCESS, v') \<and> heap_sound ls (st\<lparr>vmem := v'\<rparr>) W
      \<and> (\<forall>w\<in>W. vread v' w = (if w = root_mount_point vs + mount_point_offset mounted_fs then Some fs else vread (vmem st) w))
    else vfs_mount left_over slash vs (vmem st) path fs
      = Some (if cs = [0x2F] then FAILURE else if old = 0 then NO_SUCH_DIRECTORY else left_over, vmem st)"
proof -
  obtain c where c: "paged_strcmp (vmem st) path slash = Some c" "c = 0 \<longleftrightarrow> cs = [0x2F]" using paged_strcmp_zero_iff[OF assms(3,4)] by blast
  have s: "heap_sound ls (st\<lparr>vmem := vmem st\<rparr>) W" using assms(1) by simp
  obtain v' where "vwrite (vmem st) (root_mount_point vs + mount_point_offset mounted_fs) fs = Some v'" "heap_sound ls (st\<lparr>vmem := v'\<rparr>) W"
    "\<forall>w\<in>W. vread v' w = (if w = root_mount_point vs + mount_point_offset mounted_fs then Some fs else vread (vmem st) w)"
    using heap.wr_good[OF s assms(2)] by blast
  then show ?thesis using c assms(5,6) f root by (auto simp: vfs_mount_def)
qed

text \<open>The sample disk, mounted at the root.\<close>

definition sample_vfs :: vfs_state where
  "sample_vfs = \<lparr>mount_points = 0xC0800140, root_mount_point = 0xC0800140\<rparr>"

definition sample_functions :: fs_functions where
  "sample_functions = \<lparr>initrd_read_at = 0x1000, initrd_open_at = 0x2000, initrd_close_at = 0x3000\<rparr>"

definition sample_kept :: "u32 set" where
  "sample_kept = insert 0xC080026C (words_between 0xC0800300 0xC0800510)"

lemma page_words_mem:
  "w \<in> words_between lo hi \<Longrightarrow> 0xC0800000 \<le> lo \<Longrightarrow> hi \<le> 0xC0801000 \<Longrightarrow> w \<in> first_heap_page"
  using order.trans[OF words_between_mono words_between_page] by blast

lemma sample_room:
  assumes "heap_sound example_linker st first_heap_page" "free_list_at example_linker (vmem st) [(0xC0800000, 511)]"
  shows "open_room example_linker st first_heap_page 0xC0800000 511 [] 0xC0800100 (mount_points sample_vfs) sample_kept"
proof -
  let ?S = "blocks_info example_linker # cells 0 4 [(0xC0800000, 511 :: u32)] @ [0xC0800100, 0xC0800100 + 4, 0xC0800140 + 304, 0xC0800140 + 308]"
  have S: "set ?S = {0xC0120000, 0xC0800000, 0xC0800004, 0xC0800100, 0xC0800104, 0xC0800270, 0xC0800274}"
    by (simp add: booted_head_cell)
  have pw: "x \<in> first_heap_page" if "x = 0xC0120000 \<or> word_of x = x \<and> 0xC0800000 \<le> x \<and> x < 0xC0801000" for x
    using that page_words_mem[of x "0xC0800000" "0xC0801000"] unfolding words_between_iff by blast
  have e: "words_from 0xC0800F30 50 \<subseteq> words_between 0xC0800F30 0xC0801000" by (rule words_from_between) (simp_all add: word_of_def)
  have "set ?S \<subseteq> first_heap_page" unfolding S by (intro subsetI pw) (auto simp: word_of_def)
  moreover have "words_from 0xC0800F30 50 \<subseteq> first_heap_page - (set ?S \<union> sample_kept)"
  proof
    fix w assume "w \<in> words_from 0xC0800F30 50"
    with e have w: "w \<in> words_between 0xC0800F30 0xC0801000" by blast
    moreover have "w \<in> first_heap_page" by (rule page_words_mem[OF w]) simp_all
    moreover have "w \<notin> words_between 0xC0800300 0xC0800510" using w words_between_apart[of "0xC0800510" "0xC0800F30"] by auto
    ultimately show "w \<in> first_heap_page - (set ?S \<union> sample_kept)"
      unfolding S sample_kept_def by (auto simp: words_between_iff)
  qed
  moreover have "sample_kept \<subseteq> first_heap_page - set ?S"
  proof
    fix w assume "w \<in> sample_kept"
    then consider "w = 0xC080026C" | "w \<in> words_between 0xC0800300 0xC0800510" by (auto simp: sample_kept_def)
    then show "w \<in> first_heap_page - set ?S"
    proof cases
      case 1
      then show ?thesis unfolding S using pw[of w] by (simp add: word_of_def)
    next
      case 2
      then have "w \<in> first_heap_page" by (rule page_words_mem) simp_all
      with 2 show ?thesis unfolding S by (auto simp: words_between_iff)
    qed
  qed
  moreover have "0 \<notin> words_from 0xC0800F30 50" using e by (auto simp: words_between_iff)
  moreover have "\<forall>w\<in>set ?S \<union> sample_kept. word_of w = w" unfolding S by (auto simp: word_of_def sample_kept_def words_between_iff)
  moreover have "distinct ?S" by (simp add: booted_head_cell)
  moreover have "(0xC0800000 :: u32) + 8 * (511 - 25) = 0xC0800F30" "word_of 0xC0800F30 = 0xC0800F30" by (simp_all add: word_of_def)
  moreover have "mount_points sample_vfs = 0xC0800140" by (simp add: sample_vfs_def)
  ultimately show ?thesis using assms unfolding open_room_def Let_def append_Cons by simp
qed

lemma sample_root:
  assumes "\<forall>(a, x)\<in>set disk_words. vread (vmem st) a = Some x"
  shows "root_mounted sample_functions (vmem st) sample_vfs 0xC0800300 0xC0800400 [([0x61], 0, 4)] sample_kept"
proof -
  have "span 0xC0800400 (4 + 28 * 1) \<subseteq> bytes_of (words_between 0xC0800300 0xC0800510)"
    by (intro span_between) (simp_all add: word_of_def)
  then have "span 0xC0800400 32 \<subseteq> bytes_of sample_kept" unfolding sample_kept_def bytes_of_def by auto
  moreover have "\<forall>w\<in>{0xC080026C, 0xC080031C, 0xC080032C, 0xC0800324}. w \<in> sample_kept"
    by (simp add: sample_kept_def words_between_iff word_of_def)
  ultimately show ?thesis using disk_bytes(4)[OF assms] assms
    by (simp add: root_mounted_def sample_vfs_def sample_functions_def disk_words_def word_of_def)
qed

lemma sample_path:
  assumes "\<forall>(a, x)\<in>set disk_words. vread (vmem st) a = Some x"
  shows "(0xC0800500 :: u32) \<noteq> 0" "paged_cstr (vmem st) 0xC0800500 [0x2F, 0x61]" "length [0x2F, 0x61 :: byte] < 2 ^ 31"
    "span 0xC0800500 (Suc (length [0x2F, 0x61 :: byte])) \<subseteq> bytes_of sample_kept"
    "\<forall>i<length [([0x61 :: byte], 0 :: u32, 4 :: u32)]. 0xC0800400 + 4 + of_nat i * sizeof_initrd_inode \<noteq> 0"
proof -
  have "span 0xC0800500 3 \<subseteq> bytes_of (words_between 0xC0800300 0xC0800510)" by (intro span_between) (simp_all add: word_of_def)
  then show "span 0xC0800500 (Suc (length [0x2F, 0x61 :: byte])) \<subseteq> bytes_of sample_kept" unfolding sample_kept_def bytes_of_def by (simp add: eval_nat_numeral) blast
qed (use disk_bytes(1)[OF assms] in simp_all)

theorem vfs_open_correct_witness:
  "\<exists>st node st'. vread (vmem st) 0xC0800408 = Some 4
    \<and> vfs_open example_linker sample_functions (\<lambda>_. 0) True 0xC0800100 sample_vfs st 0xC0800500 = Some (node, st')
    \<and> node \<noteq> 0 \<and> initrd_node (vmem st') node 0xC0800300 0xC0800400 1 ([0x61], 0, 4)"
proof (rule sample_disk)
  fix st assume st: "heap_sound example_linker st first_heap_page" "free_list_at example_linker (vmem st) [(0xC0800000, 511)]"
    "\<forall>(a, x)\<in>set disk_words. vread (vmem st) a = Some x"
  have "\<exists>node st'. vfs_open example_linker sample_functions (\<lambda>_. 0) True 0xC0800100 sample_vfs st 0xC0800500 = Some (node, st') \<and> node \<noteq> 0
      \<and> initrd_node (vmem st') node 0xC0800300 0xC0800400 (length [([0x61 :: byte], 0 :: u32, 4 :: u32)]) ([([0x61], 0, 4)] ! 0)"
    using vfs_open_correct[OF sample_room[OF st(1,2)] sample_root[OF st(3)] sample_path[OF st(3)], of "\<lambda>_. 0", THEN conjunct1, rule_format, of 0]
    by (auto simp: requested_name_def)
  moreover have "vread (vmem st) 0xC0800408 = Some 4" using st(3) by (simp add: disk_words_def)
  ultimately show ?thesis by auto
qed

theorem vfs_mount_correct_witness:
  "\<exists>v v'. vread v 0xC080026C = Some 0xC0800300
    \<and> vfs_mount FAILURE 0xC0800504 sample_vfs v 0xC0800504 0xC0800300 = Some (SUCCESS, v') \<and> vread v' 0xC080026C = Some 0xC0800300
    \<and> vfs_mount FAILURE 0xC0800504 sample_vfs v 0xC0800500 0xC0800300 = Some (FAILURE, v)"
proof (rule sample_disk)
  fix st assume st: "heap_sound example_linker st first_heap_page" "\<forall>(a, x)\<in>set disk_words. vread (vmem st) a = Some x"
  have w: "0xC080026C \<in> first_heap_page" by (rule page_words_mem[of _ "0xC0800000" "0xC0801000"]) (simp_all add: words_between_iff word_of_def)
  have c: "root_mount_point sample_vfs + mount_point_offset mounted_fs = 0xC080026C" by (simp add: sample_vfs_def)
  have f: "vread (vmem st) (0xC0800300 + file_system_offset fs_read) = Some 0x1000" "vread (vmem st) (0xC0800300 + file_system_offset fs_open) = Some 0x2000"
    "vread (vmem st) (0xC0800300 + file_system_offset fs_close) = Some 0x3000" "vread (vmem st) 0xC080026C = Some 0xC0800300"
    using st(2) by (simp_all add: disk_words_def)
  note m = vfs_mount_correct[OF st(1), of sample_vfs, unfolded c, OF w _ disk_bytes(2)[OF st(2)] _ _ f, where left_over = FAILURE]
  have "\<exists>v'. vfs_mount FAILURE 0xC0800504 sample_vfs (vmem st) 0xC0800504 0xC0800300 = Some (SUCCESS, v')
      \<and> (\<forall>w\<in>first_heap_page. vread v' w = (if w = 0xC080026C then Some 0xC0800300 else vread (vmem st) w))"
    using m[OF disk_bytes(2)[OF st(2)]] by auto
  then obtain v' where "vfs_mount FAILURE 0xC0800504 sample_vfs (vmem st) 0xC0800504 0xC0800300 = Some (SUCCESS, v')" "vread v' 0xC080026C = Some 0xC0800300"
    using w by (metis (full_types))
  moreover have "vfs_mount FAILURE 0xC0800504 sample_vfs (vmem st) 0xC0800500 0xC0800300 = Some (FAILURE, vmem st)"
    using m[OF disk_bytes(1)[OF st(2)]] by simp
  ultimately show ?thesis using f(4) by (intro exI[of _ "vmem st"] exI[of _ v']) simp
qed

end
