(* ===== verification/Files.thy ===== *)
theory Files
  imports Vfs
begin

text \<open>
  Open files, \<^verbatim>\<open>src/kernel/fs/file.c\<close>, over the virtual file system. A \<open>file_t\<close> is three
  double words of the heap: the mode, the offset and the node. \<open>write_at\<close> gives the function
  behind a \<open>write\<close> pointer, if any: no file system of the kernel has one.
\<close>

section \<open>Definitions\<close>

datatype file_mode_t = READ | WRITE | APPEND | CREATE_FILE | TRUNCATE_TO_ZERO

primrec file_mode_value :: "file_mode_t \<Rightarrow> u32" where
  "file_mode_value READ = 1"
| "file_mode_value WRITE = 2"
| "file_mode_value APPEND = 4"
| "file_mode_value CREATE_FILE = 8"
| "file_mode_value TRUNCATE_TO_ZERO = 16"

definition mode_bits :: "file_mode_t list \<Rightarrow> u32" where
  "mode_bits ms = foldr (\<lambda>m bits. file_mode_value m OR bits) ms 0"

definition modes_bits :: "u32 list" where
  "modes_bits = map mode_bits [[READ], [READ],
     [WRITE, CREATE_FILE, TRUNCATE_TO_ZERO],
     [WRITE, CREATE_FILE, TRUNCATE_TO_ZERO],
     [APPEND, CREATE_FILE], [APPEND, CREATE_FILE],
     [READ, WRITE], [READ, WRITE], [READ, WRITE],
     [TRUNCATE_TO_ZERO, CREATE_FILE, READ, WRITE],
     [TRUNCATE_TO_ZERO, CREATE_FILE, READ, WRITE],
     [TRUNCATE_TO_ZERO, CREATE_FILE, READ, WRITE],
     [APPEND, CREATE_FILE],
     [APPEND, CREATE_FILE],
     [APPEND, CREATE_FILE]]"

text \<open>The strings that \<open>possible_modes\<close> points to; where they are is an argument.\<close>

definition possible_modes :: "string list" where
  "possible_modes = [''r'', ''rb'', ''w'', ''wb'', ''a'', ''ab'', ''r+'', ''rb+'', ''r+b'',
     ''w+'', ''wb+'', ''w+b'', ''a+'', ''ab+'', ''a+b'']"

datatype file_field = file_mode | file_offset | file_inode

primrec file_t_offset :: "file_field \<Rightarrow> u32" where
  "file_t_offset file_mode = 0"
| "file_t_offset file_offset = 4"
| "file_t_offset file_inode = 8"

definition sizeof_file :: u32 where "sizeof_file = 12"

definition SEEK_SET :: u32 where "SEEK_SET = 0"
definition SEEK_CUR :: u32 where "SEEK_CUR = 1"
definition SEEK_END :: u32 where "SEEK_END = 2"

text \<open>The search of \<open>file_open\<close> through the modes, from index \<open>i\<close> on.\<close>

primrec find_mode :: "vm \<Rightarrow> u32 \<Rightarrow> u32 list \<Rightarrow> nat \<Rightarrow> (nat option \<times> vm) option" where
  "find_mode v mode_buf [] i = Some (None, v)"
| "find_mode v mode_buf (m # ms) i = do {
     (r, v1) \<leftarrow> paged_strncmp v mode_buf m 3;
     if r = 0 then Some (Some i, v1) else find_mode v1 mode_buf ms (Suc i)
   }"

record file_frame =
  modes_at :: "u32 list"
  mode_buf_at :: u32
  tree_nodes_at :: u32

definition file_open ::
  "linker_symbols \<Rightarrow> fs_functions \<Rightarrow> (nat \<Rightarrow> int) \<Rightarrow> bool \<Rightarrow> file_frame \<Rightarrow> vfs_state \<Rightarrow> kernel_mm \<Rightarrow> u32 \<Rightarrow> u32 \<Rightarrow> (u32 \<times> kernel_mm) option" where
  "file_open ls fns junk left_over fr vs st path mode =
     (if path = 0 then Some (0, st)
      else do {
        mode_size \<leftarrow> paged_strlen (vmem st) mode;
        v1 \<leftarrow> paged_memcpy (vmem st) (mode_buf_at fr) mode mode_size;
        v2 \<leftarrow> wr8 v1 (mode_buf_at fr + mode_size) 0;
        (found, v3) \<leftarrow> find_mode v2 (mode_buf_at fr) (modes_at fr) 0;
        case found of
          None \<Rightarrow> Some (0, st\<lparr>vmem := v3\<rparr>)
        | Some i \<Rightarrow> do {
            (inode, st4) \<leftarrow> vfs_open ls fns junk left_over (tree_nodes_at fr) vs (st\<lparr>vmem := v3\<rparr>) path;
            if inode = 0 then Some (0, st4)
            else do {
              (file, st5) \<leftarrow> kmalloc ls junk st4 sizeof_file;
              v6 \<leftarrow> vwrite (vmem st5) (file + file_t_offset file_inode) inode;
              v7 \<leftarrow> vwrite v6 (file + file_t_offset file_mode) (modes_bits ! i);
              v8 \<leftarrow> vwrite v7 (file + file_t_offset file_offset) 0;
              Some (file, st5\<lparr>vmem := v8\<rparr>)
            }
          }
      })"

definition file_read :: "fs_functions \<Rightarrow> vm \<Rightarrow> u32 \<Rightarrow> u32 \<Rightarrow> u32 \<Rightarrow> (u32 \<times> vm) option" where
  "file_read fns v file buffer len =
     (if buffer = 0 \<or> file = 0 then Some (0, v)
      else do {
        inode \<leftarrow> vread v (file + file_t_offset file_inode);
        sz \<leftarrow> vread v (inode + fs_node_offset node_size);
        offset \<leftarrow> vread v (file + file_t_offset file_offset);
        (bytes_read, v1) \<leftarrow> vfs_read fns v inode offset (if len > sz - offset then sz - offset else len) buffer;
        offset1 \<leftarrow> vread v1 (file + file_t_offset file_offset);
        v2 \<leftarrow> vwrite v1 (file + file_t_offset file_offset) (offset1 + bytes_read);
        Some (bytes_read, v2)
      })"

definition file_write ::
  "(u32 \<Rightarrow> (vm \<Rightarrow> u32 \<Rightarrow> u32 \<Rightarrow> u32 \<Rightarrow> u32 \<Rightarrow> (u32 \<times> vm) option) option) \<Rightarrow> vm \<Rightarrow> u32 \<Rightarrow> u32 \<Rightarrow> u32 \<Rightarrow> (u32 \<times> vm) option" where
  "file_write write_at v file buffer len =
     (if buffer = 0 \<or> file = 0 then Some (error_code_value INVALID_ARGUMENT, v)
      else do {
        inode \<leftarrow> vread v (file + file_t_offset file_inode);
        fs \<leftarrow> vread v (inode + fs_node_offset node_fs);
        f \<leftarrow> vread v (fs + file_system_offset fs_write);
        write \<leftarrow> write_at f;
        offset \<leftarrow> vread v (file + file_t_offset file_offset);
        (bytes_written, v1) \<leftarrow> write v inode offset len buffer;
        offset1 \<leftarrow> vread v1 (file + file_t_offset file_offset);
        v2 \<leftarrow> vwrite v1 (file + file_t_offset file_offset) (offset1 + bytes_written);
        Some (bytes_written, v2)
      })"

definition file_close :: "linker_symbols \<Rightarrow> fs_functions \<Rightarrow> vm \<Rightarrow> u32 \<Rightarrow> (error_code_t \<times> vm) option" where
  "file_close ls fns v file =
     (if file = 0 then Some (INVALID_ARGUMENT, v)
      else do {
        inode \<leftarrow> vread v (file + file_t_offset file_inode);
        v1 \<leftarrow> vfs_close ls fns v inode;
        v2 \<leftarrow> kfree ls v1 file;
        Some (SUCCESS, v2)
      })"

text \<open>\<open>jmp\<close> is signed, the offset and the size are not: a comparison with the size is unsigned,
  and \<open>file->offset + jmp < 0\<close> never holds. Without an error the function ends without a
  \<open>return\<close>.\<close>

definition file_seek :: "error_code_t \<Rightarrow> vm \<Rightarrow> u32 \<Rightarrow> u32 \<Rightarrow> u32 \<Rightarrow> (error_code_t \<times> vm) option" where
  "file_seek left_over v file jmp seek_type =
     (if file = 0 then Some (INVALID_ARGUMENT, v)
      else if seek_type = SEEK_SET then
        if sint jmp < 0 then Some (INVALID_ARGUMENT, v)
        else do {
          inode \<leftarrow> vread v (file + file_t_offset file_inode);
          sz \<leftarrow> vread v (inode + fs_node_offset node_size);
          if jmp \<ge> sz then Some (INVALID_ARGUMENT, v)
          else do { v1 \<leftarrow> vwrite v (file + file_t_offset file_offset) jmp; Some (left_over, v1) }
        }
      else if seek_type = SEEK_CUR then do {
        offset \<leftarrow> vread v (file + file_t_offset file_offset);
        inode \<leftarrow> vread v (file + file_t_offset file_inode);
        sz \<leftarrow> vread v (inode + fs_node_offset node_size);
        if offset + jmp \<ge> sz \<or> offset + jmp < 0 then Some (INVALID_ARGUMENT, v)
        else do { v1 \<leftarrow> vwrite v (file + file_t_offset file_offset) (offset + jmp); Some (left_over, v1) }
      }
      else if seek_type = SEEK_END then
        if sint jmp \<le> 0 then do {
          offset \<leftarrow> vread v (file + file_t_offset file_offset);
          v1 \<leftarrow> vwrite v (file + file_t_offset file_offset) (offset - jmp);
          Some (left_over, v1)
        } else Some (INVALID_ARGUMENT, v)
      else Some (INVALID_ARGUMENT, v))"

section \<open>An open file\<close>

text \<open>What an open file of the ramdisk stands for: its contents and a position in them.\<close>

definition file_view :: "fs_functions \<Rightarrow> vm \<Rightarrow> u32 \<Rightarrow> u32 \<Rightarrow> u32 \<Rightarrow> u32 \<Rightarrow> byte list \<times> nat \<Rightarrow> bool" where
  "file_view fns v file node addr fs f \<longleftrightarrow> file \<noteq> 0 \<and> node \<noteq> 0 \<and> length (fst f) < 2 ^ 32 \<and> snd f \<le> length (fst f)
     \<and> vread v (file + file_t_offset file_inode) = Some node
     \<and> vread v (file + file_t_offset file_offset) = Some (of_nat (snd f))
     \<and> vread v (node + fs_node_offset node_size) = Some (of_nat (length (fst f)))
     \<and> vread v (node + fs_node_offset node_fs_specific) = Some addr
     \<and> vread v (node + fs_node_offset node_fs) = Some fs
     \<and> vread v (fs + file_system_offset fs_read) = Some (initrd_read_at fns)
     \<and> (\<forall>i<length (fst f). rd8 v (addr + of_nat i) = Some (fst f ! i))"

text \<open>The abstract operation: the next bytes, at most as many as asked for.\<close>

definition abstract_read :: "nat \<Rightarrow> byte list \<times> nat \<Rightarrow> byte list \<times> (byte list \<times> nat)" where
  "abstract_read n f = (let out = take n (drop (snd f) (fst f)) in (out, (fst f, snd f + length out)))"

text \<open>The double words an open file is made of.\<close>

definition file_words :: "u32 \<Rightarrow> u32 \<Rightarrow> u32 \<Rightarrow> u32 set" where
  "file_words file node fs = {file + file_t_offset file_inode, file + file_t_offset file_offset, node + fs_node_offset node_size,
     node + fs_node_offset node_fs_specific, node + fs_node_offset node_fs, fs + file_system_offset fs_read}"

lemma file_view_cong:
  assumes "\<And>w. w \<in> file_words file node fs - {file + 4} \<Longrightarrow> vread v' w = vread v w"
    and "\<And>i. i < length cs \<Longrightarrow> rd8 v' (addr + of_nat i) = rd8 v (addr + of_nat i)"
    and "vread v' (file + file_t_offset file_offset) = Some (of_nat k)" "k \<le> length cs"
    and "file + 4 \<notin> {node + 148, node + 152, node + 156, fs + 36}"
    and "file_view fns v file node addr fs (cs, pos)"
  shows "file_view fns v' file node addr fs (cs, k)"
proof -
  have "vread v' w = vread v w" if "w \<in> {file + 8, node + 148, node + 152, node + 156, fs + 36}" for w
    using assms(1)[of w] assms(5) that by (auto simp: file_words_def)
  then show ?thesis using assms(2-4,6) by (simp add: file_view_def)
qed

context kernel_words
begin

text \<open>The call of the ramdisk that a read of the next bytes makes.\<close>

lemma initrd_read_next:
  assumes w: "good W v" and f: "file_view fns v file node addr fs (cs, pos)" and buffer: "buffer \<noteq> 0"
    and out: "out = take n (drop pos cs)" and bytes: "span addr (length cs) \<subseteq> bytes_of W"
    and buf: "span buffer (length out) \<subseteq> bytes_of W" "span buffer (length out) \<inter> span addr (length cs) = {}"
  obtains v1 where "initrd_read v node (of_nat pos) (of_nat (length out)) buffer = Some (of_nat (length out), v1)" "good W v1"
    "\<forall>i<length out. rd8 v1 (buffer + of_nat i) = Some (out ! i)"
    "\<forall>c\<in>bytes_of W. c \<notin> span buffer (length out) \<longrightarrow> rd8 v1 c = rd8 v c"
proof (cases "out = []")
  case True
  then have "initrd_read v node (of_nat pos) (of_nat (length out)) buffer = Some (of_nat (length out), v)" by (simp add: initrd_read_def)
  then show ?thesis using that[of v] w True by simp
next
  case False
  let ?len = "of_nat (length out) :: u32"
  note fd = f[unfolded file_view_def fst_conv snd_conv, simplified]
  have pc: "pos + length out \<le> length cs" "length cs < 2 ^ 32" using fd by (auto simp: out)
  then have ulen: "unat ?len = length out" by (simp add: unat_of_nat)
  have sub: "span (addr + of_nat pos) (length out) \<subseteq> span addr (length cs)"
    using pc by (intro span_inside) (simp add: unat_of_nat)
  have le: "of_nat pos + ?len \<le> (of_nat (length cs) :: u32)" using pc by (simp add: word_le_nat_alt unat_word_ariths unat_of_nat)
  have pos': "0 < ?len" using False ulen by (simp add: word_less_nat_alt)
  have b: "span (addr + of_nat pos) (unat ?len) \<subseteq> bytes_of W" "span buffer (unat ?len) \<subseteq> bytes_of W"
    "span (addr + of_nat pos) (unat ?len) \<inter> span buffer (unat ?len) = {}"
    using sub bytes buf unfolding ulen by fastforce+
  have n: "node \<noteq> 0" "vread v (node + fs_node_offset node_size) = Some (of_nat (length cs))"
    "vread v (node + fs_node_offset node_fs_specific) = Some addr" using fd by simp_all
  obtain v1 where v1: "initrd_read v node (of_nat pos) ?len buffer = Some (?len, v1)" "good W v1"
    "\<forall>i<unat ?len. rd8 v1 (buffer + of_nat i) = rd8 v (addr + of_nat pos + of_nat i)"
    "\<forall>c\<in>bytes_of W. c \<notin> span buffer (unat ?len) \<longrightarrow> rd8 v1 c = rd8 v c"
    using initrd_read_copies[OF w n(1) buffer pos' n(2,3) le b] by metis
  have "rd8 v1 (buffer + of_nat i) = Some (out ! i)" if "i < length out" for i
  proof -
    have "addr + of_nat pos + of_nat i = addr + of_nat (pos + i)" by simp
    moreover have "rd8 v (addr + of_nat (pos + i)) = Some (cs ! (pos + i))" using fd that pc(1) by (simp del: of_nat_add)
    moreover have "cs ! (pos + i) = out ! i" using that fd by (simp add: out)
    ultimately show ?thesis using v1(3) that unfolding ulen by metis
  qed
  then show ?thesis using that v1(1,2,4) unfolding ulen by blast
qed

lemma file_read_step:
  assumes w: "good W v" and f: "file_view fns v file node addr fs (cs, pos)" and buffer: "buffer \<noteq> 0"
    and words: "file_words file node fs \<subseteq> W" "\<forall>w\<in>file_words file node fs. word_of w = w"
      "file + 4 \<notin> {node + 148, node + 152, node + 156, fs + 36}"
    and bytes: "span addr (length cs) \<subseteq> bytes_of (W - {file + 4})"
    and out: "out = take (unat len) (drop pos cs)"
    and buf: "span buffer (length out) \<subseteq> bytes_of (W - file_words file node fs)" "span buffer (length out) \<inter> span addr (length cs) = {}"
  shows "\<exists>v'. file_read fns v file buffer len = Some (of_nat (length out), v') \<and> good W v'
    \<and> (\<forall>i<length out. rd8 v' (buffer + of_nat i) = Some (out ! i))
    \<and> file_view fns v' file node addr fs (cs, pos + length out)
    \<and> (\<forall>c\<in>bytes_of W. c \<notin> span buffer (length out) \<longrightarrow> word_of c \<noteq> file + 4 \<longrightarrow> rd8 v' c = rd8 v c)"
proof -
  let ?len = "of_nat (length out) :: u32"
  note fd = f[unfolded file_view_def fst_conv snd_conv, simplified]
  have lo: "length out = min (unat len) (length cs - pos)" by (simp add: out)
  have pc: "pos \<le> length cs" "length cs < 2 ^ 32" using fd by simp_all
  have rest: "unat (of_nat (length cs) - of_nat pos :: u32) = length cs - pos" using pc by (simp add: unat_sub_if' unat_of_nat)
  have clamp: "(if len > of_nat (length cs) - of_nat pos then of_nat (length cs) - of_nat pos else len) = ?len"
    using pc lo by (intro word_unat_eq_iff[THEN iffD2]) (auto simp: word_less_nat_alt rest unat_of_nat)
  have "span addr (length cs) \<subseteq> bytes_of W" "span buffer (length out) \<subseteq> bytes_of W" using bytes buf by fastforce+
  then obtain v1 where v1: "initrd_read v node (of_nat pos) ?len buffer = Some (?len, v1)" "good W v1"
    "\<forall>i<length out. rd8 v1 (buffer + of_nat i) = Some (out ! i)"
    "\<forall>c\<in>bytes_of W. c \<notin> span buffer (length out) \<longrightarrow> rd8 v1 c = rd8 v c"
    using initrd_read_next[OF w f buffer out _ _ buf(2)] by metis
  have kept: "vread v1 w = vread v w" if "w \<in> file_words file node fs" for w
    using words_kept[OF w v1(2), of "span buffer (length out)" w] v1(4) words(1,2) buf(1) that word_of_span_word[of w] by fastforce
  have o1: "vread v1 (file + 4) = Some (of_nat pos)" using kept[of "file + 4"] fd by (simp add: file_words_def)
  have fW: "file + 4 \<in> W" using words(1) by (simp add: file_words_def)
  obtain v2 where v2: "vwrite v1 (file + 4) (of_nat pos + ?len) = Some v2" "good W v2" "vread v2 (file + 4) = Some (of_nat pos + ?len)"
    "\<And>w. w \<in> W \<Longrightarrow> w \<noteq> file + 4 \<Longrightarrow> vread v2 w = vread v1 w" using wr_word[OF v1(2) fW] by blast
  have b2: "rd8 v2 c = rd8 v1 c" if "c \<in> bytes_of W" "word_of c \<noteq> file + 4" for c using that v2(4) by (intro rd8_kept) simp
  have "file_read fns v file buffer len = Some (?len, v2)"
    using fd buffer clamp v1(1) o1 v2(1) by (simp add: file_read_def vfs_read_def)
  moreover have "rd8 v2 (buffer + of_nat i) = Some (out ! i)" if "i < length out" for i
  proof -
    have "buffer + of_nat i \<in> span buffer (length out)" using that lo pc by (intro of_nat_in_span) simp_all
    then have "buffer + of_nat i \<in> bytes_of (W - file_words file node fs)" using buf(1) by blast
    then show ?thesis using b2[of "buffer + of_nat i"] v1(3) that by (auto simp: file_words_def)
  qed
  moreover have "file_view fns v2 file node addr fs (cs, pos + length out)"
  proof -
    have "vread v2 w = vread v w" if "w \<in> file_words file node fs - {file + 4}" for w using that v2(4)[of w] kept[of w] words(1) by auto
    moreover have "rd8 v2 (addr + of_nat i) = rd8 v (addr + of_nat i)" if "i < length cs" for i
    proof -
      have i: "addr + of_nat i \<in> span addr (length cs)" using that pc by (simp add: unat_of_nat)
      then have "addr + of_nat i \<in> bytes_of (W - {file + 4})" "addr + of_nat i \<notin> span buffer (length out)" using bytes buf(2) by blast+
      then show ?thesis using b2[of "addr + of_nat i"] v1(4) by auto
    qed
    moreover have "pos + length out \<le> length cs" using lo pc by simp
    ultimately show ?thesis using v2(3) by (intro file_view_cong[OF _ _ _ _ words(3) f]) simp_all
  qed
  moreover have "rd8 v2 c = rd8 v c" if "c \<in> bytes_of W" "c \<notin> span buffer (length out)" "word_of c \<noteq> file + 4" for c
    using that b2[of c] v1(4) by simp
  ultimately show ?thesis using v2(2) by blast
qed

end

section \<open>Seeking\<close>

text \<open>Where a move ends. One from the start or from the current position has to stay inside the
  file; one from the end goes from the current position in the other direction, as far as it
  says.\<close>

definition seek_target :: "u32 \<Rightarrow> u32 \<Rightarrow> byte list \<times> nat \<Rightarrow> nat option" where
  "seek_target jmp seek_type f =
     (if seek_type = SEEK_END then if sint jmp \<le> 0 then Some (nat (int (snd f) - sint jmp)) else None
      else let t = (if seek_type = SEEK_SET then sint jmp else int (snd f) + sint jmp)
      in if (seek_type = SEEK_SET \<or> seek_type = SEEK_CUR) \<and> 0 \<le> t \<and> t < int (length (fst f)) then Some (nat t) else None)"

lemma seek_kinds [simp]: "SEEK_SET \<noteq> SEEK_CUR" "SEEK_CUR \<noteq> SEEK_SET" "SEEK_SET \<noteq> SEEK_END" "SEEK_END \<noteq> SEEK_SET"
  "SEEK_CUR \<noteq> SEEK_END" "SEEK_END \<noteq> SEEK_CUR"
  by (simp_all add: SEEK_SET_def SEEK_CUR_def SEEK_END_def)

lemma sint_nonneg_unat: "0 \<le> sint (j :: u32) \<Longrightarrow> unat j = nat (sint j)"
proof -
  assume j: "0 \<le> sint j"
  have "uint j = sint j mod 2 ^ 32" by (simp add: uint_sint take_bit_eq_mod)
  also have "\<dots> = sint j" using j sint_less[of j] by (intro mod_pos_pos_trivial) simp_all
  finally show ?thesis by (simp only: unat_eq_nat_uint)
qed

lemma of_nat_unatI: "unat (x :: u32) = n \<Longrightarrow> of_nat n = x"
  by auto

text \<open>For files of less than two gigabytes the unsigned test of a relative move is exact.\<close>

lemma relative_move:
  fixes j :: u32
  assumes "pos \<le> n" "n < 2 ^ 31"
  shows "of_nat pos + j \<ge> (of_nat n :: u32) \<longleftrightarrow> \<not> (0 \<le> int pos + sint j \<and> int pos + sint j < int n)"
    and "0 \<le> int pos + sint j \<Longrightarrow> unat (of_nat pos + j) = nat (int pos + sint j)"
proof -
  have s: "- (2 ^ 31) \<le> sint j" "sint j < 2 ^ 31" using sint_greater_eq[of j] sint_less[of j] by simp_all
  have "int (unat (of_nat pos + j)) = (int pos + int (unat j)) mod 2 ^ 32"
    using assms by (simp add: unat_word_ariths unat_of_nat zmod_int)
  also have "\<dots> = (int pos + sint j) mod 2 ^ 32" by (simp add: uint_sint take_bit_eq_mod mod_add_right_eq)
  finally have u: "int (unat (of_nat pos + j)) = (int pos + sint j) mod 2 ^ 32" .
  show t: "unat (of_nat pos + j) = nat (int pos + sint j)" if "0 \<le> int pos + sint j"
  proof -
    have "(int pos + sint j) mod 2 ^ 32 = int pos + sint j" using s assms that by (intro mod_pos_pos_trivial) simp_all
    then show ?thesis using u by (metis nat_int)
  qed
  have neg: "unat (of_nat pos + j) \<ge> n" if "int pos + sint j < 0"
  proof -
    have "(int pos + sint j) mod 2 ^ 32 = (int pos + sint j + 2 ^ 32) mod 2 ^ 32" by simp
    also have "\<dots> = int pos + sint j + 2 ^ 32" using s that by (intro mod_pos_pos_trivial) simp_all
    finally have "int (unat (of_nat pos + j)) = int pos + sint j + 2 ^ 32" using u by metis
    then have "int n \<le> int (unat (of_nat pos + j))" using s assms by (simp only:) simp
    then show ?thesis by (simp only: of_nat_le_iff)
  qed
  show "of_nat pos + j \<ge> (of_nat n :: u32) \<longleftrightarrow> \<not> (0 \<le> int pos + sint j \<and> int pos + sint j < int n)"
    using t neg assms by (cases "0 \<le> int pos + sint j") (auto simp: word_le_nat_alt unat_of_nat)
qed

context kernel_words
begin

lemma file_seek_any:
  assumes w: "good W v" and f: "file_view fns v file node addr fs (cs, pos)" and n: "length cs < 2 ^ 31"
    and words: "file_words file node fs \<subseteq> W" "file + 4 \<notin> {node + 148, node + 152, node + 156, fs + 36}"
    and bytes: "span addr (length cs) \<subseteq> bytes_of (W - {file + 4})"
    and inside: "case seek_target jmp seek_type (cs, pos) of None \<Rightarrow> True | Some t \<Rightarrow> t \<le> length cs"
  shows "\<exists>v'. file_seek left_over v file jmp seek_type
      = Some (if seek_target jmp seek_type (cs, pos) = None then INVALID_ARGUMENT else left_over, v') \<and> good W v'
    \<and> file_view fns v' file node addr fs (cs, case seek_target jmp seek_type (cs, pos) of None \<Rightarrow> pos | Some t \<Rightarrow> t)
    \<and> (\<forall>w\<in>W. w \<noteq> file + 4 \<longrightarrow> vread v' w = vread v w)"
proof -
  note fd = f[unfolded file_view_def fst_conv snd_conv, simplified]
  have pc: "pos \<le> length cs" "length cs < 2 ^ 31" using fd n by simp_all
  have set_to: "\<exists>v'. vwrite v (file + 4) (of_nat t) = Some v' \<and> good W v' \<and> file_view fns v' file node addr fs (cs, t)
      \<and> (\<forall>w\<in>W. w \<noteq> file + 4 \<longrightarrow> vread v' w = vread v w)" if t: "t \<le> length cs" for t
  proof -
    have "file + 4 \<in> W" using words(1) by (simp add: file_words_def)
    then obtain v' where v': "vwrite v (file + 4) (of_nat t) = Some v'" "good W v'" "vread v' (file + 4) = Some (of_nat t)"
      "\<And>w. w \<in> W \<Longrightarrow> w \<noteq> file + 4 \<Longrightarrow> vread v' w = vread v w" using wr_word[OF w] by blast
    have "vread v' w = vread v w" if "w \<in> file_words file node fs - {file + 4}" for w using that words(1) by (intro v'(4)) auto
    moreover have "rd8 v' (addr + of_nat i) = rd8 v (addr + of_nat i)" if "i < length cs" for i
    proof -
      have "addr + of_nat i \<in> span addr (length cs)" using that pc by (intro of_nat_in_span) simp_all
      then have "word_of (addr + of_nat i) \<in> W - {file + 4}" using bytes bytes_of_iff by blast
      then show ?thesis by (intro rd8_kept v'(4)) auto
    qed
    ultimately have "file_view fns v' file node addr fs (cs, t)"
      using v'(3) t by (intro file_view_cong[OF _ _ _ _ words(2) f]) simp_all
    with v' show ?thesis by blast
  qed
  consider (set) "seek_type = SEEK_SET" | (cur) "seek_type = SEEK_CUR" | (end_of) "seek_type = SEEK_END"
    | (other) "seek_type \<noteq> SEEK_SET" "seek_type \<noteq> SEEK_CUR" "seek_type \<noteq> SEEK_END" by blast
  then show ?thesis
  proof cases
    case set
    have le: "jmp \<ge> of_nat (length cs) \<longleftrightarrow> \<not> sint jmp < int (length cs)" if "0 \<le> sint jmp"
      using that sint_nonneg_unat[OF that] pc by (auto simp: word_le_nat_alt unat_of_nat)
    show ?thesis
    proof (cases "0 \<le> sint jmp \<and> sint jmp < int (length cs)")
      case True
      then have "of_nat (nat (sint jmp)) = jmp" using sint_nonneg_unat[of jmp] by (intro of_nat_unatI) simp
      moreover have "nat (sint jmp) \<le> length cs" using True by (simp add: nat_le_iff)
      from set_to[OF this] obtain v' where "vwrite v (file + 4) (of_nat (nat (sint jmp))) = Some v'" "good W v'"
        "file_view fns v' file node addr fs (cs, nat (sint jmp))" "\<forall>w\<in>W. w \<noteq> file + 4 \<longrightarrow> vread v' w = vread v w" by blast
      ultimately show ?thesis using set fd le True by (intro exI[of _ v']) (simp add: file_seek_def seek_target_def)
    qed (use set fd le w f in \<open>auto simp: file_seek_def seek_target_def\<close>)
  next
    case cur
    note rm = relative_move[OF pc, of jmp]
    show ?thesis
    proof (cases "0 \<le> int pos + sint jmp \<and> int pos + sint jmp < int (length cs)")
      case True
      have "of_nat (nat (int pos + sint jmp)) = (of_nat pos + jmp :: u32)" using rm(2) True by (intro of_nat_unatI) simp
      moreover have "nat (int pos + sint jmp) \<le> length cs" using True by (simp add: nat_le_iff)
      from set_to[OF this] obtain v' where "vwrite v (file + 4) (of_nat (nat (int pos + sint jmp))) = Some v'" "good W v'"
        "file_view fns v' file node addr fs (cs, nat (int pos + sint jmp))" "\<forall>w\<in>W. w \<noteq> file + 4 \<longrightarrow> vread v' w = vread v w" by blast
      ultimately show ?thesis using cur fd rm(1) True
        by (intro exI[of _ v']) (simp add: file_seek_def seek_target_def)
    qed (use cur fd rm(1) w f in \<open>auto simp: file_seek_def seek_target_def\<close>)
  next
    case end_of
    show ?thesis
    proof (cases "sint jmp \<le> 0")
      case True
      let ?t = "nat (int pos - sint jmp)"
      have "of_nat ?t = (of_int (int pos - sint jmp) :: u32)" using True by simp
      also have "\<dots> = of_nat pos - jmp" by simp
      finally have e: "of_nat pos - jmp = (of_nat ?t :: u32)" ..
      have "?t \<le> length cs" using inside end_of True by (simp add: seek_target_def)
      from set_to[OF this] obtain v' where v': "vwrite v (file + 4) (of_nat pos - jmp) = Some v'" "good W v'"
        "file_view fns v' file node addr fs (cs, ?t)" "\<forall>w\<in>W. w \<noteq> file + 4 \<longrightarrow> vread v' w = vread v w" unfolding e by blast
      have "file_seek left_over v file jmp seek_type = Some (left_over, v')" using end_of fd True v'(1) by (simp add: file_seek_def)
      moreover have "seek_target jmp seek_type (cs, pos) = Some ?t" using end_of True by (simp add: seek_target_def)
      ultimately show ?thesis using v'(2-4) by (intro exI[of _ v']) simp
    qed (use end_of fd w f in \<open>auto simp: file_seek_def seek_target_def\<close>)
  qed (use fd w f in \<open>auto simp: file_seek_def seek_target_def\<close>)
qed

lemma file_seek_step:
  assumes "good W v" "file_view fns v file node addr fs (cs, pos)" "length cs < 2 ^ 31"
    and "file_words file node fs \<subseteq> W" "file + 4 \<notin> {node + 148, node + 152, node + 156, fs + 36}"
    and "span addr (length cs) \<subseteq> bytes_of (W - {file + 4})" "seek_type \<noteq> SEEK_END"
  shows "\<exists>v'. file_seek left_over v file jmp seek_type
      = Some (if seek_target jmp seek_type (cs, pos) = None then INVALID_ARGUMENT else left_over, v') \<and> good W v'
    \<and> file_view fns v' file node addr fs (cs, case seek_target jmp seek_type (cs, pos) of None \<Rightarrow> pos | Some t \<Rightarrow> t)
    \<and> (\<forall>w\<in>W. w \<noteq> file + 4 \<longrightarrow> vread v' w = vread v w)"
proof (rule file_seek_any[OF assms(1-6)])
  show "case seek_target jmp seek_type (cs, pos) of None \<Rightarrow> True | Some t \<Rightarrow> t \<le> length cs"
    using assms(7) by (auto simp: seek_target_def Let_def nat_le_iff split: option.split)
qed

end

section \<open>Sequences of operations\<close>

text \<open>Where an open file lies: its double words and its contents, the word of the offset apart
  from the rest, and a buffer that shares nothing with them.\<close>

definition file_layout :: "u32 set \<Rightarrow> u32 \<Rightarrow> u32 \<Rightarrow> u32 \<Rightarrow> u32 \<Rightarrow> byte list \<Rightarrow> bool" where
  "file_layout W file node addr fs cs \<longleftrightarrow> length cs < 2 ^ 31 \<and> file_words file node fs \<subseteq> W
     \<and> (\<forall>w\<in>file_words file node fs. word_of w = w) \<and> file + 4 \<notin> {node + 148, node + 152, node + 156, fs + 36}
     \<and> span addr (length cs) \<subseteq> bytes_of (W - {file + 4})"

definition buffer_apart :: "u32 set \<Rightarrow> u32 \<Rightarrow> u32 \<Rightarrow> u32 \<Rightarrow> u32 \<Rightarrow> byte list \<Rightarrow> u32 \<Rightarrow> u32 \<Rightarrow> bool" where
  "buffer_apart W file node addr fs cs buffer len \<longleftrightarrow> buffer \<noteq> 0 \<and> span buffer (unat len) \<subseteq> bytes_of (W - file_words file node fs)
     \<and> span buffer (unat len) \<inter> span addr (length cs) = {}"

datatype file_op = Read_op u32 u32 | Seek_op u32 u32

definition file_do :: "fs_functions \<Rightarrow> error_code_t \<Rightarrow> u32 \<Rightarrow> file_op \<Rightarrow> vm \<Rightarrow> ((u32 + error_code_t) \<times> vm) option" where
  "file_do fns left_over file op v = (case op of
     Read_op buffer len \<Rightarrow> map_option (\<lambda>(n, v'). (Inl n, v')) (file_read fns v file buffer len)
   | Seek_op jmp seek_type \<Rightarrow> map_option (\<lambda>(e, v'). (Inr e, v')) (file_seek left_over v file jmp seek_type))"

primrec file_run :: "fs_functions \<Rightarrow> error_code_t \<Rightarrow> u32 \<Rightarrow> file_op list \<Rightarrow> vm \<Rightarrow> ((u32 + error_code_t) list \<times> vm) option" where
  "file_run fns left_over file [] v = Some ([], v)"
| "file_run fns left_over file (op # ops) v = do {
     (r, v1) \<leftarrow> file_do fns left_over file op v;
     (rs, v2) \<leftarrow> file_run fns left_over file ops v1;
     Some (r # rs, v2)
   }"

text \<open>The abstract file: contents and a position.\<close>

definition file_spec :: "error_code_t \<Rightarrow> file_op \<Rightarrow> byte list \<times> nat \<Rightarrow> (u32 + error_code_t) \<times> (byte list \<times> nat)" where
  "file_spec left_over op f = (case op of
     Read_op buffer len \<Rightarrow> (let (out, f') = abstract_read (unat len) f in (Inl (of_nat (length out)), f'))
   | Seek_op jmp seek_type \<Rightarrow> (case seek_target jmp seek_type f of
       None \<Rightarrow> (Inr INVALID_ARGUMENT, f) | Some t \<Rightarrow> (Inr left_over, (fst f, t))))"

primrec spec_run :: "error_code_t \<Rightarrow> file_op list \<Rightarrow> byte list \<times> nat \<Rightarrow> (u32 + error_code_t) list \<times> (byte list \<times> nat)" where
  "spec_run left_over [] f = ([], f)"
| "spec_run left_over (op # ops) f =
     (let (r, f1) = file_spec left_over op f; (rs, f2) = spec_run left_over ops f1 in (r # rs, f2))"

definition op_apart :: "u32 set \<Rightarrow> u32 \<Rightarrow> u32 \<Rightarrow> u32 \<Rightarrow> u32 \<Rightarrow> byte list \<Rightarrow> file_op \<Rightarrow> bool" where
  "op_apart W file node addr fs cs op = (case op of
     Read_op buffer len \<Rightarrow> buffer_apart W file node addr fs cs buffer len
   | Seek_op jmp seek_type \<Rightarrow> True)"

text \<open>No move of the sequence ends behind the end of the file; only one from the end can.\<close>

primrec stays_inside :: "error_code_t \<Rightarrow> file_op list \<Rightarrow> byte list \<times> nat \<Rightarrow> bool" where
  "stays_inside left_over [] f \<longleftrightarrow> True"
| "stays_inside left_over (op # ops) f \<longleftrightarrow>
     (let f1 = snd (file_spec left_over op f) in snd f1 \<le> length (fst f1) \<and> stays_inside left_over ops f1)"

lemma fst_file_spec [simp]: "fst (snd (file_spec left_over op f)) = fst f"
  by (auto simp: file_spec_def abstract_read_def Let_def split: file_op.split option.split)

lemma fst_spec_run [simp]: "fst (snd (spec_run left_over ops f)) = fst f"
  by (induction ops arbitrary: f) (simp_all add: case_prod_beta Let_def)

context kernel_words
begin

lemma file_read_layout:
  assumes "good W v" "file_view fns v file node addr fs (cs, pos)" "file_layout W file node addr fs cs"
    and "buffer_apart W file node addr fs cs buffer len"
  defines "out \<equiv> take (unat len) (drop pos cs)"
  shows "\<exists>v'. file_read fns v file buffer len = Some (of_nat (length out), v') \<and> good W v'
    \<and> (\<forall>i<length out. rd8 v' (buffer + of_nat i) = Some (out ! i))
    \<and> file_view fns v' file node addr fs (cs, pos + length out)
    \<and> (\<forall>c\<in>bytes_of W. c \<notin> span buffer (length out) \<longrightarrow> word_of c \<noteq> file + 4 \<longrightarrow> rd8 v' c = rd8 v c)"
proof -
  have "span buffer (length out) \<subseteq> span buffer (unat len)" by (rule span_mono) (simp add: out_def)
  then have "span buffer (length out) \<subseteq> bytes_of (W - file_words file node fs)" "span buffer (length out) \<inter> span addr (length cs) = {}"
    using assms(4) unfolding buffer_apart_def by blast+
  then show ?thesis using assms(3,4) unfolding file_layout_def buffer_apart_def
    by (intro file_read_step[OF assms(1,2)]) (simp_all add: out_def)
qed

lemma file_op_step:
  assumes "good W v" "file_view fns v file node addr fs (cs, pos)" "file_layout W file node addr fs cs" "op_apart W file node addr fs cs op"
    and "snd (snd (file_spec left_over op (cs, pos))) \<le> length cs"
  shows "\<exists>v'. file_do fns left_over file op v = Some (fst (file_spec left_over op (cs, pos)), v') \<and> good W v'
    \<and> file_view fns v' file node addr fs (snd (file_spec left_over op (cs, pos)))"
proof (cases op)
  case (Read_op buffer len)
  then have "buffer_apart W file node addr fs cs buffer len" using assms(4) by (simp add: op_apart_def)
  from file_read_layout[OF assms(1-3) this] show ?thesis using Read_op by (auto simp: file_do_def file_spec_def abstract_read_def Let_def)
next
  case (Seek_op jmp seek_type)
  then have "case seek_target jmp seek_type (cs, pos) of None \<Rightarrow> True | Some t \<Rightarrow> t \<le> length cs"
    using assms(5) by (auto simp: file_spec_def split: option.splits)
  from file_seek_any[OF assms(1,2) _ _ _ _ this, of left_over] show ?thesis using Seek_op assms(3)
    by (auto simp: file_layout_def file_do_def file_spec_def split: option.splits)
qed

lemma file_run_steps:
  assumes "good W v" "file_view fns v file node addr fs (cs, pos)" "file_layout W file node addr fs cs"
    and "\<forall>op\<in>set ops. op_apart W file node addr fs cs op" "stays_inside left_over ops (cs, pos)"
  shows "\<exists>v'. file_run fns left_over file ops v = Some (fst (spec_run left_over ops (cs, pos)), v') \<and> good W v'
    \<and> file_view fns v' file node addr fs (snd (spec_run left_over ops (cs, pos)))"
  using assms
proof (induction ops arbitrary: v pos)
  case (Cons op ops)
  obtain v1 where v1: "file_do fns left_over file op v = Some (fst (file_spec left_over op (cs, pos)), v1)" "good W v1"
    "file_view fns v1 file node addr fs (snd (file_spec left_over op (cs, pos)))"
    using file_op_step[OF Cons.prems(1-3)] Cons.prems(4,5) by (force simp: Let_def)
  have s: "snd (file_spec left_over op (cs, pos)) = (cs, snd (snd (file_spec left_over op (cs, pos))))"
    using fst_file_spec[of left_over op "(cs, pos)"] by (simp add: prod_eq_iff)
  have "stays_inside left_over ops (cs, snd (snd (file_spec left_over op (cs, pos))))" using Cons.prems(5) s by (simp add: Let_def)
  from Cons.IH[OF v1(2) _ Cons.prems(3) _ this] v1(3) Cons.prems(4) s
  obtain v2 where "file_run fns left_over file ops v1 = Some (fst (spec_run left_over ops (snd (file_spec left_over op (cs, pos)))), v2)"
    "good W v2" "file_view fns v2 file node addr fs (snd (spec_run left_over ops (snd (file_spec left_over op (cs, pos)))))" by auto
  then show ?case using v1(1) by (auto simp: case_prod_beta Let_def)
qed auto

end

section \<open>The mode of a file\<close>

text \<open>Comparing with length 3 cuts the mode and the string it is compared with at two characters.
  The strings are literals, and where they lie a cut may fall into another one: the search is
  described over the bytes of memory, each cut visible to the comparisons after it.\<close>

definition mode_seen :: "(u32 \<Rightarrow> byte) \<Rightarrow> u32 \<Rightarrow> byte list" where
  "mode_seen mem m = (if mem m = 0 then [] else if mem (m + 1) = 0 then [mem m] else [mem m, mem (m + 1)])"

primrec search_modes :: "byte list \<Rightarrow> (u32 \<Rightarrow> byte) \<Rightarrow> u32 list \<Rightarrow> nat \<Rightarrow> nat option" where
  "search_modes mode mem [] i = None"
| "search_modes mode mem (m # ms) i =
     (let mem1 = mem(m + 2 := 0)
      in if mode_seen mem1 m = take 2 mode then Some i else search_modes mode mem1 ms (Suc i))"

lemma cut_string:
  assumes "paged_cstr v a s" "rd8 v' (a + 2) = Some 0"
    and "\<And>i. i \<le> length s \<Longrightarrow> i < 2 \<Longrightarrow> rd8 v' (a + of_nat i) = rd8 v (a + of_nat i)"
  shows "paged_cstr v' a (take 2 s)"
proof -
  have "rd8 v' (a + of_nat i) = Some (s ! i)" if "i < length s" "i < 2" for i using assms(1,3) that by (simp add: paged_cstr_def)
  moreover have "rd8 v' (a + of_nat (min 2 (length s))) = Some 0"
  proof (cases "length s < 2")
    case True
    then show ?thesis using assms(1) assms(3)[of "length s"] by (simp add: paged_cstr_def min_def)
  qed (use assms(2) in \<open>simp add: min_def\<close>)
  moreover have "0 \<notin> set (take 2 s)" using assms(1) set_take_subset[of 2 s] by (auto simp: paged_cstr_def)
  ultimately show ?thesis by (simp add: paged_cstr_def min.commute)
qed

lemma cut_seen:
  assumes "rd8 v m = Some (mem m)" "rd8 v (m + 1) = Some (mem (m + 1))" "rd8 v (m + 2) = Some 0"
  shows "paged_cstr v m (mode_seen mem m)"
  using assms by (simp add: mode_seen_def add.commute[of 2 m])

text \<open>Where the strings lie: apart from the copy of the mode, and not further.\<close>

definition modes_placed :: "u32 set \<Rightarrow> u32 \<Rightarrow> u32 list \<Rightarrow> bool" where
  "modes_placed W mb ms \<longleftrightarrow> span mb 3 \<subseteq> bytes_of W \<and> (\<forall>m\<in>set ms. span m 3 \<subseteq> bytes_of W \<and> span m 3 \<inter> span mb 3 = {})"

lemma in_span3: "i \<le> 2 \<Longrightarrow> a + of_nat i \<in> span a 3"
  by (rule of_nat_in_span) simp_all

lemma in_span3_num: "a \<in> span a 3" "a + 1 \<in> span a 3" "a + 2 \<in> span a 3"
  using in_span3[of 0 a] in_span3[of 1 a] in_span3[of 2 a] by simp_all

context kernel_words
begin

lemma strncmp_cuts:
  assumes "good W v" "paged_cstr v mb s" "span mb 3 \<subseteq> bytes_of W" "span m 3 \<subseteq> bytes_of W" "span m 3 \<inter> span mb 3 = {}"
    and "\<forall>c\<in>span m 3. rd8 v c = Some (mem c)"
  obtains r v2 where "paged_strncmp v mb m 3 = Some (r, v2)" "r = 0 \<longleftrightarrow> mode_seen (mem(m + 2 := 0)) m = take 2 s" "good W v2"
    "paged_cstr v2 mb (take 2 s)" "rd8 v2 (mb + 2) = Some 0" "rd8 v2 (m + 2) = Some 0"
    "\<forall>c\<in>bytes_of W. c \<noteq> mb + 2 \<longrightarrow> c \<noteq> m + 2 \<longrightarrow> rd8 v2 c = rd8 v c"
proof -
  note mb = in_span3_num[of mb] and m = in_span3_num[of m]
  have W: "mb + 2 \<in> bytes_of W" "m + 2 \<in> bytes_of W" using assms(3,4) mb m by blast+
  have ne: "c \<noteq> d" if "c \<in> span m 3" "d \<in> span mb 3" for c d using assms(5) that by blast
  obtain v1 where v1: "wr8 v (mb + 2) 0 = Some v1" "good W v1" "rd8 v1 (mb + 2) = Some 0"
    "\<And>c. c \<in> bytes_of W \<Longrightarrow> c \<noteq> mb + 2 \<Longrightarrow> rd8 v1 c = rd8 v c" using wr8_good[OF assms(1) W(1)] by blast
  obtain v2 where v2: "wr8 v1 (m + 2) 0 = Some v2" "good W v2" "rd8 v2 (m + 2) = Some 0"
    "\<And>c. c \<in> bytes_of W \<Longrightarrow> c \<noteq> m + 2 \<Longrightarrow> rd8 v2 c = rd8 v1 c" using wr8_good[OF v1(2) W(2)] by blast
  have same: "rd8 v2 c = rd8 v c" if "c \<in> bytes_of W" "c \<noteq> mb + 2" "c \<noteq> m + 2" for c using that v1(4) v2(4) by simp
  have cut: "rd8 v2 (mb + 2) = Some 0" using v1(3) v2(4)[OF W(1)] ne[OF m(3) mb(3)] by metis
  have c1: "paged_cstr v2 mb (take 2 s)"
  proof (rule cut_string[OF assms(2) cut])
    fix i :: nat assume i: "i < 2"
    then have b: "mb + of_nat i \<in> span mb 3" by (intro in_span3) simp
    have "unat (of_nat i :: u32) \<noteq> unat (2 :: u32)" using i by (simp add: unat_of_nat)
    then have "mb + of_nat i \<noteq> mb + 2" by auto
    then show "rd8 v2 (mb + of_nat i) = rd8 v (mb + of_nat i)" using subsetD[OF assms(3) b] ne[OF m(3) b] by (intro same) simp_all
  qed
  have "rd8 v2 c = Some ((mem(m + 2 := 0)) c)" if "c \<in> {m, m + 1}" for c
  proof -
    have c: "c \<in> span m 3" "c \<noteq> m + 2" using that m by auto
    then have "rd8 v2 c = rd8 v c" using assms(4) ne[OF c(1) mb(3)] by (intro same) blast+
    then show ?thesis using assms(6) c by simp
  qed
  then have "paged_cstr v2 m (mode_seen (mem(m + 2 := 0)) m)" using v2(3) by (intro cut_seen) blast+
  from paged_strcmp_zero_iff[OF c1 this] obtain r where r: "paged_strcmp v2 mb m = Some r" "r = 0 \<longleftrightarrow> mode_seen (mem(m + 2 := 0)) m = take 2 s" by metis
  have "paged_strncmp v mb m 3 = Some (r, v2)" using v1(1) v2(1) r(1) by (simp add: paged_strncmp_def)
  then show thesis using that[OF _ r(2) v2(2) c1 cut v2(3)] same by blast
qed

lemma find_mode_search:
  assumes "good W v" "paged_cstr v mb s" "take 2 s = take 2 mode" "modes_placed W mb ms"
    and "\<forall>m\<in>set ms. \<forall>c\<in>span m 3. rd8 v c = Some (mem c)"
  shows "\<exists>v'. find_mode v mb ms i = Some (search_modes mode mem ms i, v') \<and> good W v'
    \<and> (\<forall>c\<in>bytes_of W. rd8 v' c = rd8 v c \<or> rd8 v' c = Some 0 \<and> c \<in> (\<lambda>m. m + 2) ` set (mb # ms))"
  using assms
proof (induction ms arbitrary: v s mem i)
  case (Cons m ms)
  note pl = Cons.prems(4)[unfolded modes_placed_def]
  have sp: "span mb 3 \<subseteq> bytes_of W" "span m 3 \<subseteq> bytes_of W" "span m 3 \<inter> span mb 3 = {}" using pl by simp_all
  have bytes: "\<forall>c\<in>span m 3. rd8 v c = Some (mem c)" using Cons.prems(5) by simp
  let ?mem = "mem(m + 2 := 0)"
  obtain r v2 where r: "paged_strncmp v mb m 3 = Some (r, v2)" "r = 0 \<longleftrightarrow> mode_seen ?mem m = take 2 s" "good W v2"
    "paged_cstr v2 mb (take 2 s)" "rd8 v2 (mb + 2) = Some 0" "rd8 v2 (m + 2) = Some 0"
    "\<forall>c\<in>bytes_of W. c \<noteq> mb + 2 \<longrightarrow> c \<noteq> m + 2 \<longrightarrow> rd8 v2 c = rd8 v c"
    by (rule strncmp_cuts[OF Cons.prems(1,2) sp bytes])
  have fr: "rd8 v2 c = rd8 v c \<or> rd8 v2 c = Some 0 \<and> c \<in> (\<lambda>m. m + 2) ` set (mb # m # ms)" if "c \<in> bytes_of W" for c
  proof (cases "c = mb + 2 \<or> c = m + 2")
    case True
    then show ?thesis using r(5,6) by auto
  next
    case False
    then show ?thesis using bspec[OF r(7) that] by blast
  qed
  show ?case
  proof (cases "r = 0")
    case True
    then show ?thesis using r(1-3) fr Cons.prems(3) by (intro exI[of _ v2]) (auto simp: Let_def)
  next
    case False
    have "\<forall>m'\<in>set ms. \<forall>c\<in>span m' 3. rd8 v2 c = Some (?mem c)"
    proof (intro ballI)
      fix m' c assume c: "m' \<in> set ms" "c \<in> span m' 3"
      have "span m' 3 \<subseteq> bytes_of W" "span m' 3 \<inter> span mb 3 = {}" using pl c(1) by simp_all
      then have "c \<in> bytes_of W" "c \<noteq> mb + 2" using c(2) in_span3_num(3)[of mb] by blast+
      then show "rd8 v2 c = Some (?mem c)" using r(6,7) Cons.prems(5) c by (cases "c = m + 2") simp_all
    qed
    moreover have "take 2 (take 2 s) = take 2 mode" "modes_placed W mb ms" using Cons.prems(3) pl by (simp_all add: modes_placed_def)
    ultimately obtain v3 where v3: "find_mode v2 mb ms (Suc i) = Some (search_modes mode ?mem ms (Suc i), v3)" "good W v3"
      "\<forall>c\<in>bytes_of W. rd8 v3 c = rd8 v2 c \<or> rd8 v3 c = Some 0 \<and> c \<in> (\<lambda>m. m + 2) ` set (mb # ms)"
      using Cons.IH[OF r(3,4), of ?mem "Suc i"] by blast
    have "rd8 v3 c = rd8 v c \<or> rd8 v3 c = Some 0 \<and> c \<in> (\<lambda>m. m + 2) ` set (mb # m # ms)" if "c \<in> bytes_of W" for c
      using fr[OF that] bspec[OF v3(3) that] by auto
    then show ?thesis using r(1,2) False v3(1,2) Cons.prems(3) by (intro exI[of _ v3]) (simp add: Let_def)
  qed
qed simp

end

section \<open>Opening\<close>

definition c_bytes :: "string \<Rightarrow> byte list" where
  "c_bytes s = map of_char s"

text \<open>The literals one behind the other, as a compiler emits them; each may have been cut by an
  earlier search.\<close>

definition mode_literals :: "byte list" where
  "mode_literals = concat (map (\<lambda>s. c_bytes s @ [0]) possible_modes)"

definition literal_at :: "nat \<Rightarrow> nat" where
  "literal_at k = length (concat (map (\<lambda>s. c_bytes s @ [0]) (take k possible_modes)))"

definition packed_modes :: "(u32 \<Rightarrow> byte) \<Rightarrow> u32 \<Rightarrow> u32 list \<Rightarrow> bool" where
  "packed_modes mem a ms \<longleftrightarrow> ms = map (\<lambda>k. a + of_nat (literal_at k)) [0..<15]
     \<and> (\<forall>i<48. mem (a + of_nat i) = mode_literals ! i \<or> mem (a + of_nat i) = 0 \<and> i \<in> (\<lambda>k. literal_at k + 2) ` {..<15})"

text \<open>The entry that a search through such literals stops at, by the first two characters of the
  mode.\<close>

definition packed_entry :: "(byte list \<times> nat) list" where
  "packed_entry = map (\<lambda>(s, k). (c_bytes s, k)) [(''r'', 0), ('''', 1), (''w'', 2), (''a'', 4), (''r+'', 6),
     (''rb'', 7), (''w+'', 9), (''wb'', 10), (''a+'', 12), (''ab'', 13)]"

lemma literal_places:
  "map literal_at [0..<15] = [0, 2, 5, 7, 10, 12, 15, 18, 22, 26, 29, 33, 37, 40, 44]"
  by (simp add: literal_at_def possible_modes_def c_bytes_def upt_rec)

lemma mode_literals_bytes:
  "mode_literals = [0x72, 0, 0x72, 0x62, 0, 0x77, 0, 0x77, 0x62, 0, 0x61, 0, 0x61, 0x62, 0, 0x72, 0x2B, 0, 0x72, 0x62, 0x2B, 0,
     0x72, 0x2B, 0x62, 0, 0x77, 0x2B, 0, 0x77, 0x62, 0x2B, 0, 0x77, 0x2B, 0x62, 0, 0x61, 0x2B, 0, 0x61, 0x62, 0x2B, 0,
     0x61, 0x2B, 0x62, 0]"
  by (simp add: mode_literals_def possible_modes_def c_bytes_def)

lemma cut_places: "(\<lambda>k. literal_at k + 2) ` {..<15} = {2, 4, 7, 9, 12, 14, 17, 20, 24, 28, 31, 35, 39, 42, 46}"
proof -
  have "(\<lambda>k. literal_at k + 2) ` {..<15} = (\<lambda>x. x + 2) ` set (map literal_at [0..<15])"
    by (simp add: image_image atLeast0LessThan)
  also have "\<dots> = {2, 4, 7, 9, 12, 14, 17, 20, 24, 28, 31, 35, 39, 42, 46}" unfolding literal_places by (simp del: add_2_eq_Suc')
  finally show ?thesis .
qed

lemma packed_places:
  "packed_modes mem a ms \<Longrightarrow> ms = [a, a + 2, a + 5, a + 7, a + 10, a + 12, a + 15, a + 18, a + 22, a + 26, a + 29, a + 33, a + 37, a + 40, a + 44]"
proof -
  assume "packed_modes mem a ms"
  then have "ms = map (\<lambda>x. a + of_nat x) (map literal_at [0..<15])" by (simp add: packed_modes_def)
  then show ?thesis unfolding literal_places by simp
qed

lemma packed_bytes:
  assumes "packed_modes mem a ms"
  shows "mem a = 0x72" "mem (a + 1) = 0" "mem (a + 3) = 0x62" "mem (a + 5) = 0x77" "mem (a + 6) = 0" "mem (a + 8) = 0x62"
    "mem (a + 10) = 0x61" "mem (a + 11) = 0" "mem (a + 13) = 0x62" "mem (a + 15) = 0x72" "mem (a + 16) = 0x2B"
    "mem (a + 18) = 0x72" "mem (a + 19) = 0x62" "mem (a + 22) = 0x72" "mem (a + 23) = 0x2B" "mem (a + 26) = 0x77" "mem (a + 27) = 0x2B"
    "mem (a + 29) = 0x77" "mem (a + 30) = 0x62" "mem (a + 33) = 0x77" "mem (a + 34) = 0x2B" "mem (a + 37) = 0x61" "mem (a + 38) = 0x2B"
    "mem (a + 40) = 0x61" "mem (a + 41) = 0x62" "mem (a + 44) = 0x61" "mem (a + 45) = 0x2B"
proof -
  have *: "mem (a + of_nat i) = mode_literals ! i" if "i < 48" "i \<notin> {2, 4, 7, 9, 12, 14, 17, 20, 24, 28, 31, 35, 39, 42, 46}" for i
    using assms that unfolding packed_modes_def cut_places by blast
  show "mem a = 0x72" "mem (a + 1) = 0" "mem (a + 3) = 0x62" "mem (a + 5) = 0x77" "mem (a + 6) = 0" "mem (a + 8) = 0x62"
    "mem (a + 10) = 0x61" "mem (a + 11) = 0" "mem (a + 13) = 0x62"
    using *[of 0] *[of 1] *[of 3] *[of 5] *[of 6] *[of 8] *[of 10] *[of 11] *[of 13] by (simp_all add: mode_literals_bytes)
  show "mem (a + 15) = 0x72" "mem (a + 16) = 0x2B" "mem (a + 18) = 0x72" "mem (a + 19) = 0x62" "mem (a + 22) = 0x72" "mem (a + 23) = 0x2B"
    "mem (a + 26) = 0x77" "mem (a + 27) = 0x2B"
    using *[of 15] *[of 16] *[of 18] *[of 19] *[of 22] *[of 23] *[of 26] *[of 27] by (simp_all add: mode_literals_bytes)
  show "mem (a + 29) = 0x77" "mem (a + 30) = 0x62" "mem (a + 33) = 0x77" "mem (a + 34) = 0x2B" "mem (a + 37) = 0x61" "mem (a + 38) = 0x2B"
    "mem (a + 40) = 0x61" "mem (a + 41) = 0x62" "mem (a + 44) = 0x61" "mem (a + 45) = 0x2B"
    using *[of 29] *[of 30] *[of 33] *[of 34] *[of 37] *[of 38] *[of 40] *[of 41] *[of 44] *[of 45] by (simp_all add: mode_literals_bytes)
qed

text \<open>The cut of \<open>r\<close> empties \<open>rb\<close>, and so for \<open>w\<close> and \<open>a\<close>, whatever was cut before.\<close>

lemma search_packed:
  assumes "packed_modes mem a ms"
  shows "search_modes mode mem ms 0 = map_of packed_entry (take 2 mode)"
proof -
  have "search_modes mode mem ms 0 = (if [0x72] = take 2 mode then Some 0 else if [] = take 2 mode then Some 1
      else if [0x77] = take 2 mode then Some 2 else if [0x61] = take 2 mode then Some 4 else if [0x72, 0x2B] = take 2 mode then Some 6
      else if [0x72, 0x62] = take 2 mode then Some 7 else if [0x77, 0x2B] = take 2 mode then Some 9 else if [0x77, 0x62] = take 2 mode then Some 10
      else if [0x61, 0x2B] = take 2 mode then Some 12 else if [0x61, 0x62] = take 2 mode then Some 13 else None)"
    unfolding packed_places[OF assms] by (simp add: mode_seen_def packed_bytes[OF assms] add.assoc)
  also have "\<dots> = map_of packed_entry (take 2 mode)" by (simp add: packed_entry_def c_bytes_def eq_commute[of "take 2 mode"])
  finally show ?thesis .
qed

lemma packed_kept:
  assumes "packed_modes mem a ms" and "\<And>c. c \<in> span a 48 \<Longrightarrow> mem' c = mem c \<or> mem' c = 0 \<and> c \<in> (\<lambda>m. m + 2) ` set ms"
  shows "packed_modes mem' a ms"
proof -
  have ms: "ms = map (\<lambda>k. a + of_nat (literal_at k)) [0..<15]" using assms(1) by (simp add: packed_modes_def)
  have lit: "literal_at k < 48" if "k < 15" for k
  proof -
    have "literal_at k \<in> set (map literal_at [0..<15])" using that by auto
    then show ?thesis unfolding literal_places by auto
  qed
  have "mem' (a + of_nat i) = mode_literals ! i \<or> mem' (a + of_nat i) = 0 \<and> i \<in> (\<lambda>k. literal_at k + 2) ` {..<15}" if i: "i < 48" for i
  proof -
    have c: "a + of_nat i \<in> span a 48" using i by (intro of_nat_in_span) simp_all
    show ?thesis
    proof (cases "mem' (a + of_nat i) = mem (a + of_nat i)")
      case True
      then show ?thesis using assms(1) i unfolding packed_modes_def by auto
    next
      case False
      then obtain k where k: "k < 15" "mem' (a + of_nat i) = 0" "a + of_nat i = a + of_nat (literal_at k) + 2"
        using assms(2)[OF c] unfolding ms by auto
      then have "(of_nat i :: u32) = of_nat (literal_at k + 2)" by simp
      then have "unat (of_nat i :: u32) = unat (of_nat (literal_at k + 2) :: u32)" by (simp only:)
      moreover have "i mod 2 ^ LENGTH(32) = i" "(literal_at k + 2) mod 2 ^ LENGTH(32) = literal_at k + 2" using i lit[OF k(1)] by simp_all
      ultimately have "i = literal_at k + 2" by (simp only: unat_of_nat)
      then show ?thesis using k by auto
    qed
  qed
  then show ?thesis using ms by (simp add: packed_modes_def)
qed

text \<open>The mode, its copy and the strings of \<open>possible_modes\<close>: all of them that is written lies in
  the words \<open>M\<close>.\<close>

definition modes_ready :: "vm \<Rightarrow> file_frame \<Rightarrow> u32 set \<Rightarrow> u32 set \<Rightarrow> u32 \<Rightarrow> byte list \<Rightarrow> bool" where
  "modes_ready v fr W M mode ms \<longleftrightarrow> paged_cstr v mode ms \<and> length ms < 2 ^ 31 \<and> M \<subseteq> W \<and> modes_placed M (mode_buf_at fr) (modes_at fr)
     \<and> span mode (length ms + 1) \<subseteq> bytes_of W \<and> span (mode_buf_at fr) (length ms + 1) \<subseteq> bytes_of M
     \<and> span mode (length ms + 1) \<inter> span (mode_buf_at fr) (length ms + 1) = {}
     \<and> (\<forall>m\<in>set (modes_at fr). span m 3 \<inter> span (mode_buf_at fr) (length ms + 1) = {})"

text \<open>The entry that the mode chooses, by the literals as they are in memory.\<close>

definition mode_entry :: "vm \<Rightarrow> file_frame \<Rightarrow> byte list \<Rightarrow> nat option" where
  "mode_entry v fr ms = search_modes ms (\<lambda>c. the (rd8 v c)) (modes_at fr) 0"

lemma bytes_of_mono: "M \<subseteq> W \<Longrightarrow> bytes_of M \<subseteq> bytes_of W"
  by auto

context kernel_words
begin

lemma copy_mode:
  assumes good: "good W v" and m: "modes_ready v fr W M mode ms"
  obtains v1 v2 where "paged_memcpy v (mode_buf_at fr) mode (of_nat (length ms)) = Some v1"
    "wr8 v1 (mode_buf_at fr + of_nat (length ms)) 0 = Some v2" "good W v2" "paged_cstr v2 (mode_buf_at fr) ms"
    "\<forall>c\<in>bytes_of W. c \<notin> span (mode_buf_at fr) (length ms + 1) \<longrightarrow> rd8 v2 c = rd8 v c"
proof -
  let ?mb = "mode_buf_at fr" and ?n = "of_nat (length ms) :: u32" and ?k = "length ms + 1"
  note md = m[unfolded modes_ready_def]
  have n: "unat ?n = length ms" "length ms < 2 ^ 31" using md by (simp_all add: unat_of_nat)
  have sub: "span x (unat ?n) \<subseteq> span x ?k" for x using n by (intro span_mono) simp
  have mbW: "span ?mb ?k \<subseteq> bytes_of W" using md bytes_of_mono[of M W] by blast
  have s: "span mode (unat ?n) \<subseteq> bytes_of W" "span ?mb (unat ?n) \<subseteq> bytes_of W" "span mode (unat ?n) \<inter> span ?mb (unat ?n) = {}"
    using sub[of mode] sub[of ?mb] md mbW by blast+
  obtain v1 where v1: "paged_memcpy v ?mb mode ?n = Some v1" "good W v1"
    "\<And>i. i < unat ?n \<Longrightarrow> rd8 v1 (?mb + of_nat i) = rd8 v (mode + of_nat i)"
    "\<And>c. c \<in> bytes_of W \<Longrightarrow> c \<notin> span ?mb (unat ?n) \<Longrightarrow> rd8 v1 c = rd8 v c"
    using paged_memcpy_copies[OF good s] by metis
  have t: "?mb + ?n \<in> span ?mb ?k" using n by (intro of_nat_in_span) simp_all
  obtain v2 where v2: "wr8 v1 (?mb + ?n) 0 = Some v2" "good W v2" "rd8 v2 (?mb + ?n) = Some 0"
    "\<And>c. c \<in> bytes_of W \<Longrightarrow> c \<noteq> ?mb + ?n \<Longrightarrow> rd8 v2 c = rd8 v1 c"
    using wr8_good[OF v1(2) subsetD[OF mbW t]] by blast
  have "rd8 v2 (?mb + of_nat i) = Some (ms ! i)" if "i < length ms" for i
  proof -
    have "of_nat i \<noteq> ?n" using that n by (auto simp: word_unat_eq_iff unat_of_nat)
    moreover have "?mb + of_nat i \<in> span ?mb ?k" using that n by (intro of_nat_in_span) simp_all
    then have "?mb + of_nat i \<in> bytes_of W" using mbW by blast
    ultimately have "rd8 v2 (?mb + of_nat i) = rd8 v (mode + of_nat i)" using v2(4) v1(3) that n by simp
    then show ?thesis using md that by (simp add: paged_cstr_def)
  qed
  then have "paged_cstr v2 ?mb ms" using v2(3) md by (simp add: paged_cstr_def)
  moreover have "rd8 v2 c = rd8 v c" if "c \<in> bytes_of W" "c \<notin> span ?mb ?k" for c
  proof -
    have "c \<noteq> ?mb + ?n" using that(2) t by blast
    moreover have "c \<notin> span ?mb (unat ?n)" using that(2) sub[of ?mb] by blast
    ultimately show ?thesis using v2(4)[OF that(1)] v1(4)[OF that(1)] by simp
  qed
  ultimately show thesis using that v1(1) v2(1,2) by blast
qed

lemma choose_mode:
  assumes good: "good W v" and m: "modes_ready v fr W M mode ms"
  obtains v1 v2 v3 where "paged_memcpy v (mode_buf_at fr) mode (of_nat (length ms)) = Some v1"
    "wr8 v1 (mode_buf_at fr + of_nat (length ms)) 0 = Some v2"
    "find_mode v2 (mode_buf_at fr) (modes_at fr) 0 = Some (mode_entry v fr ms, v3)" "good W v3"
    "\<forall>w\<in>W. word_of w = w \<longrightarrow> w \<notin> M \<longrightarrow> vread v3 w = vread v w"
proof -
  let ?mb = "mode_buf_at fr"
  note md = m[unfolded modes_ready_def]
  obtain v1 v2 where v2: "paged_memcpy v ?mb mode (of_nat (length ms)) = Some v1" "wr8 v1 (?mb + of_nat (length ms)) 0 = Some v2"
    "good W v2" "paged_cstr v2 ?mb ms" "\<forall>c\<in>bytes_of W. c \<notin> span ?mb (length ms + 1) \<longrightarrow> rd8 v2 c = rd8 v c" by (rule copy_mode[OF assms])
  have MW: "bytes_of M \<subseteq> bytes_of W" using md bytes_of_mono by blast
  have plM: "span ?mb 3 \<subseteq> bytes_of M" "\<And>m. m \<in> set (modes_at fr) \<Longrightarrow> span m 3 \<subseteq> bytes_of M" using md by (simp_all add: modes_placed_def)
  have pl: "modes_placed W ?mb (modes_at fr)" using md MW unfolding modes_placed_def by blast
  have "\<forall>m\<in>set (modes_at fr). \<forall>c\<in>span m 3. rd8 v2 c = Some (the (rd8 v c))"
  proof (intro ballI)
    fix m c assume c: "m \<in> set (modes_at fr)" "c \<in> span m 3"
    then have W: "c \<in> bytes_of W" "c \<notin> span ?mb (length ms + 1)" using plM(2) MW md by blast+
    obtain x where "rd8 v c = Some x" using rd8_good[OF good W(1)] by blast
    then show "rd8 v2 c = Some (the (rd8 v c))" using v2(5) W by simp
  qed
  then obtain v3 where v3: "find_mode v2 ?mb (modes_at fr) 0 = Some (mode_entry v fr ms, v3)" "good W v3"
    "\<forall>c\<in>bytes_of W. rd8 v3 c = rd8 v2 c \<or> rd8 v3 c = Some 0 \<and> c \<in> (\<lambda>m. m + 2) ` set (?mb # modes_at fr)"
    using find_mode_search[OF v2(3,4) refl pl, of "\<lambda>c. the (rd8 v c)" 0] unfolding mode_entry_def by blast
  have two: "(\<lambda>m. m + 2) ` set (?mb # modes_at fr) \<subseteq> bytes_of M"
    using plM in_span3_num(3) by (auto simp del: span_iff bytes_of_iff)
  have mb: "span ?mb (length ms + 1) \<subseteq> bytes_of M" using md by blast
  have "vread v3 w = vread v w" if w: "w \<in> W" "word_of w = w" "w \<notin> M" for w
  proof (rule words_kept[OF good v3(2) _ w(1,2)])
    show "rd8 v3 c = rd8 v c" if c: "c \<in> bytes_of W" "c \<notin> bytes_of M" for c
    proof -
      have "c \<notin> span ?mb (length ms + 1)" "c \<notin> (\<lambda>m. m + 2) ` set (?mb # modes_at fr)" using c(2) two mb by blast+
      then show ?thesis using bspec[OF v3(3) c(1)] bspec[OF v2(5) c(1)] by metis
    qed
    show "span w 4 \<inter> bytes_of M = {}" using word_of_span_word[OF w(2)] w(3) by auto
  qed
  then show thesis using that[OF v2(1,2) v3(1,2)] by blast
qed

end

lemma open_room_kept:
  assumes room: "open_room ls st W b n ys tree mp K" and s: "heap_sound ls (st\<lparr>vmem := v'\<rparr>) W"
    and M: "M \<inter> (set (blocks_info ls # cells 0 4 ((b, n) # ys) @ [tree, tree + 4, mp + 304, mp + 308]) \<union> K) = {}"
    and kept: "\<forall>w\<in>W. word_of w = w \<longrightarrow> w \<notin> M \<longrightarrow> vread v' w = vread (vmem st) w"
  shows "open_room ls (st\<lparr>vmem := v'\<rparr>) W b n ys tree mp K"
    and "\<And>w. w \<in> K \<union> {mp + 304, mp + 308} \<Longrightarrow> vread v' w = vread (vmem st) w"
proof -
  note r = open_roomD[OF room]
  have same: "vread v' w = vread (vmem st) w" if "w \<in> set (blocks_info ls # cells 0 4 ((b, n) # ys) @ [tree, tree + 4, mp + 304, mp + 308]) \<union> K" for w
  proof -
    have "w \<in> W" "word_of w = w" "w \<notin> M" using that r(4,7,9) M by blast+
    then show ?thesis using kept by blast
  qed
  then show "vread v' w = vread (vmem st) w" if "w \<in> K \<union> {mp + 304, mp + 308}" for w using that by auto
  have "vread v' w = vread (vmem st) w" if "w \<in> set (blocks_info ls # cells 0 4 ((b, n) # ys))" for w using that by (intro same) auto
  then have "free_list_at ls v' ((b, n) # ys)"
    using r(2) linked_cong[of "blocks_info ls" 0 4 "(b, n) # ys" "vread v'" "vread (vmem st)"] by blast
  then show "open_room ls (st\<lparr>vmem := v'\<rparr>) W b n ys tree mp K"
    using room s unfolding open_room_def Let_def by simp
qed

lemma root_mounted_kept:
  assumes "root_mounted fns v vs fs start files K"
    and "\<And>w. w \<in> K \<union> {mount_points vs + 304, mount_points vs + 308} \<Longrightarrow> vread v' w = vread v w"
  shows "root_mounted fns v' vs fs start files K"
proof -
  have "initrd_image v' start files"
    using assms unfolding root_mounted_def by (intro initrd_image_cong[of K v' v]) blast+
  then show ?thesis using assms by (simp add: root_mounted_def)
qed

lemma room_for_file:
  assumes room: "open_room ls st W b n ys tree mp K"
  defines "e \<equiv> b + 8 * (n - 25)"
  assumes s: "heap_sound ls st' W" "free_list_at ls (vmem st') ((b, n - 22) # ys @ [(e + 184, 1)])"
  shows "heap_room ls st' W [] b (n - 22) (ys @ [(e + 184, 1)]) 2 3" "b + 8 * (n - 22 - 2) = e + 8"
    "heap_writes b (n - 22) 2 = {e, e + 4, b + 4}"
proof -
  note r = open_roomD[OF room, folded e_def]
  show a: "b + 8 * (n - 22 - 2) = e + 8" by (simp add: e_def algebra_simps)
  let ?S = "set (blocks_info ls # cells 0 4 ((b, n) # ys) @ [tree, tree + 4, mp + 304, mp + 308])"
  let ?F = "blocks_info ls # cells 0 4 ([] @ (b, n - 22) # ys @ [(e + 184, 1)])"
  have hd: "e + 8 - 8 = e" "e + 8 - 4 = e + 4" by simp_all
  show "heap_writes b (n - 22) 2 = {e, e + 4, b + 4}" unfolding heap_writes_def a hd ..
  have F: "set ?F = set (blocks_info ls # cells 0 4 ((b, n) # ys)) \<union> {e + 184, e + 188}" by (auto simp: add.commute[of 188 e])
  have nw: "{e + 184, e + 188} \<subseteq> W - ?S" using r(6) node_words[of e] by auto
  have idx: "e + 4 * of_nat i \<in> words_from e j \<longleftrightarrow> i < j" if "i < 50" "j \<le> 50" for i j using words_from_iff[of i j e] that by simp
  have five: "words_from e 5 \<subseteq> W - set ?F"
  proof -
    have "words_from e 5 \<subseteq> words_from e 50" by (rule words_from_mono) simp
    moreover have "e + 184 \<notin> words_from e 5" "e + 188 \<notin> words_from e 5" using idx[of 46 5] idx[of 47 5] by simp_all
    ultimately show ?thesis using r(6) unfolding F by auto
  qed
  have e: "e \<in> words_from e 5" "e + 4 \<in> words_from e 5" "e \<in> words_from e 2" "e + 4 \<in> words_from e 2"
    using idx[of 0 5] idx[of 1 5] idx[of 0 2] idx[of 1 2] by simp_all
  have blk: "words_from (e + 8) 3 \<subseteq> words_from e 5" using region_part[of e 2 3] by simp
  have d: "e \<notin> words_from (e + 8) 3" "e + 4 \<notin> words_from (e + 8) 3" by (auto simp: words_from_def lessThan_Suc numeral_3_eq_3)
  have u: "2 < n - 22" using r(5) by (simp add: word_less_nat_alt unat_sub_if' word_le_nat_alt)
  have al: "word_of (e + 8) = e + 8" "word_of (e + 184) = e + 184" "word_of (e + 188) = e + 188"
    using word_of_step[OF r(8), of 2] word_of_step[OF r(8), of 46] word_of_step[OF r(8), of 47] by simp_all
  have "e + 8 \<noteq> 0" using end_words[of 2 e] r(10) by auto
  moreover have "distinct ?F" using r(3) nw by (auto simp: add.commute[of 188 e])
  moreover have "set ?F \<subseteq> W" "\<forall>w\<in>set ?F. word_of w = w" using r(4,9) nw al unfolding F by auto
  moreover have "{e, e + 4} \<subseteq> W - set ?F" using e(1,2) five by blast
  moreover have "words_from (e + 8) 3 \<subseteq> W - (set ?F \<union> {e, e + 4})" using blk five d by blast
  ultimately show "heap_room ls st' W [] b (n - 22) (ys @ [(e + 184, 1)]) 2 3"
    unfolding heap_room_def Let_def a hd using s u al(1) by simp
qed

text \<open>Filling a fresh \<open>file_t\<close>, in the order of the code.\<close>

lemma fill_file:
  assumes room: "heap_room ls st W [] b n ys 2 3" and a: "b + 8 * (n - 2) = f"
  obtains st5 v6 v7 v8 where "kmalloc ls junk st sizeof_file = Some (f, st5)" "f \<noteq> 0"
    "vwrite (vmem st5) (f + file_t_offset file_inode) x = Some v6" "vwrite v6 (f + file_t_offset file_mode) y = Some v7"
    "vwrite v7 (f + file_t_offset file_offset) z = Some v8" "heap_sound ls (st5\<lparr>vmem := v8\<rparr>) W"
    "vread v8 (f + file_t_offset file_inode) = Some x" "vread v8 (f + file_t_offset file_mode) = Some y"
    "vread v8 (f + file_t_offset file_offset) = Some z"
    "\<forall>w\<in>W. w \<notin> heap_writes b n 2 \<union> words_from f 3 \<longrightarrow> vread v8 w = vread (vmem st) w"
proof -
  have fw: "f \<in> words_from f 3" "f + 4 \<in> words_from f 3" "f + 8 \<in> words_from f 3"
    using words_from_iff[of 0 3 f] words_from_iff[of 1 3 f] words_from_iff[of 2 3 f] by simp_all
  note rm = heap_roomD[OF room, unfolded a]
  have W: "f \<in> W" "f + 4 \<in> W" "f + 8 \<in> W" using fw rm(1) by blast+
  obtain v5 where v5: "kmalloc ls junk st sizeof_file = Some (f, st\<lparr>vmem := v5\<rparr>)" "heap_sound ls (st\<lparr>vmem := v5\<rparr>) W"
    "\<And>w. w \<in> W \<Longrightarrow> w \<notin> heap_writes b n 2 \<Longrightarrow> vread v5 w = vread (vmem st) w"
    using kmalloc_room[OF room, of sizeof_file junk] a by (auto simp: sizeof_file_def)
  obtain v6 where v6: "vwrite v5 (f + 8) x = Some v6" "heap_sound ls (st\<lparr>vmem := v6\<rparr>) W" "vread v6 (f + 8) = Some x"
    "\<And>w. w \<in> W \<Longrightarrow> w \<noteq> f + 8 \<Longrightarrow> vread v6 w = vread v5 w" using heap.wr_word[OF v5(2) W(3)] by blast
  obtain v7 where v7: "vwrite v6 f y = Some v7" "heap_sound ls (st\<lparr>vmem := v7\<rparr>) W" "vread v7 f = Some y"
    "\<And>w. w \<in> W \<Longrightarrow> w \<noteq> f \<Longrightarrow> vread v7 w = vread v6 w" using heap.wr_word[OF v6(2) W(1)] by blast
  obtain v8 where v8: "vwrite v7 (f + 4) z = Some v8" "heap_sound ls (st\<lparr>vmem := v8\<rparr>) W" "vread v8 (f + 4) = Some z"
    "\<And>w. w \<in> W \<Longrightarrow> w \<noteq> f + 4 \<Longrightarrow> vread v8 w = vread v7 w" using heap.wr_word[OF v7(2) W(2)] by blast
  have "vread v8 w = vread (vmem st) w" if "w \<in> W" "w \<notin> heap_writes b n 2 \<union> words_from f 3" for w
  proof -
    have "w \<noteq> f" "w \<noteq> f + 4" "w \<noteq> f + 8" using that(2) fw by blast+
    then show ?thesis using that v5(3) v6(4) v7(4) v8(4) by simp
  qed
  then show thesis using that[of "st\<lparr>vmem := v5\<rparr>" v6 v7 v8] v5 v6 v7 v8 W rm(2) by simp
qed

lemma file_open_found:
  assumes room: "open_room ls st W b n ys (tree_nodes_at fr) (mount_points vs) K" and root: "root_mounted fns (vmem st) vs fs start files K"
    and path: "path \<noteq> 0" "paged_cstr (vmem st) path cs" "length cs < 2 ^ 31" "span path (Suc (length cs)) \<subseteq> bytes_of K"
    and i: "i < length files" "fst (files ! i) = requested_name cs" "\<And>j. j < i \<Longrightarrow> fst (files ! j) \<noteq> requested_name cs"
      "start + 4 + of_nat i * sizeof_initrd_inode \<noteq> 0"
    and m: "modes_ready (vmem st) fr W M mode ms" "mode_entry (vmem st) fr ms = Some j"
    and M: "M \<inter> (set (blocks_info ls # cells 0 4 ((b, n) # ys) @ [tree_nodes_at fr, tree_nodes_at fr + 4, mount_points vs + 304, mount_points vs + 308]) \<union> K) = {}"
    and addr: "addr = start + 4 + of_nat (length files) * sizeof_initrd_inode + fst (snd (files ! i))"
    and data: "snd (snd (files ! i)) = of_nat (length data)" "length data < 2 ^ 31" "span addr (length data) \<subseteq> bytes_of K"
      "\<forall>k<length data. rd8 (vmem st) (addr + of_nat k) = Some (data ! k)"
  defines "e \<equiv> b + 8 * (n - 25)"
  shows "\<exists>st'. file_open ls fns junk True fr vs st path mode = Some (e + 8, st') \<and> heap_sound ls st' W
    \<and> file_view fns (vmem st') (e + 8) (e + 24) addr fs (data, 0) \<and> vread (vmem st') (e + 8 + file_t_offset file_mode) = Some (modes_bits ! j)
    \<and> (\<forall>w\<in>K. vread (vmem st') w = vread (vmem st) w)"
proof -
  note r = open_roomD[OF room, folded e_def]
  have s: "heap_sound ls (st\<lparr>vmem := vmem st\<rparr>) W" using r(1) by simp
  obtain v1 v2 v3 where v3: "paged_memcpy (vmem st) (mode_buf_at fr) mode (of_nat (length ms)) = Some v1"
    "wr8 v1 (mode_buf_at fr + of_nat (length ms)) 0 = Some v2"
    "find_mode v2 (mode_buf_at fr) (modes_at fr) 0 = Some (mode_entry (vmem st) fr ms, v3)"
    "heap_sound ls (st\<lparr>vmem := v3\<rparr>) W" "\<forall>w\<in>W. word_of w = w \<longrightarrow> w \<notin> M \<longrightarrow> vread v3 w = vread (vmem st) w"
    by (rule heap.choose_mode[OF s m(1)])
  note room3 = open_room_kept[OF room v3(4) M v3(5)]
  have K3: "vread v3 w = vread (vmem st) w" if "w \<in> K" for w using room3(2) that by blast
  have root3: "root_mounted fns (vmem (st\<lparr>vmem := v3\<rparr>)) vs fs start files K" using root_mounted_kept[OF root room3(2)] by simp
  have path3: "paged_cstr (vmem (st\<lparr>vmem := v3\<rparr>)) path cs" using path by (simp add: paged_cstr_kept[OF K3])
  obtain st4 where st4: "vfs_open ls fns junk True (tree_nodes_at fr) vs (st\<lparr>vmem := v3\<rparr>) path = Some (e + 24, st4)" "heap_sound ls st4 W"
    "free_list_at ls (vmem st4) ((b, n - 22) # ys @ [(e + 184, 1)])" "initrd_node (vmem st4) (e + 24) fs start (length files) (files ! i)"
    "\<forall>w\<in>K. vread (vmem st4) w = vread v3 w"
    using vfs_open_found[OF room3(1) root3 path(1) path3 path(3,4) i, of junk] unfolding e_def by auto
  note hr = room_for_file[OF room st4(2), folded e_def, OF st4(3)]
  obtain st5 v6 v7 v8 where f: "kmalloc ls junk st4 sizeof_file = Some (e + 8, st5)" "e + 8 \<noteq> 0"
    "vwrite (vmem st5) (e + 8 + file_t_offset file_inode) (e + 24) = Some v6" "vwrite v6 (e + 8 + file_t_offset file_mode) (modes_bits ! j) = Some v7"
    "vwrite v7 (e + 8 + file_t_offset file_offset) 0 = Some v8" "heap_sound ls (st5\<lparr>vmem := v8\<rparr>) W"
    "vread v8 (e + 8 + file_t_offset file_inode) = Some (e + 24)" "vread v8 (e + 8 + file_t_offset file_mode) = Some (modes_bits ! j)"
    "vread v8 (e + 8 + file_t_offset file_offset) = Some 0"
    "\<forall>w\<in>W. w \<notin> heap_writes b (n - 22) 2 \<union> words_from (e + 8) 3 \<longrightarrow> vread v8 w = vread (vmem st4) w"
    by (rule fill_file[OF hr(1,2), of junk "e + 24" "modes_bits ! j" 0])
  have ml: "paged_strlen (vmem st) mode = Some (of_nat (length ms))" using m(1) by (intro paged_strlen_cstr) (simp add: modes_ready_def)
  have "e + 24 \<noteq> 0" using end_words[of 6 e] r(10) by auto
  then have open': "file_open ls fns junk True fr vs st path mode = Some (e + 8, st5\<lparr>vmem := v8\<rparr>)"
    using path(1) m(2) ml v3(1-3) st4(1) f(1,3-5) by (simp add: file_open_def)
  have "words_from (e + 8) 3 \<subseteq> words_from e 5" using region_part[of e 2 3] by simp
  moreover have "{e, e + 4} \<subseteq> words_from e 5" using words_from_iff[of 0 5 e] words_from_iff[of 1 5 e] by simp
  ultimately have keep: "vread v8 w = vread (vmem st4) w" if "w \<in> W" "w \<noteq> b + 4" "w \<notin> words_from e 5" for w
    using f(10) that unfolding hr(3) by blast
  have KS: "w \<in> W" "w \<noteq> b + 4" "w \<notin> words_from e 5" if "w \<in> K" for w
    using that r(6,7) words_from_mono[of 5 50 e] by auto
  have K8: "vread v8 w = vread (vmem st) w" if "w \<in> K" for w using keep[OF KS[OF that]] st4(5) K3[OF that] that by simp
  have node: "vread v8 w = vread (vmem st4) w" if "w = e + 4 * of_nat k" "5 \<le> k" "k < 50" for w k
  proof -
    have "w \<in> words_from e 50" "w \<notin> words_from e 5" using that words_from_iff[of k 50 e] words_from_iff[of k 5 e] by simp_all
    then show ?thesis using r(6) by (intro keep) auto
  qed
  have "rd8 v8 (addr + of_nat k) = Some (data ! k)" if "k < length data" for k
  proof -
    have "addr + of_nat k \<in> span addr (length data)" using that data(2) by (intro of_nat_in_span) simp_all
    then have "word_of (addr + of_nat k) \<in> K" using data(3) bytes_of_iff by blast
    then show ?thesis using data(4) that rd8_kept[OF K8] by metis
  qed
  moreover have "vread v8 (e + 172) = vread (vmem st4) (e + 172)" "vread v8 (e + 176) = vread (vmem st4) (e + 176)"
    "vread v8 (e + 180) = vread (vmem st4) (e + 180)" using node[of _ 43] node[of _ 44] node[of _ 45] by simp_all
  moreover have "fs + 36 \<in> K" "vread (vmem st) (fs + 36) = Some (initrd_read_at fns)" using root by (simp_all add: root_mounted_def)
  ultimately have "file_view fns v8 (e + 8) (e + 24) addr fs (data, 0)"
    using f(2,7,9) st4(4) data(1,2) \<open>e + 24 \<noteq> 0\<close> K8[of "fs + 36"] unfolding file_view_def initrd_node_def addr by (simp add: add.assoc)
  then show ?thesis using open' f(6,8) K8 by (intro exI[of _ "st5\<lparr>vmem := v8\<rparr>"]) simp
qed

lemma open_layout:
  assumes room: "open_room ls st W b n ys tree mp K" and "fs + 36 \<in> K" "length data < 2 ^ 31" "span addr (length data) \<subseteq> bytes_of K"
  defines "e \<equiv> b + 8 * (n - 25)"
  shows "file_layout W (e + 8) (e + 24) addr fs data"
proof -
  note r = open_roomD[OF room, folded e_def]
  have at: "e + 4 * of_nat k \<in> W" "word_of (e + 4 * of_nat k) = e + 4 * of_nat k" "e + 4 * of_nat k \<notin> K" if "k < 50" for k
    using r(6) end_words[OF that, of e] word_of_step[OF r(8), of k] by blast+
  have K: "fs + 36 \<in> W" "word_of (fs + 36) = fs + 36" "K \<subseteq> W" using assms(2) r(7,9) by blast+
  have fw: "file_words (e + 8) (e + 24) fs = {e + 4 * of_nat 4, e + 4 * of_nat 3, e + 4 * of_nat 43, e + 4 * of_nat 44, e + 4 * of_nat 45, fs + 36}"
    by (simp add: file_words_def add.assoc)
  have e12: "e + 8 + 4 = e + 4 * of_nat 3" by (simp add: add.assoc)
  have "file_words (e + 8) (e + 24) fs \<subseteq> W \<and> (\<forall>w\<in>file_words (e + 8) (e + 24) fs. word_of w = w)"
    unfolding fw using at(1,2)[of 3] at(1,2)[of 4] at(1,2)[of 43] at(1,2)[of 44] at(1,2)[of 45] K by simp
  moreover have "e + 8 + 4 \<notin> {e + 24 + 148, e + 24 + 152, e + 24 + 156, fs + 36}"
    unfolding e12 using at(3)[of 3] assms(2) by (auto simp: add.assoc add.commute[of 36 fs])
  moreover have "K \<subseteq> W - {e + 8 + 4}" unfolding e12 using at(3)[of 3] K(3) by auto
  then have "span addr (length data) \<subseteq> bytes_of (W - {e + 8 + 4})" using assms(4) bytes_of_mono by blast
  ultimately show ?thesis using assms(3) unfolding file_layout_def by blast
qed

section \<open>Properties\<close>

text \<open>C13: reading an open file of the ramdisk refines the abstract read: the number returned is
  that of the next bytes, at most as many as asked for and as there are left, the buffer holds
  exactly them, and the file stands for the same contents with the position moved behind
  them.\<close>

theorem file_read_refines:
  assumes "data_window W v" "file_view fns v file node addr fs f" "file_layout W file node addr fs (fst f)"
    and "buffer_apart W file node addr fs (fst f) buffer len"
  shows "\<exists>v'. file_read fns v file buffer len = Some (of_nat (length (fst (abstract_read (unat len) f))), v') \<and> data_window W v'
    \<and> (\<forall>i<length (fst (abstract_read (unat len) f)). rd8 v' (buffer + of_nat i) = Some (fst (abstract_read (unat len) f) ! i))
    \<and> file_view fns v' file node addr fs (snd (abstract_read (unat len) f))"
proof (cases f)
  case (Pair cs pos)
  with assms have a: "file_view fns v file node addr fs (cs, pos)" "file_layout W file node addr fs cs"
    "buffer_apart W file node addr fs cs buffer len" by simp_all
  from window.file_read_layout[OF assms(1) a] show ?thesis using Pair by (auto simp: abstract_read_def Let_def)
qed

text \<open>C34: a move from the end of the file is one from the current position, in the other
  direction, and is not checked: with a position past the end, \<open>size - offset\<close> wraps, so the
  length of a read is no longer cut, and the file has no abstract state.\<close>

theorem file_seek_end_passes_end:
  assumes "data_window W v" "file_view fns v file node addr fs (cs, pos)" "file_layout W file node addr fs cs"
    and "0 < k" "length cs < pos + k" "pos + k < 2 ^ 31"
  shows "\<exists>v'. file_seek left_over v file (- of_nat k) SEEK_END = Some (left_over, v')
    \<and> vread v' (file + file_t_offset file_offset) = Some (of_nat (pos + k))
    \<and> (of_nat (length cs) - of_nat (pos + k) :: u32) > of_nat (length cs)
    \<and> (\<forall>f. \<not> file_view fns v' file node addr fs f)"
proof -
  note fd = assms(2)[unfolded file_view_def fst_conv snd_conv, simplified]
  have k: "k < 2 ^ 31" and n: "length cs < 2 ^ 31" using assms(3,6) by (simp_all add: file_layout_def)
  have neg: "sint (- of_nat k :: u32) \<le> 0"
  proof (rule ccontr)
    assume p: "\<not> sint (- of_nat k :: u32) \<le> 0"
    then have "unat (- of_nat k :: u32) = nat (sint (- of_nat k :: u32))" by (intro sint_nonneg_unat) simp
    moreover have "sint (- of_nat k :: u32) < 2 ^ 31" using sint_less[of "- of_nat k :: u32"] by simp
    moreover have "unat (- of_nat k :: u32) = 2 ^ 32 - k" using assms(4) k unat_sub_if'[of "0 :: u32" "of_nat k"] by (simp add: unat_of_nat word_le_nat_alt)
    ultimately show False using k p by simp
  qed
  have fW: "file + 4 \<in> W" using assms(3) by (auto simp: file_layout_def file_words_def)
  obtain v' where v': "vwrite v (file + 4) (of_nat (pos + k)) = Some v'" "vread v' (file + 4) = Some (of_nat (pos + k))"
    "\<And>w. w \<in> W \<Longrightarrow> w \<noteq> file + 4 \<Longrightarrow> vread v' w = vread v w" using paged.wr_word[OF assms(1) fW] by blast
  have "file_seek left_over v file (- of_nat k) SEEK_END = Some (left_over, v')"
    using fd neg v'(1) by (simp add: file_seek_def SEEK_END_def SEEK_SET_def SEEK_CUR_def)
  moreover have "unat (of_nat (length cs) - of_nat (pos + k) :: u32) = 2 ^ 32 + length cs - (pos + k)"
    using assms(5,6) n by (simp add: unat_sub_if' unat_of_nat del: of_nat_add)
  then have "(of_nat (length cs) - of_nat (pos + k) :: u32) > of_nat (length cs)"
    using assms(5,6) n by (simp add: word_less_nat_alt unat_of_nat del: of_nat_add)
  moreover have "\<not> file_view fns v' file node addr fs f" for f
  proof
    assume f: "file_view fns v' file node addr fs f"
    have "node + 148 \<in> W" "node + 148 \<noteq> file + 4" using assms(3) by (auto simp: file_layout_def file_words_def)
    then have "of_nat (length (fst f)) = (of_nat (length cs) :: u32)" using f v'(3) fd by (simp add: file_view_def)
    then have "length (fst f) = length cs" using f n by (simp add: file_view_def word_unat_eq_iff unat_of_nat)
    moreover have "of_nat (snd f) = (of_nat (pos + k) :: u32)" using f v'(2) by (simp add: file_view_def)
    then have "snd f = pos + k" using f n assms(6) \<open>length (fst f) = length cs\<close> by (simp add: file_view_def word_unat_eq_iff unat_of_nat del: of_nat_add)
    ultimately show False using f assms(5) by (simp add: file_view_def)
  qed
  ultimately show ?thesis using v'(2) by (intro exI[of _ v']) simp
qed

text \<open>C3: from the path to the bytes. With the ramdisk mounted at the root, \<open>file_open\<close> finds the
  first file of that name and takes the bits of the mode that the search chooses among the
  literals as they are in memory; then any sequence of reads and moves that never puts the
  position behind the end of the file (only a move from the end can) returns what the abstract
  file returns from position 0, and a read after it puts into the buffer exactly the bytes that
  come next. The buffers lie apart from the file, its node and its contents.\<close>

theorem file_open_run_read:
  assumes room: "open_room ls st W b n ys (tree_nodes_at fr) (mount_points vs) K" and root: "root_mounted fns (vmem st) vs fs start files K"
    and path: "path \<noteq> 0" "paged_cstr (vmem st) path cs" "length cs < 2 ^ 31" "span path (Suc (length cs)) \<subseteq> bytes_of K"
    and i: "i < length files" "fst (files ! i) = requested_name cs" "\<forall>j<i. fst (files ! j) \<noteq> requested_name cs"
      "start + 4 + of_nat i * sizeof_initrd_inode \<noteq> 0"
    and m: "modes_ready (vmem st) fr W M mode ms" "mode_entry (vmem st) fr ms = Some j"
    and M: "M \<inter> (set (blocks_info ls # cells 0 4 ((b, n) # ys) @ [tree_nodes_at fr, tree_nodes_at fr + 4, mount_points vs + 304, mount_points vs + 308]) \<union> K) = {}"
    and addr: "addr = start + 4 + of_nat (length files) * sizeof_initrd_inode + fst (snd (files ! i))"
    and data: "snd (snd (files ! i)) = of_nat (length data)" "length data < 2 ^ 31" "span addr (length data) \<subseteq> bytes_of K"
      "\<forall>k<length data. rd8 (vmem st) (addr + of_nat k) = Some (data ! k)"
    and e: "e = b + 8 * (n - 25)" and ops: "\<forall>op\<in>set ops. op_apart W (e + 8) (e + 24) addr fs data op" "stays_inside left_over ops (data, 0)"
    and buf: "buffer_apart W (e + 8) (e + 24) addr fs data buffer len"
    and out: "out = fst (abstract_read (unat len) (snd (spec_run left_over ops (data, 0))))"
  shows "\<exists>file st' v1 v2. file_open ls fns junk True fr vs st path mode = Some (file, st')
    \<and> vread (vmem st') (file + file_t_offset file_mode) = Some (modes_bits ! j)
    \<and> file_run fns left_over file ops (vmem st') = Some (fst (spec_run left_over ops (data, 0)), v1)
    \<and> file_read fns v1 file buffer len = Some (of_nat (length out), v2) \<and> (\<forall>k<length out. rd8 v2 (buffer + of_nat k) = Some (out ! k))"
proof -
  have first: "\<And>j. j < i \<Longrightarrow> fst (files ! j) \<noteq> requested_name cs" using i(3) by blast
  obtain st' where st': "file_open ls fns junk True fr vs st path mode = Some (e + 8, st')" "heap_sound ls st' W"
    "file_view fns (vmem st') (e + 8) (e + 24) addr fs (data, 0)" "vread (vmem st') (e + 8 + file_t_offset file_mode) = Some (modes_bits ! j)"
    using file_open_found[OF room root path i(1,2) first i(4) m M addr data, of junk] unfolding e by auto
  have "fs + 36 \<in> K" using root by (simp add: root_mounted_def)
  then have lay: "file_layout W (e + 8) (e + 24) addr fs data" using open_layout[OF room _ data(2,3)] unfolding e by blast
  obtain v1 where v1: "file_run fns left_over (e + 8) ops (vmem st') = Some (fst (spec_run left_over ops (data, 0)), v1)" "data_window W v1"
    "file_view fns v1 (e + 8) (e + 24) addr fs (snd (spec_run left_over ops (data, 0)))"
    using window.file_run_steps[OF heap_soundD(2)[OF st'(2)] st'(3) lay ops] by blast
  obtain pos where f: "snd (spec_run left_over ops (data, 0)) = (data, pos)"
    using fst_spec_run[of left_over ops "(data, 0)"] by (cases "snd (spec_run left_over ops (data, 0))") simp
  obtain v2 where "file_read fns v1 (e + 8) buffer len = Some (of_nat (length out), v2)" "\<forall>k<length out. rd8 v2 (buffer + of_nat k) = Some (out ! k)"
    using window.file_read_layout[OF v1(2) v1(3)[unfolded f] lay buf] unfolding out f by (auto simp: abstract_read_def Let_def)
  with st'(1,4) v1(1) show ?thesis by blast
qed

text \<open>C32: the search for the mode in \<open>file_open\<close>, wherever the literals of \<open>possible_modes\<close> lie apart
  from the copy of the mode. Comparing with length 3 cuts both strings at index 2, so the search
  stops at the first entry whose first two characters, after the cuts made so far, are those of
  the mode, and nothing but the byte at index 2 of the copy and of the entries changes, to 0.
  With the literals one behind the other the cut of \<open>r\<close> empties \<open>rb\<close>: the modes \<open>rb\<close> and \<open>rb+\<close> then
  get the bits of \<open>rb+\<close>, reading and writing, the empty mode gets those of \<open>rb\<close>, and it stays so for
  every later search.\<close>

theorem find_mode_correct:
  assumes "data_window W v" "paged_cstr v mb mode" "modes_placed W mb ms"
    and "\<forall>m\<in>set ms. \<forall>c\<in>span m 3. rd8 v c = Some (mem c)"
  shows "\<exists>v'. find_mode v mb ms 0 = Some (search_modes mode mem ms 0, v') \<and> data_window W v'
    \<and> (\<forall>c\<in>bytes_of W. rd8 v' c = rd8 v c \<or> rd8 v' c = Some 0 \<and> c \<in> (\<lambda>m. m + 2) ` set (mb # ms))
    \<and> (packed_modes mem a ms \<and> span a 48 \<subseteq> bytes_of W - span mb 3 \<and> (\<forall>c\<in>span a 48. rd8 v c = Some (mem c)) \<longrightarrow>
        search_modes mode mem ms 0 = map_of packed_entry (take 2 mode)
        \<and> (mode \<in> {c_bytes ''rb'', c_bytes ''rb+''} \<longrightarrow> search_modes mode mem ms 0 = Some 7)
        \<and> possible_modes ! 1 = ''rb'' \<and> modes_bits ! 1 = file_mode_value READ
        \<and> possible_modes ! 7 = ''rb+'' \<and> modes_bits ! 7 = file_mode_value READ OR file_mode_value WRITE
        \<and> packed_modes (\<lambda>c. the (rd8 v' c)) a ms)"
proof -
  obtain v' where v': "find_mode v mb ms 0 = Some (search_modes mode mem ms 0, v')" "data_window W v'"
    "\<forall>c\<in>bytes_of W. rd8 v' c = rd8 v c \<or> rd8 v' c = Some 0 \<and> c \<in> (\<lambda>m. m + 2) ` set (mb # ms)"
    using window.find_mode_search[OF assms(1,2) refl assms(3,4), of 0] by blast
  have bits: "possible_modes ! 1 = ''rb''" "modes_bits ! 1 = file_mode_value READ" "possible_modes ! 7 = ''rb+''"
    "modes_bits ! 7 = file_mode_value READ OR file_mode_value WRITE" by (simp_all add: modes_bits_def possible_modes_def mode_bits_def)
  have kept: "packed_modes (\<lambda>c. the (rd8 v' c)) a ms"
    if p: "packed_modes mem a ms" "span a 48 \<subseteq> bytes_of W - span mb 3" "\<forall>c\<in>span a 48. rd8 v c = Some (mem c)"
  proof (rule packed_kept[OF p(1)])
    fix c assume c: "c \<in> span a 48"
    then have "c \<in> bytes_of W" "c \<noteq> mb + 2" using p(2) in_span3_num(3)[of mb] by blast+
    with bspec[OF v'(3) this(1)] bspec[OF p(3) c] show "the (rd8 v' c) = mem c \<or> the (rd8 v' c) = 0 \<and> c \<in> (\<lambda>m. m + 2) ` set ms" by auto
  qed
  have rb: "map_of packed_entry (take 2 mode) = Some 7" if "mode \<in> {c_bytes ''rb'', c_bytes ''rb+''}"
    using that by (auto simp: packed_entry_def c_bytes_def)
  show ?thesis using v' bits kept rb search_packed[where mode = mode and mem = mem and a = a and ms = ms]
    by (intro exI[of _ v'] conjI impI) simp_all
qed

text \<open>C29: \<open>file_open\<close> without a path, with a mode that the search finds in none of the literals as
  they are in memory, or with a path that names no file of the mounted ramdisk returns \<open>NULL\<close>; the
  mounted image is as it was.\<close>

theorem file_open_refuses:
  assumes room: "open_room ls st W b n ys (tree_nodes_at fr) (mount_points vs) K" and root: "root_mounted fns (vmem st) vs fs start files K"
    and path: "paged_cstr (vmem st) path cs" "length cs < 2 ^ 31" "span path (Suc (length cs)) \<subseteq> bytes_of K"
    and m: "modes_ready (vmem st) fr W M mode ms"
    and M: "M \<inter> (set (blocks_info ls # cells 0 4 ((b, n) # ys) @ [tree_nodes_at fr, tree_nodes_at fr + 4, mount_points vs + 304, mount_points vs + 308]) \<union> K) = {}"
    and bad: "path = 0 \<or> mode_entry (vmem st) fr ms = None \<or> requested_name cs \<notin> fst ` set files"
  shows "\<exists>st'. file_open ls fns junk True fr vs st path mode = Some (0, st') \<and> heap_sound ls st' W
    \<and> (\<forall>w\<in>K. vread (vmem st') w = vread (vmem st) w)"
proof (cases "path = 0")
  case True
  then show ?thesis using open_roomD(1)[OF room] by (simp add: file_open_def)
next
  case False
  have s: "heap_sound ls (st\<lparr>vmem := vmem st\<rparr>) W" using open_roomD(1)[OF room] by simp
  let ?r = "mode_entry (vmem st) fr ms"
  obtain v1 v2 v3 where v3: "paged_memcpy (vmem st) (mode_buf_at fr) mode (of_nat (length ms)) = Some v1"
    "wr8 v1 (mode_buf_at fr + of_nat (length ms)) 0 = Some v2" "find_mode v2 (mode_buf_at fr) (modes_at fr) 0 = Some (?r, v3)"
    "heap_sound ls (st\<lparr>vmem := v3\<rparr>) W" "\<forall>w\<in>W. word_of w = w \<longrightarrow> w \<notin> M \<longrightarrow> vread v3 w = vread (vmem st) w"
    by (rule heap.choose_mode[OF s m])
  note room3 = open_room_kept[OF room v3(4) M v3(5)]
  have ml: "paged_strlen (vmem st) mode = Some (of_nat (length ms))" using m by (intro paged_strlen_cstr) (simp add: modes_ready_def)
  show ?thesis
  proof (cases ?r)
    case None
    then show ?thesis using False ml v3(1-4) room3(2) by (intro exI[of _ "st\<lparr>vmem := v3\<rparr>"]) (simp add: file_open_def)
  next
    case (Some j)
    then have absent: "requested_name cs \<notin> fst ` set files" using bad False by simp
    have K3: "vread v3 w = vread (vmem st) w" if "w \<in> K" for w using room3(2) that by blast
    have root3: "root_mounted fns (vmem (st\<lparr>vmem := v3\<rparr>)) vs fs start files K" using root_mounted_kept[OF root room3(2)] by simp
    have path3: "paged_cstr (vmem (st\<lparr>vmem := v3\<rparr>)) path cs" using path by (simp add: paged_cstr_kept[OF K3])
    obtain st' where "vfs_open ls fns junk True (tree_nodes_at fr) vs (st\<lparr>vmem := v3\<rparr>) path = Some (0, st')" "heap_sound ls st' W"
      "\<forall>w\<in>K. vread (vmem st') w = vread v3 w"
      using vfs_open_missing[OF room3(1) root3 False path3 path(2,3) absent, of junk] by auto
    then show ?thesis using False ml v3(1-3) Some K3 by (intro exI[of _ st']) (simp add: file_open_def)
  qed
qed

section \<open>Instances\<close>

text \<open>The sample disk: the frame of \<open>file_open\<close>, and the open file at 0xC0800900.\<close>

definition sample_frame :: file_frame where
  "sample_frame = \<lparr>modes_at = [0xC0800600, 0xC0800602, 0xC0800605, 0xC0800607, 0xC080060A, 0xC080060C, 0xC080060F, 0xC0800612,
      0xC0800616, 0xC080061A, 0xC080061D, 0xC0800621, 0xC0800625, 0xC0800628, 0xC080062C],
    mode_buf_at = 0xC0800520, tree_nodes_at = 0xC0800100\<rparr>"

abbreviation sample_written :: "u32 set" where
  "sample_written \<equiv> words_between 0xC0800520 0xC0800700"

lemma sample_literals:
  assumes "\<forall>(a, x)\<in>set disk_words. vread v a = Some x"
  shows "i < 48 \<Longrightarrow> rd8 v (0xC0800600 + of_nat i) = Some (mode_literals ! i)"
proof -
  have w: "vread v 0xC0800600 = Some 0x62720072" "vread v 0xC0800604 = Some 0x77007700" "vread v 0xC0800608 = Some 0x610062"
    "vread v 0xC080060C = Some 0x72006261" "vread v 0xC0800610 = Some 0x6272002B" "vread v 0xC0800614 = Some 0x2B72002B"
    "vread v 0xC0800618 = Some 0x2B770062" "vread v 0xC080061C = Some 0x2B627700" "vread v 0xC0800620 = Some 0x622B7700"
    "vread v 0xC0800624 = Some 0x2B6100" "vread v 0xC0800628 = Some 0x2B6261" "vread v 0xC080062C = Some 0x622B61"
    using assms by (simp_all add: disk_words_def)
  have "list_all (\<lambda>i. rd8 v (0xC0800600 + of_nat i) = Some (mode_literals ! i)) [0..<48]"
    by (simp add: upt_rec w mode_literals_bytes rd8_def word_of_def byte_index_def get_byte_def drop_bit_eq_div)
  then show "i < 48 \<Longrightarrow> rd8 v (0xC0800600 + of_nat i) = Some (mode_literals ! i)" by (simp add: list_all_iff)
qed

lemma sample_packed:
  assumes "\<forall>(a, x)\<in>set disk_words. vread v a = Some x"
  shows "packed_modes (\<lambda>c. the (rd8 v c)) 0xC0800600 (modes_at sample_frame)"
proof -
  have "modes_at sample_frame = map (\<lambda>x. 0xC0800600 + of_nat x) (map literal_at [0..<15])"
    unfolding literal_places by (simp add: sample_frame_def)
  then show ?thesis using sample_literals[OF assms] by (simp add: packed_modes_def)
qed

lemma sample_mode_entry:
  assumes "\<forall>(a, x)\<in>set disk_words. vread v a = Some x"
  shows "mode_entry v sample_frame [0x72] = Some 0"
  using search_packed[OF sample_packed[OF assms], of "[0x72]"] by (simp add: mode_entry_def packed_entry_def c_bytes_def)

lemma span_apart: "unat a + m \<le> unat b \<Longrightarrow> unat b + n \<le> 2 ^ 32 \<Longrightarrow> span a m \<inter> span b n = {}"
proof -
  assume h: "unat a + m \<le> unat b" "unat b + n \<le> 2 ^ 32"
  have "False" if "c \<in> span a m" "c \<in> span b n" for c
  proof -
    have d: "unat (c - a) < m" "unat (c - b) < n" using that by simp_all
    have "unat (a + (c - a)) = unat a + unat (c - a)" using d h by (intro unat_add_lem[THEN iffD1]) simp
    moreover have "unat (b + (c - b)) = unat b + unat (c - b)" using d h by (intro unat_add_lem[THEN iffD1]) simp
    ultimately show False using d h by simp
  qed
  then show ?thesis by blast
qed

lemma sample_modes_placed:
  assumes "words_between 0xC0800520 0xC0800700 \<subseteq> M"
  shows "modes_placed M (mode_buf_at sample_frame) (modes_at sample_frame)"
proof -
  have sub: "bytes_of sample_written \<subseteq> bytes_of M" using assms bytes_of_mono by blast
  have "span m 3 \<subseteq> bytes_of M" if "0xC0800520 \<le> m" "unat m + 3 \<le> 0xC0800700" for m
    using that by (intro order.trans[OF span_between sub]) (simp_all add: word_of_def)
  moreover have "span m 3 \<inter> span 0xC0800520 3 = {}" if "0xC0800523 \<le> m" "unat m + 3 \<le> 0xC0800700" for m
    using that span_apart[of "0xC0800520" 3 m 3] by (auto simp: word_le_nat_alt)
  ultimately show ?thesis by (simp add: modes_placed_def sample_frame_def)
qed

lemma sample_modes_ready:
  assumes "\<forall>(a, x)\<in>set disk_words. vread v a = Some x"
  shows "modes_ready v sample_frame first_heap_page sample_written 0xC0800510 [0x72]"
proof -
  have "span 0xC0800510 2 \<subseteq> bytes_of (words_between 0xC0800000 0xC0801000)" by (intro span_between) (simp_all add: word_of_def)
  then have "span 0xC0800510 2 \<subseteq> bytes_of first_heap_page" using bytes_of_mono[OF words_between_page] by blast
  moreover have "span 0xC0800520 2 \<subseteq> bytes_of sample_written" by (intro span_between) (simp_all add: word_of_def)
  moreover have "sample_written \<subseteq> first_heap_page" by (rule order.trans[OF words_between_mono words_between_page]) simp_all
  moreover have "span 0xC0800510 2 \<inter> span 0xC0800520 2 = {}" by (rule span_apart) simp_all
  moreover have "span m 3 \<inter> span 0xC0800520 2 = {}" if "0xC0800522 \<le> m" "unat m + 3 \<le> 0xC0800700" for m
    using that span_apart[of "0xC0800520" 2 m 3] by (auto simp: word_le_nat_alt)
  then have "\<forall>m\<in>set (modes_at sample_frame). span m 3 \<inter> span (mode_buf_at sample_frame) 2 = {}" by (simp add: sample_frame_def)
  ultimately show ?thesis using sample_modes_placed[OF subset_refl] disk_bytes(3)[OF assms]
    by (simp add: modes_ready_def numeral_2_eq_2[symmetric] sample_frame_def)
qed

lemma sample_written_apart:
  "sample_written \<inter> (set (blocks_info example_linker # cells 0 4 [(0xC0800000, 511 :: u32)] @
     [tree_nodes_at sample_frame, tree_nodes_at sample_frame + 4, mount_points sample_vfs + 304, mount_points sample_vfs + 308]) \<union> sample_kept) = {}"
proof -
  have "words_between 0xC0800300 0xC0800510 \<inter> sample_written = {}" by (rule words_between_apart) simp
  then show ?thesis by (auto simp: booted_head_cell sample_frame_def sample_vfs_def sample_kept_def words_between_iff)
qed

lemma sample_data:
  assumes "\<forall>(a, x)\<in>set disk_words. vread v a = Some x"
  shows "\<forall>k<length [0x7F, 0x45, 0x4C, 0x46 :: byte]. rd8 v (0xC0800420 + of_nat k) = Some ([0x7F, 0x45, 0x4C, 0x46] ! k)"
  using disk_bytes(5-8)[OF assms] by (simp add: less_Suc_eq all_conj_distrib)

lemma sample_span: "span 0xC0800420 4 \<subseteq> bytes_of (words_between 0xC0800420 0xC0800424)"
  by (intro span_between) (simp_all add: word_of_def)

lemma sample_length: "length [0x7F, 0x45, 0x4C, 0x46 :: byte] = 4"
  by simp

lemma sample_layout: "file_layout first_heap_page 0xC0800900 0xC0800800 0xC0800420 0xC0800300 [0x7F, 0x45, 0x4C, 0x46]"
proof -
  have pw: "x \<in> first_heap_page" if "word_of x = x \<and> 0xC0800000 \<le> x \<and> x < 0xC0801000" for x
    using that page_words_mem[of x "0xC0800000" "0xC0801000"] unfolding words_between_iff by blast
  have fw: "file_words 0xC0800900 0xC0800800 0xC0800300 = {0xC0800908, 0xC0800904, 0xC0800894, 0xC0800898, 0xC080089C, 0xC0800324}"
    by (simp add: file_words_def)
  have "words_between 0xC0800420 0xC0800424 \<subseteq> first_heap_page - {0xC0800904}"
    using order.trans[OF words_between_mono words_between_page, of "0xC0800420" "0xC0800424"] by (auto simp: words_between_iff)
  then have "span 0xC0800420 4 \<subseteq> bytes_of (first_heap_page - {0xC0800904})" using sample_span bytes_of_mono by blast
  moreover have "file_words 0xC0800900 0xC0800800 0xC0800300 \<subseteq> first_heap_page"
    unfolding fw by (intro subsetI pw) (auto simp: word_of_def)
  moreover have "\<forall>w\<in>file_words 0xC0800900 0xC0800800 0xC0800300. word_of w = w" unfolding fw by (simp add: word_of_def)
  ultimately show ?thesis unfolding file_layout_def sample_length by simp
qed

lemma sample_buffer:
  assumes "file_words file node 0xC0800300 \<inter> words_between 0xC0800700 0xC0800800 = {}"
  shows "buffer_apart first_heap_page file node 0xC0800420 0xC0800300 [0x7F, 0x45, 0x4C, 0x46] 0xC0800700 10"
proof -
  have b: "span 0xC0800700 10 \<subseteq> bytes_of (words_between 0xC0800700 0xC0800800)" by (intro span_between) (simp_all add: word_of_def)
  have "words_between 0xC0800700 0xC0800800 \<subseteq> first_heap_page" by (rule order.trans[OF words_between_mono words_between_page]) simp_all
  then have "words_between 0xC0800700 0xC0800800 \<subseteq> first_heap_page - file_words file node 0xC0800300" using assms by blast
  moreover have "words_between 0xC0800420 0xC0800424 \<inter> words_between 0xC0800700 0xC0800800 = {}" by (rule words_between_apart) simp
  ultimately have "span 0xC0800700 10 \<subseteq> bytes_of (first_heap_page - file_words file node 0xC0800300)" "span 0xC0800700 10 \<inter> span 0xC0800420 4 = {}"
    using b sample_span bytes_of_mono by (blast, auto simp: bytes_of_def)
  then show ?thesis unfolding buffer_apart_def sample_length by simp
qed

lemma sample_view:
  assumes "\<forall>(a, x)\<in>set disk_words. vread v a = Some x"
  shows "file_view sample_functions v 0xC0800900 0xC0800800 0xC0800420 0xC0800300 ([0x7F, 0x45, 0x4C, 0x46], 0)"
  using sample_data[OF assms] assms by (simp add: file_view_def sample_functions_def disk_words_def)

theorem file_read_refines_witness:
  "\<exists>v v'. data_window first_heap_page v \<and> file_view sample_functions v 0xC0800900 0xC0800800 0xC0800420 0xC0800300 ([0x7F, 0x45, 0x4C, 0x46], 0)
    \<and> file_read sample_functions v 0xC0800900 0xC0800700 10 = Some (4, v') \<and> rd8 v' 0xC0800702 = Some 0x4C
    \<and> file_view sample_functions v' 0xC0800900 0xC0800800 0xC0800420 0xC0800300 ([0x7F, 0x45, 0x4C, 0x46], 4)"
proof (rule sample_disk)
  fix st assume st: "heap_sound example_linker st first_heap_page" "\<forall>(a, x)\<in>set disk_words. vread (vmem st) a = Some x"
  have w: "data_window first_heap_page (vmem st)" by (rule heap_soundD(2)[OF st(1)])
  have "buffer_apart first_heap_page 0xC0800900 0xC0800800 0xC0800420 0xC0800300 [0x7F, 0x45, 0x4C, 0x46] 0xC0800700 10"
    by (rule sample_buffer) (simp add: file_words_def words_between_iff)
  moreover have ar: "abstract_read (unat (10 :: u32)) ([0x7F, 0x45, 0x4C, 0x46], 0) = ([0x7F, 0x45, 0x4C, 0x46], ([0x7F, 0x45, 0x4C, 0x46], 4))"
    by (simp add: abstract_read_def Let_def)
  ultimately obtain v' where "file_read sample_functions (vmem st) 0xC0800900 0xC0800700 10 = Some (of_nat 4, v')"
    "\<forall>i<4. rd8 v' (0xC0800700 + of_nat i) = Some ([0x7F, 0x45, 0x4C, 0x46] ! i)"
    "file_view sample_functions v' 0xC0800900 0xC0800800 0xC0800420 0xC0800300 ([0x7F, 0x45, 0x4C, 0x46], 4)"
    using file_read_refines[OF w sample_view[OF st(2)], unfolded fst_conv, OF sample_layout, of "0xC0800700" 10]
    unfolding ar fst_conv snd_conv sample_length by blast
  then show ?thesis using w sample_view[OF st(2)] spec[of "\<lambda>i. i < 4 \<longrightarrow> rd8 v' (0xC0800700 + of_nat i) = Some ([0x7F, 0x45, 0x4C, 0x46] ! i)" 2]
    by (intro exI[of _ "vmem st"] exI[of _ v']) simp
qed

theorem file_seek_end_passes_end_witness:
  "\<exists>v v'. vread v (0xC0800800 + fs_node_offset node_size) = Some 4 \<and> file_seek SUCCESS v 0xC0800900 (- 5) SEEK_END = Some (SUCCESS, v')
    \<and> vread v' (0xC0800900 + file_t_offset file_offset) = Some 5"
proof (rule sample_disk)
  fix st assume st: "heap_sound example_linker st first_heap_page" "\<forall>(a, x)\<in>set disk_words. vread (vmem st) a = Some x"
  have "vread (vmem st) (0xC0800800 + fs_node_offset node_size) = Some 4" using st(2) by (simp add: disk_words_def)
  with file_seek_end_passes_end[OF heap_soundD(2)[OF st(1)] sample_view[OF st(2)] sample_layout, of 5 SUCCESS]
  show ?thesis by - (rule exI[of _ "vmem st"], auto)
qed

theorem find_mode_correct_witness:
  "\<exists>v v'. paged_cstr v 0xC0800520 (c_bytes ''rb+'') \<and> find_mode v 0xC0800520 (modes_at sample_frame) 0 = Some (Some 7, v')"
proof (rule sample_disk)
  fix st assume st: "heap_sound example_linker st first_heap_page" "\<forall>(a, x)\<in>set disk_words. vread (vmem st) a = Some x"
  let ?mem = "\<lambda>c. the (rd8 (vmem st) c)"
  have "vread (vmem st) 0xC0800520 = Some 0x2B6272" using st(2) by (simp add: disk_words_def)
  then have c: "paged_cstr (vmem st) 0xC0800520 (c_bytes ''rb+'')"
    by (simp add: c_bytes_def rd8_def word_of_def byte_index_def get_byte_def drop_bit_eq_div)
  note w = heap_soundD(2)[OF st(1)]
  have "sample_written \<subseteq> first_heap_page" by (rule order.trans[OF words_between_mono words_between_page]) simp_all
  then have pl: "modes_placed first_heap_page 0xC0800520 (modes_at sample_frame)"
    using sample_modes_placed by (simp add: sample_frame_def)
  have "\<forall>m\<in>set (modes_at sample_frame). \<forall>c\<in>span m 3. rd8 (vmem st) c = Some (?mem c)"
  proof (intro ballI)
    fix m c assume "m \<in> set (modes_at sample_frame)" "c \<in> span m 3"
    then have "c \<in> bytes_of first_heap_page" using pl unfolding modes_placed_def by blast
    from window.rd8_good[OF w this] show "rd8 (vmem st) c = Some (?mem c)" by auto
  qed
  from find_mode_correct[OF w c pl this] obtain v'
    where "find_mode (vmem st) 0xC0800520 (modes_at sample_frame) 0 = Some (search_modes (c_bytes ''rb+'') ?mem (modes_at sample_frame) 0, v')" by blast
  moreover have "search_modes (c_bytes ''rb+'') ?mem (modes_at sample_frame) 0 = Some 7"
    unfolding search_packed[OF sample_packed[OF st(2)]] by (simp add: packed_entry_def c_bytes_def)
  ultimately show ?thesis using c by auto
qed

theorem file_open_refuses_witness:
  "\<exists>st st'. paged_cstr (vmem st) 0xC0800504 [0x2F]
    \<and> file_open example_linker sample_functions (\<lambda>_. 0) True sample_frame sample_vfs st 0xC0800504 0xC0800510 = Some (0, st')"
proof (rule sample_disk)
  fix st assume st: "heap_sound example_linker st first_heap_page" "free_list_at example_linker (vmem st) [(0xC0800000, 511)]"
    "\<forall>(a, x)\<in>set disk_words. vread (vmem st) a = Some x"
  have tn: "tree_nodes_at sample_frame = 0xC0800100" by (simp add: sample_frame_def)
  have "span 0xC0800504 2 \<subseteq> bytes_of (words_between 0xC0800300 0xC0800510)" by (intro span_between) (simp_all add: word_of_def)
  then have k: "span 0xC0800504 (Suc (length [0x2F :: byte])) \<subseteq> bytes_of sample_kept"
    unfolding sample_kept_def bytes_of_def by (simp add: eval_nat_numeral) blast
  have "requested_name [0x2F] \<notin> fst ` set [([0x61 :: byte], 0 :: u32, 4 :: u32)]" by (simp add: requested_name_def)
  from file_open_refuses[OF _ sample_root[OF st(3)] disk_bytes(2)[OF st(3)] _ k sample_modes_ready[OF st(3)] sample_written_apart, unfolded tn,
      OF sample_room[OF st(1,2)], of "\<lambda>_. 0"] this
  show ?thesis using disk_bytes(2)[OF st(3)] by auto
qed

theorem file_open_run_read_witness:
  "\<exists>st file st' v1 v2. paged_cstr (vmem st) 0xC0800500 [0x2F, 0x61]
    \<and> file_open example_linker sample_functions (\<lambda>_. 0) True sample_frame sample_vfs st 0xC0800500 0xC0800510 = Some (file, st')
    \<and> file_run sample_functions SUCCESS file [Seek_op 1 SEEK_SET, Seek_op (- 1) SEEK_END] (vmem st') = Some ([Inr SUCCESS, Inr SUCCESS], v1)
    \<and> file_read sample_functions v1 file 0xC0800700 10 = Some (2, v2) \<and> rd8 v2 0xC0800700 = Some 0x4C"
proof (rule sample_disk)
  fix st assume st: "heap_sound example_linker st first_heap_page" "free_list_at example_linker (vmem st) [(0xC0800000, 511)]"
    "\<forall>(a, x)\<in>set disk_words. vread (vmem st) a = Some x"
  have tn: "tree_nodes_at sample_frame = 0xC0800100" by (simp add: sample_frame_def)
  let ?data = "[0x7F, 0x45, 0x4C, 0x46 :: byte]" and ?files = "[([0x61 :: byte], 0 :: u32, 4 :: u32)]"
    and ?ops = "[Seek_op 1 SEEK_SET, Seek_op (- 1) SEEK_END]"
  have "words_between 0xC0800420 0xC0800424 \<subseteq> sample_kept" unfolding sample_kept_def
    by (rule order.trans[OF words_between_mono subset_insertI]) simp_all
  then have sp: "span 0xC0800420 (length ?data) \<subseteq> bytes_of sample_kept" unfolding sample_length using sample_span bytes_of_mono by blast
  have buf: "buffer_apart first_heap_page (0xC0800F30 + 8) (0xC0800F30 + 24) 0xC0800420 0xC0800300 ?data 0xC0800700 10"
    by (rule sample_buffer) (simp add: file_words_def words_between_iff)
  have run: "spec_run SUCCESS ?ops (?data, 0) = ([Inr SUCCESS, Inr SUCCESS], (?data, 2))" and inside: "stays_inside SUCCESS ?ops (?data, 0)"
    by (simp_all add: file_spec_def seek_target_def Let_def)
  have out: "[0x4C, 0x46] = fst (abstract_read (unat (10 :: u32)) (snd (spec_run SUCCESS ?ops (?data, 0))))"
    unfolding run by (simp add: abstract_read_def Let_def)
  obtain f st' v1 v2 where "file_open example_linker sample_functions (\<lambda>_. 0) True sample_frame sample_vfs st 0xC0800500 0xC0800510 = Some (f, st')"
    "file_run sample_functions SUCCESS f ?ops (vmem st') = Some (fst (spec_run SUCCESS ?ops (?data, 0)), v1)"
    "file_read sample_functions v1 f 0xC0800700 10 = Some (of_nat (length [0x4C, 0x46 :: byte]), v2)"
    "\<forall>k<length [0x4C, 0x46 :: byte]. rd8 v2 (0xC0800700 + of_nat k) = Some ([0x4C, 0x46] ! k)"
    using file_open_run_read[OF _ sample_root[OF st(3)] sample_path(1-4)[OF st(3)] _ _ _ _ sample_modes_ready[OF st(3)] sample_mode_entry[OF st(3)]
        sample_written_apart _ _ _ sp sample_data[OF st(3)] _ _ inside buf out, unfolded tn, OF sample_room[OF st(1,2)], of 0 "\<lambda>_. 0"]
    by (auto simp: requested_name_def sizeof_initrd_inode_def op_apart_def)
  moreover from this(4) have "rd8 v2 0xC0800700 = Some 0x4C" by auto
  moreover have "of_nat (length [0x4C, 0x46 :: byte]) = (2 :: u32)" by simp
  ultimately show ?thesis unfolding run fst_conv using disk_bytes(1)[OF st(3)] by metis
qed

end
