(* ===== verification/UserSpace.thy ===== *)
theory UserSpace
  imports VirtualMM Files
begin

text \<open>
  Kernel and user memory of one address space. While a process is loaded, the kernel reads its own
  data and writes the pages of the process through the same directory, and \<open>mmap\<close> edits the
  user half of it. The invariant \<open>process_sound\<close> keeps the two apart: under it the words of
  the kernel and of all user pages are one window, and mapping more pages extends the window and
  changes nothing in it.
\<close>

section \<open>The invariant\<close>

definition user_words :: "vm \<Rightarrow> u32 set" where
  "user_words v = {a. word_of a = a \<and> page_of a \<in> used_pages v}"

text \<open>A place in physical memory that the user half does not use: not in the directory, not in a
  table or a page of the user half, and not in a frame of \<open>A\<close>, which it may still get.\<close>

definition kernel_place :: "vm \<Rightarrow> nat set \<Rightarrow> u32 \<Rightarrow> bool" where
  "kernel_place v A pa \<longleftrightarrow> page_of pa \<notin> A \<and> page_of pa \<noteq> page_of (cr3 v)
     \<and> (\<forall>d\<in>used_tables v. page_of pa \<noteq> page_of (table_frame v d))
     \<and> (\<forall>p\<in>used_pages v. page_of pa \<noteq> page_of (page_frame v p))"

definition kernel_word :: "vm \<Rightarrow> nat set \<Rightarrow> u32 \<Rightarrow> bool" where
  "kernel_word v A a \<longleftrightarrow> 768 \<le> unat a div 2 ^ 22 \<and> (\<exists>pa. translate v a = Some pa \<and> kernel_place v A pa)
     \<and> kernel_place v A (pte_address v a)"

definition process_sound :: "nat set \<Rightarrow> u32 set \<Rightarrow> vm \<Rightarrow> bool" where
  "process_sound A K v \<longleftrightarrow> isolated v A \<and> data_window K v \<and> (\<forall>a\<in>K. kernel_word v A a)"

lemma process_soundD:
  assumes "process_sound A K v"
  shows "isolated v A" "data_window K v" "a \<in> K \<Longrightarrow> kernel_word v A a" "paging v" "4096 dvd unat (cr3 v)"
  using assms by (auto simp: process_sound_def isolated_def recursive_ok_def)

lemma kernel_placeD:
  assumes "kernel_place v A pa"
  shows "page_of pa \<notin> A" "page_of pa \<noteq> page_of (cr3 v)" "d \<in> used_tables v \<Longrightarrow> page_of pa \<noteq> page_of (table_frame v d)"
    "p \<in> used_pages v \<Longrightarrow> page_of pa \<noteq> page_of (page_frame v p)"
  using assms by (auto simp: kernel_place_def)

section \<open>One window\<close>

lemma dir_page: "4096 dvd unat (cr3 v) \<Longrightarrow> page_of (pde_address v a) = page_of (cr3 v)"
  using page_of_slot[OF _ dir_index_less] by (simp add: pde_address_slot)

lemma aligned_page_eq: "4096 dvd unat a \<Longrightarrow> 4096 dvd unat b \<Longrightarrow> page_of a = page_of b \<longleftrightarrow> a = b"
  by (simp add: page_of_eq_iff PAGE_BOUNDARY_eq_iff[THEN iffD2])

lemma page_frame_aligned: "4096 dvd unat (page_frame v p)"
  by (simp add: page_frame_def unat_PAGE_BOUNDARY)

lemma low_offset: "unat (a AND 0xfff :: u32) < 4096"
  by (simp add: unat_page_offset)

text \<open>The walk of a user word.\<close>

lemma user_walk:
  assumes iso: "isolated v A" and a: "page_of a \<in> used_pages v"
  defines "p \<equiv> page_of a"
  shows "translate v a = Some (page_frame v p + (a AND 0xfff))" "page_of (page_frame v p + (a AND 0xfff)) = page_of (page_frame v p)"
    "PAGE_BOUNDARY (page_frame v p + (a AND 0xfff)) = page_frame v p"
    "pte_address v a = slot (table_frame v (p div 1024)) (p mod 1024)" "p div 1024 \<in> used_tables v"
    "page_of (pte_address v a) = page_of (table_frame v (p div 1024))" "user_writable v a"
proof -
  have p: "p \<in> used_pages v" "unat a div 4096 = p" using a by (simp_all add: p_def page_of_def)
  show "translate v a = Some (page_frame v p + (a AND 0xfff))" "user_writable v a" using isolated_user_writable[OF iso p(2,1)] by simp_all
  show "page_of (page_frame v p + (a AND 0xfff)) = page_of (page_frame v p)" "PAGE_BOUNDARY (page_frame v p + (a AND 0xfff)) = page_frame v p"
    using page_of_add_offset[OF page_frame_aligned low_offset] by blast+
  have pu: "p < user_pages" "user_pte v p \<noteq> 0" using p(1) by (auto simp: used_pages_def)
  then show d: "p div 1024 \<in> used_tables v" using user_pte_eq[OF pu(1), of v] by (auto split: if_splits)
  have i: "unat a div 2 ^ 22 = p div 1024" "unat a div 4096 mod 1024 = p mod 1024"
    using p(2) div_mult2_eq[of "unat a" 4096 1024] by simp_all
  have "pde_at v a = pde_of v (p div 1024)"
    using table_at_translate(3)[OF isolatedD(1)[OF iso], of a "table_frame v (p div 1024)"] isolated_table_at[OF iso d] i(1)
    by (simp add: pde_of_def)
  then show e: "pte_address v a = slot (table_frame v (p div 1024)) (p mod 1024)" using i(2) by (simp add: pte_address_slot table_frame_def)
  show "page_of (pte_address v a) = page_of (table_frame v (p div 1024))" unfolding e
    by (rule page_of_slot[OF isolatedD(7)[OF iso d]]) simp
qed

lemma user_words_inj: "isolated v A \<Longrightarrow> inj_on (translate v) (user_words v)"
proof (rule inj_onI)
  fix a b assume iso: "isolated v A" and "a \<in> user_words v" "b \<in> user_words v" and eq: "translate v a = translate v b"
  then have a: "page_of a \<in> used_pages v" and b: "page_of b \<in> used_pages v" by (simp_all add: user_words_def)
  note wa = user_walk[OF iso a] and wb = user_walk[OF iso b]
  have e: "page_frame v (page_of a) + (a AND 0xfff) = page_frame v (page_of b) + (b AND 0xfff)" using eq wa(1) wb(1) by simp
  then have f: "page_frame v (page_of a) = page_frame v (page_of b)" using wa(3) wb(3) by metis
  then have "page_of a = page_of b" using isolatedD(11)[OF iso a b] by simp
  then have "PAGE_BOUNDARY a = PAGE_BOUNDARY b" by (simp add: page_of_eq_iff)
  moreover have "a AND 0xfff = b AND 0xfff" using e f by simp
  ultimately show "a = b" by (metis page_offset)
qed

lemma process_window:
  assumes snd: "process_sound A K v"
  shows "data_window (K \<union> user_words v) v"
proof -
  note s = process_soundD[OF snd]
  note iso = s(1)
  let ?F = "{x. \<exists>p\<in>used_pages v. page_of x = page_of (page_frame v p)}" and ?D = "{x. page_of x = page_of (cr3 v)}"
    and ?T = "{x. \<exists>d\<in>used_tables v. page_of x = page_of (table_frame v d)}"
  have al: "4096 dvd unat (cr3 v)" "\<And>d. d \<in> used_tables v \<Longrightarrow> 4096 dvd unat (table_frame v d)" by (rule s(5), rule isolatedD(7)[OF iso])
  show ?thesis
  proof (rule data_window_union[where F = ?F and D = ?D and T = ?T])
    show "data_window K v" "inj_on (translate v) (user_words v)" by (rule s(2), rule user_words_inj[OF iso])
    show "\<exists>pa\<in>?F. translate v a = Some pa" if "a \<in> user_words v" for a
    proof -
      have u: "page_of a \<in> used_pages v" using that by (simp add: user_words_def)
      show ?thesis using user_walk(1,2)[OF iso u] u by (intro bexI[of _ "page_frame v (page_of a) + (a AND 0xfff)"]) auto
    qed
    show "pa \<notin> ?F \<union> ?D \<union> ?T" if "a \<in> K" "translate v a = Some pa" for a pa
    proof -
      have "kernel_place v A pa" using s(3)[OF that(1)] that(2) by (simp add: kernel_word_def)
      from kernel_placeD[OF this] show ?thesis by blast
    qed
    show "pde_address v b \<in> ?D" for b using dir_page[OF al(1)] by simp
    show "pte_address v b \<in> ?T" if "b \<in> user_words v" for b
    proof -
      have "page_of b \<in> used_pages v" using that by (simp add: user_words_def)
      from user_walk(5,6)[OF iso this] show ?thesis by blast
    qed
    show "pte_address v b \<notin> ?F" if "b \<in> K" for b
      using s(3)[OF that] kernel_placeD(4)[of v A "pte_address v b"] unfolding kernel_word_def by blast
    have "page_of (page_frame v p) \<noteq> page_of (cr3 v)" if "p \<in> used_pages v" for p
      using iso that aligned_page_eq[OF page_frame_aligned al(1), of v p] by (simp add: isolated_def)
    moreover have "page_of (page_frame v p) \<noteq> page_of (table_frame v d)" if "p \<in> used_pages v" "d \<in> used_tables v" for p d
      using isolatedD(10)[OF iso that(2,1)] aligned_page_eq[OF page_frame_aligned al(2)[OF that(2)], of v p] by metis
    ultimately show "?F \<inter> (?D \<union> ?T) = {}" by fastforce
  qed
qed

section \<open>Writes\<close>

text \<open>The user half is read off the directory and its tables.\<close>

lemma space_cong:
  assumes iso: "isolated v A" and regs: "cr3 v' = cr3 v" "paging v' = paging v"
    and "\<forall>pa. page_of pa = page_of (cr3 v) \<longrightarrow> pmem v' pa = pmem v pa"
    and "\<forall>d\<in>used_tables v. \<forall>pa. page_of pa = page_of (table_frame v d) \<longrightarrow> pmem v' pa = pmem v pa"
  shows "isolated v' A" "used_tables v' = used_tables v" "used_pages v' = used_pages v" "d \<in> used_tables v \<Longrightarrow> table_frame v' d = table_frame v d"
    "p < user_pages \<Longrightarrow> user_pte v' p = user_pte v p" "p \<in> used_pages v \<Longrightarrow> page_frame v' p = page_frame v p" "pde_at v' a = pde_at v a"
    "user_words v' = user_words v"
proof -
  have dir: "pmem v' pa = pmem v pa" if "page_of pa = page_of (cr3 v)" for pa using assms(4) that by blast
  have tab: "pmem v' pa = pmem v pa" if "d \<in> used_tables v" "page_of pa = page_of (table_frame v d)" for d pa using assms(5) that by blast
  have c: "4096 dvd unat (cr3 v)" by (rule isolatedD(2)[OF iso])
  have slots: "pmem v' (slot (cr3 v) d) = pmem v (slot (cr3 v) d)" if "d < 1024" for d using dir page_of_slot[OF c that] by simp
  have pd: "pmem v' (pde_address v a) = pmem v (pde_address v a)" for a using dir dir_page[OF c] by simp
  then show "pde_at v' a = pde_at v a" using regs unfolding pde_at_def pde_address_def by simp
  have pde: "pde_of v' d = pde_of v d" if "d < 1024" for d using slots[OF that] by (simp add: pde_of_def regs)
  then show t: "used_tables v' = used_tables v" by (auto simp: used_tables_def)
  have tf: "table_frame v' d = table_frame v d" if "d < 1024" for d using pde[OF that] by (simp add: table_frame_def)
  have pte: "user_pte v' p = user_pte v p" if p: "p < user_pages" for p
  proof -
    have "pmem v' (slot (table_frame v d) (p mod 1024)) = pmem v (slot (table_frame v d) (p mod 1024))" if "d \<in> used_tables v" for d
      using tab[OF that] page_of_slot[OF isolatedD(7)[OF iso that], of "p mod 1024"] by simp
    moreover have "d < 1024" if "d \<in> used_tables v" for d using that by (simp add: used_tables_def)
    ultimately show ?thesis unfolding user_pte_eq[OF p] t using tf by simp
  qed
  then show "p < user_pages \<Longrightarrow> user_pte v' p = user_pte v p" .
  from pte show u: "used_pages v' = used_pages v" by (auto simp: used_pages_def)
  have pf: "page_frame v' p = page_frame v p" "user_pte v' p = user_pte v p" if "p \<in> used_pages v" for p
    using pte[of p] that by (simp_all add: page_frame_def used_pages_def)
  then show "p \<in> used_pages v \<Longrightarrow> page_frame v' p = page_frame v p" by blast
  have td: "table_frame v' d = table_frame v d" "pde_of v' d = pde_of v d" if "d \<in> used_tables v" for d
    using tf[of d] pde[of d] that by (simp_all add: used_tables_def)
  have "recursive_ok v'" using isolatedD(1)[OF iso] slots[of 1023] by (simp add: recursive_ok_def regs)
  then show "isolated v' A" using iso pf td by (simp add: isolated_def t u regs)
  show "user_words v' = user_words v" by (simp add: user_words_def u)
  show "d \<in> used_tables v \<Longrightarrow> table_frame v' d = table_frame v d" by (rule td(1))
qed

lemma process_place:
  assumes snd: "process_sound A K v" and a: "a \<in> K \<union> user_words v" "translate v a = Some pa"
  shows "page_of pa \<noteq> page_of (cr3 v)" "d \<in> used_tables v \<Longrightarrow> page_of pa \<noteq> page_of (table_frame v d)"
proof -
  note s = process_soundD[OF snd]
  have "page_of pa \<noteq> page_of (cr3 v) \<and> (\<forall>d\<in>used_tables v. page_of pa \<noteq> page_of (table_frame v d))"
  proof (cases "a \<in> K")
    case True
    from s(3)[OF this] have "kernel_place v A pa" using a(2) by (simp add: kernel_word_def)
    then show ?thesis by (simp add: kernel_place_def)
  next
    case False
    then have u: "page_of a \<in> used_pages v" using a(1) by (simp add: user_words_def)
    have p: "page_of pa = page_of (page_frame v (page_of a))" using user_walk(1,2)[OF s(1) u] a(2) by simp
    have "page_frame v (page_of a) \<noteq> cr3 v" using s(1) u by (simp add: isolated_def)
    then show ?thesis unfolding p
      using aligned_page_eq page_frame_aligned s(5) isolatedD(7,10)[OF s(1)] u by metis
  qed
  then show "page_of pa \<noteq> page_of (cr3 v)" "d \<in> used_tables v \<Longrightarrow> page_of pa \<noteq> page_of (table_frame v d)" by simp_all
qed

lemma process_write:
  assumes snd: "process_sound A K v" and a: "a \<in> K \<union> user_words v"
  shows "\<exists>v'. vwrite v a x = Some v' \<and> process_sound A K v' \<and> used_pages v' = used_pages v
    \<and> (\<forall>b\<in>K \<union> user_words v. vread v' b = (if b = a then Some x else vread v b))"
proof -
  note s = process_soundD[OF snd] and win = process_window[OF snd]
  obtain pa where pa: "translate v a = Some pa" using win a unfolding data_window_def by blast
  let ?v = "v\<lparr>pmem := (pmem v)(pa := x)\<rparr>"
  have w: "vwrite v a x = Some ?v" by (simp add: vwrite_def pa)
  then have rd: "\<forall>b\<in>K \<union> user_words v. vread ?v b = (if b = a then Some x else vread v b)" and dw: "data_window (K \<union> user_words v) ?v"
    using paged.wr_good[OF win a, of x] by auto
  note pl = process_place[OF snd a pa]
  have "\<forall>q. page_of q = page_of (cr3 v) \<longrightarrow> pmem ?v q = pmem v q" using pl(1) by auto
  moreover have "\<forall>d\<in>used_tables v. \<forall>q. page_of q = page_of (table_frame v d) \<longrightarrow> pmem ?v q = pmem v q" using pl(2) by auto
  ultimately have c: "isolated ?v A" "used_tables ?v = used_tables v" "used_pages ?v = used_pages v"
    "\<And>d. d \<in> used_tables v \<Longrightarrow> table_frame ?v d = table_frame v d" "\<And>p. p \<in> used_pages v \<Longrightarrow> page_frame ?v p = page_frame v p"
    "\<And>b. pde_at ?v b = pde_at v b"
    using space_cong[OF s(1), of ?v] by simp_all
  have "kernel_word ?v A b" if b: "b \<in> K" for b
  proof -
    have "pa \<noteq> pte_address v b" using data_windowD(1)[OF win a pa, of b] s(4) b by simp
    then have t: "pte_address ?v b = pte_address v b" "translate ?v b = translate v b"
      using c(6)[of b] by (auto simp: translate_entries pte_address_def pde_at_def pde_address_def)
    have "kernel_place ?v A q = kernel_place v A q" for q using c(2-5) by (simp add: kernel_place_def)
    then show ?thesis using s(3)[OF b] by (simp only: kernel_word_def t)
  qed
  then have "process_sound A K ?v" using c(1) paged.good_subset[OF dw] by (simp add: process_sound_def)
  then show ?thesis using w rd c(3) by blast
qed

text \<open>A window of such an address space, for given kernel words and user pages.\<close>

definition process_memory :: "nat set \<Rightarrow> u32 set \<Rightarrow> nat set \<Rightarrow> u32 set \<Rightarrow> vm \<Rightarrow> bool" where
  "process_memory A K P W v \<longleftrightarrow> process_sound A K v \<and> used_pages v = P \<and> W \<subseteq> K \<union> user_words v"

interpretation process: kernel_words "process_memory A K P"
proof (intro kernel_words.intro word_memory.intro)
  fix W U v a x
  show "process_memory A K P W v \<Longrightarrow> U \<subseteq> W \<Longrightarrow> process_memory A K P U v" by (auto simp: process_memory_def)
  assume s: "process_memory A K P W v" and a: "a \<in> W"
  then have p: "process_sound A K v" "used_pages v = P" "a \<in> K \<union> user_words v" "W \<subseteq> K \<union> user_words v" by (auto simp: process_memory_def)
  show "\<exists>x. vread v a = Some x" by (rule paged.rd_good[OF process_window[OF p(1)] p(3)])
  obtain v' where v': "vwrite v a x = Some v'" "process_sound A K v'" "used_pages v' = used_pages v"
    "\<forall>b\<in>K \<union> user_words v. vread v' b = (if b = a then Some x else vread v b)" using process_write[OF p(1,3), of x] by blast
  then have "process_memory A K P W v'" using p(2,4) by (simp add: process_memory_def user_words_def)
  then show "\<exists>v'. vwrite v a x = Some v' \<and> process_memory A K P W v' \<and> (\<forall>b\<in>W. vread v' b = (if b = a then Some x else vread v b))"
    using v'(1,4) p(4) by blast
qed

section \<open>Mapping more pages\<close>

lemma mapped_used:
  assumes "mapped_range st st' p m" "m < user_pages"
  shows "used_pages (vmem st') = used_pages (vmem st) \<union> {p..<m}"
    and "q \<in> used_pages (vmem st) \<Longrightarrow> page_frame (vmem st') q = page_frame (vmem st) q"
    and "q \<in> used_pages (vmem st') \<Longrightarrow> page_of (page_frame (vmem st') q) \<in> avail (frames st) \<or> q \<in> used_pages (vmem st) \<and> page_frame (vmem st') q = page_frame (vmem st) q"
proof -
  have r: "if q \<in> {p..<m} \<and> user_pte (vmem st) q = 0
      then \<exists>f. user_pte (vmem st') q = f OR 7 \<and> 4096 dvd unat f \<and> page_of f \<in> avail (frames st)
      else user_pte (vmem st') q = user_pte (vmem st) q" if "q < user_pages" for q
    using assms(1) that unfolding mapped_range_def by blast
  have nz: "user_pte (vmem st') q \<noteq> 0 \<longleftrightarrow> q \<in> {p..<m} \<or> user_pte (vmem st) q \<noteq> 0" if "q < user_pages" for q
    using r[OF that] or_7_facts(2) by (cases "q \<in> {p..<m} \<and> user_pte (vmem st) q = 0") auto
  moreover have "q < user_pages" if "q \<in> {p..<m}" for q using that assms(2) by simp
  ultimately have "q \<in> used_pages (vmem st') \<longleftrightarrow> q \<in> used_pages (vmem st) \<or> q \<in> {p..<m}" for q
    unfolding used_pages_def mem_Collect_eq by blast
  then show "used_pages (vmem st') = used_pages (vmem st) \<union> {p..<m}" by blast
  show old: "q \<in> used_pages (vmem st) \<Longrightarrow> page_frame (vmem st') q = page_frame (vmem st) q" for q
    using r[of q] by (auto simp: used_pages_def page_frame_def)
  show "page_of (page_frame (vmem st') q) \<in> avail (frames st) \<or> q \<in> used_pages (vmem st) \<and> page_frame (vmem st') q = page_frame (vmem st) q"
    if "q \<in> used_pages (vmem st')"
  proof (cases "q \<in> used_pages (vmem st)")
    case False
    then have "user_pte (vmem st) q = 0" "q < user_pages" "user_pte (vmem st') q \<noteq> 0" using that by (auto simp: used_pages_def)
    then obtain f where "user_pte (vmem st') q = f OR 7" "4096 dvd unat f" "page_of f \<in> avail (frames st)" using r[of q] by (auto split: if_splits)
    then show ?thesis using or_7_facts(1) by (simp add: page_frame_def)
  qed (use old in simp)
qed

lemma process_mmap:
  assumes snd: "process_sound (avail (frames st)) K (vmem st)" and map: "mapped_range st st' p m" "m < user_pages"
  shows "process_sound (avail (frames st')) K (vmem st')"
    and "a \<in> K \<union> user_words (vmem st) \<Longrightarrow> vread (vmem st') a = vread (vmem st) a"
proof -
  let ?A = "avail (frames st)" and ?v = "vmem st" and ?v' = "vmem st'"
  note s = process_soundD[OF snd]
  have m: "isolated ?v' (avail (frames st'))" "avail (frames st') \<subseteq> ?A" "space_edit ?v ?A ?v'" using map(1) by (simp_all add: mapped_range_def)
  have regs: "cr3 ?v' = cr3 ?v" "paging ?v' = paging ?v" using m(3) by (simp_all add: space_edit_def)
  have tabs: "page_of (table_frame ?v' d) \<in> ?A \<or> table_frame ?v' d \<in> table_frame ?v ` used_tables ?v" if "d \<in> used_tables ?v'" for d
    using m(3) that by (simp add: space_edit_def)
  have kept: "pmem ?v' pa = pmem ?v pa"
    if "page_of pa \<notin> ?A" "\<forall>d\<in>used_tables ?v. page_of pa \<noteq> page_of (table_frame ?v d)" "\<forall>d<768. pa \<noteq> slot (cr3 ?v) d" for pa
    using m(3) that by (simp add: space_edit_def)
  have no_slot: "\<forall>d<768. pa \<noteq> slot (cr3 ?v) d" if "page_of pa \<noteq> page_of (cr3 ?v)" for pa using that page_of_slot[OF s(5)] by auto
  have kp: "pmem ?v' pa = pmem ?v pa" "kernel_place ?v' (avail (frames st')) pa" if k: "kernel_place ?v ?A pa" for pa
  proof -
    note k = kernel_placeD[OF k]
    show "pmem ?v' pa = pmem ?v pa" using k no_slot by (intro kept) auto
    have "page_of pa \<noteq> page_of (table_frame ?v' d)" if "d \<in> used_tables ?v'" for d using tabs[OF that] k(1) k(3) by (metis imageE)
    moreover have "page_of pa \<noteq> page_of (page_frame ?v' q)" if "q \<in> used_pages ?v'" for q using mapped_used(3)[OF map that] k(1) k(4) by metis
    ultimately show "kernel_place ?v' (avail (frames st')) pa" using k(1,2) m(2) regs by (auto simp: kernel_place_def)
  qed
  have walk: "translate ?v' a = translate ?v a" "pte_address ?v' a = pte_address ?v a" "pde_address ?v' a = pde_address ?v a"
    "kernel_word ?v' (avail (frames st')) a" if a: "a \<in> K" for a
  proof -
    have w: "768 \<le> unat a div 2 ^ 22" "kernel_place ?v ?A (pte_address ?v a)" "\<exists>pa. translate ?v a = Some pa \<and> kernel_place ?v ?A pa"
      using s(3)[OF a] by (simp_all add: kernel_word_def)
    show pd: "pde_address ?v' a = pde_address ?v a" by (simp add: pde_address_def regs)
    have "page_of (pde_address ?v a) = page_of (cr3 ?v)" by (rule dir_page[OF s(5)])
    moreover have "page_of (cr3 ?v) \<noteq> page_of (table_frame ?v d)" if "d \<in> used_tables ?v" for d
      using aligned_page_eq[OF s(5) isolatedD(7)[OF s(1) that]] isolatedD(5)[OF s(1) that] by simp
    moreover have "pde_address ?v a \<noteq> slot (cr3 ?v) d" if "d < 768" for d
      using w(1) dir_index_less[of a] that by (auto simp: pde_address_slot[OF s(5)] slot_inj)
    ultimately have "pmem ?v' (pde_address ?v a) = pmem ?v (pde_address ?v a)" using isolatedD(3)[OF s(1)] by (intro kept) simp_all
    then have "pde_at ?v' a = pde_at ?v a" by (simp add: pde_at_def pde_address_def regs)
    then show pt: "pte_address ?v' a = pte_address ?v a" by (simp add: pte_address_def)
    have "pmem ?v' (pte_address ?v a) = pmem ?v (pte_address ?v a)" by (rule kp(1)[OF w(2)])
    then show t: "translate ?v' a = translate ?v a"
      using \<open>pmem ?v' (pde_address ?v a) = pmem ?v (pde_address ?v a)\<close> by (simp add: translate_entries regs pd pt)
    show "kernel_word ?v' (avail (frames st')) a" using w kp(2) by (auto simp: kernel_word_def t pt)
  qed
  have "data_window K ?v'" using s(2) walk(1-3) regs(2) unfolding data_window_def by simp
  then show "process_sound (avail (frames st')) K ?v'" using m(1) walk(4) by (simp add: process_sound_def)
  show "vread ?v' a = vread ?v a" if "a \<in> K \<union> user_words ?v"
  proof (cases "a \<in> K")
    case True
    then have "\<exists>pa. translate ?v a = Some pa \<and> kernel_place ?v ?A pa" using s(3) by (simp add: kernel_word_def)
    then show ?thesis using walk(1)[OF True] kp(1) by (auto simp: vread_def)
  next
    case False
    then have u: "page_of a \<in> used_pages ?v" using that by (simp add: user_words_def)
    then have u': "page_of a \<in> used_pages ?v'" unfolding mapped_used(1)[OF map] by blast
    let ?pa = "page_frame ?v (page_of a) + (a AND 0xfff)"
    have t: "translate ?v a = Some ?pa" "translate ?v' a = Some ?pa"
      using user_walk(1)[OF s(1) u] user_walk(1)[OF m(1) u'] mapped_used(2)[OF map u] by simp_all
    have p: "page_of ?pa = page_of (page_frame ?v (page_of a))" by (rule user_walk(2)[OF s(1) u])
    note pl = process_place[OF snd that t(1)]
    have "pmem ?v' ?pa = pmem ?v ?pa" using isolatedD(9)[OF s(1) u] pl no_slot by (intro kept) (auto simp: p)
    then show ?thesis by (simp add: vread_def t)
  qed
qed

lemma mmap_process:
  assumes snd: "process_sound (avail (frames st)) K (vmem st)" and va: "4096 dvd unat va" "unat va + 4096 * n < 0xC0000000"
    and left: "frames_left ls (frames st) (2 * n + k)"
  shows "\<exists>st'. mmap ls st va (of_nat n) = Some (SUCCESS, st') \<and> process_sound (avail (frames st')) K (vmem st')
    \<and> used_pages (vmem st') = used_pages (vmem st) \<union> {page_of va..<page_of va + n}
    \<and> (\<forall>a\<in>K \<union> user_words (vmem st). vread (vmem st') a = vread (vmem st) a) \<and> frames_left ls (frames st') k"
proof (rule mmap_maps[OF process_soundD(1)[OF snd] va left])
  fix st' assume st': "mmap ls st va (of_nat n) = Some (SUCCESS, st')" "mapped_range st st' (page_of va) (page_of va + n)"
    "page_of va + n < user_pages" "frames_left ls (frames st') k"
  then show ?thesis using process_mmap[OF snd st'(2,3)] mapped_used(1)[OF st'(2,3)] by blast
qed

end
