(* ===== verification/Elf.thy ===== *)
theory Elf
  imports UserSpace Files
begin

text \<open>
  The loader of executables, \<^verbatim>\<open>src/kernel/multitask/elf_loader.c\<close>, with the structures of
  \<^verbatim>\<open>src/include/multitask/elf.h\<close> and the task structure it fills. The header and the program
  headers are read from the file into local arrays, so that their fields are bytes of memory; the
  addresses of the arrays are arguments. The segments are written to the pages of the current
  address space that \<open>mmap\<close> provides.
\<close>

section \<open>Definitions\<close>

subsection \<open>Executables\<close>

definition ELFMAG0 :: byte where "ELFMAG0 = 0x7F"
definition ELFMAG1 :: byte where "ELFMAG1 = 0x45"
definition ELFMAG2 :: byte where "ELFMAG2 = 0x4C"
definition ELFMAG3 :: byte where "ELFMAG3 = 0x46"
definition EM_386 :: u16 where "EM_386 = 3"
definition EV_CURRENT :: byte where "EV_CURRENT = 1"
definition ELFDATA2LSB :: byte where "ELFDATA2LSB = 1"
definition ELFCLASS32 :: byte where "ELFCLASS32 = 1"

datatype ehdr_field = e_ident | e_type | e_machine | e_version | e_entry | e_phoff | e_shoff | e_flags | e_ehsize
  | e_phentsize | e_phnum | e_shentsize | e_shnum | e_shstrndx

primrec ehdr_offset :: "ehdr_field \<Rightarrow> u32" where
  "ehdr_offset e_ident = 0"
| "ehdr_offset e_type = 16"
| "ehdr_offset e_machine = 18"
| "ehdr_offset e_version = 20"
| "ehdr_offset e_entry = 24"
| "ehdr_offset e_phoff = 28"
| "ehdr_offset e_shoff = 32"
| "ehdr_offset e_flags = 36"
| "ehdr_offset e_ehsize = 40"
| "ehdr_offset e_phentsize = 42"
| "ehdr_offset e_phnum = 44"
| "ehdr_offset e_shentsize = 46"
| "ehdr_offset e_shnum = 48"
| "ehdr_offset e_shstrndx = 50"

definition ELF_HEADER_SIZE :: u32 where "ELF_HEADER_SIZE = 52"

datatype elf_ident = EI_MAG0 | EI_MAG1 | EI_MAG2 | EI_MAG3 | EI_CLASS | EI_DATA | EI_VERSION | EI_OSABI | EI_ABIVERSION | EI_PAD

primrec elf_ident_value :: "elf_ident \<Rightarrow> u32" where
  "elf_ident_value EI_MAG0 = 0"
| "elf_ident_value EI_MAG1 = 1"
| "elf_ident_value EI_MAG2 = 2"
| "elf_ident_value EI_MAG3 = 3"
| "elf_ident_value EI_CLASS = 4"
| "elf_ident_value EI_DATA = 5"
| "elf_ident_value EI_VERSION = 6"
| "elf_ident_value EI_OSABI = 7"
| "elf_ident_value EI_ABIVERSION = 8"
| "elf_ident_value EI_PAD = 9"

datatype elf_type = ET_NONE | ET_REL | ET_EXEC

primrec elf_type_value :: "elf_type \<Rightarrow> u16" where
  "elf_type_value ET_NONE = 0"
| "elf_type_value ET_REL = 1"
| "elf_type_value ET_EXEC = 2"

datatype phdr_field = p_type | p_offset | p_vaddr | p_paddr | p_filesz | p_memsz | p_flags | p_align

primrec phdr_offset :: "phdr_field \<Rightarrow> u32" where
  "phdr_offset p_type = 0"
| "phdr_offset p_offset = 4"
| "phdr_offset p_vaddr = 8"
| "phdr_offset p_paddr = 12"
| "phdr_offset p_filesz = 16"
| "phdr_offset p_memsz = 20"
| "phdr_offset p_flags = 24"
| "phdr_offset p_align = 28"

definition sizeof_phdr :: u32 where "sizeof_phdr = 32"

datatype segment_types = PT_NULL | PT_LOAD | PT_DYNAMIC | PT_INTERP | PT_NOTE | PT_SHLIB | PT_PHDR | PT_TLS | PT_LOOS | PT_HIOS
  | PT_LOPROC | PT_HIPROC

primrec segment_type_value :: "segment_types \<Rightarrow> u32" where
  "segment_type_value PT_NULL = 0"
| "segment_type_value PT_LOAD = 1"
| "segment_type_value PT_DYNAMIC = 2"
| "segment_type_value PT_INTERP = 3"
| "segment_type_value PT_NOTE = 4"
| "segment_type_value PT_SHLIB = 5"
| "segment_type_value PT_PHDR = 6"
| "segment_type_value PT_TLS = 7"
| "segment_type_value PT_LOOS = 8"
| "segment_type_value PT_HIOS = 9"
| "segment_type_value PT_LOPROC = 10"
| "segment_type_value PT_HIPROC = 11"

datatype segment_flags = NONE | PF_X | PF_W | PF_WX | PF_R | PF_RX | PF_RW | PF_RWX

primrec segment_flags_value :: "segment_flags \<Rightarrow> u32" where
  "segment_flags_value NONE = 0"
| "segment_flags_value PF_X = 1"
| "segment_flags_value PF_W = 2"
| "segment_flags_value PF_WX = 3"
| "segment_flags_value PF_R = 4"
| "segment_flags_value PF_RX = 5"
| "segment_flags_value PF_RW = 6"
| "segment_flags_value PF_RWX = 7"

subsection \<open>Tasks\<close>

datatype task_field = task_vmm | task_context | task_name | stack_begin | stack_end | text_begin | text_end | data_begin | data_end
  | task_flags | kernel_ss | kernel_stack

primrec task_offset :: "task_field \<Rightarrow> u32" where
  "task_offset task_vmm = 0"
| "task_offset task_context = 4"
| "task_offset task_name = 36"
| "task_offset stack_begin = 56"
| "task_offset stack_end = 60"
| "task_offset text_begin = 64"
| "task_offset text_end = 68"
| "task_offset data_begin = 72"
| "task_offset data_end = 76"
| "task_offset task_flags = 80"
| "task_offset kernel_ss = 84"
| "task_offset kernel_stack = 88"

definition sizeof_task :: u32 where "sizeof_task = 92"

subsection \<open>Checks\<close>

definition ident_byte :: "vm \<Rightarrow> u32 \<Rightarrow> elf_ident \<Rightarrow> byte option" where
  "ident_byte v elf_header i = rd8 v (elf_header + ehdr_offset e_ident + elf_ident_value i)"

definition check_elf_header :: "vm \<Rightarrow> u32 \<Rightarrow> error_code_t option" where
  "check_elf_header v elf_header =
     (if elf_header = 0 then Some INVALID_ARGUMENT
      else do {
        m0 \<leftarrow> ident_byte v elf_header EI_MAG0;
        if m0 \<noteq> ELFMAG0 then Some INVALID_ARGUMENT
        else do {
          m1 \<leftarrow> ident_byte v elf_header EI_MAG1;
          if m1 \<noteq> ELFMAG1 then Some INVALID_ARGUMENT
          else do {
            m2 \<leftarrow> ident_byte v elf_header EI_MAG2;
            if m2 \<noteq> ELFMAG2 then Some INVALID_ARGUMENT
            else do {
              m3 \<leftarrow> ident_byte v elf_header EI_MAG3;
              if m3 \<noteq> ELFMAG3 then Some INVALID_ARGUMENT else Some SUCCESS
            }
          }
        }
      })"

definition check_elf_supported :: "vm \<Rightarrow> u32 \<Rightarrow> error_code_t option" where
  "check_elf_supported v elf_header = do {
     class \<leftarrow> ident_byte v elf_header EI_CLASS;
     if class \<noteq> ELFCLASS32 then Some INVALID_ARGUMENT
     else do {
       order \<leftarrow> ident_byte v elf_header EI_DATA;
       if order \<noteq> ELFDATA2LSB then Some INVALID_ARGUMENT
       else do {
         machine \<leftarrow> rd16 v (elf_header + ehdr_offset e_machine);
         if machine \<noteq> EM_386 then Some INVALID_ARGUMENT
         else do {
           version \<leftarrow> ident_byte v elf_header EI_VERSION;
           if version \<noteq> EV_CURRENT then Some INVALID_ARGUMENT
           else do {
             type \<leftarrow> rd16 v (elf_header + ehdr_offset e_type);
             if type \<noteq> elf_type_value ET_REL \<and> type \<noteq> elf_type_value ET_EXEC then Some INVALID_ARGUMENT
             else Some SUCCESS
           }
         }
       }
     }
   }"

subsection \<open>Segments\<close>

text \<open>Where the local variables of the loader are; the array of program headers lies at an address
  that depends on its length.\<close>

record elf_frame =
  elf_header_buf :: u32
  segments_at :: "u32 \<Rightarrow> u32"
  mode_r :: u32
  open_frame :: file_frame

definition load_program_header_table ::
  "fs_functions \<Rightarrow> error_code_t \<Rightarrow> vm \<Rightarrow> u32 \<Rightarrow> u32 \<Rightarrow> u32 \<Rightarrow> u32 \<Rightarrow> (u32 \<times> vm) option" where
  "load_program_header_table fns left_over v elf_file elf_header segments_headers number_of_segments = do {
     phoff \<leftarrow> rd32 v (elf_header + ehdr_offset e_phoff);
     (_, v1) \<leftarrow> file_seek left_over v elf_file phoff SEEK_SET;
     file_read fns v1 elf_file segments_headers (number_of_segments * sizeof_phdr)
   }"

text \<open>One turn of the loop of \<open>load_segments\<close>; the part of it that comes after \<open>mmap\<close> leaves
  the page tables alone.\<close>

definition fill_segment ::
  "fs_functions \<Rightarrow> error_code_t \<Rightarrow> u32 \<Rightarrow> u32 \<Rightarrow> u32 \<Rightarrow> u32 \<Rightarrow> u32 \<Rightarrow> u32 \<Rightarrow> u32 \<Rightarrow> vm \<Rightarrow> (error_code_t \<times> vm) option" where
  "fill_segment fns left_over task elf_file segment segment_memory_size aligned_mem_size segment_file_size segment_virtual_address v = do {
     offset \<leftarrow> rd32 v (segment + phdr_offset p_offset);
     (_, v1) \<leftarrow> file_seek left_over v elf_file offset SEEK_SET;
     (bytes_read, v2) \<leftarrow> file_read fns v1 elf_file segment_virtual_address segment_file_size;
     if bytes_read = 0 then Some (FAILURE, v2)
     else do {
       v3 \<leftarrow> (if segment_memory_size > segment_file_size
              then paged_memset v2 0 (segment_virtual_address + segment_file_size) (aligned_mem_size - segment_file_size)
              else Some v2);
       flags \<leftarrow> rd32 v3 (segment + phdr_offset p_flags);
       v4 \<leftarrow> (if flags = segment_flags_value PF_RX then vwrite v3 (task + task_offset text_begin) segment_virtual_address else Some v3);
       flags' \<leftarrow> rd32 v4 (segment + phdr_offset p_flags);
       v5 \<leftarrow> (if flags' = segment_flags_value PF_RW then vwrite v4 (task + task_offset data_begin) segment_virtual_address else Some v4);
       Some (SUCCESS, v5)
     }
   }"

definition load_segment ::
  "linker_symbols \<Rightarrow> fs_functions \<Rightarrow> error_code_t \<Rightarrow> u32 \<Rightarrow> u32 \<Rightarrow> u32 \<Rightarrow> kernel_mm \<Rightarrow> (error_code_t \<times> kernel_mm) option" where
  "load_segment ls fns left_over task elf_file segment st = do {
     type \<leftarrow> rd32 (vmem st) (segment + phdr_offset p_type);
     if type \<noteq> segment_type_value PT_LOAD then Some (SUCCESS, st)
     else do {
       segment_memory_size \<leftarrow> rd32 (vmem st) (segment + phdr_offset p_memsz);
       let aligned = PAGE_BOUNDARY segment_memory_size;
       let aligned_mem_size = (if aligned < segment_memory_size then aligned + PAGE_SIZE else aligned);
       segment_file_size \<leftarrow> rd32 (vmem st) (segment + phdr_offset p_filesz);
       segment_virtual_address \<leftarrow> rd32 (vmem st) (segment + phdr_offset p_vaddr);
       (error, st1) \<leftarrow> mmap ls st segment_virtual_address (segment_memory_size div PAGE_SIZE + 1);
       if error \<noteq> SUCCESS then Some (FAILURE, st1)
       else do {
         (result, v2) \<leftarrow> fill_segment fns left_over task elf_file segment segment_memory_size aligned_mem_size segment_file_size
                            segment_virtual_address (vmem st1);
         Some (result, st1\<lparr>vmem := v2\<rparr>)
       }
     }
   }"

text \<open>The loop over \<open>n\<close> segments from index \<open>i\<close> on, left at the first error.\<close>

primrec load_segments_loop ::
  "linker_symbols \<Rightarrow> fs_functions \<Rightarrow> error_code_t \<Rightarrow> u32 \<Rightarrow> u32 \<Rightarrow> u32 \<Rightarrow> nat \<Rightarrow> u32 \<Rightarrow> kernel_mm \<Rightarrow> (error_code_t \<times> kernel_mm) option" where
  "load_segments_loop ls fns left_over task elf_file segments 0 i st = Some (SUCCESS, st)"
| "load_segments_loop ls fns left_over task elf_file segments (Suc n) i st = do {
     (error, st1) \<leftarrow> load_segment ls fns left_over task elf_file (segments + i * sizeof_phdr) st;
     if error \<noteq> SUCCESS then Some (error, st1) else load_segments_loop ls fns left_over task elf_file segments n (i + 1) st1
   }"

definition load_segments ::
  "linker_symbols \<Rightarrow> fs_functions \<Rightarrow> error_code_t \<Rightarrow> elf_frame \<Rightarrow> kernel_mm \<Rightarrow> u32 \<Rightarrow> u32 \<Rightarrow> u32 \<Rightarrow> (error_code_t \<times> kernel_mm) option" where
  "load_segments ls fns left_over fr st task elf_header elf_file = do {
     phnum \<leftarrow> rd16 (vmem st) (elf_header + ehdr_offset e_phnum);
     let number_of_segments = ucast phnum;
     let segments = segments_at fr number_of_segments;
     (bytes_read, v1) \<leftarrow> load_program_header_table fns left_over (vmem st) elf_file elf_header segments number_of_segments;
     if bytes_read = 0 then Some (FAILURE, st\<lparr>vmem := v1\<rparr>)
     else load_segments_loop ls fns left_over task elf_file segments (unat number_of_segments) 0 (st\<lparr>vmem := v1\<rparr>)
   }"

definition load_elf ::
  "linker_symbols \<Rightarrow> fs_functions \<Rightarrow> (nat \<Rightarrow> int) \<Rightarrow> bool \<Rightarrow> error_code_t \<Rightarrow> elf_frame \<Rightarrow> vfs_state \<Rightarrow> kernel_mm \<Rightarrow> u32
     \<Rightarrow> (error_code_t \<times> kernel_mm) option" where
  "load_elf ls fns junk list_left left_over fr vs st task =
     (if task = 0 then Some (INVALID_ARGUMENT, st)
      else do {
        (elf_file, st1) \<leftarrow> file_open ls fns junk list_left (open_frame fr) vs st (task + task_offset task_name) (mode_r fr);
        if elf_file = 0 then Some (NO_SUCH_FILE, st1)
        else do {
          let elf_header = elf_header_buf fr;
          v2 \<leftarrow> paged_memset (vmem st1) 0 elf_header ELF_HEADER_SIZE;
          (bytes_read, v3) \<leftarrow> file_read fns v2 elf_file elf_header ELF_HEADER_SIZE;
          if bytes_read = 0 then Some (FAILURE, st1\<lparr>vmem := v3\<rparr>)
          else do {
            header_check \<leftarrow> check_elf_header v3 elf_header;
            if header_check \<noteq> SUCCESS then Some (FAILURE, st1\<lparr>vmem := v3\<rparr>)
            else do {
              supported_check \<leftarrow> check_elf_supported v3 elf_header;
              if supported_check \<noteq> SUCCESS then Some (FAILURE, st1\<lparr>vmem := v3\<rparr>)
              else do {
                type \<leftarrow> rd16 v3 (elf_header + ehdr_offset e_type);
                st4 \<leftarrow> (if type = elf_type_value ET_EXEC
                        then map_option snd (load_segments ls fns left_over fr (st1\<lparr>vmem := v3\<rparr>) task elf_header elf_file)
                        else Some (st1\<lparr>vmem := v3\<rparr>));
                Some (SUCCESS, st4)
              }
            }
          }
        }
      })"

end
