(* ===== verification/ElfLoad.thy ===== *)
theory ElfLoad
  imports Elf
begin

text \<open>
  What the loader of the theory \<open>Elf\<close> does with an executable of the ramdisk: which headers it
  accepts, and that the segments of an accepted one arrive in the memory of the process.
\<close>

section \<open>Fields of bytes\<close>

definition le16 :: "byte list \<Rightarrow> nat \<Rightarrow> u16" where
  "le16 cs k = ucast (cs ! k) OR push_bit 8 (ucast (cs ! (k + 1)))"

definition le32 :: "byte list \<Rightarrow> nat \<Rightarrow> u32" where
  "le32 cs k = ucast (le16 cs k) OR push_bit 16 (ucast (le16 cs (k + 2)))"

text \<open>Bytes of memory that are bytes of a list.\<close>

definition bytes_at :: "vm \<Rightarrow> u32 \<Rightarrow> nat \<Rightarrow> byte list \<Rightarrow> nat \<Rightarrow> bool" where
  "bytes_at v a n cs k \<longleftrightarrow> (\<forall>j<n. rd8 v (a + of_nat j) = Some (cs ! (k + j)))"

lemma bytes_at_part: "bytes_at v a n cs k \<Longrightarrow> i + m \<le> n \<Longrightarrow> bytes_at v (a + of_nat i) m cs (k + i)"
  unfolding bytes_at_def
proof (intro allI impI)
  fix j assume b: "\<forall>j<n. rd8 v (a + of_nat j) = Some (cs ! (k + j))" and i: "i + m \<le> n" and j: "j < m"
  have "a + of_nat i + of_nat j = a + of_nat (i + j)" by simp
  then show "rd8 v (a + of_nat i + of_nat j) = Some (cs ! (k + i + j))" using b i j by (simp add: add.assoc del: of_nat_add)
qed

lemma bytes_at_kept:
  assumes "bytes_at v a n cs k" "\<forall>c\<in>span a n. rd8 v' c = rd8 v c" "n \<le> 2 ^ 32"
  shows "bytes_at v' a n cs k"
proof -
  have "a + of_nat j \<in> span a n" if "j < n" for j using that assms(3) by (intro of_nat_in_span) simp_all
  then show ?thesis using assms(1,2) by (simp add: bytes_at_def)
qed

lemma rd16_bytes: "bytes_at v a 2 cs k \<Longrightarrow> rd16 v a = Some (le16 cs k)"
proof -
  assume b: "bytes_at v a 2 cs k"
  have "rd8 v (a + of_nat j) = Some (cs ! (k + j))" if "j < 2" for j using b that by (simp add: bytes_at_def)
  from this[of 0] this[of 1] have "rd8 v a = Some (cs ! k)" "rd8 v (a + 1) = Some (cs ! (k + 1))" by simp_all
  then show ?thesis by (simp add: rd16_def le16_def)
qed

lemma rd32_bytes: "bytes_at v a 4 cs k \<Longrightarrow> rd32 v a = Some (le32 cs k)"
proof -
  assume b: "bytes_at v a 4 cs k"
  have "bytes_at v a 2 cs k" using bytes_at_part[OF b, of 0 2] by simp
  moreover have "bytes_at v (a + 2) 2 cs (k + 2)" using bytes_at_part[OF b, of 2 2] by simp
  ultimately show ?thesis by (simp add: rd32_def rd16_bytes le32_def)
qed

section \<open>A program header\<close>

definition phdr :: "byte list \<Rightarrow> nat \<Rightarrow> phdr_field \<Rightarrow> u32" where
  "phdr cs k f = le32 cs (k + unat (phdr_offset f))"

lemma phdr_field: "bytes_at v a 32 cs k \<Longrightarrow> rd32 v (a + phdr_offset f) = Some (phdr cs k f)"
proof -
  assume b: "bytes_at v a 32 cs k"
  have "unat (phdr_offset f) + 4 \<le> 32" by (cases f) simp_all
  from rd32_bytes[OF bytes_at_part[OF b this]] show ?thesis by (simp add: phdr_def)
qed

text \<open>The pages of a segment, and segments that can be loaded: page-aligned below the kernel, with
  a part in the file that is not empty, lies inside it and is no longer than the segment.\<close>

definition seg_pages :: "byte list \<Rightarrow> nat \<Rightarrow> nat" where
  "seg_pages cs k = unat (phdr cs k p_memsz) div 4096 + 1"

definition seg_range :: "byte list \<Rightarrow> nat \<Rightarrow> nat set" where
  "seg_range cs k = {page_of (phdr cs k p_vaddr)..<page_of (phdr cs k p_vaddr) + seg_pages cs k}"

definition segment_ok :: "byte list \<Rightarrow> nat \<Rightarrow> bool" where
  "segment_ok cs k \<longleftrightarrow> 4096 dvd unat (phdr cs k p_vaddr) \<and> phdr cs k p_vaddr \<noteq> 0
     \<and> unat (phdr cs k p_vaddr) + 4096 * seg_pages cs k < 0xC0000000
     \<and> 0 < phdr cs k p_filesz \<and> phdr cs k p_filesz \<le> phdr cs k p_memsz
     \<and> unat (phdr cs k p_offset) + unat (phdr cs k p_filesz) \<le> length cs"

text \<open>The bytes of a segment: those of the file, then zeros.\<close>

definition segment_loaded :: "vm \<Rightarrow> byte list \<Rightarrow> nat \<Rightarrow> bool" where
  "segment_loaded v cs k \<longleftrightarrow> (\<forall>b<unat (phdr cs k p_memsz). rd8 v (phdr cs k p_vaddr + of_nat b)
     = Some (if b < unat (phdr cs k p_filesz) then cs ! (unat (phdr cs k p_offset) + b) else 0))"

text \<open>The words of the task that the loader writes.\<close>

definition task_words :: "u32 \<Rightarrow> u32 set" where
  "task_words task = {task + task_offset text_begin, task + task_offset data_begin}"

definition loader_layout :: "u32 set \<Rightarrow> u32 \<Rightarrow> u32 \<Rightarrow> u32 \<Rightarrow> u32 \<Rightarrow> u32 \<Rightarrow> byte list \<Rightarrow> bool" where
  "loader_layout K task file node addr fs cs \<longleftrightarrow> file_layout K file node addr fs cs
     \<and> task_words task \<subseteq> K - file_words file node fs \<and> (\<forall>w\<in>task_words task. word_of w = w)
     \<and> span addr (length cs) \<subseteq> bytes_of (K - task_words task)"

text \<open>The words that change while a segment is loaded, apart from its pages.\<close>

definition loader_writes :: "u32 \<Rightarrow> u32 \<Rightarrow> u32 set" where
  "loader_writes task file = insert (file + 4) (task_words task)"

lemma file_view_kept:
  assumes "file_view fns v file node addr fs (cs, pos)" "\<forall>w\<in>file_words file node fs. vread v' w = vread v w"
    and "\<forall>c\<in>span addr (length cs). rd8 v' c = rd8 v c"
  shows "file_view fns v' file node addr fs (cs, pos)"
proof -
  have n: "length cs < 2 ^ 32" using assms(1) by (simp add: file_view_def)
  have "rd8 v' (addr + of_nat i) = rd8 v (addr + of_nat i)" if "i < length cs" for i
    using assms(3) of_nat_in_span[of i "length cs" addr] that n by simp
  then show ?thesis using assms(1,2) by (simp add: file_view_def file_words_def)
qed

lemma below_next_page: "n < 4096 * (n div 4096 + 1)" for n :: nat
  using dividend_less_times_div[of 4096 n] by (simp add: add.commute)

lemma aligned_size:
  assumes "unat (m :: u32) < 0xC0000000" "0 < f" "f \<le> m"
  defines "s \<equiv> (if PAGE_BOUNDARY m < m then PAGE_BOUNDARY m + PAGE_SIZE else PAGE_BOUNDARY m)"
  shows "unat s \<le> 4096 * (unat m div 4096 + 1)" "unat m \<le> unat s" "unat (s - f) = unat s - unat f" "unat f \<le> unat s"
proof -
  have b: "unat (PAGE_BOUNDARY m) = unat m div 4096 * 4096" by (rule unat_PAGE_BOUNDARY)
  have le: "unat m div 4096 * 4096 \<le> unat m" by simp
  have lt: "unat m < unat m div 4096 * 4096 + 4096" using below_next_page[of "unat m"] by simp
  have u: "unat (PAGE_BOUNDARY m + PAGE_SIZE) = unat m div 4096 * 4096 + 4096"
    using assms(1) le b by (simp add: unat_word_ariths PAGE_SIZE_def)
  show 1: "unat s \<le> 4096 * (unat m div 4096 + 1)" "unat m \<le> unat s"
    using b u le lt by (auto simp: s_def word_less_nat_alt)
  show f: "unat f \<le> unat s" using assms(3) 1(2) by (simp add: word_le_nat_alt)
  then show "unat (s - f) = unat s - unat f" by (simp add: unat_sub_if')
qed

lemma small_sint: "unat (x :: u32) < 2 ^ 31 \<Longrightarrow> sint x = int (unat x)"
proof -
  assume "unat x < 2 ^ 31"
  then have "int (unat x) < int (2 ^ 31)" by (rule of_nat_less_iff[THEN iffD2])
  then have "uint x < 2 ^ 31" by (simp only: uint_nat[symmetric] of_nat_power of_nat_numeral)
  then have "signed_take_bit 31 (uint x) = uint x" using uint_nonnegative[of x] by (intro signed_take_bit_int_eq_self) linarith+
  then show ?thesis by (simp add: sint_uint)
qed

context kernel_words
begin

text \<open>The part of the loop that fills the pages of a segment.\<close>

lemma fill_segment_fills:
  assumes w: "good W v" and KW: "K \<subseteq> W" and f: "file_view fns v file node addr fs (cs, pos)" and lay: "loader_layout K task file node addr fs cs"
    and h: "bytes_at v ph 32 cs k" "span ph 32 \<subseteq> bytes_of (K - loader_writes task file)"
    and ok: "segment_ok cs k"
    and R: "span (phdr cs k p_vaddr) (4096 * seg_pages cs k) \<subseteq> bytes_of (W - K)"
  defines "va \<equiv> phdr cs k p_vaddr" and "m \<equiv> phdr cs k p_memsz" and "z \<equiv> phdr cs k p_filesz" and "off \<equiv> phdr cs k p_offset"
  shows "\<exists>v'. fill_segment fns left_over task file ph m (if PAGE_BOUNDARY m < m then PAGE_BOUNDARY m + PAGE_SIZE else PAGE_BOUNDARY m) z va v
      = Some (SUCCESS, v') \<and> good W v' \<and> segment_loaded v' cs k
    \<and> file_view fns v' file node addr fs (cs, unat off + unat z)
    \<and> vread v' (task + task_offset text_begin) = (if phdr cs k p_flags = 5 then Some va else vread v (task + task_offset text_begin))
    \<and> vread v' (task + task_offset data_begin) = (if phdr cs k p_flags = 6 then Some va else vread v (task + task_offset data_begin))
    \<and> (\<forall>c\<in>bytes_of W. c \<notin> span va (4096 * seg_pages cs k) \<longrightarrow> word_of c \<notin> loader_writes task file \<longrightarrow> rd8 v' c = rd8 v c)"
proof -
  let ?s = "if PAGE_BOUNDARY m < m then PAGE_BOUNDARY m + PAGE_SIZE else PAGE_BOUNDARY m"
    and ?R = "span va (4096 * seg_pages cs k)" and ?t = "task + task_offset text_begin" and ?d = "task + task_offset data_begin"
  have o: "va \<noteq> 0" "unat va + 4096 * seg_pages cs k < 0xC0000000" "0 < z" "z \<le> m" "unat off + unat z \<le> length cs"
    using ok by (simp_all add: segment_ok_def va_def m_def z_def off_def)
  have pg: "seg_pages cs k = unat m div 4096 + 1" by (simp add: seg_pages_def m_def)
  have "unat m < 4096 * seg_pages cs k" unfolding pg by (rule below_next_page)
  then have ms: "unat m < 0xC0000000" using o(2) by simp
  note s = aligned_size[OF ms o(3,4)]
  have sp: "unat ?s \<le> 4096 * seg_pages cs k" using s(1) by (simp only: pg)
  have lay': "file_layout K file node addr fs cs" "task_words task \<subseteq> K - file_words file node fs" "\<forall>w\<in>task_words task. word_of w = w"
    "span addr (length cs) \<subseteq> bytes_of (K - task_words task)" using lay by (simp_all add: loader_layout_def)
  then have fl: "length cs < 2 ^ 31" "file_words file node fs \<subseteq> K" "\<forall>w\<in>file_words file node fs. word_of w = w"
    "file + 4 \<notin> {node + 148, node + 152, node + 156, fs + 36}" "span addr (length cs) \<subseteq> bytes_of (K - {file + 4})"
    by (simp_all add: file_layout_def)
  have layW: "file_layout W file node addr fs cs" using lay'(1) KW bytes_of_mono[of "K - {file + 4}" "W - {file + 4}"] unfolding file_layout_def by blast
  have R': "?R \<subseteq> bytes_of (W - K)" using R by (simp add: va_def)
  have Rout: "c \<notin> ?R" if "word_of c \<in> K" for c using R' that by auto
  have zle: "unat z \<le> unat m" using o(4) by (simp add: word_le_nat_alt)
  have ht: "phdr cs k p_offset = off" by (simp add: off_def)
  have offset: "rd32 v (ph + phdr_offset p_offset) = Some off" using phdr_field[OF h(1), of p_offset] ht by simp
  have "unat off < length cs" using o(3,5) by (simp add: word_less_nat_alt)
  then have "seek_target off SEEK_SET (cs, pos) = Some (unat off)" 
    using fl(1) small_sint[of off] by (simp add: seek_target_def Let_def uint_nat del: of_nat_unat)
  moreover have "SEEK_SET \<noteq> SEEK_END" by (simp add: SEEK_SET_def SEEK_END_def)
  moreover have fw: "file_words file node fs \<subseteq> W" "span addr (length cs) \<subseteq> bytes_of (W - {file + 4})" using layW by (simp_all add: file_layout_def)
  ultimately obtain v1 where v1: "file_seek left_over v file off SEEK_SET = Some (left_over, v1)" "good W v1"
    "file_view fns v1 file node addr fs (cs, unat off)" "\<forall>w\<in>W. w \<noteq> file + 4 \<longrightarrow> vread v1 w = vread v w"
    using file_seek_step[OF w f fl(1) _ fl(4), of SEEK_SET left_over off] by auto
  have k1: "rd8 v1 c = rd8 v c" if "c \<in> bytes_of W" "word_of c \<noteq> file + 4" for c using that v1(4) by (intro rd8_kept) simp
  define out where "out = take (unat z) (drop (unat off) cs)"
  have lo: "length out = unat z" using o(5) by (simp add: out_def)
  have zR: "span va (unat z) \<subseteq> ?R" using zle s(2) sp by (intro span_mono) simp
  have "span va (unat z) \<subseteq> bytes_of (W - file_words file node fs)" using zR R' fl(2) by (fastforce simp: bytes_of_def)
  moreover have "span va (unat z) \<inter> span addr (length cs) = {}" using zR Rout fl(5) by fastforce
  ultimately have "buffer_apart W file node addr fs cs va z" using o(1) by (simp add: buffer_apart_def)
  from file_read_layout[OF v1(2,3) layW this, folded out_def, unfolded lo]
  obtain v2 where v2: "file_read fns v1 file va z = Some (z, v2)" "good W v2" "\<forall>i<unat z. rd8 v2 (va + of_nat i) = Some (out ! i)"
    "file_view fns v2 file node addr fs (cs, unat off + unat z)"
    "\<forall>c\<in>bytes_of W. c \<notin> span va (unat z) \<longrightarrow> word_of c \<noteq> file + 4 \<longrightarrow> rd8 v2 c = rd8 v1 c" by auto
  let ?S = "span (va + z) (unat ?s - unat z)"
  have SR: "?S \<subseteq> ?R" using s(4) sp by (intro span_inside) simp
  have "\<exists>v3. (if m > z then paged_memset v2 0 (va + z) (?s - z) else Some v2) = Some v3 \<and> good W v3
      \<and> (\<forall>c\<in>?S. z < m \<longrightarrow> rd8 v3 c = Some 0) \<and> (\<forall>c\<in>bytes_of W. c \<notin> ?S \<longrightarrow> rd8 v3 c = rd8 v2 c)"
  proof (cases "z < m")
    case True
    have "span (va + z) (unat (?s - z)) \<subseteq> bytes_of W" unfolding s(3) using SR R' by (fastforce simp: bytes_of_def)
    then show ?thesis
    proof (rule paged_memset_fills[OF v2(2)])
      fix v3 assume "paged_memset v2 0 (va + z) (?s - z) = Some v3" "good W v3" "\<And>c. c \<in> span (va + z) (unat (?s - z)) \<Longrightarrow> rd8 v3 c = Some 0"
        "\<And>c. c \<in> bytes_of W \<Longrightarrow> c \<notin> span (va + z) (unat (?s - z)) \<Longrightarrow> rd8 v3 c = rd8 v2 c"
      then show ?thesis unfolding s(3) using True by (intro exI[of _ v3]) simp
    qed
  qed (use v2(2) in auto)
  then obtain v3 where v3: "(if m > z then paged_memset v2 0 (va + z) (?s - z) else Some v2) = Some v3" "good W v3"
    "\<forall>c\<in>?S. z < m \<longrightarrow> rd8 v3 c = Some 0" "\<forall>c\<in>bytes_of W. c \<notin> ?S \<longrightarrow> rd8 v3 c = rd8 v2 c" by blast
  have k3: "rd8 v3 c = rd8 v c" if "c \<in> bytes_of W" "c \<notin> ?R" "word_of c \<noteq> file + 4" for c
  proof -
    have "c \<notin> ?S" "c \<notin> span va (unat z)" using that(2) SR zR by blast+
    then show ?thesis using that(1,3) v3(4) v2(5) k1 by simp
  qed
  have hk: "word_of c \<in> K" "word_of c \<notin> loader_writes task file" "c \<in> bytes_of W" "c \<notin> ?R" if "c \<in> span ph 32" for c
    using that h(2) KW Rout by fastforce+
  have h3: "bytes_at v3 ph 32 cs k" using hk k3 by (intro bytes_at_kept[OF h(1)]) (auto simp: loader_writes_def)
  have tw: "?t \<in> W" "?d \<in> W" "?t \<in> K" "?d \<in> K" using lay'(2) KW by (auto simp: task_words_def)
  have ne: "?t \<noteq> ?d" by simp
  obtain v4 where v4: "(if phdr cs k p_flags = segment_flags_value PF_RX then vwrite v3 ?t va else Some v3) = Some v4" "good W v4"
    "vread v4 ?t = (if phdr cs k p_flags = 5 then Some va else vread v3 ?t)" "\<forall>b\<in>W. b \<noteq> ?t \<longrightarrow> vread v4 b = vread v3 b"
  proof (cases "phdr cs k p_flags = 5")
    case True
    then show ?thesis using that by (auto intro: wr_word[OF v3(2) tw(1), of va])
  qed (use that v3(2) in auto)
  have k4: "rd8 v4 c = rd8 v3 c" if "c \<in> bytes_of W" "word_of c \<noteq> ?t" for c using that v4(4) by (intro rd8_kept) simp
  have h4: "bytes_at v4 ph 32 cs k" using hk k4 by (intro bytes_at_kept[OF h3]) (auto simp: loader_writes_def task_words_def)
  obtain v5 where v5: "(if phdr cs k p_flags = segment_flags_value PF_RW then vwrite v4 ?d va else Some v4) = Some v5" "good W v5"
    "vread v5 ?d = (if phdr cs k p_flags = 6 then Some va else vread v4 ?d)" "\<forall>b\<in>W. b \<noteq> ?d \<longrightarrow> vread v5 b = vread v4 b"
  proof (cases "phdr cs k p_flags = 6")
    case True
    then show ?thesis using that by (auto intro: wr_word[OF v4(2) tw(2), of va])
  qed (use that v4(2) in auto)
  have k5: "rd8 v5 c = rd8 v4 c" if "c \<in> bytes_of W" "word_of c \<noteq> ?d" for c using that v5(4) by (intro rd8_kept) simp
  have k35: "rd8 v5 c = rd8 v3 c" if "c \<in> bytes_of W" "word_of c \<notin> task_words task" for c
    using that k4 k5 by (simp add: task_words_def)
  have "z \<noteq> 0" using o(3) by auto
  then have run: "fill_segment fns left_over task file ph m ?s z va v = Some (SUCCESS, v5)"
    using offset v1(1) v2(1) v3(1) v4(1) v5(1) phdr_field[OF h3, of p_flags] phdr_field[OF h4, of p_flags]
    by (simp add: fill_segment_def)
  have fwt: "w \<in> K" "w \<in> W" "word_of w = w" "w \<notin> task_words task" if "w \<in> file_words file node fs" for w
    using that fl(2,3) KW lay'(2) by blast+
  have taskw: "w \<in> W" "w \<in> K" "word_of w = w" "w \<noteq> file + 4" if "w \<in> task_words task" for w
    using that lay'(2,3) KW by (auto simp: file_words_def)
  have kw: "vread v3 w = vread v w" if "w \<in> task_words task" for w
  proof (rule words_kept[OF w v3(2) _ taskw(1,3)[OF that]])
    show "rd8 v3 c = rd8 v c" if "c \<in> bytes_of W" "c \<notin> ?R \<union> {c. word_of c = file + 4}" for c using that by (intro k3) auto
    show "span w 4 \<inter> (?R \<union> {c. word_of c = file + 4}) = {}"
      using word_of_span_word[OF taskw(3)[OF that]] taskw(2,4)[OF that] Rout by auto
  qed
  have kf: "vread v5 w = vread v2 w" if "w \<in> file_words file node fs" for w
  proof -
    have "vread v3 w = vread v2 w"
    proof (rule words_kept[OF v2(2) v3(2) _ fwt(2,3)[OF that]])
      show "rd8 v3 c = rd8 v2 c" if "c \<in> bytes_of W" "c \<notin> ?R" for c using that v3(4) SR by blast
      show "span w 4 \<inter> ?R = {}" using word_of_span_word[OF fwt(3)[OF that]] fwt(1)[OF that] Rout by auto
    qed
    then show ?thesis using v4(4) v5(4) fwt(2,4)[OF that] by (simp add: task_words_def)
  qed
  have img: "rd8 v5 c = rd8 v2 c" if "c \<in> span addr (length cs)" for c
  proof -
    have "word_of c \<in> K" "word_of c \<notin> task_words task" using that lay'(4) by auto
    then have "c \<in> bytes_of W" "c \<notin> ?S" "word_of c \<notin> task_words task" using KW Rout SR by auto
    then show ?thesis using k35 v3(4) by simp
  qed
  have view: "file_view fns v5 file node addr fs (cs, unat off + unat z)" by (rule file_view_kept[OF v2(4)]) (use kf img in blast)+
  have inR: "va + of_nat b \<in> ?R" if "b < unat m" for b using that s(2) sp o(2) by (intro of_nat_in_span) simp_all
  have loaded: "rd8 v5 (va + of_nat b) = Some (if b < unat z then cs ! (unat off + b) else 0)" if b: "b < unat m" for b
  proof -
    let ?c = "va + of_nat b"
    have c: "word_of ?c \<in> W" "word_of ?c \<notin> K" using subsetD[OF R' inR[OF b]] by simp_all
    then have "word_of ?c \<notin> task_words task" using lay'(2) by blast
    then have e: "rd8 v5 ?c = rd8 v3 ?c" using c(1) k35 by simp
    have ub: "unat (of_nat b :: u32) = b" using b ms by (simp add: unat_of_nat)
    have d: "?c - (va + z) = of_nat b - z" by simp
    have ud: "unat (?c - (va + z)) = (if unat z \<le> b then b - unat z else b + 2 ^ 32 - unat z)"
      unfolding d unat_sub_if' ub by simp
    show ?thesis
    proof (cases "b < unat z")
      case True
      have "?c \<notin> ?S"
      proof -
        have "unat (?c - (va + z)) = b + 2 ^ 32 - unat z" using True ud by simp
        then have "\<not> unat (?c - (va + z)) < unat ?s - unat z" using ms s(4) sp o(2) by simp
        then show ?thesis by (simp only: span_iff not_False_eq_True)
      qed
      then have "rd8 v3 ?c = Some (out ! b)" using v3(4) v2(3) c(1) True by simp
      moreover have "out ! b = cs ! (unat off + b)" using True o(5) by (simp add: out_def)
      ultimately show ?thesis using e True by simp
    next
      case False
      then have "unat (?c - (va + z)) < unat ?s - unat z" using ud b s(2) by simp
      then have "?c \<in> ?S" by (simp only: span_iff)
      moreover have "z < m" using False b by (simp add: word_less_nat_alt)
      ultimately show ?thesis using v3(3) e False by simp
    qed
  qed
  have frame: "rd8 v5 c = rd8 v c" if "c \<in> bytes_of W" "c \<notin> ?R" "word_of c \<notin> loader_writes task file" for c
    using that k35[of c] k3[of c] by (simp add: loader_writes_def)
  have td: "?t \<in> task_words task" "?d \<in> task_words task" by (simp_all add: task_words_def)
  have t5: "vread v5 ?t = (if phdr cs k p_flags = 5 then Some va else vread v ?t)" using v5(4) v4(3) tw(1) ne kw[OF td(1)] by simp
  have d5: "vread v5 ?d = (if phdr cs k p_flags = 6 then Some va else vread v ?d)" using v5(3) v4(4) tw(2) ne kw[OF td(2)] by simp
  have "segment_loaded v5 cs k" using loaded unfolding segment_loaded_def va_def m_def z_def off_def by blast
  then show ?thesis using run v5(2) view t5 d5 frame by blast
qed

end

section \<open>A segment in the memory of the process\<close>

lemma page_span:
  assumes "4096 dvd unat va" "unat va + 4096 * n \<le> 0xC0000000"
  shows "c \<in> span va (4096 * n) \<longleftrightarrow> page_of c \<in> {page_of va..<page_of va + n}"
proof -
  obtain q where q: "unat va = 4096 * q" using assms(1) by blast
  have "c \<in> span va (4096 * n) \<longleftrightarrow> 4096 * q \<le> unat c \<and> unat c < 4096 * (q + n)"
    using assms(2) unsigned_less[of c, where ?'a = nat] by (auto simp: unat_sub_if' q)
  also have "\<dots> \<longleftrightarrow> q \<le> unat c div 4096 \<and> unat c div 4096 < q + n"
    by (simp add: less_eq_div_iff_mult_less_eq div_less_iff_less_mult mult.commute)
  finally show ?thesis by (simp add: page_of_def q)
qed

lemma page_of_word_of: "page_of (word_of c) = page_of c"
  by (simp add: page_of_def unat_word_of div_mult2_eq[of _ 4 1024, simplified])

lemma user_byte: "page_of c \<in> used_pages v \<Longrightarrow> c \<in> bytes_of (user_words v)"
  by (simp add: user_words_def page_of_word_of)

lemma kernel_user_apart: "process_sound A K v \<Longrightarrow> K \<inter> user_words v = {}"
proof -
  assume s: "process_sound A K v"
  have "page_of a \<notin> used_pages v" if "a \<in> K" for a
  proof -
    have "768 \<le> unat a div 2 ^ 22" using process_soundD(3)[OF s that] by (simp add: kernel_word_def)
    then have "768 * 2 ^ 22 \<le> unat a" using div_le_mono less_mult_imp_div_less by (metis linorder_not_less)
    then have "user_pages \<le> page_of a" using div_le_mono[of "768 * 2 ^ 22" "unat a" 4096] by (simp add: page_of_def user_pages_def)
    then show ?thesis by (simp add: used_pages_def)
  qed
  then show ?thesis by (auto simp: user_words_def)
qed

text \<open>The segment whose header is at position \<open>k\<close> of the file is one to load.\<close>

definition loads :: "byte list \<Rightarrow> nat \<Rightarrow> bool" where
  "loads cs k \<longleftrightarrow> phdr cs k p_type = 1"

lemma load_segment_loads:
  assumes snd: "process_sound (avail (frames st)) K (vmem st)" and f: "file_view fns (vmem st) file node addr fs (cs, pos)"
    and lay: "loader_layout K task file node addr fs cs"
    and h: "bytes_at (vmem st) ph 32 cs k" "span ph 32 \<subseteq> bytes_of (K - loader_writes task file)"
    and ok: "loads cs k" "segment_ok cs k" and left: "frames_left ls (frames st) (2 * seg_pages cs k + r)"
  shows "\<exists>st'. load_segment ls fns left_over task file ph st = Some (SUCCESS, st')
    \<and> process_sound (avail (frames st')) K (vmem st') \<and> frames_left ls (frames st') r
    \<and> (\<exists>pos'. file_view fns (vmem st') file node addr fs (cs, pos')) \<and> segment_loaded (vmem st') cs k
    \<and> used_pages (vmem st') = used_pages (vmem st) \<union> seg_range cs k
    \<and> vread (vmem st') (task + task_offset text_begin)
        = (if phdr cs k p_flags = 5 then Some (phdr cs k p_vaddr) else vread (vmem st) (task + task_offset text_begin))
    \<and> vread (vmem st') (task + task_offset data_begin)
        = (if phdr cs k p_flags = 6 then Some (phdr cs k p_vaddr) else vread (vmem st) (task + task_offset data_begin))
    \<and> (\<forall>c\<in>bytes_of (K \<union> user_words (vmem st)). page_of c \<notin> seg_range cs k \<longrightarrow> word_of c \<notin> loader_writes task file
         \<longrightarrow> rd8 (vmem st') c = rd8 (vmem st) c)"
proof -
  let ?va = "phdr cs k p_vaddr" and ?m = "phdr cs k p_memsz" and ?n = "seg_pages cs k"
  have o: "4096 dvd unat ?va" "unat ?va + 4096 * ?n < 0xC0000000" using ok(2) by (simp_all add: segment_ok_def)
  have fld: "rd32 (vmem st) (ph + phdr_offset x) = Some (phdr cs k x)" for x by (rule phdr_field[OF h(1)])
  obtain st1 where st1: "mmap ls st ?va (of_nat ?n) = Some (SUCCESS, st1)" "process_sound (avail (frames st1)) K (vmem st1)"
    "used_pages (vmem st1) = used_pages (vmem st) \<union> seg_range cs k"
    "\<forall>a\<in>K \<union> user_words (vmem st). vread (vmem st1) a = vread (vmem st) a" "frames_left ls (frames st1) r"
    using mmap_process[OF snd o left] unfolding seg_range_def by blast
  have k1: "rd8 (vmem st1) c = rd8 (vmem st) c" if "c \<in> bytes_of (K \<union> user_words (vmem st))" for c
    using that st1(4) by (intro rd8_kept) simp
  have lay': "file_words file node fs \<subseteq> K" "span addr (length cs) \<subseteq> bytes_of K"
    "task_words task \<subseteq> K" using lay by (auto simp: loader_layout_def file_layout_def)
  have f1: "file_view fns (vmem st1) file node addr fs (cs, pos)"
    using lay'(1,2) st1(4) k1 by (intro file_view_kept[OF f]) (auto simp: subset_iff)
  have h1: "bytes_at (vmem st1) ph 32 cs k" using h(2) k1 by (intro bytes_at_kept[OF h(1)]) (auto simp: subset_iff)
  let ?W = "K \<union> user_words (vmem st1)" and ?P = "used_pages (vmem st1)"
  have good: "process_memory (avail (frames st1)) K ?P ?W (vmem st1)" using st1(2) by (simp add: process_memory_def)
  note sp = page_span[OF o(1) order.strict_implies_order[OF o(2)], folded seg_range_def]
  have "c \<in> bytes_of (user_words (vmem st1))" if "c \<in> span ?va (4096 * ?n)" for c
  proof (rule user_byte)
    show "page_of c \<in> used_pages (vmem st1)" using sp[of c] that st1(3) by blast
  qed
  then have "span ?va (4096 * ?n) \<subseteq> bytes_of (user_words (vmem st1))" by blast
  then have R: "span ?va (4096 * ?n) \<subseteq> bytes_of (?W - K)" using kernel_user_apart[OF st1(2)] by (fastforce simp del: span_iff)
  obtain v' where v': "fill_segment fns left_over task file ph ?m (if PAGE_BOUNDARY ?m < ?m then PAGE_BOUNDARY ?m + PAGE_SIZE else PAGE_BOUNDARY ?m)
        (phdr cs k p_filesz) ?va (vmem st1) = Some (SUCCESS, v')" "process_memory (avail (frames st1)) K ?P ?W v'" "segment_loaded v' cs k"
    "file_view fns v' file node addr fs (cs, unat (phdr cs k p_offset) + unat (phdr cs k p_filesz))"
    "vread v' (task + task_offset text_begin) = (if phdr cs k p_flags = 5 then Some ?va else vread (vmem st1) (task + task_offset text_begin))"
    "vread v' (task + task_offset data_begin) = (if phdr cs k p_flags = 6 then Some ?va else vread (vmem st1) (task + task_offset data_begin))"
    "\<forall>c\<in>bytes_of ?W. c \<notin> span ?va (4096 * ?n) \<longrightarrow> word_of c \<notin> loader_writes task file \<longrightarrow> rd8 v' c = rd8 (vmem st1) c"
    using process.fill_segment_fills[OF good _ f1 lay h1 h(2) ok(2) R, of left_over] by blast
  have "unat ?m div 4096 = unat (?m div 4096)" by (simp add: unat_div)
  then have "?m div PAGE_SIZE + 1 = of_nat ?n" by (simp add: PAGE_SIZE_def seg_pages_def)
  then have run: "load_segment ls fns left_over task file ph st = Some (SUCCESS, st1\<lparr>vmem := v'\<rparr>)"
    using fld ok(1) st1(1) v'(1) by (simp add: load_segment_def loads_def Let_def del: phdr_offset.simps)
  have tw: "task + task_offset text_begin \<in> K" "task + task_offset data_begin \<in> K" using lay'(3) by (auto simp: task_words_def)
  have "rd8 v' c = rd8 (vmem st) c"
    if c: "c \<in> bytes_of (K \<union> user_words (vmem st))" "page_of c \<notin> seg_range cs k" "word_of c \<notin> loader_writes task file" for c
  proof -
    have "c \<in> bytes_of ?W" using c(1) st1(3) by (auto simp: user_words_def)
    moreover have "c \<notin> span ?va (4096 * ?n)" using sp[of c] c(2) by (simp only: not_False_eq_True)
    ultimately have "rd8 v' c = rd8 (vmem st1) c" by (rule v'(7)[rule_format, OF _ _ c(3)])
    also have "\<dots> = rd8 (vmem st) c" by (rule k1[OF c(1)])
    finally show ?thesis .
  qed
  moreover have "process_sound (avail (frames st1)) K v'" "used_pages v' = used_pages (vmem st1)" using v'(2) by (simp_all add: process_memory_def)
  moreover have "vread v' (task + task_offset text_begin) = (if phdr cs k p_flags = 5 then Some ?va else vread (vmem st) (task + task_offset text_begin))"
    "vread v' (task + task_offset data_begin) = (if phdr cs k p_flags = 6 then Some ?va else vread (vmem st) (task + task_offset data_begin))"
    using v'(5,6) st1(4) tw by auto
  moreover note run v'(3,4) st1(3,5)
  ultimately show ?thesis by - (rule exI[of _ "st1\<lparr>vmem := v'\<rparr>"], simp, blast)
qed

text \<open>A segment without a part in the file: its pages are mapped, but reading nothing returns 0,
  which is taken for an error.\<close>

lemma load_segment_without_file_part:
  assumes snd: "process_sound (avail (frames st)) K (vmem st)" and f: "file_view fns (vmem st) file node addr fs (cs, pos)"
    and lay: "loader_layout K task file node addr fs cs"
    and h: "bytes_at (vmem st) ph 32 cs k" "span ph 32 \<subseteq> bytes_of (K - loader_writes task file)"
    and seg: "loads cs k" "phdr cs k p_filesz = 0" "4096 dvd unat (phdr cs k p_vaddr)" "phdr cs k p_vaddr \<noteq> 0"
      "unat (phdr cs k p_vaddr) + 4096 * seg_pages cs k < 0xC0000000" and left: "frames_left ls (frames st) (2 * seg_pages cs k)"
  shows "\<exists>st'. load_segment ls fns left_over task file ph st = Some (FAILURE, st')
    \<and> used_pages (vmem st') = used_pages (vmem st) \<union> seg_range cs k"
proof -
  let ?va = "phdr cs k p_vaddr" and ?m = "phdr cs k p_memsz" and ?n = "seg_pages cs k"
  have fld: "rd32 (vmem st) (ph + phdr_offset x) = Some (phdr cs k x)" for x by (rule phdr_field[OF h(1)])
  have "frames_left ls (frames st) (2 * ?n + 0)" using left by simp
  from mmap_process[OF snd seg(3,5) this]
  obtain st1 where st1: "mmap ls st ?va (of_nat ?n) = Some (SUCCESS, st1)" "process_sound (avail (frames st1)) K (vmem st1)"
    "used_pages (vmem st1) = used_pages (vmem st) \<union> seg_range cs k"
    "\<forall>a\<in>K \<union> user_words (vmem st). vread (vmem st1) a = vread (vmem st) a" unfolding seg_range_def by blast
  have k1: "rd8 (vmem st1) c = rd8 (vmem st) c" if "c \<in> bytes_of (K \<union> user_words (vmem st))" for c
    using that st1(4) by (intro rd8_kept) simp
  let ?W = "K \<union> user_words (vmem st1)" and ?P = "used_pages (vmem st1)"
  have good: "process_memory (avail (frames st1)) K ?P ?W (vmem st1)" using st1(2) by (simp add: process_memory_def)
  have layK: "file_layout K file node addr fs cs" using lay by (simp add: loader_layout_def)
  then have fl: "file_words file node fs \<subseteq> K" "span addr (length cs) \<subseteq> bytes_of K" "length cs < 2 ^ 31"
    "file + 4 \<notin> {node + 148, node + 152, node + 156, fs + 36}" by (auto simp: file_layout_def)
  have layW: "file_layout ?W file node addr fs cs" using layK bytes_of_mono[of "K - {file + 4}" "?W - {file + 4}"] unfolding file_layout_def by blast
  have f1: "file_view fns (vmem st1) file node addr fs (cs, pos)"
    using fl(1,2) st1(4) k1 by (intro file_view_kept[OF f]) (auto simp: subset_iff)
  have h1: "bytes_at (vmem st1) ph 32 cs k" using h(2) k1 by (intro bytes_at_kept[OF h(1)]) (auto simp: subset_iff)
  have fw: "file_words file node fs \<subseteq> ?W" "span addr (length cs) \<subseteq> bytes_of (?W - {file + 4})" using layW by (simp_all add: file_layout_def)
  obtain r pos1 v1 where v1: "file_seek left_over (vmem st1) file (phdr cs k p_offset) SEEK_SET = Some (r, v1)"
    "process_memory (avail (frames st1)) K ?P ?W v1" "file_view fns v1 file node addr fs (cs, pos1)"
    using process.file_seek_step[OF good f1 fl(3) fw(1) fl(4) fw(2), of SEEK_SET left_over "phdr cs k p_offset"] by auto
  have "buffer_apart ?W file node addr fs cs ?va 0" using seg(4) by (simp add: buffer_apart_def)
  from process.file_read_layout[OF v1(2,3) layW this]
  obtain v2 where v2: "file_read fns v1 file ?va 0 = Some (0, v2)" "process_memory (avail (frames st1)) K ?P ?W v2" by auto
  have "rd32 (vmem st1) (ph + phdr_offset p_offset) = Some (phdr cs k p_offset)" by (rule phdr_field[OF h1])
  then have fill: "fill_segment fns left_over task file ph ?m s 0 ?va (vmem st1) = Some (FAILURE, v2)" for s
    using v1(1) v2(1) by (simp add: fill_segment_def del: phdr_offset.simps)
  have "unat ?m div 4096 = unat (?m div 4096)" by (simp add: unat_div)
  then have "?m div PAGE_SIZE + 1 = of_nat ?n" by (simp add: PAGE_SIZE_def seg_pages_def)
  then have "load_segment ls fns left_over task file ph st = Some (FAILURE, st1\<lparr>vmem := v2\<rparr>)"
    using fld seg(1,2) st1(1) fill by (simp add: load_segment_def loads_def Let_def del: phdr_offset.simps)
  moreover have "used_pages v2 = used_pages (vmem st1)" using v2(2) by (simp add: process_memory_def)
  ultimately show ?thesis using st1(3) by (intro exI[of _ "st1\<lparr>vmem := v2\<rparr>"]) simp
qed

section \<open>All segments\<close>

text \<open>Tables of program headers, given by the positions of the headers in the file.\<close>

definition table_ok :: "byte list \<Rightarrow> nat list \<Rightarrow> bool" where
  "table_ok cs ks \<longleftrightarrow> (\<forall>k\<in>set ks. loads cs k \<longrightarrow> segment_ok cs k)
     \<and> sorted_wrt (\<lambda>k l. loads cs k \<longrightarrow> loads cs l \<longrightarrow> seg_range cs k \<inter> seg_range cs l = {}) ks"

definition table_range :: "byte list \<Rightarrow> nat list \<Rightarrow> nat set" where
  "table_range cs ks = (\<Union>k\<in>{k \<in> set ks. loads cs k}. seg_range cs k)"

definition table_pages :: "byte list \<Rightarrow> nat list \<Rightarrow> nat" where
  "table_pages cs ks = sum_list (map (seg_pages cs) (filter (loads cs) ks))"

text \<open>The address of the last segment with the given flags.\<close>

definition last_begin :: "byte list \<Rightarrow> u32 \<Rightarrow> nat list \<Rightarrow> u32 option \<Rightarrow> u32 option" where
  "last_begin cs flags ks old = foldl (\<lambda>b k. if loads cs k \<and> phdr cs k p_flags = flags then Some (phdr cs k p_vaddr) else b) old ks"

lemma table_Cons:
  "table_range cs (k # ks) = (if loads cs k then seg_range cs k else {}) \<union> table_range cs ks"
  "table_pages cs (k # ks) = (if loads cs k then seg_pages cs k else 0) + table_pages cs ks"
  "last_begin cs flags (k # ks) old = last_begin cs flags ks (if loads cs k \<and> phdr cs k p_flags = flags then Some (phdr cs k p_vaddr) else old)"
  by (auto simp: table_range_def table_pages_def last_begin_def)

lemma table_ok_Cons:
  assumes "table_ok cs (k # ks)"
  shows "table_ok cs ks" "loads cs k \<Longrightarrow> segment_ok cs k" "loads cs k \<Longrightarrow> seg_range cs k \<inter> table_range cs ks = {}"
  using assms by (auto simp: table_ok_def table_range_def)

lemma segment_loaded_kept:
  assumes "segment_loaded v cs k" "segment_ok cs k" "\<forall>c. page_of c \<in> seg_range cs k \<longrightarrow> rd8 v' c = rd8 v c"
  shows "segment_loaded v' cs k"
proof -
  have o: "4096 dvd unat (phdr cs k p_vaddr)" "unat (phdr cs k p_vaddr) + 4096 * seg_pages cs k \<le> 0xC0000000"
    using assms(2) by (simp_all add: segment_ok_def)
  have "rd8 v' (phdr cs k p_vaddr + of_nat b) = rd8 v (phdr cs k p_vaddr + of_nat b)" if "b < unat (phdr cs k p_memsz)" for b
  proof -
    have "unat (phdr cs k p_memsz) < 4096 * seg_pages cs k" unfolding seg_pages_def by (rule below_next_page)
    then have "phdr cs k p_vaddr + of_nat b \<in> span (phdr cs k p_vaddr) (4096 * seg_pages cs k)" using that o(2) by (intro of_nat_in_span) simp_all
    then show ?thesis using page_span[OF o, of "phdr cs k p_vaddr + of_nat b"] assms(3) unfolding seg_range_def by blast
  qed
  then show ?thesis using assms(1) by (simp add: segment_loaded_def)
qed

text \<open>The array of headers in memory, and the loop over it.\<close>

definition table_at_memory :: "vm \<Rightarrow> u32 set \<Rightarrow> u32 \<Rightarrow> u32 \<Rightarrow> byte list \<Rightarrow> nat list \<Rightarrow> bool" where
  "table_at_memory v S segs i cs ks \<longleftrightarrow> (\<forall>j<length ks. bytes_at v (segs + (i + of_nat j) * sizeof_phdr) 32 cs (ks ! j)
     \<and> span (segs + (i + of_nat j) * sizeof_phdr) 32 \<subseteq> bytes_of S)"

lemma table_at_memory_Cons:
  "table_at_memory v S segs i cs (k # ks) \<longleftrightarrow> bytes_at v (segs + i * sizeof_phdr) 32 cs k \<and> span (segs + i * sizeof_phdr) 32 \<subseteq> bytes_of S
     \<and> table_at_memory v S segs (i + 1) cs ks"
proof -
  have "(\<forall>j<Suc n. P j) \<longleftrightarrow> P 0 \<and> (\<forall>j<n. P (Suc j))" for P n by (metis less_Suc_eq_0_disj)
  then show ?thesis unfolding table_at_memory_def by (simp add: add.assoc)
qed

lemma table_at_memory_kept:
  assumes "table_at_memory v S segs i cs ks" "\<forall>c\<in>bytes_of S. rd8 v' c = rd8 v c"
  shows "table_at_memory v' S segs i cs ks"
  unfolding table_at_memory_def
proof (intro allI impI conjI)
  fix j assume "j < length ks"
  then have "bytes_at v (segs + (i + of_nat j) * sizeof_phdr) 32 cs (ks ! j)" "span (segs + (i + of_nat j) * sizeof_phdr) 32 \<subseteq> bytes_of S"
    using assms(1) by (simp_all only: table_at_memory_def)
  moreover from this(2) have "\<forall>c\<in>span (segs + (i + of_nat j) * sizeof_phdr) 32. rd8 v' c = rd8 v c" using assms(2) by blast
  ultimately show "bytes_at v' (segs + (i + of_nat j) * sizeof_phdr) 32 cs (ks ! j)" "span (segs + (i + of_nat j) * sizeof_phdr) 32 \<subseteq> bytes_of S"
    using bytes_at_kept by auto
qed

lemma kernel_not_loaded:
  assumes "process_sound A K v" "segment_ok cs k" "word_of c \<in> K"
  shows "page_of c \<notin> seg_range cs k"
proof -
  have "768 \<le> unat (word_of c) div 2 ^ 22" using process_soundD(3)[OF assms(1,3)] by (simp add: kernel_word_def)
  then have "768 * 2 ^ 22 \<le> unat (word_of c)" using less_mult_imp_div_less by (metis linorder_not_less)
  then have "768 * 1024 \<le> page_of (word_of c)" using div_le_mono[of "768 * 2 ^ 22" "unat (word_of c)" 4096] by (simp add: page_of_def)
  then have pc: "768 * 1024 \<le> page_of c" by (simp only: page_of_word_of)
  have "4096 dvd unat (phdr cs k p_vaddr)" "unat (phdr cs k p_vaddr) + 4096 * seg_pages cs k < 0xC0000000" using assms(2) by (simp_all add: segment_ok_def)
  then have "page_of (phdr cs k p_vaddr) + seg_pages cs k < 768 * 1024" by (auto simp: page_of_def)
  then show ?thesis using pc by (simp add: seg_range_def)
qed

lemma load_segments_loop_loads:
  assumes "process_sound (avail (frames st)) K (vmem st)" "file_view fns (vmem st) file node addr fs (cs, pos)"
    and lay: "loader_layout K task file node addr fs cs"
    and "table_at_memory (vmem st) (K - loader_writes task file) segs i cs ks" "table_ok cs ks"
    and "frames_left ls (frames st) (2 * table_pages cs ks)"
  shows "\<exists>st'. load_segments_loop ls fns left_over task file segs (length ks) i st = Some (SUCCESS, st')
    \<and> process_sound (avail (frames st')) K (vmem st')
    \<and> used_pages (vmem st') = used_pages (vmem st) \<union> table_range cs ks
    \<and> (\<forall>k\<in>set ks. loads cs k \<longrightarrow> segment_loaded (vmem st') cs k)
    \<and> vread (vmem st') (task + task_offset text_begin) = last_begin cs 5 ks (vread (vmem st) (task + task_offset text_begin))
    \<and> vread (vmem st') (task + task_offset data_begin) = last_begin cs 6 ks (vread (vmem st) (task + task_offset data_begin))
    \<and> (\<forall>c\<in>bytes_of (K \<union> user_words (vmem st)). page_of c \<notin> table_range cs ks \<longrightarrow> word_of c \<notin> loader_writes task file
         \<longrightarrow> rd8 (vmem st') c = rd8 (vmem st) c)"
  using assms(1,2,4-6)
proof (induction ks arbitrary: st i pos)
  case Nil
  then show ?case by (simp add: table_range_def last_begin_def)
next
  case (Cons k ks)
  note ok = table_ok_Cons[OF Cons.prems(4)]
  have t: "bytes_at (vmem st) (segs + i * sizeof_phdr) 32 cs k" "span (segs + i * sizeof_phdr) 32 \<subseteq> bytes_of (K - loader_writes task file)"
    "table_at_memory (vmem st) (K - loader_writes task file) segs (i + 1) cs ks" using Cons.prems(3) unfolding table_at_memory_Cons by blast+
  show ?case
  proof (cases "loads cs k")
    case False
    have "load_segment ls fns left_over task file (segs + i * sizeof_phdr) st = Some (SUCCESS, st)"
      using phdr_field[OF t(1), of p_type] False by (simp add: load_segment_def loads_def del: phdr_offset.simps)
    moreover have "frames_left ls (frames st) (2 * table_pages cs ks)" using Cons.prems(5) False by (simp add: table_Cons)
    from Cons.IH[OF Cons.prems(1,2) t(3) ok(1) this]
    obtain st' where "load_segments_loop ls fns left_over task file segs (length ks) (i + 1) st = Some (SUCCESS, st')"
      "process_sound (avail (frames st')) K (vmem st')" "used_pages (vmem st') = used_pages (vmem st) \<union> table_range cs ks"
      "\<forall>k\<in>set ks. loads cs k \<longrightarrow> segment_loaded (vmem st') cs k"
      "vread (vmem st') (task + task_offset text_begin) = last_begin cs 5 ks (vread (vmem st) (task + task_offset text_begin))"
      "vread (vmem st') (task + task_offset data_begin) = last_begin cs 6 ks (vread (vmem st) (task + task_offset data_begin))"
      "\<forall>c\<in>bytes_of (K \<union> user_words (vmem st)). page_of c \<notin> table_range cs ks \<longrightarrow> word_of c \<notin> loader_writes task file
         \<longrightarrow> rd8 (vmem st') c = rd8 (vmem st) c" by (elim exE conjE)
    ultimately show ?thesis using False by (intro exI[of _ st']) (simp add: table_Cons)
  next
    case True
    note okk = ok(2)[OF True]
    have left: "frames_left ls (frames st) (2 * seg_pages cs k + 2 * table_pages cs ks)" using Cons.prems(5) True by (simp add: table_Cons)
    obtain st1 pos1 where st1: "load_segment ls fns left_over task file (segs + i * sizeof_phdr) st = Some (SUCCESS, st1)"
      "process_sound (avail (frames st1)) K (vmem st1)" "frames_left ls (frames st1) (2 * table_pages cs ks)"
      "file_view fns (vmem st1) file node addr fs (cs, pos1)" "segment_loaded (vmem st1) cs k"
      "used_pages (vmem st1) = used_pages (vmem st) \<union> seg_range cs k"
      "vread (vmem st1) (task + task_offset text_begin)
        = (if phdr cs k p_flags = 5 then Some (phdr cs k p_vaddr) else vread (vmem st) (task + task_offset text_begin))"
      "vread (vmem st1) (task + task_offset data_begin)
        = (if phdr cs k p_flags = 6 then Some (phdr cs k p_vaddr) else vread (vmem st) (task + task_offset data_begin))"
      "\<forall>c\<in>bytes_of (K \<union> user_words (vmem st)). page_of c \<notin> seg_range cs k \<longrightarrow> word_of c \<notin> loader_writes task file
         \<longrightarrow> rd8 (vmem st1) c = rd8 (vmem st) c"
      using load_segment_loads[OF Cons.prems(1,2) lay t(1,2) True okk left, of left_over] by (elim exE conjE)
    have "\<forall>c\<in>bytes_of (K - loader_writes task file). rd8 (vmem st1) c = rd8 (vmem st) c"
      using st1(9) kernel_not_loaded[OF Cons.prems(1) okk] by (simp add: bytes_of_def)
    from table_at_memory_kept[OF t(3) this] have t1: "table_at_memory (vmem st1) (K - loader_writes task file) segs (i + 1) cs ks" .
    obtain st' where st': "load_segments_loop ls fns left_over task file segs (length ks) (i + 1) st1 = Some (SUCCESS, st')"
      "process_sound (avail (frames st')) K (vmem st')" "used_pages (vmem st') = used_pages (vmem st1) \<union> table_range cs ks"
      "\<forall>k\<in>set ks. loads cs k \<longrightarrow> segment_loaded (vmem st') cs k"
      "vread (vmem st') (task + task_offset text_begin) = last_begin cs 5 ks (vread (vmem st1) (task + task_offset text_begin))"
      "vread (vmem st') (task + task_offset data_begin) = last_begin cs 6 ks (vread (vmem st1) (task + task_offset data_begin))"
      "\<forall>c\<in>bytes_of (K \<union> user_words (vmem st1)). page_of c \<notin> table_range cs ks \<longrightarrow> word_of c \<notin> loader_writes task file
         \<longrightarrow> rd8 (vmem st') c = rd8 (vmem st1) c" using Cons.IH[OF st1(2,4) t1 ok(1) st1(3)] by (elim exE conjE)
    have mono: "bytes_of (K \<union> user_words (vmem st)) \<subseteq> bytes_of (K \<union> user_words (vmem st1))"
      using st1(6) by (auto simp: user_words_def)
    have kept: "rd8 (vmem st') c = rd8 (vmem st1) c" if "page_of c \<in> seg_range cs k" for c
    proof -
      have "c \<in> bytes_of (user_words (vmem st1))" using that st1(6) by (intro user_byte) blast
      moreover from this have "word_of c \<notin> K" using kernel_user_apart[OF st1(2)] by auto
      then have "word_of c \<notin> loader_writes task file" using lay
        by (auto simp: loader_layout_def loader_writes_def file_layout_def file_words_def)
      ultimately show ?thesis using st'(7) ok(3)[OF True] that by (simp add: bytes_of_def) blast
    qed
    have "segment_loaded (vmem st') cs k" using segment_loaded_kept[OF st1(5) okk] kept by blast
    moreover have "rd8 (vmem st') c = rd8 (vmem st) c"
      if "c \<in> bytes_of (K \<union> user_words (vmem st))" "page_of c \<notin> seg_range cs k \<union> table_range cs ks" "word_of c \<notin> loader_writes task file" for c
      using st'(7) st1(9) that mono by (metis UnCI subsetD)
    ultimately show ?thesis using st1(1,6-8) st'(1-6) True
      by (intro exI[of _ st']) (simp add: table_Cons Un_assoc)
  qed
qed

text \<open>The program headers that the header of a file names.\<close>

definition elf_table :: "byte list \<Rightarrow> nat list" where
  "elf_table cs = map (\<lambda>i. unat (le32 cs 28) + 32 * i) [0..<unat (le16 cs 44)]"

definition array_apart :: "u32 set \<Rightarrow> u32 \<Rightarrow> u32 \<Rightarrow> u32 \<Rightarrow> u32 \<Rightarrow> u32 \<Rightarrow> byte list \<Rightarrow> u32 \<Rightarrow> nat \<Rightarrow> bool" where
  "array_apart K task file node addr fs cs segs n \<longleftrightarrow> segs \<noteq> 0 \<and> span segs (32 * n) \<inter> span addr (length cs) = {}
     \<and> span segs (32 * n) \<subseteq> bytes_of (K - file_words file node fs - task_words task)"

lemma load_table_reads:
  assumes snd: "process_sound A K v" and f: "file_view fns v file node addr fs (cs, pos)" and lay: "loader_layout K task file node addr fs cs"
    and hdr: "bytes_at v h 52 cs 0" and n: "n = unat (le16 cs 44)" "0 < n" "unat (le32 cs 28) + 32 * n \<le> length cs"
    and segs: "array_apart K task file node addr fs cs segs n"
  shows "\<exists>v'. load_program_header_table fns left_over v file h segs (of_nat n) = Some (of_nat (32 * n), v') \<and> process_sound A K v'
    \<and> used_pages v' = used_pages v \<and> (\<exists>pos'. file_view fns v' file node addr fs (cs, pos'))
    \<and> table_at_memory v' (K - loader_writes task file) segs 0 cs (elf_table cs)
    \<and> (\<forall>w\<in>task_words task. vread v' w = vread v w)
    \<and> (\<forall>c\<in>bytes_of (K \<union> user_words v). c \<notin> span segs (32 * n) \<longrightarrow> word_of c \<noteq> file + 4 \<longrightarrow> rd8 v' c = rd8 v c)"
proof -
  let ?W = "K \<union> user_words v" and ?P = "used_pages v"
  have good: "process_memory A K ?P ?W v" using snd by (simp add: process_memory_def)
  have lay': "file_layout K file node addr fs cs" "task_words task \<subseteq> K - file_words file node fs" "\<forall>w\<in>task_words task. word_of w = w"
    using lay by (simp_all add: loader_layout_def)
  then have fl: "length cs < 2 ^ 31" "file_words file node fs \<subseteq> K" "file + 4 \<notin> {node + 148, node + 152, node + 156, fs + 36}"
    by (simp_all add: file_layout_def)
  have layW: "file_layout ?W file node addr fs cs" using lay'(1) bytes_of_mono[of "K - {file + 4}" "?W - {file + 4}"] unfolding file_layout_def by blast
  have sg: "segs \<noteq> 0" "span segs (32 * n) \<inter> span addr (length cs) = {}" "span segs (32 * n) \<subseteq> bytes_of (K - file_words file node fs - task_words task)"
    using segs by (simp_all add: array_apart_def)
  have n16: "n < 2 ^ 16" using unsigned_less[of "le16 cs 44", where ?'a = nat] by (simp add: n(1))
  have un: "of_nat n * sizeof_phdr = of_nat (32 * n)" "unat (of_nat (32 * n) :: u32) = 32 * n"
    using n16 by (simp add: sizeof_phdr_def mult.commute) (use n16 in \<open>simp add: unat_of_nat del: of_nat_mult\<close>)
  define off where "off = le32 cs 28"
  have off: "rd32 v (h + ehdr_offset e_phoff) = Some off" using rd32_bytes[OF bytes_at_part[OF hdr, of 28 4]] by (simp add: off_def)
  have "unat off < length cs" using n(2,3) by (simp add: off_def)
  then have "seek_target off SEEK_SET (cs, pos) = Some (unat off)" using fl(1) small_sint[of off]
    by (simp add: seek_target_def Let_def uint_nat del: of_nat_unat)
  moreover have "SEEK_SET \<noteq> SEEK_END" by (simp add: SEEK_SET_def SEEK_END_def)
  moreover have fw: "file_words file node fs \<subseteq> ?W" "span addr (length cs) \<subseteq> bytes_of (?W - {file + 4})" using layW by (simp_all add: file_layout_def)
  ultimately obtain v1 where v1: "file_seek left_over v file off SEEK_SET = Some (left_over, v1)" "process_memory A K ?P ?W v1"
    "file_view fns v1 file node addr fs (cs, unat off)" "\<forall>w\<in>?W. w \<noteq> file + 4 \<longrightarrow> vread v1 w = vread v w"
    using process.file_seek_step[OF good f fl(1) _ fl(3), of SEEK_SET left_over off] by auto
  have k1: "rd8 v1 c = rd8 v c" if "c \<in> bytes_of ?W" "word_of c \<noteq> file + 4" for c using that v1(4) by (intro rd8_kept) simp
  define out where "out = take (32 * n) (drop (unat off) cs)"
  have lo: "length out = 32 * n" using n(3) by (simp add: out_def off_def)
  have "span segs (32 * n) \<subseteq> bytes_of (?W - file_words file node fs)" using sg(3) bytes_of_mono by (rule order.trans) blast
  then have "buffer_apart ?W file node addr fs cs segs (of_nat (32 * n))" using sg(1,2) unfolding buffer_apart_def un(2) by blast
  from process.file_read_layout[OF v1(2,3) layW this, unfolded un(2), folded out_def, unfolded lo]
  obtain v2 where v2: "file_read fns v1 file segs (of_nat (32 * n)) = Some (of_nat (32 * n), v2)" "process_memory A K ?P ?W v2"
    "\<forall>i<32 * n. rd8 v2 (segs + of_nat i) = Some (out ! i)" "file_view fns v2 file node addr fs (cs, unat off + 32 * n)"
    "\<forall>c\<in>bytes_of ?W. c \<notin> span segs (32 * n) \<longrightarrow> word_of c \<noteq> file + 4 \<longrightarrow> rd8 v2 c = rd8 v1 c" by auto
  have frame: "rd8 v2 c = rd8 v c" if "c \<in> bytes_of ?W" "c \<notin> span segs (32 * n)" "word_of c \<noteq> file + 4" for c using that v2(5) k1 by simp
  have run: "load_program_header_table fns left_over v file h segs (of_nat n) = Some (of_nat (32 * n), v2)"
    using off v1(1) v2(1) un(1) by (simp add: load_program_header_table_def del: ehdr_offset.simps of_nat_mult)
  have out: "bytes_at v2 segs (32 * n) cs (unat off)" using v2(3) n(3) by (simp add: bytes_at_def out_def off_def)
  have "table_at_memory v2 (K - loader_writes task file) segs 0 cs (elf_table cs)"
    unfolding table_at_memory_def
  proof (intro allI impI conjI)
    fix j assume "j < length (elf_table cs)"
    then have j: "j < n" by (simp add: elf_table_def n(1))
    then have e: "elf_table cs ! j = unat off + 32 * j" "segs + (0 + of_nat j) * sizeof_phdr = segs + of_nat (32 * j)"
      by (simp_all add: elf_table_def n(1) off_def sizeof_phdr_def mult.commute)
    have "32 * j + 32 \<le> 32 * n" using j by simp
    then show "bytes_at v2 (segs + (0 + of_nat j) * sizeof_phdr) 32 cs (elf_table cs ! j)" unfolding e by (rule bytes_at_part[OF out])
    have "span (segs + of_nat (32 * j)) 32 \<subseteq> span segs (32 * n)" using \<open>32 * j + 32 \<le> 32 * n\<close> n16 j
      by (intro span_inside) (simp add: unat_of_nat del: of_nat_mult)
    also have "\<dots> \<subseteq> bytes_of (K - loader_writes task file)" using sg(3) bytes_of_mono
      by (rule order.trans) (auto simp: loader_writes_def file_words_def)
    finally show "span (segs + (0 + of_nat j) * sizeof_phdr) 32 \<subseteq> bytes_of (K - loader_writes task file)" unfolding e .
  qed
  moreover have "vread v2 w = vread v w" if w: "w \<in> task_words task" for w
  proof (rule process.words_kept[OF good v2(2), of "span segs (32 * n) \<union> {c. word_of c = file + 4}"])
    show "rd8 v2 c = rd8 v c" if "c \<in> bytes_of ?W" "c \<notin> span segs (32 * n) \<union> {c. word_of c = file + 4}" for c using that by (intro frame) auto
    have ww: "w \<in> K" "word_of w = w" "w \<noteq> file + 4" using w lay'(2,3) by (auto simp: file_words_def)
    then show "w \<in> ?W" "word_of w = w" by simp_all
    have "c \<notin> span segs (32 * n) \<union> {c. word_of c = file + 4}" if "c \<in> span w 4" for c
    proof -
      have "word_of c = w" by (rule word_of_span_word[OF ww(2) that])
      then show ?thesis using sg(3) w ww(3) by auto
    qed
    then show "span w 4 \<inter> (span segs (32 * n) \<union> {c. word_of c = file + 4}) = {}" by blast
  qed
  ultimately show ?thesis using run v2(2,4) frame unfolding process_memory_def by blast
qed

section \<open>The header\<close>

text \<open>What is read into the buffer: the first bytes of the file, filled up with zeros.\<close>

definition header_of :: "byte list \<Rightarrow> byte list" where
  "header_of cs = take 52 (cs @ replicate 52 0)"

definition elf_magic :: "byte list \<Rightarrow> bool" where
  "elf_magic hs \<longleftrightarrow> hs ! 0 = 0x7F \<and> hs ! 1 = 0x45 \<and> hs ! 2 = 0x4C \<and> hs ! 3 = 0x46"

text \<open>32-bit, little-endian, for the 386, version 1, relocatable or executable.\<close>

definition elf_supported :: "byte list \<Rightarrow> bool" where
  "elf_supported hs \<longleftrightarrow> hs ! 4 = 1 \<and> hs ! 5 = 1 \<and> hs ! 6 = 1 \<and> le16 hs 18 = 3 \<and> (le16 hs 16 = 1 \<or> le16 hs 16 = 2)"

lemma length_header [simp]: "length (header_of cs) = 52"
  by (simp add: header_of_def)

lemma ident_bytes: "bytes_at v h 52 hs 0 \<Longrightarrow> ident_byte v h i = Some (hs ! unat (elf_ident_value i))"
proof -
  assume b: "bytes_at v h 52 hs 0"
  have "unat (elf_ident_value i) < 52" by (cases i) simp_all
  then have "rd8 v (h + of_nat (unat (elf_ident_value i))) = Some (hs ! (0 + unat (elf_ident_value i)))" using b unfolding bytes_at_def by blast
  then show ?thesis by (simp add: ident_byte_def)
qed

lemma check_elf_header_eq:
  assumes "bytes_at v h 52 hs 0" "h \<noteq> 0"
  shows "check_elf_header v h = Some (if elf_magic hs then SUCCESS else INVALID_ARGUMENT)"
  using assms(2) by (simp add: check_elf_header_def ident_bytes[OF assms(1)] elf_magic_def ELFMAG0_def ELFMAG1_def ELFMAG2_def ELFMAG3_def)

lemma check_elf_supported_eq:
  assumes "bytes_at v h 52 hs 0"
  shows "check_elf_supported v h = Some (if elf_supported hs then SUCCESS else INVALID_ARGUMENT)"
proof -
  have "rd16 v (h + ehdr_offset e_machine) = Some (le16 hs 18)" "rd16 v (h + ehdr_offset e_type) = Some (le16 hs 16)"
    using rd16_bytes[OF bytes_at_part[OF assms, of 18 2]] rd16_bytes[OF bytes_at_part[OF assms, of 16 2]] by simp_all
  then show ?thesis
    by (simp add: check_elf_supported_def ident_bytes[OF assms] elf_supported_def ELFCLASS32_def ELFDATA2LSB_def EM_386_def EV_CURRENT_def
        del: ehdr_offset.simps)
qed

context kernel_words
begin

text \<open>Reading the header.\<close>

lemma read_header:
  assumes w: "good W v" and f: "file_view fns v file node addr fs (cs, 0)" and lay: "file_layout W file node addr fs cs"
    and buf: "buffer_apart W file node addr fs cs h 52"
  obtains v1 v2 where "paged_memset v 0 h ELF_HEADER_SIZE = Some v1" "file_read fns v1 file h ELF_HEADER_SIZE = Some (of_nat (min 52 (length cs)), v2)"
    "good W v2" "bytes_at v2 h 52 (header_of cs) 0" "file_view fns v2 file node addr fs (cs, min 52 (length cs))"
    "\<forall>c\<in>bytes_of W. c \<notin> span h 52 \<longrightarrow> word_of c \<noteq> file + 4 \<longrightarrow> rd8 v2 c = rd8 v c"
proof -
  have e: "ELF_HEADER_SIZE = 52" "unat (52 :: u32) = 52" by (simp_all add: ELF_HEADER_SIZE_def)
  have b: "span h 52 \<subseteq> bytes_of (W - file_words file node fs)" "span h 52 \<inter> span addr (length cs) = {}" using buf by (simp_all add: buffer_apart_def)
  then have bW: "span h (unat (52 :: u32)) \<subseteq> bytes_of W" unfolding e(2) using bytes_of_mono[of "W - file_words file node fs" W] by blast
  obtain v1 where v1: "paged_memset v 0 h 52 = Some v1" "good W v1" "\<And>c. c \<in> span h 52 \<Longrightarrow> rd8 v1 c = Some 0"
    "\<And>c. c \<in> bytes_of W \<Longrightarrow> c \<notin> span h 52 \<Longrightarrow> rd8 v1 c = rd8 v c" using paged_memset_fills[OF w bW, of 0] unfolding e(2) by blast
  have fl: "file_words file node fs \<subseteq> W" "\<forall>w\<in>file_words file node fs. word_of w = w" "span addr (length cs) \<subseteq> bytes_of (W - {file + 4})"
    using lay by (simp_all add: file_layout_def)
  have "vread v1 x = vread v x" if "x \<in> file_words file node fs" for x
  proof (rule words_kept[OF w v1(2,4)])
    show "x \<in> W" "word_of x = x" using fl(1,2) that by blast+
    have "c \<notin> span h 52" if "c \<in> span x 4" for c
    proof
      assume "c \<in> span h 52"
      then have "word_of c \<notin> file_words file node fs" using b(1) by (auto simp del: span_iff)
      moreover have "word_of c = x" by (rule word_of_span_word[OF \<open>word_of x = x\<close> that])
      ultimately show False using \<open>x \<in> file_words file node fs\<close> by simp
    qed
    then show "span x 4 \<inter> span h 52 = {}" by blast
  qed
  moreover have "rd8 v1 c = rd8 v c" if "c \<in> span addr (length cs)" for c
  proof (rule v1(4))
    show "c \<in> bytes_of W" using fl(3) that by (auto simp del: span_iff)
    show "c \<notin> span h 52" using b(2) that by blast
  qed
  ultimately have f1: "file_view fns v1 file node addr fs (cs, 0)" by (intro file_view_kept[OF f]) blast+
  have lo: "length (take 52 cs) = min 52 (length cs)" by simp
  obtain v2 where v2: "file_read fns v1 file h 52 = Some (of_nat (min 52 (length cs)), v2)" "good W v2"
    "\<forall>i<min 52 (length cs). rd8 v2 (h + of_nat i) = Some (take 52 cs ! i)" "file_view fns v2 file node addr fs (cs, min 52 (length cs))"
    "\<forall>c\<in>bytes_of W. c \<notin> span h (min 52 (length cs)) \<longrightarrow> word_of c \<noteq> file + 4 \<longrightarrow> rd8 v2 c = rd8 v1 c"
    using file_read_layout[OF v1(2) f1 lay buf] unfolding drop_0 e(2) lo add_0 by blast
  have sm: "span h (min 52 (length cs)) \<subseteq> span h 52" by (rule span_mono) simp
  have "rd8 v2 (h + of_nat j) = Some (header_of cs ! j)" if j: "j < 52" for j
  proof (cases "j < length cs")
    case True
    then have "rd8 v2 (h + of_nat j) = Some (take 52 cs ! j)" using v2(3) j by simp
    then show ?thesis using True j by (simp add: header_of_def nth_append)
  next
    case False
    have j4: "h + of_nat j \<in> span h 52" using j by (intro of_nat_in_span) simp_all
    have "h + of_nat j \<notin> span h (min 52 (length cs))" using False j by (simp add: unat_of_nat)
    moreover have "h + of_nat j \<in> bytes_of (W - file_words file node fs)" using b(1) j4 by blast
    then have "h + of_nat j \<in> bytes_of W" "word_of (h + of_nat j) \<noteq> file + 4" by (auto simp: file_words_def)
    ultimately have "rd8 v2 (h + of_nat j) = rd8 v1 (h + of_nat j)" using v2(5) by blast
    also have "\<dots> = Some 0" by (rule v1(3)[OF j4])
    finally show ?thesis using False j by (simp add: header_of_def nth_append)
  qed
  then have "bytes_at v2 h 52 (header_of cs) 0" by (simp add: bytes_at_def)
  moreover have "rd8 v2 c = rd8 v c" if "c \<in> bytes_of W" "c \<notin> span h 52" "word_of c \<noteq> file + 4" for c
  proof -
    have "c \<notin> span h (min 52 (length cs))" using sm that(2) by blast
    then have "rd8 v2 c = rd8 v1 c" using v2(5) that(1,3) by blast
    then show ?thesis using v1(4)[OF that(1,2)] by simp
  qed
  ultimately show thesis by (intro that[of v1 v2]) (simp_all add: e(1) v1(1) v2(1,2,4) del: span_iff bytes_of_iff)
qed

lemma load_elf_run:
  assumes task: "task \<noteq> 0" and opened: "file_open ls fns junk list_left (open_frame fr) vs st (task + task_offset task_name) (mode_r fr) = Some (file, st1)"
    and w: "good W (vmem st1)" and f: "file_view fns (vmem st1) file node addr fs (cs, 0)" and lay: "file_layout W file node addr fs cs"
    and buf: "buffer_apart W file node addr fs cs (elf_header_buf fr) 52"
  shows "\<exists>v. good W v \<and> bytes_at v (elf_header_buf fr) 52 (header_of cs) 0 \<and> file_view fns v file node addr fs (cs, min 52 (length cs))
    \<and> (\<forall>c\<in>bytes_of W. c \<notin> span (elf_header_buf fr) 52 \<longrightarrow> word_of c \<noteq> file + 4 \<longrightarrow> rd8 v c = rd8 (vmem st1) c)
    \<and> load_elf ls fns junk list_left left_over fr vs st task
        = (if cs = [] \<or> \<not> elf_magic (header_of cs) \<or> \<not> elf_supported (header_of cs) then Some (FAILURE, st1\<lparr>vmem := v\<rparr>)
           else if le16 (header_of cs) 16 = 2
           then map_option (\<lambda>r. (SUCCESS, snd r)) (load_segments ls fns left_over fr (st1\<lparr>vmem := v\<rparr>) task (elf_header_buf fr) file)
           else Some (SUCCESS, st1\<lparr>vmem := v\<rparr>))"
proof (rule read_header[OF w f lay buf])
  let ?h = "elf_header_buf fr"
  fix v1 v2 assume v: "paged_memset (vmem st1) 0 ?h ELF_HEADER_SIZE = Some v1"
    "file_read fns v1 file ?h ELF_HEADER_SIZE = Some (of_nat (min 52 (length cs)), v2)" "good W v2" "bytes_at v2 ?h 52 (header_of cs) 0"
    "file_view fns v2 file node addr fs (cs, min 52 (length cs))"
    "\<forall>c\<in>bytes_of W. c \<notin> span ?h 52 \<longrightarrow> word_of c \<noteq> file + 4 \<longrightarrow> rd8 v2 c = rd8 (vmem st1) c"
  have h: "?h \<noteq> 0" using buf by (simp add: buffer_apart_def)
  have ne: "file \<noteq> 0" using f by (simp add: file_view_def)
  have z: "of_nat (min 52 (length cs)) = (0 :: u32) \<longleftrightarrow> cs = []"
  proof -
    have "unat (of_nat (min 52 (length cs)) :: u32) = min 52 (length cs)" by (simp add: unat_of_nat)
    then have "of_nat (min 52 (length cs)) = (0 :: u32) \<longleftrightarrow> min 52 (length cs) = 0" by (simp only: word_unat_eq_iff unat_0)
    then show ?thesis by (cases cs) simp_all
  qed
  have ty: "rd16 v2 (?h + ehdr_offset e_type) = Some (le16 (header_of cs) 16)" using rd16_bytes[OF bytes_at_part[OF v(4), of 16 2]] by simp
  show ?thesis
  proof (intro exI[of _ v2] conjI v(3-6))
    show "load_elf ls fns junk list_left left_over fr vs st task
        = (if cs = [] \<or> \<not> elf_magic (header_of cs) \<or> \<not> elf_supported (header_of cs) then Some (FAILURE, st1\<lparr>vmem := v2\<rparr>)
           else if le16 (header_of cs) 16 = 2
           then map_option (\<lambda>r. (SUCCESS, snd r)) (load_segments ls fns left_over fr (st1\<lparr>vmem := v2\<rparr>) task ?h file)
           else Some (SUCCESS, st1\<lparr>vmem := v2\<rparr>))"
      using task opened ne z v(1,2) check_elf_header_eq[OF v(4) h] check_elf_supported_eq[OF v(4)] ty
      by (simp add: load_elf_def Let_def map_option_case bind_eq_None_conv split: option.split del: ehdr_offset.simps task_offset.simps)
  qed
qed

end

section \<open>Properties\<close>

text \<open>C16: what \<open>load_elf\<close> makes of a file it could open. The header is the first 52 bytes of
  the file, filled up with zeros. An empty file, one without the magic number, and one that is not
  32-bit, little-endian, version 1, for the 386, and relocatable or executable are refused with
  FAILURE. Otherwise the result is SUCCESS: a relocatable file is not loaded at all, and for
  an executable the error code of \<open>load_segments\<close> is dropped. The file stays open in every case.\<close>

theorem load_elf_outcome:
  assumes "task \<noteq> 0" "file_open ls fns junk list_left (open_frame fr) vs st (task + task_offset task_name) (mode_r fr) = Some (file, st1)"
    and "data_window W (vmem st1)" "file_view fns (vmem st1) file node addr fs (cs, 0)" "file_layout W file node addr fs cs"
    and "buffer_apart W file node addr fs cs (elf_header_buf fr) 52"
  shows "\<exists>v. data_window W v \<and> bytes_at v (elf_header_buf fr) 52 (header_of cs) 0
    \<and> file_view fns v file node addr fs (cs, min 52 (length cs))
    \<and> load_elf ls fns junk list_left left_over fr vs st task
        = (if cs = [] \<or> \<not> elf_magic (header_of cs) \<or> \<not> elf_supported (header_of cs) then Some (FAILURE, st1\<lparr>vmem := v\<rparr>)
           else if le16 (header_of cs) 16 = 2
           then map_option (\<lambda>r. (SUCCESS, snd r)) (load_segments ls fns left_over fr (st1\<lparr>vmem := v\<rparr>) task (elf_header_buf fr) file)
           else Some (SUCCESS, st1\<lparr>vmem := v\<rparr>))"
  using window.load_elf_run[OF assms, of left_over] by blast

text \<open>C2: the loader brings an executable into memory. The file is one of the ramdisk, its program
  headers lie inside it, and every segment to load is page-aligned, below the kernel, in pages of
  its own, and has a part in the file that is not empty, lies inside it and is no longer than the
  segment; two free frames are left for each page. Then \<open>load_segments\<close> succeeds; every segment to
  load holds its bytes of the file followed by zeros, in pages that ring 3 can write; the task
  knows the last read-execute and the last read-write segment; and the address space stays
  isolated. All memory that was mapped before, of the kernel and of the process, is as before
  outside the pages of the segments, except for the array of headers, the position of the file
  and the two fields of the task. Segments that are not page-aligned, share a page with another or
  have no part in the file are not covered: for the last see \<open>load_segment_without_file_part\<close>.\<close>

theorem load_segments_correct:
  assumes snd: "process_sound (avail (frames st)) K (vmem st)" and f: "file_view fns (vmem st) file node addr fs (cs, pos)"
    and lay: "loader_layout K task file node addr fs cs" and hdr: "bytes_at (vmem st) h 52 cs 0"
    and n: "0 < unat (le16 cs 44)" "unat (le32 cs 28) + 32 * unat (le16 cs 44) \<le> length cs"
    and segs: "array_apart K task file node addr fs cs (segments_at fr (ucast (le16 cs 44))) (unat (le16 cs 44))"
    and ok: "table_ok cs (elf_table cs)" and left: "frames_left ls (frames st) (2 * table_pages cs (elf_table cs))"
  shows "\<exists>st'. load_segments ls fns left_over fr st task h file = Some (SUCCESS, st') \<and> process_sound (avail (frames st')) K (vmem st')
    \<and> (\<forall>k\<in>set (elf_table cs). loads cs k \<longrightarrow> segment_loaded (vmem st') cs k
         \<and> (\<forall>a. page_of a \<in> seg_range cs k \<longrightarrow> user_writable (vmem st') a))
    \<and> vread (vmem st') (task + task_offset text_begin) = last_begin cs 5 (elf_table cs) (vread (vmem st) (task + task_offset text_begin))
    \<and> vread (vmem st') (task + task_offset data_begin) = last_begin cs 6 (elf_table cs) (vread (vmem st) (task + task_offset data_begin))
    \<and> (\<forall>c\<in>bytes_of (K \<union> user_words (vmem st)). c \<notin> span (segments_at fr (ucast (le16 cs 44))) (32 * unat (le16 cs 44))
         \<longrightarrow> word_of c \<in> K \<or> page_of c \<notin> table_range cs (elf_table cs) \<longrightarrow> word_of c \<notin> loader_writes task file
         \<longrightarrow> rd8 (vmem st') c = rd8 (vmem st) c)"
proof -
  let ?n = "unat (le16 cs 44)" and ?s = "segments_at fr (ucast (le16 cs 44))"
  have ph: "rd16 (vmem st) (h + ehdr_offset e_phnum) = Some (le16 cs 44)" using rd16_bytes[OF bytes_at_part[OF hdr, of 44 2]] by simp
  have n16: "?n < 2 ^ 16" using unsigned_less[of "le16 cs 44", where ?'a = nat] by simp
  obtain v1 pos1 where v1: "load_program_header_table fns left_over (vmem st) file h ?s (of_nat ?n) = Some (of_nat (32 * ?n), v1)"
    "process_sound (avail (frames st)) K v1" "used_pages v1 = used_pages (vmem st)" "file_view fns v1 file node addr fs (cs, pos1)"
    "table_at_memory v1 (K - loader_writes task file) ?s 0 cs (elf_table cs)" "\<forall>w\<in>task_words task. vread v1 w = vread (vmem st) w"
    "\<forall>c\<in>bytes_of (K \<union> user_words (vmem st)). c \<notin> span ?s (32 * ?n) \<longrightarrow> word_of c \<noteq> file + 4 \<longrightarrow> rd8 v1 c = rd8 (vmem st) c"
    using load_table_reads[OF snd f lay hdr refl n segs, of left_over] by (elim exE conjE)
  let ?st1 = "st\<lparr>vmem := v1\<rparr>"
  have 1: "process_sound (avail (frames ?st1)) K (vmem ?st1)" "file_view fns (vmem ?st1) file node addr fs (cs, pos1)"
    "table_at_memory (vmem ?st1) (K - loader_writes task file) ?s 0 cs (elf_table cs)" "frames_left ls (frames ?st1) (2 * table_pages cs (elf_table cs))"
    using v1(2,4,5) left by simp_all
  obtain st' where st': "load_segments_loop ls fns left_over task file ?s (length (elf_table cs)) 0 ?st1 = Some (SUCCESS, st')"
    "process_sound (avail (frames st')) K (vmem st')" "used_pages (vmem st') = used_pages (vmem ?st1) \<union> table_range cs (elf_table cs)"
    "\<forall>k\<in>set (elf_table cs). loads cs k \<longrightarrow> segment_loaded (vmem st') cs k"
    "vread (vmem st') (task + task_offset text_begin) = last_begin cs 5 (elf_table cs) (vread (vmem ?st1) (task + task_offset text_begin))"
    "vread (vmem st') (task + task_offset data_begin) = last_begin cs 6 (elf_table cs) (vread (vmem ?st1) (task + task_offset data_begin))"
    "\<forall>c\<in>bytes_of (K \<union> user_words (vmem ?st1)). page_of c \<notin> table_range cs (elf_table cs) \<longrightarrow> word_of c \<notin> loader_writes task file
         \<longrightarrow> rd8 (vmem st') c = rd8 (vmem ?st1) c"
    using load_segments_loop_loads[OF 1(1,2) lay 1(3) ok 1(4), of left_over] by (elim exE conjE)
  have "of_nat (32 * ?n) \<noteq> (0 :: u32)"
  proof -
    have "unat (of_nat (32 * ?n) :: u32) \<noteq> 0" using n(1) n16 unfolding unat_of_nat by simp
    then show ?thesis by (metis unat_0)
  qed
  moreover have "(ucast (le16 cs 44) :: u32) = of_nat ?n" by simp
  moreover have "unat (ucast (le16 cs 44) :: u32) = length (elf_table cs)"
    using n16 by (simp add: elf_table_def unsigned_ucast_eq take_bit_eq_mod)
  ultimately have "load_segments ls fns left_over fr st task h file = Some (SUCCESS, st')"
    using ph v1(1) st'(1) by (simp add: load_segments_def Let_def del: ehdr_offset.simps of_nat_mult)
  moreover have "user_writable (vmem st') a" if "k \<in> set (elf_table cs)" "loads cs k" "page_of a \<in> seg_range cs k" for k a
    using user_walk(7)[OF process_soundD(1)[OF st'(2)], of a] st'(3) that by (auto simp: table_range_def)
  moreover have "rd8 (vmem st') c = rd8 (vmem st) c"
    if c: "c \<in> bytes_of (K \<union> user_words (vmem st))" "c \<notin> span ?s (32 * ?n)" "word_of c \<in> K \<or> page_of c \<notin> table_range cs (elf_table cs)"
      "word_of c \<notin> loader_writes task file" for c
  proof -
    have "page_of c \<notin> seg_range cs k" if "k \<in> set (elf_table cs)" "loads cs k" "word_of c \<in> K" for k
      using kernel_not_loaded[OF snd, of cs k c] ok that by (simp add: table_ok_def)
    then have p: "page_of c \<notin> table_range cs (elf_table cs)" using c(3) by (auto simp: table_range_def)
    have "user_words (vmem ?st1) = user_words (vmem st)" using v1(3) by (simp add: user_words_def)
    then have "rd8 (vmem st') c = rd8 (vmem ?st1) c" using st'(7) c(1,4) p by (simp only:) blast
    also have "\<dots> = rd8 (vmem st) c" using v1(7) c(1,2,4) by (simp add: loader_writes_def)
    finally show ?thesis .
  qed
  moreover have "task + task_offset text_begin \<in> task_words task" "task + task_offset data_begin \<in> task_words task" by (simp_all add: task_words_def)
  ultimately show ?thesis using st'(2,4-6) v1(6) by (intro exI[of _ st']) simp
qed

end
