(* ===== verification/ElfSample.thy ===== *)
theory ElfSample
  imports ElfLoad
begin

text \<open>
  Concrete executables: one segment loaded into a fresh address space, and a file with the magic
  number and nothing else, opened by its path and refused.
\<close>

section \<open>Bytes of words\<close>

definition words_bytes :: "u32 list \<Rightarrow> byte list" where
  "words_bytes ws = map (\<lambda>i. get_byte (ws ! (i div 4)) (i mod 4)) [0..<4 * length ws]"

lemma length_words_bytes [simp]: "length (words_bytes ws) = 4 * length ws"
  by (simp add: words_bytes_def)

lemma bytes_at_words:
  assumes "word_of a = a" "\<forall>j<n. vread v (a + 4 * of_nat j) = Some (ws ! j)" "n \<le> length ws"
  shows "bytes_at v a (4 * n) (words_bytes ws) 0"
  unfolding bytes_at_def
proof (intro allI impI)
  fix i assume i: "i < 4 * n"
  then have q: "i div 4 < n" by (simp add: div_less_iff_less_mult mult.commute)
  have "of_nat i = (of_nat (4 * (i div 4) + i mod 4) :: u32)" by (simp only: mult_div_mod_eq)
  then have "of_nat i = 4 * of_nat (i div 4) + (of_nat (i mod 4) :: u32)" by (simp only: of_nat_add of_nat_mult of_nat_numeral)
  then have e: "a + of_nat i = a + 4 * of_nat (i div 4) + of_nat (i mod 4)" by (simp only: add.assoc)
  have "rd8 v (a + 4 * of_nat (i div 4) + of_nat (i mod 4)) = map_option (\<lambda>x. get_byte x (i mod 4)) (vread v (a + 4 * of_nat (i div 4)))"
    by (rule rd8_word[OF word_of_step[OF assms(1)]]) simp
  then show "rd8 v (a + of_nat i) = Some (words_bytes ws ! (0 + i))" unfolding e using assms(2,3) q i by (simp add: words_bytes_def)
qed

lemma le32_of_word:
  fixes w :: u32
  assumes "cs ! k = get_byte w 0" "cs ! (k + 1) = get_byte w 1" "cs ! (k + 2) = get_byte w 2" "cs ! (k + 3) = get_byte w 3"
  shows "le32 cs k = w" "le16 cs k = ucast w"
proof -
  have e: "cs ! (k + 2 + 1) = get_byte w 3" using assms(4) by (simp add: numeral_3_eq_3)
  show "le32 cs k = w"
  proof (rule bit_word_eqI)
    fix n assume "n < LENGTH(32)"
    then have n: "n < 32" by simp
    consider "n < 8" | "8 \<le> n" "n < 16" | "16 \<le> n" by linarith
    then show "bit (le32 cs k) n = bit w n" unfolding le32_def le16_def assms(1-3) e
      using n by cases (auto simp: get_byte_def bit_simps dest: bit_imp_le_length)
  qed
  show "le16 cs k = ucast w" unfolding le16_def assms(1,2) by (rule bit_word_eqI) (auto simp: get_byte_def bit_simps)
qed

lemma words_bytes_fields:
  assumes "j < length ws"
  shows "le32 (words_bytes ws) (4 * j) = ws ! j" "le16 (words_bytes ws) (4 * j) = ucast (ws ! j)"
proof -
  have "words_bytes ws ! (4 * j + k) = get_byte (ws ! j) k" if "k < 4" for k using assms that by (simp add: words_bytes_def)
  from this[of 0] this[of 1] this[of 2] this[of 3]
  show "le32 (words_bytes ws) (4 * j) = ws ! j" "le16 (words_bytes ws) (4 * j) = ucast (ws ! j)" by (auto intro!: le32_of_word)
qed

section \<open>A page of the kernel in a fresh address space\<close>

abbreviation loader_page :: "u32 set" where
  "loader_page \<equiv> words_between 0xC0120000 0xC0121000"

lemma loader_page_walk:
  assumes "a \<in> loader_page"
  shows "translate (vmem booted) a = Some (0x120000 + (a AND 0xfff))" "pte_address (vmem booted) a = 0x102480"
    "pde_address (vmem booted) a = 0x101C00" "page_of a = 0xC0120" "unat a div 2 ^ 22 = 768"
proof -
  have u: "0xC0120000 \<le> unat a" "unat a < 0xC0121000" using assms by (simp_all add: words_between_iff word_le_nat_alt word_less_nat_alt)
  then show p: "page_of a = 0xC0120" by (simp add: page_of_def div_nat_eqI)
  show d: "unat a div 2 ^ 22 = 768" using u by (simp add: div_nat_eqI)
  have "unat a div 4096 mod 1024 = 0x120" using p by (simp add: page_of_def)
  then have t: "ADDRESS_TO_PAGE_TABLE_ENTRY a = of_nat 0x120" by (intro of_nat_unatI[symmetric]) (simp add: unat_pgt_index)
  have dd: "ADDRESS_TO_DIRECTORY_ENTRY a = of_nat 768" using d by (intro of_nat_unatI[symmetric]) (simp add: unat_dir_index)
  show "pde_address (vmem booted) a = 0x101C00" by (simp add: pde_address_def dd booted_def PAGE_BOUNDARY_def PAGE_SIZE_def)
  have e: "pde_at (vmem booted) a = 0x102003" by (simp add: pde_at_def dd booted_def PAGE_BOUNDARY_def PAGE_SIZE_def)
  then show "pte_address (vmem booted) a = 0x102480" by (simp add: pte_address_def t PAGE_BOUNDARY_def PAGE_SIZE_def)
  have "pte_at (vmem booted) a = 0x120003" by (simp add: pte_at_def e t PAGE_BOUNDARY_def PAGE_SIZE_def) (simp add: booted_def)
  then show "translate (vmem booted) a = Some (0x120000 + (a AND 0xfff))"
    by (simp add: translate_def e) (simp add: booted_def PAGE_BOUNDARY_def PAGE_SIZE_def)
qed

lemma booted_process: "process_sound (avail (frames booted)) loader_page (vmem booted)"
proof -
  have c: "cr3 (vmem booted) = 0x101000" "paging (vmem booted)" by (simp_all add: booted_def)
  have "pde_of (vmem booted) d = 0" if "d < 768" for d
  proof -
    have "slot 0x101000 d \<noteq> slot 0x101000 k" if "k \<in> {768, 770, 1023}" for k using that \<open>d < 768\<close> by (auto simp: slot_inj)
    then have "slot 0x101000 d \<noteq> 0x101FFC \<and> slot 0x101000 d \<noteq> 0x101C08 \<and> slot 0x101000 d \<noteq> 0x101C00" unfolding booted_slots[symmetric] by blast
    moreover have "slot 0x101000 d \<noteq> 0x102480"
    proof -
      have "page_of (slot 0x101000 d) = page_of 0x101000" by (rule page_of_slot) (use that in simp_all)
      then have "page_of (slot 0x101000 d) \<noteq> page_of 0x102480" by (simp add: page_of_def)
      then show ?thesis by auto
    qed
    ultimately show ?thesis by (simp add: pde_of_def booted_def)
  qed
  then have n: "used_tables (vmem booted) = {}" "used_pages (vmem booted) = {}"
    by (auto simp: used_tables_def used_pages_def user_pte_def user_pages_def)
  have "recursive_ok (vmem booted)" using booted_ready by (simp add: kheap_ready_def)
  then have iso: "isolated (vmem booted) (avail (frames booted))" using n avail_booted[of 257] c(1) by (simp add: isolated_def page_of_def)
  have kp: "kernel_place (vmem booted) (avail (frames booted)) pa" if "page_of pa < 320" "page_of pa \<noteq> 0x101" for pa
    using that avail_booted[of "page_of pa"] n c(1) by (simp add: kernel_place_def) (simp add: page_of_def)
  have off: "page_of (0x120000 + (a AND 0xfff)) = 0x120" for a :: u32
    using page_of_add_offset(1)[of "0x120000" "a AND 0xfff"] low_offset[of a] by (simp add: page_of_def)
  have "kernel_word (vmem booted) (avail (frames booted)) a" if "a \<in> loader_page" for a
    using loader_page_walk[OF that] kp[of "0x120000 + (a AND 0xfff)"] kp[of "0x102480"] off[of a]
    by (simp add: kernel_word_def) (simp add: page_of_def)
  moreover have "data_window loader_page (vmem booted)"
    unfolding data_window_def
  proof (rule ballI)
    fix a assume a: "a \<in> loader_page"
    note wa = loader_page_walk[OF a]
    have ne: "0x120000 + (a AND 0xfff) \<noteq> 0x101C00" "0x120000 + (a AND 0xfff) \<noteq> 0x102480"
    proof -
      have "page_of (0x120000 + (a AND 0xfff)) \<noteq> page_of 0x101C00" "page_of (0x120000 + (a AND 0xfff)) \<noteq> page_of 0x102480"
        unfolding off by (simp_all add: page_of_def)
      then show "0x120000 + (a AND 0xfff) \<noteq> 0x101C00" "0x120000 + (a AND 0xfff) \<noteq> 0x102480" by metis+
    qed
    have "a = b" if b: "b \<in> loader_page" "translate (vmem booted) b = Some (0x120000 + (a AND 0xfff))" for b
    proof -
      note wb = loader_page_walk[OF b(1)]
      have "a AND 0xfff = b AND 0xfff" using wb(1) b(2) by simp
      moreover have "PAGE_BOUNDARY a = PAGE_BOUNDARY b" using wa(4) wb(4) by (simp only: page_of_eq_iff[symmetric])
      ultimately show ?thesis by (metis page_offset)
    qed
    then show "\<exists>pa. translate (vmem booted) a = Some pa \<and> (\<forall>b\<in>loader_page. (paging (vmem booted) \<longrightarrow> pa \<noteq> pde_address (vmem booted) b
        \<and> pa \<noteq> pte_address (vmem booted) b) \<and> (translate (vmem booted) b = Some pa \<longrightarrow> a = b))"
      using wa(1) ne loader_page_walk(2,3) by (intro exI[of _ "0x120000 + (a AND 0xfff)"]) simp
  qed
  ultimately show ?thesis using iso by (simp add: process_sound_def)
qed

section \<open>A program of one segment\<close>

text \<open>A header of 52 bytes, one program header and four bytes of code, to be loaded at 0x400000
  with four bytes of zeros behind them; the file, its node, the file system, the task and the
  arrays of the loader lie in the page of the kernel.\<close>

definition program :: "u32 list" where
  "program = [0x464C457F, 0x00010101, 0, 0, 0x00030002, 1, 0x400000, 52, 0, 0, 0x00200034, 0x00000001, 0,
     1, 84, 0x400000, 0, 4, 8, 5, 0x1000, 0x11223344]"

definition program_words :: "(u32 \<times> u32) list" where
  "program_words = [(0xC0120104, 0), (0xC0120108, 0xC0120200), (0xC0120294, 88), (0xC0120298, 0xC0120800), (0xC012029C, 0xC0120300),
     (0xC0120324, 0x1000)]
   @ map (\<lambda>j. (0xC0120500 + 4 * of_nat j, program ! j)) [0..<13] @ map (\<lambda>j. (0xC0120800 + 4 * of_nat j, program ! j)) [0..<22]"

abbreviation program_bytes :: "byte list" where
  "program_bytes \<equiv> words_bytes program"

lemma program_length: "length program = 22" "length program_bytes = 88"
  by (simp_all add: program_def)

lemma program_fields:
  "le16 program_bytes 44 = 1" "le32 program_bytes 28 = 52" "phdr program_bytes 52 p_type = 1" "phdr program_bytes 52 p_offset = 84"
  "phdr program_bytes 52 p_vaddr = 0x400000" "phdr program_bytes 52 p_filesz = 4" "phdr program_bytes 52 p_memsz = 8" "phdr program_bytes 52 p_flags = 5"
  using words_bytes_fields[of 11 program] words_bytes_fields[of 7 program] words_bytes_fields[of 13 program] words_bytes_fields[of 14 program]
    words_bytes_fields[of 15 program] words_bytes_fields[of 17 program] words_bytes_fields[of 18 program] words_bytes_fields[of 19 program]
  by (simp_all add: program_length phdr_def) (simp_all add: program_def)

lemma program_table: "elf_table program_bytes = [52]"
  by (simp add: elf_table_def program_fields)

lemma program_ok: "table_ok program_bytes [52]" "table_pages program_bytes [52] = 1" "loads program_bytes 52"
  by (simp_all add: table_ok_def table_pages_def loads_def segment_ok_def seg_pages_def program_fields program_length)

lemma program_words_in: "fst ` set program_words \<subseteq> loader_page" "distinct (map fst program_words)"
proof -
  have "x \<in> loader_page" if "x \<in> fst ` set program_words" for x
    using that unfolding program_words_def by (auto simp: words_between_iff word_of_def upt_rec)
  then show "fst ` set program_words \<subseteq> loader_page" by blast
  show "distinct (map fst program_words)" by (simp add: program_words_def upt_rec)
qed

definition sample_elf_frame :: elf_frame where
  "sample_elf_frame = \<lparr>elf_header_buf = 0xC0120500, segments_at = (\<lambda>_. 0xC0120600), mode_r = 0, open_frame = sample_frame\<rparr>"

lemma program_state:
  obtains v where "process_sound (avail (frames booted)) loader_page v" "\<forall>(a, x)\<in>set program_words. vread v a = Some x"
proof -
  have "process_memory (avail (frames booted)) loader_page (used_pages (vmem booted)) loader_page (vmem booted)"
    using booted_process by (simp add: process_memory_def)
  from process.write_all[OF this program_words_in(2,1)] show thesis using that unfolding process_memory_def by blast
qed

lemma loader_span: "word_of lo = lo \<Longrightarrow> 0xC0120000 \<le> lo \<Longrightarrow> lo \<le> a \<Longrightarrow> unat a + n \<le> unat hi \<Longrightarrow> hi \<le> 0xC0121000 \<Longrightarrow>
    words_between lo hi \<inter> S = {} \<Longrightarrow> span a n \<subseteq> bytes_of (loader_page - S)"
proof -
  assume a: "word_of lo = lo" "0xC0120000 \<le> lo" "lo \<le> a" "unat a + n \<le> unat hi" "hi \<le> 0xC0121000" "words_between lo hi \<inter> S = {}"
  have "words_between lo hi \<subseteq> loader_page" by (rule words_between_mono[OF a(2,5)])
  then have "words_between lo hi \<subseteq> loader_page - S" using a(6) by blast
  then show ?thesis using span_between[OF a(1,3,4)] bytes_of_mono by blast
qed

lemma program_layout: "loader_layout loader_page 0xC0120400 0xC0120100 0xC0120200 0xC0120800 0xC0120300 program_bytes"
proof -
  have fw: "file_words 0xC0120100 0xC0120200 0xC0120300 = {0xC0120108, 0xC0120104, 0xC0120294, 0xC0120298, 0xC012029C, 0xC0120324}"
    by (simp add: file_words_def)
  have tw: "task_words 0xC0120400 = {0xC0120440, 0xC0120448}" by (simp add: task_words_def)
  have "span 0xC0120800 88 \<subseteq> bytes_of (loader_page - {0xC0120100 + 4})" "span 0xC0120800 88 \<subseteq> bytes_of (loader_page - task_words 0xC0120400)"
    unfolding tw by (rule loader_span[of "0xC0120800" _ _ "0xC0120858"]; auto simp: word_of_def words_between_iff)+
  then show ?thesis unfolding loader_layout_def file_layout_def fw tw program_length
    by (simp add: words_between_iff word_of_def)
qed

lemma program_array: "array_apart loader_page 0xC0120400 0xC0120100 0xC0120200 0xC0120800 0xC0120300 program_bytes 0xC0120600 1"
proof -
  have "span 0xC0120600 32 \<subseteq> bytes_of (loader_page - (file_words 0xC0120100 0xC0120200 0xC0120300 \<union> task_words 0xC0120400))"
    by (rule loader_span[of "0xC0120600" _ _ "0xC0120620"]; auto simp: word_of_def words_between_iff file_words_def task_words_def)
  then have 1: "span 0xC0120600 32 \<subseteq> bytes_of (loader_page - file_words 0xC0120100 0xC0120200 0xC0120300 - task_words 0xC0120400)"
    by (simp only: Diff_eq Compl_Un Int_assoc)
  have "span 0xC0120600 32 \<subseteq> bytes_of (words_between 0xC0120600 0xC0120620)" "span 0xC0120800 88 \<subseteq> bytes_of (words_between 0xC0120800 0xC0120858)"
    by (rule span_between; simp add: word_of_def)+
  moreover have "words_between 0xC0120600 0xC0120620 \<inter> words_between 0xC0120800 0xC0120858 = {}" by (rule words_between_apart) simp
  ultimately have "span 0xC0120600 32 \<inter> span 0xC0120800 88 = {}" by (fastforce simp: bytes_of_def simp del: span_iff)
  with 1 show ?thesis by (simp add: array_apart_def program_length)
qed

lemma program_memory:
  assumes "\<forall>(a, x)\<in>set program_words. vread v a = Some x"
  shows "file_view sample_functions v 0xC0120100 0xC0120200 0xC0120800 0xC0120300 (program_bytes, 0)" "bytes_at v 0xC0120500 52 program_bytes 0"
proof -
  have w: "vread v (0xC0120500 + 4 * of_nat j) = Some (program ! j)" if "j < 13" for j using assms that by (auto simp: program_words_def)
  have i: "vread v (0xC0120800 + 4 * of_nat j) = Some (program ! j)" if "j < 22" for j using assms that by (auto simp: program_words_def)
  have "bytes_at v 0xC0120500 (4 * 13) program_bytes 0" by (rule bytes_at_words) (use w in \<open>simp_all add: word_of_def program_length\<close>)
  then show "bytes_at v 0xC0120500 52 program_bytes 0" by simp
  have "bytes_at v 0xC0120800 (4 * 22) program_bytes 0" by (rule bytes_at_words) (use i in \<open>simp_all add: word_of_def program_length\<close>)
  then have "\<forall>i<88. rd8 v (0xC0120800 + of_nat i) = Some (program_bytes ! i)" by (simp add: bytes_at_def)
  moreover have "vread v 0xC0120104 = Some 0" "vread v 0xC0120108 = Some 0xC0120200" "vread v 0xC0120294 = Some 88"
    "vread v 0xC0120298 = Some 0xC0120800" "vread v 0xC012029C = Some 0xC0120300" "vread v 0xC0120324 = Some 0x1000"
    using assms by (simp_all add: program_words_def)
  ultimately show "file_view sample_functions v 0xC0120100 0xC0120200 0xC0120800 0xC0120300 (program_bytes, 0)"
    by (simp add: file_view_def program_length sample_functions_def)
qed

lemma booted_frames_left: "n \<le> 1000 \<Longrightarrow> frames_left example_linker (frames booted) n"
proof -
  have "scan_start example_linker = 320" by (simp add: scan_start_def example_linker_def)
  then have u: "usable example_linker (frames booted) = {320..<2 ^ 20}" unfolding usable_def by (intro set_eqI) (auto simp only: avail_booted mem_Collect_eq atLeastLessThan_iff)
  have "\<not> no_page_available (frames booted)" by (simp add: booted_def)
  moreover have "card {320..<2 ^ 20 :: nat} = 2 ^ 20 - 320" by (rule card_atLeastLessThan)
  ultimately show "n \<le> 1000 \<Longrightarrow> frames_left example_linker (frames booted) n" unfolding frames_left_def by (simp only: u) simp
qed

section \<open>Witnesses\<close>

theorem load_segments_correct_witness:
  "\<exists>st st'. load_segments example_linker sample_functions SUCCESS sample_elf_frame st 0xC0120400 0xC0120500 0xC0120100 = Some (SUCCESS, st')
    \<and> rd8 (vmem st') 0x400003 = Some 0x11 \<and> rd8 (vmem st') 0x400007 = Some 0 \<and> user_writable (vmem st') 0x400000
    \<and> vread (vmem st') (0xC0120400 + task_offset text_begin) = Some 0x400000"
proof (rule program_state)
  fix v assume v: "process_sound (avail (frames booted)) loader_page v" "\<forall>(a, x)\<in>set program_words. vread v a = Some x"
  let ?st = "booted\<lparr>vmem := v\<rparr>"
  have s: "process_sound (avail (frames ?st)) loader_page (vmem ?st)" using v(1) by simp
  have m: "file_view sample_functions (vmem ?st) 0xC0120100 0xC0120200 0xC0120800 0xC0120300 (program_bytes, 0)" "bytes_at (vmem ?st) 0xC0120500 52 program_bytes 0"
    using program_memory[OF v(2)] by simp_all
  have n: "0 < unat (le16 program_bytes 44)" "unat (le32 program_bytes 28) + 32 * unat (le16 program_bytes 44) \<le> length program_bytes"
    by (simp_all add: program_fields program_length)
  have a: "array_apart loader_page 0xC0120400 0xC0120100 0xC0120200 0xC0120800 0xC0120300 program_bytes
      (segments_at sample_elf_frame (ucast (le16 program_bytes 44))) (unat (le16 program_bytes 44))"
    using program_array by (simp add: program_fields sample_elf_frame_def)
  have l: "frames_left example_linker (frames ?st) (2 * table_pages program_bytes (elf_table program_bytes))"
    using booted_frames_left[of 2] by (simp add: program_table program_ok(2))
  obtain st' where st': "load_segments example_linker sample_functions SUCCESS sample_elf_frame ?st 0xC0120400 0xC0120500 0xC0120100 = Some (SUCCESS, st')"
    "\<forall>k\<in>set (elf_table program_bytes). loads program_bytes k \<longrightarrow> segment_loaded (vmem st') program_bytes k
         \<and> (\<forall>a. page_of a \<in> seg_range program_bytes k \<longrightarrow> user_writable (vmem st') a)"
    "vread (vmem st') (0xC0120400 + task_offset text_begin)
       = last_begin program_bytes 5 (elf_table program_bytes) (vread (vmem ?st) (0xC0120400 + task_offset text_begin))"
    using load_segments_correct[OF s m(1) program_layout m(2) n a _ l, of SUCCESS] program_ok(1) unfolding program_table by blast
  have ld: "segment_loaded (vmem st') program_bytes 52" "\<forall>a. page_of a \<in> seg_range program_bytes 52 \<longrightarrow> user_writable (vmem st') a"
    using st'(2) program_ok(3) by (simp_all add: program_table)
  have "words_bytes program ! (4 * 21 + 3) = get_byte (program ! 21) 3" by (simp add: words_bytes_def program_length)
  then have b: "program_bytes ! 87 = 0x11" by (simp add: program_def get_byte_def drop_bit_eq_div)
  have "rd8 (vmem st') (0x400000 + of_nat 3) = Some (program_bytes ! (84 + 3))" "rd8 (vmem st') (0x400000 + of_nat 7) = Some 0"
    using ld(1) by (simp_all add: segment_loaded_def program_fields del: of_nat_numeral)
  then have "rd8 (vmem st') 0x400003 = Some 0x11" "rd8 (vmem st') 0x400007 = Some 0" using b by simp_all
  moreover have "user_writable (vmem st') 0x400000" using ld(2) by (simp add: seg_range_def seg_pages_def program_fields)
  moreover have "last_begin program_bytes 5 (elf_table program_bytes) x = Some 0x400000" for x
    by (simp add: last_begin_def program_table program_ok(3) program_fields)
  ultimately show ?thesis using st'(1,3) by (intro exI[of _ ?st] exI[of _ st']) simp
qed

text \<open>The file \<open>a\<close> of the sample disk has the magic number only; the path is the name of a task at
  0xC08004DC.\<close>

lemma header_buffer: "buffer_apart first_heap_page 0xC0800F38 0xC0800F48 0xC0800420 0xC0800300 [0x7F, 0x45, 0x4C, 0x46] 0xC0800700 52"
proof -
  have b: "span 0xC0800700 52 \<subseteq> bytes_of (words_between 0xC0800700 0xC0800800)" by (rule span_between) (simp_all add: word_of_def)
  have "words_between 0xC0800700 0xC0800800 \<subseteq> first_heap_page" by (rule order.trans[OF words_between_mono words_between_page]) simp_all
  moreover have "file_words 0xC0800F38 0xC0800F48 0xC0800300 \<inter> words_between 0xC0800700 0xC0800800 = {}"
    by (simp add: file_words_def words_between_iff)
  ultimately have "words_between 0xC0800700 0xC0800800 \<subseteq> first_heap_page - file_words 0xC0800F38 0xC0800F48 0xC0800300" by blast
  then have "span 0xC0800700 52 \<subseteq> bytes_of (first_heap_page - file_words 0xC0800F38 0xC0800F48 0xC0800300)" using b bytes_of_mono by blast
  moreover have "words_between 0xC0800420 0xC0800424 \<inter> words_between 0xC0800700 0xC0800800 = {}" by (rule words_between_apart) simp
  then have "span 0xC0800700 52 \<inter> span 0xC0800420 4 = {}" using b sample_span by (fastforce simp: bytes_of_def simp del: span_iff)
  ultimately show ?thesis unfolding buffer_apart_def sample_length by simp
qed

theorem load_elf_outcome_witness:
  "\<exists>st st'. paged_cstr (vmem st) (0xC08004DC + task_offset task_name) [0x2F, 0x61]
    \<and> load_elf example_linker sample_functions (\<lambda>_. 0) True SUCCESS
        \<lparr>elf_header_buf = 0xC0800700, segments_at = (\<lambda>_. 0), mode_r = 0xC0800510, open_frame = sample_frame\<rparr> sample_vfs st 0xC08004DC = Some (FAILURE, st')"
proof (rule sample_disk)
  fix st assume st: "heap_sound example_linker st first_heap_page" "free_list_at example_linker (vmem st) [(0xC0800000, 511)]"
    "\<forall>(a, x)\<in>set disk_words. vread (vmem st) a = Some x"
  have tn: "tree_nodes_at sample_frame = 0xC0800100" by (simp add: sample_frame_def)
  let ?data = "[0x7F, 0x45, 0x4C, 0x46 :: byte]"
    and ?fr = "\<lparr>elf_header_buf = 0xC0800700, segments_at = (\<lambda>_. 0), mode_r = 0xC0800510, open_frame = sample_frame\<rparr>"
  have "words_between 0xC0800420 0xC0800424 \<subseteq> sample_kept" unfolding sample_kept_def
    by (rule order.trans[OF words_between_mono subset_insertI]) simp_all
  then have sp: "span 0xC0800420 (length ?data) \<subseteq> bytes_of sample_kept" unfolding sample_length using sample_span bytes_of_mono by blast
  obtain st' where "file_open example_linker sample_functions (\<lambda>_. 0) True sample_frame sample_vfs st 0xC0800500 0xC0800510 = Some (0xC0800F38, st')"
    "heap_sound example_linker st' first_heap_page" "file_view sample_functions (vmem st') 0xC0800F38 0xC0800F48 0xC0800420 0xC0800300 (?data, 0)"
    using file_open_found[OF _ sample_root[OF st(3)] sample_path(1-4)[OF st(3)] _ _ _ _ sample_modes_ready[OF st(3)] sample_mode_entry[OF st(3)] sample_written_apart _ _ _ sp
        sample_data[OF st(3)], unfolded tn, OF sample_room[OF st(1,2)], of 0 "\<lambda>_. 0"]
    by (auto simp: requested_name_def sizeof_initrd_inode_def)
  then have o: "file_open example_linker sample_functions (\<lambda>_. 0) True (open_frame ?fr) sample_vfs st (0xC08004DC + task_offset task_name) (mode_r ?fr)
      = Some (0xC0800F38, st')" and w: "data_window first_heap_page (vmem st')"
    and f: "file_view sample_functions (vmem st') 0xC0800F38 0xC0800F48 0xC0800420 0xC0800300 (?data, 0)"
    by (simp_all add: heap_soundD(2))
  have fs: "0xC0800300 + 36 \<in> sample_kept" using sample_root[OF st(3)] by (simp add: root_mounted_def)
  have "file_layout first_heap_page (0xC0800000 + 8 * (511 - 25) + 8) (0xC0800000 + 8 * (511 - 25) + 24) 0xC0800420 0xC0800300 ?data"
    by (rule open_layout[OF sample_room[OF st(1,2)] fs _ sp]) simp
  then have l: "file_layout first_heap_page 0xC0800F38 0xC0800F48 0xC0800420 0xC0800300 ?data" by simp
  have "\<not> elf_supported (header_of ?data)" by (simp add: elf_supported_def header_of_def nth_append)
  then obtain v where "load_elf example_linker sample_functions (\<lambda>_. 0) True SUCCESS ?fr sample_vfs st 0xC08004DC = Some (FAILURE, st'\<lparr>vmem := v\<rparr>)"
    using load_elf_outcome[OF _ o w f l, of SUCCESS] header_buffer by auto
  then show ?thesis using disk_bytes(1)[OF st(3)] by auto
qed

end
