(* ===== verification/Task.thy ===== *)
theory Task
  imports ElfSample Segments
begin

text \<open>
  Tasks, \<^verbatim>\<open>src/kernel/multitask/task.c\<close>: making a task structure with an address space and
  a kernel stack, and starting a program in it. A task that starts does not return:
  \<open>jmp_to_userspace\<close> leaves the kernel, so the outcome is either a return value or the state ring 3
  begins in.
\<close>

section \<open>Definitions\<close>

definition KERNEL_STACK_SIZE :: u32 where "KERNEL_STACK_SIZE = PAGE_SIZE"
definition STACK_END_ADDRESS :: u32 where "STACK_END_ADDRESS = KERNEL_VIRTUAL_OFFSET - PAGE_SIZE"
definition STACK_SIZE :: u32 where "STACK_SIZE = 5"
definition KERNEL_DATA_SEGMENT :: u32 where "KERNEL_DATA_SEGMENT = 0x10"

text \<open>The registers that the \<open>iret\<close> of \<open>jmp_to_userspace\<close> loads.\<close>

record user_entry_state =
  user_eip :: u32
  user_cs :: u16
  user_esp :: u32
  user_ss :: u16

definition jmp_to_userspace :: "u32 \<Rightarrow> u32 \<Rightarrow> user_entry_state" where
  "jmp_to_userspace start stack_top = \<lparr>user_eip = start, user_cs = 0x18 OR 3, user_esp = stack_top, user_ss = 0x20 OR 3\<rparr>"

datatype task_outcome = Returned u32 | Entered user_entry_state

definition alloc_task :: "linker_symbols \<Rightarrow> (nat \<Rightarrow> int) \<Rightarrow> kernel_mm \<Rightarrow> u32 \<Rightarrow> (u32 \<times> kernel_mm) option" where
  "alloc_task ls junk st name =
     (if name = 0 then Some (0, st)
      else do {
        (task, st1) \<leftarrow> kmalloc ls junk st sizeof_task;
        if task = 0 then Some (0, st1)
        else do {
          (space, st2) \<leftarrow> alloc_virtual_address_space ls junk st1;
          v3 \<leftarrow> vwrite (vmem st2) (task + task_offset task_vmm) space;
          space' \<leftarrow> vread v3 (task + task_offset task_vmm);
          if space' = 0 then do {
            v4 \<leftarrow> kfree ls v3 task;
            Some (0, st2\<lparr>vmem := v4\<rparr>)
          }
          else do {
            l \<leftarrow> paged_strlen v3 name;
            v4 \<leftarrow> paged_memcpy v3 (task + task_offset task_name) name (l + 1);
            v5 \<leftarrow> vwrite v4 (task + task_offset kernel_ss) KERNEL_DATA_SEGMENT;
            (stack, st6) \<leftarrow> alloc_kheap_pages ls junk (st2\<lparr>vmem := v5\<rparr>) 1;
            v7 \<leftarrow> vwrite (vmem st6) (task + task_offset kernel_stack) stack;
            stack' \<leftarrow> vread v7 (task + task_offset kernel_stack);
            if stack' = 0 then do {
              space'' \<leftarrow> vread v7 (task + task_offset task_vmm);
              (_, st8) \<leftarrow> free_virtual_address_space ls (st6\<lparr>vmem := v7\<rparr>) space'';
              v9 \<leftarrow> kfree ls (vmem st8) task;
              Some (0, st8\<lparr>vmem := v9\<rparr>)
            }
            else Some (task, st6\<lparr>vmem := v7\<rparr>)
          }
        }
      })"

definition free_task :: "linker_symbols \<Rightarrow> kernel_mm \<Rightarrow> u32 \<Rightarrow> (error_code_t \<times> kernel_mm) option" where
  "free_task ls st task =
     (if task = 0 then Some (INVALID_ARGUMENT, st)
      else do {
        space \<leftarrow> vread (vmem st) (task + task_offset task_vmm);
        (error, st1) \<leftarrow> free_virtual_address_space ls st space;
        if error \<noteq> SUCCESS then Some (FAILURE, st1)
        else do {
          stack \<leftarrow> vread (vmem st1) (task + task_offset kernel_stack);
          (_, st2) \<leftarrow> free_kheap_pages st1 stack 1;
          v3 \<leftarrow> kfree ls (vmem st2) task;
          Some (SUCCESS, st2\<lparr>vmem := v3\<rparr>)
        }
      })"

text \<open>The end of \<open>load_task\<close>: the stack of the process, and the way into ring 3.\<close>

definition start_task :: "linker_symbols \<Rightarrow> kernel_mm \<Rightarrow> u32 \<Rightarrow> (task_outcome \<times> kernel_mm) option" where
  "start_task ls st task = do {
     (error, st1) \<leftarrow> mmap ls st (STACK_END_ADDRESS - STACK_SIZE * PAGE_SIZE) STACK_SIZE;
     if error \<noteq> SUCCESS then do {
       (_, st2) \<leftarrow> free_task ls st1 task;
       Some (Returned 0, st2)
     }
     else do {
       v2 \<leftarrow> vwrite (vmem st1) (task + task_offset stack_begin) (STACK_END_ADDRESS - STACK_SIZE * PAGE_SIZE);
       v3 \<leftarrow> vwrite v2 (task + task_offset stack_end) STACK_END_ADDRESS;
       start \<leftarrow> vread v3 (task + task_offset text_begin);
       stack_top \<leftarrow> vread v3 (task + task_offset stack_end);
       Some (Entered (jmp_to_userspace start stack_top), st1\<lparr>vmem := v3\<rparr>)
     }
   }"

definition load_task ::
  "linker_symbols \<Rightarrow> fs_functions \<Rightarrow> (nat \<Rightarrow> int) \<Rightarrow> bool \<Rightarrow> error_code_t \<Rightarrow> elf_frame \<Rightarrow> vfs_state \<Rightarrow> segments \<Rightarrow> kernel_mm \<Rightarrow> u32
     \<Rightarrow> (task_outcome \<times> segments \<times> kernel_mm) option" where
  "load_task ls fns junk list_left left_over fr vs sg st path = do {
     (task, st1) \<leftarrow> alloc_task ls junk st path;
     if task = 0 then Some (Returned 0, sg, st1)
     else do {
       space \<leftarrow> vread (vmem st1) (task + task_offset task_vmm);
       (_, v2) \<leftarrow> switch_virtual_address_space (vmem st1) space;
       stack \<leftarrow> vread v2 (task + task_offset kernel_stack);
       let sg1 = set_kernel_stack (stack + KERNEL_STACK_SIZE) sg;
       (error, st3) \<leftarrow> load_elf ls fns junk list_left left_over fr vs (st1\<lparr>vmem := v2\<rparr>) task;
       if error \<noteq> SUCCESS then do {
         (_, st4) \<leftarrow> free_task ls st3 task;
         Some (Returned 0, sg1, st4)
       }
       else do {
         (outcome, st4) \<leftarrow> start_task ls st3 task;
         Some (outcome, sg1, st4)
       }
     }
   }"

section \<open>Starting a program\<close>

lemma stack_region: "STACK_END_ADDRESS = 0xBFFFF000" "STACK_END_ADDRESS - STACK_SIZE * PAGE_SIZE = 0xBFFFA000" "STACK_SIZE = of_nat 5"
  by (simp_all add: STACK_END_ADDRESS_def STACK_SIZE_def PAGE_SIZE_def KERNEL_VIRTUAL_OFFSET_def)

text \<open>C11: a loaded program is started at the beginning of its text segment, in ring 3, with a stack
  of five pages that ring 3 can write below the initial stack pointer. Mapping the stack keeps
  the address space isolated and changes neither the program nor the kernel's memory, but for
  the two fields that tell where the stack is.\<close>

theorem start_task_enters:
  assumes snd: "process_sound (avail (frames st)) K (vmem st)" and left: "frames_left ls (frames st) 10"
    and task: "{task + task_offset stack_begin, task + task_offset stack_end, task + task_offset text_begin} \<subseteq> K"
    and start: "vread (vmem st) (task + task_offset text_begin) = Some start"
  shows "\<exists>st'. start_task ls st task = Some (Entered (jmp_to_userspace start 0xBFFFF000), st')
    \<and> process_sound (avail (frames st')) K (vmem st')
    \<and> (\<forall>a. 0xBFFFA000 \<le> a \<and> a < 0xBFFFF000 \<longrightarrow> user_writable (vmem st') a)
    \<and> vread (vmem st') (task + task_offset stack_begin) = Some 0xBFFFA000 \<and> vread (vmem st') (task + task_offset stack_end) = Some 0xBFFFF000
    \<and> (\<forall>w\<in>K \<union> user_words (vmem st). w \<notin> {task + task_offset stack_begin, task + task_offset stack_end} \<longrightarrow> vread (vmem st') w = vread (vmem st) w)"
proof -
  let ?b = "task + task_offset stack_begin" and ?e = "task + task_offset stack_end" and ?t = "task + task_offset text_begin"
  obtain st1 where st1: "mmap ls st 0xBFFFA000 (of_nat 5) = Some (SUCCESS, st1)" "process_sound (avail (frames st1)) K (vmem st1)"
    "used_pages (vmem st1) = used_pages (vmem st) \<union> {page_of 0xBFFFA000..<page_of 0xBFFFA000 + 5}"
    "\<forall>a\<in>K \<union> user_words (vmem st). vread (vmem st1) a = vread (vmem st) a"
    using mmap_process[OF snd, of "0xBFFFA000" 5 ls 0] left by auto
  let ?P = "used_pages (vmem st1)" and ?W = "K \<union> user_words (vmem st1)"
  have good: "process_memory (avail (frames st1)) K ?P ?W (vmem st1)" using st1(2) by (simp add: process_memory_def)
  have W: "?b \<in> ?W" "?e \<in> ?W" "?t \<in> ?W" using task by blast+
  obtain v2 where v2: "vwrite (vmem st1) ?b 0xBFFFA000 = Some v2" "process_memory (avail (frames st1)) K ?P ?W v2" "vread v2 ?b = Some 0xBFFFA000"
    "\<And>w. w \<in> ?W \<Longrightarrow> w \<noteq> ?b \<Longrightarrow> vread v2 w = vread (vmem st1) w" using process.wr_word[OF good W(1)] by blast
  obtain v3 where v3: "vwrite v2 ?e 0xBFFFF000 = Some v3" "process_memory (avail (frames st1)) K ?P ?W v3" "vread v3 ?e = Some 0xBFFFF000"
    "\<And>w. w \<in> ?W \<Longrightarrow> w \<noteq> ?e \<Longrightarrow> vread v3 w = vread v2 w" using process.wr_word[OF v2(2) W(2)] by blast
  have sub: "K \<union> user_words (vmem st) \<subseteq> ?W" using st1(3) by (auto simp: user_words_def)
  have kept: "vread v3 w = vread (vmem st) w" if "w \<in> K \<union> user_words (vmem st)" "w \<notin> {?b, ?e}" for w
    using that sub v2(4)[of w] v3(4)[of w] st1(4) by auto
  have "vread v3 ?t = Some start" using kept[of ?t] task start by simp
  then have "start_task ls st task = Some (Entered (jmp_to_userspace start 0xBFFFF000), st1\<lparr>vmem := v3\<rparr>)"
    using st1(1) v2(1) v3(1,3) stack_region by (simp add: start_task_def del: task_offset.simps of_nat_numeral)
  moreover have s3: "process_sound (avail (frames st1)) K v3" "used_pages v3 = ?P" using v3(2) by (simp_all add: process_memory_def)
  moreover have "user_writable v3 a" if "0xBFFFA000 \<le> a" "a < 0xBFFFF000" for a
  proof (rule user_walk(7)[OF process_soundD(1)[OF s3(1)]])
    have "0xBFFFA \<le> page_of a" "page_of a < 0xBFFFF"
      using that div_le_mono[of "0xBFFFA000" "unat a" 4096] by (simp_all add: page_of_def word_le_nat_alt word_less_nat_alt less_mult_imp_div_less)
    then show "page_of a \<in> used_pages v3" using s3(2) st1(3) by (simp add: page_of_def)
  qed
  moreover have "vread v3 ?b = Some 0xBFFFA000" using v3(4)[OF W(1)] v2(3) by simp
  ultimately show ?thesis using v3(3) kept by (intro exI[of _ "st1\<lparr>vmem := v3\<rparr>"]) simp
qed

text \<open>The selectors of the assembler are the ring-3 entries of the descriptor table.\<close>

lemma user_selectors:
  "user_cs (jmp_to_userspace start stack_top) = 8 * ucast RING3_CODE_SEGMENT_ENTRY OR 3"
  "user_ss (jmp_to_userspace start stack_top) = 8 * ucast RING3_DATA_SEGMENT_ENTRY OR 3"
  by (simp_all add: jmp_to_userspace_def RING3_CODE_SEGMENT_ENTRY_def RING3_DATA_SEGMENT_ENTRY_def)

text \<open>Without a name there is no task.\<close>

lemma load_task_no_path: "load_task ls fns junk list_left left_over fr vs sg st 0 = Some (Returned 0, sg, st)"
  by (simp add: load_task_def alloc_task_def)

theorem start_task_enters_witness:
  "\<exists>st st'. start_task example_linker st 0xC0120400 = Some (Entered (jmp_to_userspace 0x400000 0xBFFFF000), st') \<and> user_writable (vmem st') 0xBFFFEFFC"
proof -
  let ?ps = "[(0xC0120440 :: u32, 0x400000 :: u32)]"
  have "process_memory (avail (frames booted)) loader_page (used_pages (vmem booted)) loader_page (vmem booted)"
    using booted_process by (simp add: process_memory_def)
  from process.write_all[OF this, of ?ps] obtain v
    where v: "process_sound (avail (frames booted)) loader_page v" "vread v 0xC0120440 = Some 0x400000"
    unfolding process_memory_def by (auto simp: words_between_iff word_of_def)
  have s: "process_sound (avail (frames (booted\<lparr>vmem := v\<rparr>))) loader_page (vmem (booted\<lparr>vmem := v\<rparr>))"
    "frames_left example_linker (frames (booted\<lparr>vmem := v\<rparr>)) 10"
    "{0xC0120400 + task_offset stack_begin, 0xC0120400 + task_offset stack_end, 0xC0120400 + task_offset text_begin} \<subseteq> loader_page"
    "vread (vmem (booted\<lparr>vmem := v\<rparr>)) (0xC0120400 + task_offset text_begin) = Some 0x400000"
    using v booted_frames_left[of 10] by (simp_all add: words_between_iff word_of_def)
  obtain st' where "start_task example_linker (booted\<lparr>vmem := v\<rparr>) 0xC0120400 = Some (Entered (jmp_to_userspace 0x400000 0xBFFFF000), st')"
    "\<forall>a. 0xBFFFA000 \<le> a \<and> a < 0xBFFFF000 \<longrightarrow> user_writable (vmem st') a" using start_task_enters[OF s] by blast
  moreover from this(2) have "user_writable (vmem st') 0xBFFFEFFC" by simp
  ultimately show ?thesis by blast
qed

end
