(* ===== verification/Spec2Isabelle.thy ===== *)
theory Spec2Isabelle
  imports LibcString VirtualMM Console Segments Device AtaChannel Task
begin

text \<open>
  MikeOS: a verification library of the kernel's core.

  \<^bold>\<open>The program.\<close> MikeOS is a 32-bit x86 kernel in C. At boot, \<open>load_gdt\<close> and
  \<open>paging_init\<close> set up segments and a first address space; \<open>kmain\<close> then starts, in this order,
  the physical memory manager, the virtual view of the descriptor table, the kernel heap, the
  console, the interrupt table and controllers, the keyboard, the disk, the file systems, the
  system calls and the task state. The parts build on each other: the heap takes frames from the
  physical memory manager and edits page tables, \<open>kmalloc\<close> takes pages from the heap, lists and
  address spaces take blocks from \<open>kmalloc\<close>, the console is mapped by the heap, and the logger
  and the keyboard print through \<open>printf\<close> on the console.

  \<^bold>\<open>The theories\<close>, with the files under \<^verbatim>\<open>src/\<close> they model:

  \<^item> \<open>Prelude\<close>: C types, error codes and page macros (\<^verbatim>\<open>include/common.h\<close>,
    \<^verbatim>\<open>include/error_codes.h\<close>), the linker's symbols as a record, little-endian memory, and the
    C \<open>for\<close> loop \<open>for_range\<close> with its invariant rule.
  \<^item> \<open>LibcMemory\<close>, \<open>LibcString\<close>: \<^verbatim>\<open>libc/memory.c\<close> and \<^verbatim>\<open>libc/string.c\<close> on byte-addressed
    memory. The string functions are compared with functions on lists of bytes; the scans that
    never end are shown not to end.
  \<^item> \<open>PhysicalMM\<close>: \<^verbatim>\<open>kernel/mm/bitmap_manipulation.c\<close> and
    \<^verbatim>\<open>kernel/mm/physical_mm_manager.c\<close>, the frame bitmap. The locale \<open>frame_allocator\<close> states
    what clients rely on (a frame handed out is free, aligned and taken from then on) and is
    interpreted on \<open>allocate_physical_page\<close> and \<open>free_physical_page\<close>.
  \<^item> \<open>Paging\<close>: \<^verbatim>\<open>kernel/mm/early_paging_manager.c\<close> and the processor's two-level walk
    \<open>translate\<close>; \<open>vread\<close> and \<open>vwrite\<close> are the accesses of running kernel code. Physical memory is
    a map of double words, each at its own address; that words overlap when their addresses are not
    aligned is not part of the model.
  \<^item> \<open>KHeap\<close>: \<^verbatim>\<open>kernel/mm/kheap.c\<close>, the bitmap of heap pages and the heap's page table.
  \<^item> \<open>LinkedMemory\<close>: linked structures in paged memory. The locale \<open>word_memory\<close> is the
    interface of reads and writes on a set of words, with the list operations proved once in it.
  \<^item> \<open>HeapSound\<close>: the invariant \<open>heap_sound\<close> that joins frame bitmap, heap bitmap and page
    tables, kept by heap allocation, and the interpretations of \<open>word_memory\<close> under it.
  \<^item> \<open>KMalloc\<close>: \<^verbatim>\<open>kernel/mm/kmalloc.c\<close>, the first-fit allocator with its free list in place.
  \<^item> \<open>ListDS\<close>: \<^verbatim>\<open>kernel/data_structures/list.c\<close>, lists with nodes from \<open>kmalloc\<close>.
  \<^item> \<open>VirtualMM\<close>: \<^verbatim>\<open>kernel/mm/virtual_mm_manager.c\<close>, address spaces and \<open>mmap\<close>; \<open>isolated\<close>
    is the invariant of the user half of a directory.
  \<^item> \<open>Vga\<close>, \<open>Stdio\<close>, \<open>Console\<close>: \<^verbatim>\<open>kernel/drivers/vga/vga.c\<close>, \<^verbatim>\<open>libc/stdio.c\<close>,
    \<^verbatim>\<open>kernel/logging/logger.c\<close> and \<^verbatim>\<open>kernel/drivers/keyboard/keyboard_driver.c\<close>. The text a
    format stands for is \<open>piece_text\<close>; printing it is \<open>vga_puts\<close>.
  \<^item> \<open>Interrupts\<close>: \<^verbatim>\<open>kernel/idt.c\<close>, \<^verbatim>\<open>kernel/irq.c\<close> and the gate of
    \<^verbatim>\<open>kernel/syscall.c\<close>, with the two 8259 controllers as state machines that read the trace of
    port writes. A controller sends a vector only in 8086 mode (\<open>irq_vector\<close>).
  \<^item> \<open>Segments\<close>: \<^verbatim>\<open>kernel/gdt.c\<close> and \<^verbatim>\<open>kernel/multitask/userspace_manager.c\<close>.
  \<^item> \<open>Device\<close>: \<^verbatim>\<open>kernel/dev/device.c\<close>.
  \<^item> \<open>PagedBytes\<close>: single bytes of paged memory and the functions of \<^verbatim>\<open>libc/memory.c\<close> and
    \<^verbatim>\<open>libc/string.c\<close> on them, for code that keeps its structures on the heap. The locale
    \<open>kernel_words\<close> of \<open>HeapSound\<close> carries their lemmas for every invariant of paged memory.
  \<^item> \<open>HeapBlocks\<close>: what a client of \<open>kmalloc\<close> gets, as one lemma over \<open>heap_room\<close>.
  \<^item> \<open>Initrd\<close>, \<open>Vfs\<close>, \<open>Files\<close>: \<^verbatim>\<open>kernel/fs/initrd.c\<close>, \<^verbatim>\<open>kernel/fs/vfs.c\<close> and
    \<^verbatim>\<open>kernel/fs/file.c\<close>. A structure is its bytes in paged memory, a field an offset. An image
    with its files is \<open>initrd_image\<close>, a mounted one \<open>root_mounted\<close>; an open file stands for its
    contents and a position, \<open>file_view\<close>, and \<open>spec_run\<close> is the abstract file it refines. The search for a mode writes into
    the mode literals, so its result depends on where the compiler puts these: \<open>search_modes\<close> is
    the search for any placement, \<open>packed_modes\<close> the literals one behind the other.
  \<^item> \<open>Ata\<close>, \<open>AtaChannel\<close>: \<^verbatim>\<open>kernel/drivers/ata/ata.c\<close> over any hardware behind the I/O
    ports, and an ATA channel with two drives as such hardware, on which it is verified. A drive may
    be busy for any time after a command (\<open>latency\<close>) and between sectors (\<open>gap\<close>); the properties
    say what the driver does with drives faster and slower than its fixed delays.
  \<^item> \<open>UserSpace\<close>: one address space with kernel and user memory. \<open>process_sound\<close> is its
    invariant; under it kernel words and user pages form one window, which \<open>mmap\<close> extends.
  \<^item> \<open>Elf\<close>, \<open>ElfLoad\<close>, \<open>ElfSample\<close>: \<^verbatim>\<open>kernel/multitask/elf_loader.c\<close>, what it does with an
    executable of the ramdisk, and two concrete files.
  \<^item> \<open>Task\<close>: \<^verbatim>\<open>kernel/multitask/task.c\<close>, up to the entry into ring 3.

  \<^bold>\<open>Conventions.\<close> Machine integers are words of their width; a C \<open>int\<close> that only counts is an
  \<open>int\<close>. State is passed explicitly: \<open>kernel_mm\<close> is the memory managers' state (frame bitmap,
  heap bitmap, machine memory with \<open>cr3\<close>), \<open>console\<close> is memory with the driver's cursor,
  \<open>interrupts\<close> and \<open>segments\<close> are the tables with the registers loaded from them. A result
  \<open>None\<close> says that control does not come back: a page fault, a panic, a loop without end, a
  call or a store outside an array. Loops that may run for ever are partial functions with
  exactly that meaning, and no definition uses fuel; where a property says that such a function
  returns, that is proved. Where C code reaches the end of a function without \<open>return\<close>, the
  value its caller sees is an argument (\<open>junk\<close>, \<open>left_over\<close>). Addresses that the linker or the
  assembler fixes are arguments. Log output is left out of the models of the components that
  call \<open>log_print\<close>, the TLB is not modelled, and the static bitmaps are kept apart from paged
  memory.

  \<^bold>\<open>What is shown.\<close> For each component its functional behaviour on the branches of the code,
  with the invariants above kept by the operations: frames are handed out once, the boot address
  space is the intended one, heap pages and \<open>kmalloc\<close> blocks come from free memory and leave the
  rest alone, lists behave as lists, \<open>mmap\<close> keeps an address space isolated, \<open>printf\<close> prints
  the text of its format and its numbers read back, descriptors decode to what was encoded, and
  opening, moving in and reading a file of the ramdisk gives the bytes of the abstract file. A
  number of properties state where the code departs from its purpose, for instance two
  allocations that overlap, frames that are never freed, interrupt gates at vectors where no
  interrupt arrives, and characters without a handler.

  \<^bold>\<open>Not modelled.\<close> \<open>kmain\<close> itself, which only calls the initialisers in order and refers to a
  function no file defines; \<^verbatim>\<open>fat32.c\<close>, disabled as a whole; the empty exception handlers; and
  the assembler files, except the port accesses and the way into ring 3.
\<close>

end
